(* ===== verification/Prelude.thy ===== *)
theory Prelude
  imports Main "HOL-Library.Word" "HOL-Library.Code_Target_Nat"
begin

unbundle bit_operations_syntax

section \<open>Shared types, notation and automation\<close>

text \<open>
  The vocabulary the component theories share: C's fixed-width integers, byte strings, the
  shape of a fallible C routine with an in/out cursor, the big-endian reading of byte strings
  and the facts on words and lists that carry the component proofs.
\<close>

subsection \<open>Types\<close>

type_synonym byte = "8 word"
type_synonym u16 = "16 word"
type_synonym u32 = "32 word"
type_synonym u64 = "64 word"
type_synonym bytes = "byte list"

text \<open>
  A C routine that returns 1 or 0, writes an out-parameter on success and advances a cursor
  (on success, and sometimes before a failure) becomes a function from the cursor to an
  optional result and the cursor it leaves behind.
\<close>

type_synonym ('s, 'a) crun = "'s \<Rightarrow> 'a option \<times> 's"

text \<open>The largest value of \<open>size_t\<close> plus one, for the 64-bit ABIs of the application.\<close>

definition SIZE_LIMIT :: nat where
  "SIZE_LIMIT = 2 ^ 64"

lemma SIZE_LIMIT_code [code]: "SIZE_LIMIT = 18446744073709551616"
  by (simp add: SIZE_LIMIT_def)

subsection \<open>Words\<close>

lemma not_bit_above:
  fixes b :: "'a::len word"
  assumes "unat b < 2 ^ n" and "n \<le> k"
  shows "\<not> bit b k"
proof -
  have "unat b < 2 ^ k"
    using assms by (meson order_less_le_trans one_le_numeral power_increasing)
  then have "\<not> bit (unat b) k"
    by (simp add: bit_iff_odd)
  then show ?thesis
    by (simp add: bit_unsigned_iff)
qed

lemma or_shift_unat:
  fixes r b :: "'a::len word"
  assumes b: "unat b < 2 ^ n" and r: "unat r * 2 ^ n + 2 ^ n \<le> 2 ^ LENGTH('a)"
  shows "unat (push_bit n r OR b) = unat r * 2 ^ n + unat b"
proof -
  have "push_bit n r OR b = push_bit n r + b"
    by (rule disjunctive_add [symmetric]) (use not_bit_above [OF b] in \<open>auto simp: bit_push_bit_iff\<close>)
  then have "push_bit n r OR b = word_of_nat (unat r * 2 ^ n + unat b)"
    by (simp add: push_bit_eq_mult)
  then have "unat (push_bit n r OR b) = (unat r * 2 ^ n + unat b) mod 2 ^ LENGTH('a)"
    by (simp only: unat_of_nat)
  also have "\<dots> = unat r * 2 ^ n + unat b"
    using b r by simp
  finally show ?thesis .
qed

lemma unat_ucast_up:
  fixes w :: "'a::len word"
  shows "LENGTH('a) \<le> LENGTH('b::len) \<Longrightarrow> unat (ucast w :: 'b word) = unat w"
  by (simp add: unsigned_ucast_eq take_bit_nat_eq_self order_less_le_trans [OF unsigned_less])

lemma unat_ucast_down: "unat (ucast (w :: 'a::len word) :: 'b::len word) = unat w mod 2 ^ LENGTH('b)"
  by (simp add: unsigned_ucast_eq take_bit_eq_mod)

lemma unat_byte_less [simp]: "unat (b :: byte) < 256"
  using unsigned_less [of b] by simp

lemma unat_mod_128: "128 \<le> unat (b :: byte) \<Longrightarrow> unat b mod 128 = unat b - 128"
proof -
  assume "128 \<le> unat b"
  then have "unat b mod 128 = (unat b - 128) mod 128" by (rule le_mod_geq)
  also have "unat b - 128 < 128" using unat_byte_less [of b] by linarith
  then have "(unat b - 128) mod 128 = unat b - 128" by (rule mod_less)
  finally show ?thesis .
qed

lemma unat_u32_less: "unat (w :: u32) < 2 ^ 32"
  using unsigned_less [of w] by simp

lemma unat_u64_less: "unat (w :: u64) < 2 ^ 64"
  using unsigned_less [of w] by simp

lemma unat_drop_bit: "unat (drop_bit n w) = unat w div 2 ^ n"
  by (subst unat_drop_bit_eq) (simp add: drop_bit_eq_div)

lemma unat_and_mask: "unat (w AND mask n) = unat w mod 2 ^ n"
  by (subst take_bit_eq_mask [symmetric], subst unsigned_take_bit_eq) (simp add: take_bit_eq_mod)

lemma unat_and_7f: "unat (w AND 0x7f) = unat w mod 128"
  using unat_and_mask [of w 7] by (simp add: mask_eq_exp_minus_1)

lemma unat_and_1f: "unat (w AND 0x1f) = unat w mod 32"
  using unat_and_mask [of w 5] by (simp add: mask_eq_exp_minus_1)

lemma bit_iff_unat: "bit w n \<longleftrightarrow> odd (unat w div 2 ^ n)"
  by (simp add: bit_unsigned_iff flip: bit_iff_odd)

lemma and_80_iff: "(b :: byte) AND 0x80 = 0 \<longleftrightarrow> unat b < 128"
proof -
  have "unat b div 128 < 2" using unat_byte_less [of b] by (simp add: less_mult_imp_div_less)
  then have "odd (unat b div 128) \<longleftrightarrow> unat b \<ge> 128"
    by (metis One_nat_def Suc_leI div_greater_zero_iff dvd_0_right less_2_cases_iff
        not_gr_zero odd_one zero_less_numeral)
  then show ?thesis
    using bit_iff_and_push_bit_not_eq_0 [of b 7] bit_iff_unat [of b 7] by (simp, linarith)
qed

lemma pow256: "(256 :: nat) ^ k = 2 ^ (k * 8)"
  by (subst mult.commute, subst power_mult) simp

lemma mod_add_wrap:
  "a < m \<Longrightarrow> b < m \<Longrightarrow> (a + b) mod m = (if a + b < m then a + b else a + b - m) \<and>
     ((a + b) mod m < a \<longleftrightarrow> \<not> a + b < m)" for a b m :: nat
  by (auto simp: mod_if)

subsection \<open>Big-endian byte strings\<close>

text \<open>The number a big-endian byte string denotes, and the \<open>n\<close>-byte string of a number.\<close>

definition be_nat :: "bytes \<Rightarrow> nat" where
  "be_nat bs = foldl (\<lambda>a b. a * 256 + unat b) 0 bs"

fun be_bytes :: "nat \<Rightarrow> nat \<Rightarrow> bytes" where
  "be_bytes 0 v = []"
| "be_bytes (Suc n) v = be_bytes n (v div 256) @ [word_of_nat v]"

lemma foldl_be: "foldl (\<lambda>a b. a * 256 + unat (b :: byte)) x bs = x * 256 ^ length bs + be_nat bs"
proof (induction bs arbitrary: x)
  case (Cons b bs)
  show ?case
    using Cons [of "x * 256 + unat b"] Cons [of "unat b"] 
    by (simp add: be_nat_def algebra_simps)
qed (simp add: be_nat_def)

lemma be_nat_Nil [simp]: "be_nat [] = 0"
  by (simp add: be_nat_def)

lemma be_nat_Cons: "be_nat (b # bs) = unat b * 256 ^ length bs + be_nat bs"
  using foldl_be [of "unat b" bs] by (simp add: be_nat_def)

lemma be_nat_append: "be_nat (xs @ ys) = be_nat xs * 256 ^ length ys + be_nat ys"
  by (induction xs) (simp_all add: be_nat_Cons power_add algebra_simps)

lemma be_nat_snoc [simp]: "be_nat (xs @ [b]) = be_nat xs * 256 + unat b"
  by (simp add: be_nat_append be_nat_Cons)

lemma be_nat_less: "be_nat bs < 256 ^ length bs"
proof (induction bs rule: rev_induct)
  case (snoc b bs)
  then have "be_nat bs + 1 \<le> 256 ^ length bs" by simp
  then have "(be_nat bs + 1) * 256 \<le> 256 ^ length bs * 256" by (rule mult_le_mono1)
  moreover have "be_nat bs * 256 + unat b < (be_nat bs + 1) * 256"
    using unat_byte_less [of b] by simp
  ultimately show ?case by (simp only: be_nat_snoc length_append_singleton power_Suc2)
qed simp

lemma length_be_bytes [simp]: "length (be_bytes n v) = n"
  by (induction n arbitrary: v) auto

lemma be_nat_be_bytes: "be_nat (be_bytes n v) = v mod 256 ^ n"
proof (induction n arbitrary: v)
  case (Suc n)
  then show ?case by (simp add: unat_of_nat mod_mult2_eq)
qed simp

lemma be_bytes_be_nat: "be_bytes (length bs) (be_nat bs) = bs"
proof (induction bs rule: rev_induct)
  case (snoc b bs)
  have "(be_nat bs * 256 + unat b) div 256 = be_nat bs" by simp
  moreover have "word_of_nat (be_nat bs * 256 + unat b) = b"
  proof -
    have "(word_of_nat (be_nat bs * 256 + unat b) :: byte) = word_of_nat (be_nat bs) * 256 + b"
      by simp
    also have "(256 :: byte) = 0" by simp
    finally show ?thesis by simp
  qed
  ultimately show ?case using snoc by simp
qed simp

lemma be_nat_inject: "length xs = length ys \<Longrightarrow> be_nat xs = be_nat ys \<Longrightarrow> xs = ys"
  by (metis be_bytes_be_nat)

lemma be_bytes_mod: "be_bytes n (x mod 256 ^ n) = be_bytes n x"
  by (rule be_nat_inject) (simp_all add: be_nat_be_bytes)

lemma be_bytes_map: "be_bytes n v = map (\<lambda>i. word_of_nat (v div 256 ^ (n - 1 - i))) [0..<n]"
proof (induction n arbitrary: v)
  case (Suc n)
  have "v div 256 div 256 ^ (n - 1 - i) = v div 256 ^ (n - i)" if "i < n" for i
    using that by (simp add: Suc_diff_Suc flip: div_mult2_eq power_Suc)
  then show ?case using Suc by simp
qed simp

lemma and_ff_mask: "w AND 0xff = w AND mask 8" for w :: "'a::len word"
  by (simp add: mask_eq_exp_minus_1)

subsection \<open>Lists and pairs\<close>

text \<open>\<open>memcpy\<close> and \<open>memmove\<close> into an allocation.\<close>

definition write_at :: "bytes \<Rightarrow> nat \<Rightarrow> bytes \<Rightarrow> bytes" where
  "write_at b pos d = take pos b @ d @ drop (pos + length d) b"

lemma length_write_at [simp]: "pos + length d \<le> length b \<Longrightarrow> length (write_at b pos d) = length b"
  by (simp add: write_at_def)

lemma fst_True: "fst r \<Longrightarrow> r = (True, snd r)"
  by (cases r) simp

lemma fst_Some: "fst r \<noteq> None \<Longrightarrow> r = (Some (the (fst r)), snd r)"
  by (cases r) auto

lemma take_append_length [simp]: "n = length xs \<Longrightarrow> take n (xs @ ys) = xs"
  by simp

lemma drop_append_length [simp]: "n = length xs \<Longrightarrow> drop n (xs @ ys) = ys"
  by simp

subsection \<open>Codecs\<close>

text \<open>
  The interface between the readers and the writers of byte strings: a decoder that reads one
  value off the front of a string exactly when the string starts with the value's encoding.
  The clients rely on what follows from it: encodings are prefix-free, so a string of them has
  one reading.
\<close>

locale codec =
  fixes enc :: "'a \<Rightarrow> bytes" and dec :: "(bytes, 'a) crun" and ok :: "'a \<Rightarrow> bool"
  assumes dec_iff: "dec s = (Some x, r) \<longleftrightarrow> ok x \<and> s = enc x @ r"
begin

lemma round_trip: "ok x \<Longrightarrow> dec (enc x @ r) = (Some x, r)"
  by (simp add: dec_iff)

lemma prefix_free: "ok x \<Longrightarrow> ok y \<Longrightarrow> enc x @ r = enc y @ s \<Longrightarrow> x = y \<and> r = s"
proof -
  assume x: "ok x" and y: "ok y" and eq: "enc x @ r = enc y @ s"
  have "dec (enc x @ r) = (Some y, s)" unfolding eq by (rule round_trip [OF y])
  then show ?thesis using round_trip [OF x, of r] by simp
qed

lemma rejects_others: "\<nexists>x r. ok x \<and> s = enc x @ r \<Longrightarrow> fst (dec s) = None"
  using dec_iff [of s] by (cases "dec s"; cases "fst (dec s)") auto

end

locale nonempty_codec = codec +
  assumes nonempty: "ok x \<Longrightarrow> enc x \<noteq> []"
begin

lemma sequence_unique:
  "\<forall>x \<in> set xs. ok x \<Longrightarrow> \<forall>y \<in> set ys. ok y \<Longrightarrow>
   concat (map enc xs) = concat (map enc ys) \<Longrightarrow> xs = ys"
proof (induction xs arbitrary: ys)
  case Nil
  show ?case
  proof (cases ys)
    case (Cons y ys')
    then have "enc y = []" "ok y" using Nil by simp_all
    then show ?thesis using nonempty [of y] by simp
  qed simp
next
  case (Cons x xs)
  have x: "ok x" using Cons.prems by simp
  show ?case
  proof (cases ys)
    case Nil
    then have "enc x = []" using Cons.prems by simp
    then show ?thesis using nonempty [OF x] by simp
  next
    case ys: (Cons y ys')
    have "ok y" and eq: "enc x @ concat (map enc xs) = enc y @ concat (map enc ys')"
      using Cons.prems ys by simp_all
    then have "x = y \<and> concat (map enc xs) = concat (map enc ys')"
      using x by (intro prefix_free)
    then show ?thesis using Cons.IH [of ys'] Cons.prems(1,2) ys by simp
  qed
qed

end

end
