(* ===== verification/Sha512.thy ===== *)
theory Sha512
  imports Prelude
begin

section \<open>SHA-512 and SHA-384 (crypto/fipsmodule/sha/sha512.c)\<close>

text \<open>
  The context, the streaming interface and both C versions of the block function: the one for
  32-bit x86, which keeps the working variables in a sliding window of one array, and the one
  for every other target, which renames the registers and keeps the message schedule in a ring
  of sixteen words. Both are proved equal to the schedule and rounds of FIPS 180-4.
\<close>

subsection \<open>Constants and functions\<close>

definition u64_of_halves :: "nat \<times> nat \<Rightarrow> u64" where
  "u64_of_halves hl = push_bit 32 (word_of_nat (fst hl)) OR word_of_nat (snd hl)"

definition K512 :: "u64 list" where
  "K512 = map u64_of_halves
    [(0x428a2f98, 0xd728ae22), (0x71374491, 0x23ef65cd), (0xb5c0fbcf, 0xec4d3b2f), (0xe9b5dba5, 0x8189dbbc),
     (0x3956c25b, 0xf348b538), (0x59f111f1, 0xb605d019), (0x923f82a4, 0xaf194f9b), (0xab1c5ed5, 0xda6d8118),
     (0xd807aa98, 0xa3030242), (0x12835b01, 0x45706fbe), (0x243185be, 0x4ee4b28c), (0x550c7dc3, 0xd5ffb4e2),
     (0x72be5d74, 0xf27b896f), (0x80deb1fe, 0x3b1696b1), (0x9bdc06a7, 0x25c71235), (0xc19bf174, 0xcf692694),
     (0xe49b69c1, 0x9ef14ad2), (0xefbe4786, 0x384f25e3), (0x0fc19dc6, 0x8b8cd5b5), (0x240ca1cc, 0x77ac9c65),
     (0x2de92c6f, 0x592b0275), (0x4a7484aa, 0x6ea6e483), (0x5cb0a9dc, 0xbd41fbd4), (0x76f988da, 0x831153b5),
     (0x983e5152, 0xee66dfab), (0xa831c66d, 0x2db43210), (0xb00327c8, 0x98fb213f), (0xbf597fc7, 0xbeef0ee4),
     (0xc6e00bf3, 0x3da88fc2), (0xd5a79147, 0x930aa725), (0x06ca6351, 0xe003826f), (0x14292967, 0x0a0e6e70),
     (0x27b70a85, 0x46d22ffc), (0x2e1b2138, 0x5c26c926), (0x4d2c6dfc, 0x5ac42aed), (0x53380d13, 0x9d95b3df),
     (0x650a7354, 0x8baf63de), (0x766a0abb, 0x3c77b2a8), (0x81c2c92e, 0x47edaee6), (0x92722c85, 0x1482353b),
     (0xa2bfe8a1, 0x4cf10364), (0xa81a664b, 0xbc423001), (0xc24b8b70, 0xd0f89791), (0xc76c51a3, 0x0654be30),
     (0xd192e819, 0xd6ef5218), (0xd6990624, 0x5565a910), (0xf40e3585, 0x5771202a), (0x106aa070, 0x32bbd1b8),
     (0x19a4c116, 0xb8d2d0c8), (0x1e376c08, 0x5141ab53), (0x2748774c, 0xdf8eeb99), (0x34b0bcb5, 0xe19b48a8),
     (0x391c0cb3, 0xc5c95a63), (0x4ed8aa4a, 0xe3418acb), (0x5b9cca4f, 0x7763e373), (0x682e6ff3, 0xd6b2b8a3),
     (0x748f82ee, 0x5defb2fc), (0x78a5636f, 0x43172f60), (0x84c87814, 0xa1f0ab72), (0x8cc70208, 0x1a6439ec),
     (0x90befffa, 0x23631e28), (0xa4506ceb, 0xde82bde9), (0xbef9a3f7, 0xb2c67915), (0xc67178f2, 0xe372532b),
     (0xca273ece, 0xea26619c), (0xd186b8c7, 0x21c0c207), (0xeada7dd6, 0xcde0eb1e), (0xf57d4f7f, 0xee6ed178),
     (0x06f067aa, 0x72176fba), (0x0a637dc5, 0xa2c898a6), (0x113f9804, 0xbef90dae), (0x1b710b35, 0x131c471b),
     (0x28db77f5, 0x23047d84), (0x32caab7b, 0x40c72493), (0x3c9ebe0a, 0x15c9bebc), (0x431d67c4, 0x9c100d4c),
     (0x4cc5d4be, 0xcb3e42b6), (0x597f299c, 0xfc657e2a), (0x5fcb6fab, 0x3ad6faec), (0x6c44198c, 0x4a475817)]"

text \<open>\<open>ROTR(x, s)\<close> is \<open>((x) >> s) | (x) << (64 - s)\<close>; the assembly variants rotate the same way.\<close>

definition ROTR :: "u64 \<Rightarrow> nat \<Rightarrow> u64" where
  "ROTR x s = drop_bit s x OR push_bit (64 - s) x"

definition Sigma0 :: "u64 \<Rightarrow> u64" where
  "Sigma0 x = ROTR x 28 XOR ROTR x 34 XOR ROTR x 39"

definition Sigma1 :: "u64 \<Rightarrow> u64" where
  "Sigma1 x = ROTR x 14 XOR ROTR x 18 XOR ROTR x 41"

definition sigma0 :: "u64 \<Rightarrow> u64" where
  "sigma0 x = ROTR x 1 XOR ROTR x 8 XOR drop_bit 7 x"

definition sigma1 :: "u64 \<Rightarrow> u64" where
  "sigma1 x = ROTR x 19 XOR ROTR x 61 XOR drop_bit 6 x"

definition Ch :: "u64 \<Rightarrow> u64 \<Rightarrow> u64 \<Rightarrow> u64" where
  "Ch x y z = (x AND y) XOR (NOT x AND z)"

definition Maj :: "u64 \<Rightarrow> u64 \<Rightarrow> u64 \<Rightarrow> u64" where
  "Maj x y z = (x AND y) XOR (x AND z) XOR (y AND z)"

text \<open>The load: eight bytes copied into a little-endian word, then \<open>CRYPTO_bswap8\<close>.\<close>

definition load_u64_le :: "bytes \<Rightarrow> u64" where
  "load_u64_le bs = word_of_nat (be_nat (rev (take 8 bs)))"

definition CRYPTO_bswap8 :: "u64 \<Rightarrow> u64" where
  "CRYPTO_bswap8 x = word_of_nat (be_nat (rev (be_bytes 8 (unat x))))"

definition load_u64_be :: "bytes \<Rightarrow> u64" where
  "load_u64_be bs = CRYPTO_bswap8 (load_u64_le bs)"

subsection \<open>The block function: renamed registers\<close>

text \<open>
  The eight variables \<open>a\<close> to \<open>h\<close> stay in place and the macro's arguments rotate: in the call
  for round \<open>j\<close> of a group the argument number \<open>r\<close> is the variable number \<open>r - j\<close>, modulo 8.
\<close>

definition arg_pos :: "nat \<Rightarrow> nat \<Rightarrow> nat" where
  "arg_pos j r = (r + (8 - j mod 8)) mod 8"

definition ROUND_00_15 :: "nat \<Rightarrow> nat \<Rightarrow> u64 \<Rightarrow> u64 list \<Rightarrow> u64 list" where
  "ROUND_00_15 i j T1 v =
     (let arg = (\<lambda>r. v ! arg_pos j r);
          a = arg 0; b = arg 1; c = arg 2; d = arg 3; e = arg 4; f = arg 5; g = arg 6; h = arg 7;
          T1 = T1 + (h + Sigma1 e + Ch e f g + K512 ! i);
          h = Sigma0 a + Maj a b c;
          d = d + T1;
          h = h + T1
      in v[arg_pos j 3 := d, arg_pos j 7 := h])"

definition ROUND_16_80 :: "nat \<Rightarrow> nat \<Rightarrow> u64 list \<Rightarrow> u64 list \<Rightarrow> u64 list \<times> u64 list" where
  "ROUND_16_80 i j v X =
     (let s0 = sigma0 (X ! ((j + 1) mod 16));
          s1 = sigma1 (X ! ((j + 14) mod 16));
          T1 = X ! (j mod 16) + (s0 + s1 + X ! ((j + 9) mod 16));
          X = X[j mod 16 := T1]
      in (ROUND_00_15 (i + j) j T1 v, X))"

text \<open>Rounds 0 to 15 load a word each; then four groups of sixteen rounds follow.\<close>

definition first_round :: "bytes \<Rightarrow> nat \<Rightarrow> u64 list \<times> u64 list \<Rightarrow> u64 list \<times> u64 list" where
  "first_round inp j vX =
     (let T1 = load_u64_be (drop (j * 8) inp); X = (snd vX)[j := T1] in
      (ROUND_00_15 j j T1 (fst vX), X))"

definition later_round :: "nat \<Rightarrow> nat \<Rightarrow> u64 list \<times> u64 list \<Rightarrow> u64 list \<times> u64 list" where
  "later_round i j vX = ROUND_16_80 i j (fst vX) (snd vX)"

definition sha512_one_block :: "u64 list \<Rightarrow> bytes \<Rightarrow> u64 list" where
  "sha512_one_block state inp =
     (let vX = fold (first_round inp) [0..<16] (state, replicate 16 0);
          vX = fold (\<lambda>i. fold (later_round i) [0..<16]) [16, 32, 48, 64] vX
      in map2 (+) state (fst vX))"

fun sha512_block_data_order :: "u64 list \<Rightarrow> bytes \<Rightarrow> nat \<Rightarrow> u64 list" where
  "sha512_block_data_order state inp 0 = state"
| "sha512_block_data_order state inp (Suc num) =
     sha512_block_data_order (sha512_one_block state (take 128 inp)) (drop 128 inp) num"

subsection \<open>The block function: sliding window\<close>

text \<open>
  In the 32-bit version \<open>F\<close> points into \<open>X\<close> and moves down by one each round; \<open>F = X + 80 - i\<close>
  in round \<open>i\<close>. The state is \<open>X\<close> and the two variables \<open>A\<close> and \<open>E\<close>.
\<close>

definition window_tail :: "nat \<Rightarrow> nat \<Rightarrow> u64 \<Rightarrow> u64 list \<times> u64 \<times> u64 \<Rightarrow> u64 list \<times> u64 \<times> u64" where
  "window_tail F i T s =
     (let (X, A, E) = s;
          X = X[F := A, F + 4 := E, F + 8 := T];
          T = T + (X ! (F + 7) + Sigma1 E + Ch E (X ! (F + 5)) (X ! (F + 6)) + K512 ! i);
          E = X ! (F + 3) + T;
          A = T + Sigma0 A + Maj A (X ! (F + 1)) (X ! (F + 2))
      in (X, A, E))"

definition window_round :: "bytes \<Rightarrow> nat \<Rightarrow> u64 list \<times> u64 \<times> u64 \<Rightarrow> u64 list \<times> u64 \<times> u64" where
  "window_round inp i s =
     (let F = 80 - i; X = fst s;
          T = (if i < 16 then load_u64_be (drop (i * 8) inp)
               else sigma0 (X ! (F + (8 + 16 - 1))) + sigma1 (X ! (F + (8 + 16 - 14)))
                    + (X ! (F + (8 + 16)) + X ! (F + (8 + 16 - 9))))
      in window_tail F i T s)"

definition sha512_one_block_i386 :: "u64 list \<Rightarrow> bytes \<Rightarrow> u64 list" where
  "sha512_one_block_i386 state inp =
     (let X = (replicate 89 0)[81 := state ! 1, 82 := state ! 2, 83 := state ! 3,
                85 := state ! 5, 86 := state ! 6, 87 := state ! 7];
          (X, A, E) = fold (window_round inp) [0..<80] (X, state ! 0, state ! 4)
      in [state ! 0 + A, state ! 1 + X ! 1, state ! 2 + X ! 2, state ! 3 + X ! 3,
          state ! 4 + E, state ! 5 + X ! 5, state ! 6 + X ! 6, state ! 7 + X ! 7])"

fun sha512_block_data_order_i386 :: "u64 list \<Rightarrow> bytes \<Rightarrow> nat \<Rightarrow> u64 list" where
  "sha512_block_data_order_i386 state inp 0 = state"
| "sha512_block_data_order_i386 state inp (Suc num) =
     sha512_block_data_order_i386 (sha512_one_block_i386 state (take 128 inp)) (drop 128 inp) num"

subsection \<open>The streaming interface\<close>

record sha512_ctx =
  sha_h :: "u64 list"
  sha_Nl :: u64
  sha_Nh :: u64
  sha_p :: bytes
  sha_num :: nat
  sha_md_len :: nat

text \<open>Initialising sets every field but the buffer \<open>p\<close>, which keeps what the memory holds.\<close>

definition SHA384_Init :: "sha512_ctx \<Rightarrow> sha512_ctx" where
  "SHA384_Init sha = sha
     \<lparr>sha_h := map u64_of_halves
        [(0xcbbb9d5d, 0xc1059ed8), (0x629a292a, 0x367cd507), (0x9159015a, 0x3070dd17), (0x152fecd8, 0xf70e5939),
         (0x67332667, 0xffc00b31), (0x8eb44a87, 0x68581511), (0xdb0c2e0d, 0x64f98fa7), (0x47b5481d, 0xbefa4fa4)],
      sha_Nl := 0, sha_Nh := 0, sha_num := 0, sha_md_len := 48\<rparr>"

definition SHA512_Init :: "sha512_ctx \<Rightarrow> sha512_ctx" where
  "SHA512_Init sha = sha
     \<lparr>sha_h := map u64_of_halves
        [(0x6a09e667, 0xf3bcc908), (0xbb67ae85, 0x84caa73b), (0x3c6ef372, 0xfe94f82b), (0xa54ff53a, 0x5f1d36f1),
         (0x510e527f, 0xade682d1), (0x9b05688c, 0x2b3e6c1f), (0x1f83d9ab, 0xfb41bd6b), (0x5be0cd19, 0x137e2179)],
      sha_Nl := 0, sha_Nh := 0, sha_num := 0, sha_md_len := 64\<rparr>"

definition SHA512_Transform :: "sha512_ctx \<Rightarrow> bytes \<Rightarrow> sha512_ctx" where
  "SHA512_Transform c block = c\<lparr>sha_h := sha512_block_data_order (sha_h c) block 1\<rparr>"

text \<open>What \<open>SHA512_Update\<close> does with the bytes once the buffer is empty.\<close>

definition update_blocks :: "sha512_ctx \<Rightarrow> bytes \<Rightarrow> sha512_ctx" where
  "update_blocks c data =
     (let len = length data;
          (c, data) =
            (if len \<ge> 128
             then (c\<lparr>sha_h := sha512_block_data_order (sha_h c) data (len div 128)\<rparr>,
                   drop (len - len mod 128) data)
             else (c, data));
          len = length data
      in if len \<noteq> 0 then c\<lparr>sha_p := write_at (sha_p c) 0 data, sha_num := len\<rparr> else c)"

definition SHA512_Update :: "sha512_ctx \<Rightarrow> bytes \<Rightarrow> sha512_ctx" where
  "SHA512_Update c data =
     (if data = [] then c
      else
        let len = word_of_nat (length data) :: u64;
            l = sha_Nl c + push_bit 3 len;
            Nh = (if l < sha_Nl c then sha_Nh c + 1 else sha_Nh c);
            Nh = Nh + drop_bit 61 len;
            c = c\<lparr>sha_Nl := l, sha_Nh := Nh\<rparr>
        in if sha_num c \<noteq> 0 then
             (let n = 128 - sha_num c in
              if length data < n then
                c\<lparr>sha_p := write_at (sha_p c) (sha_num c) data, sha_num := sha_num c + length data\<rparr>
              else
                let p = write_at (sha_p c) (sha_num c) (take n data);
                    c = c\<lparr>sha_p := p, sha_num := 0\<rparr>;
                    c = c\<lparr>sha_h := sha512_block_data_order (sha_h c) p 1\<rparr>
                in update_blocks c (drop n data))
           else update_blocks c data)"

text \<open>The eight byte stores of a word, most significant byte first.\<close>

definition u64_octets :: "u64 \<Rightarrow> bytes" where
  "u64_octets t = map (\<lambda>i. ucast (drop_bit (8 * (7 - i)) t)) [0..<8]"

definition SHA512_Final :: "sha512_ctx \<Rightarrow> bytes option \<times> sha512_ctx" where
  "SHA512_Final sha =
     (let p = (sha_p sha)[sha_num sha := 0x80];
          n = sha_num sha + 1;
          (p, n, sha) =
            (if n > 128 - 16 then
               (let p = write_at p n (replicate (128 - n) 0) in
                (p, 0, sha\<lparr>sha_h := sha512_block_data_order (sha_h sha) p 1\<rparr>))
             else (p, n, sha));
          p = write_at p n (replicate (128 - 16 - n) 0);
          p = write_at p 120 (u64_octets (sha_Nl sha));
          p = write_at p 112 (u64_octets (sha_Nh sha));
          sha = sha\<lparr>sha_p := p, sha_h := sha512_block_data_order (sha_h sha) p 1\<rparr>
      in (if sha_md_len sha = 48 \<or> sha_md_len sha = 64
          then Some (concat (map u64_octets (take (sha_md_len sha div 8) (sha_h sha))))
          else None, sha))"

definition SHA384_Final :: "sha512_ctx \<Rightarrow> bytes option \<times> sha512_ctx" where
  "SHA384_Final sha = SHA512_Final sha"

definition SHA384_Update :: "sha512_ctx \<Rightarrow> bytes \<Rightarrow> sha512_ctx" where
  "SHA384_Update sha data = SHA512_Update sha data"

text \<open>The one-shot functions, on an uninitialised context; it is cleansed at the end.\<close>

definition SHA384 :: "sha512_ctx \<Rightarrow> bytes \<Rightarrow> bytes option" where
  "SHA384 ctx data = fst (SHA384_Final (SHA384_Update (SHA384_Init ctx) data))"

definition SHA512 :: "sha512_ctx \<Rightarrow> bytes \<Rightarrow> bytes option" where
  "SHA512 ctx data = fst (SHA512_Final (SHA512_Update (SHA512_Init ctx) data))"

subsection \<open>The rounds of FIPS 180-4\<close>

text \<open>The message schedule (6.4.2, step 1), the rounds (step 3) and the new hash value (step 4).\<close>

fun sched :: "(nat \<Rightarrow> u64) \<Rightarrow> nat \<Rightarrow> u64" where
  "sched M t = (if t < 16 then M t
     else sigma1 (sched M (t - 2)) + sched M (t - 7) + sigma0 (sched M (t - 15)) + sched M (t - 16))"

declare sched.simps [simp del]

definition fips_round :: "u64 \<Rightarrow> u64 \<Rightarrow> u64 list \<Rightarrow> u64 list" where
  "fips_round K W v =
     (let a = v ! 0; b = v ! 1; c = v ! 2; d = v ! 3; e = v ! 4; f = v ! 5; g = v ! 6; h = v ! 7;
          T1 = h + Sigma1 e + Ch e f g + K + W;
          T2 = Sigma0 a + Maj a b c
      in [T1 + T2, a, b, c, d + T1, e, f, g])"

primrec fips_vars :: "(nat \<Rightarrow> u64) \<Rightarrow> u64 list \<Rightarrow> nat \<Rightarrow> u64 list" where
  "fips_vars M st 0 = st"
| "fips_vars M st (Suc t) = fips_round (K512 ! t) (sched M t) (fips_vars M st t)"

definition block_words :: "bytes \<Rightarrow> nat \<Rightarrow> u64" where
  "block_words inp t = word_of_nat (be_nat (take 8 (drop (8 * t) inp)))"

definition fips_compress :: "u64 list \<Rightarrow> bytes \<Rightarrow> u64 list" where
  "fips_compress st inp = map2 (+) st (fips_vars (block_words inp) st 80)"

lemma length_fips_vars [simp]: "length st = 8 \<Longrightarrow> length (fips_vars M st t) = 8"
  by (cases t) (simp_all add: fips_round_def Let_def)

lemma be_nat_less_64: "length bs \<le> 8 \<Longrightarrow> be_nat bs < 2 ^ 64"
proof -
  assume "length bs \<le> 8"
  then have "(256 :: nat) ^ length bs \<le> 256 ^ 8" by (intro power_increasing) auto
  then show ?thesis using be_nat_less [of bs] by simp
qed

lemma load_u64_be_eq: "length bs \<ge> 8 \<Longrightarrow> load_u64_be bs = word_of_nat (be_nat (take 8 bs))"
proof -
  assume len: "length bs \<ge> 8"
  let ?r = "rev (take 8 bs)"
  have l: "length ?r = 8" using len by simp
  have "be_nat ?r < 2 ^ 64" using be_nat_less_64 [of ?r] l by simp
  then have "unat (load_u64_le bs) = be_nat ?r" by (simp add: load_u64_le_def unat_of_nat)
  then have "be_bytes 8 (unat (load_u64_le bs)) = ?r" using be_bytes_be_nat [of ?r] l by simp
  then show ?thesis by (simp add: load_u64_be_def CRYPTO_bswap8_def)
qed

lemma load_block_word: "length inp \<ge> 128 \<Longrightarrow> j < 16 \<Longrightarrow> load_u64_be (drop (j * 8) inp) = block_words inp j"
  by (simp add: load_u64_be_eq block_words_def mult.commute)

subsection \<open>The renamed registers compute the rounds\<close>

definition roles :: "nat \<Rightarrow> u64 list \<Rightarrow> u64 list" where
  "roles j v = map (\<lambda>r. v ! arg_pos j r) [0..<8]"

lemma roles_0: "length v = 8 \<Longrightarrow> roles 0 v = v"
  by (auto simp: roles_def arg_pos_def intro!: nth_equalityI)

lemma roles_mod: "roles (j mod 8) v = roles j v"
  by (simp add: roles_def arg_pos_def)

lemma list8: "length v = 8 \<Longrightarrow> \<exists>a b c d e f g h. v = [a, b, c, d, e, f, g, h]"
  by (auto simp: length_Suc_conv numeral_eq_Suc)

text \<open>The sums of a round in the order the macro adds them up.\<close>

lemma fips_round_list:
  "fips_round K w [a, b, c, d, e, f, g, h] =
     (let T1 = w + (h + Sigma1 e + Ch e f g + K) in
      [Sigma0 a + Maj a b c + T1, a, b, c, d + T1, e, f, g])"
  by (simp add: fips_round_def Let_def)

lemma ROUND_list:
  "v ! arg_pos j 0 = a \<Longrightarrow> v ! arg_pos j 1 = b \<Longrightarrow> v ! arg_pos j 2 = c \<Longrightarrow> v ! arg_pos j 3 = d \<Longrightarrow>
   v ! arg_pos j 4 = e \<Longrightarrow> v ! arg_pos j 5 = f \<Longrightarrow> v ! arg_pos j 6 = g \<Longrightarrow> v ! arg_pos j 7 = h \<Longrightarrow>
   ROUND_00_15 i j w v =
     (let T1 = w + (h + Sigma1 e + Ch e f g + K512 ! i) in
      v[arg_pos j 3 := d + T1, arg_pos j 7 := Sigma0 a + Maj a b c + T1])"
  by (simp only: ROUND_00_15_def Let_def)

lemma upt_8: "[0..<8] = [0, 1, 2, 3, 4, 5, 6, 7]"
  by (simp add: upt_conv_Cons)

lemma round_roles_small:
  assumes "length v = 8" and "j < 8"
  shows "roles (Suc j) (ROUND_00_15 i j w v) = fips_round (K512 ! i) w (roles j v)"
proof -
  define T1 where "T1 = w + (v ! arg_pos j 7 + Sigma1 (v ! arg_pos j 4)
    + Ch (v ! arg_pos j 4) (v ! arg_pos j 5) (v ! arg_pos j 6) + K512 ! i)"
  define new where "new = Sigma0 (v ! arg_pos j 0) + Maj (v ! arg_pos j 0) (v ! arg_pos j 1) (v ! arg_pos j 2) + T1"
  have "ROUND_00_15 i j w v = v[arg_pos j 3 := v ! arg_pos j 3 + T1, arg_pos j 7 := new]"
    unfolding new_def T1_def by (subst ROUND_list [OF refl refl refl refl refl refl refl refl]) (simp only: Let_def)
  moreover have "fips_round (K512 ! i) w (roles j v)
      = [new, v ! arg_pos j 0, v ! arg_pos j 1, v ! arg_pos j 2, v ! arg_pos j 3 + T1,
         v ! arg_pos j 4, v ! arg_pos j 5, v ! arg_pos j 6]"
    unfolding new_def T1_def roles_def upt_8 list.map fips_round_list Let_def ..
  moreover have "roles (Suc j) (v[arg_pos j 3 := v ! arg_pos j 3 + T1, arg_pos j 7 := new])
      = [new, v ! arg_pos j 0, v ! arg_pos j 1, v ! arg_pos j 2, v ! arg_pos j 3 + T1,
         v ! arg_pos j 4, v ! arg_pos j 5, v ! arg_pos j 6]"
  proof -
    have "j \<in> {0, 1, 2, 3, 4, 5, 6, 7}" using assms(2) by auto
    then show ?thesis
      using assms(1) unfolding roles_def upt_8
      by (elim insertE emptyE) (simp_all add: arg_pos_def flip: numeral_2_eq_2)
  qed
  ultimately show ?thesis by simp
qed

lemma round_roles:
  assumes "length v = 8"
  shows "roles (Suc j) (ROUND_00_15 i j w v) = fips_round (K512 ! i) w (roles j v)"
proof -
  have p: "arg_pos (j mod 8) = arg_pos j" by (rule ext) (simp add: arg_pos_def)
  then have "ROUND_00_15 i j w v = ROUND_00_15 i (j mod 8) w v" by (simp add: ROUND_00_15_def)
  moreover have "roles (Suc (j mod 8)) = roles (Suc j)"
    by (rule ext) (metis roles_mod mod_Suc_eq)
  ultimately show ?thesis using round_roles_small [OF assms, of "j mod 8" i w] by (simp add: roles_mod)
qed

lemma length_ROUND [simp]: "length (ROUND_00_15 i j w v) = length v"
  by (simp add: ROUND_00_15_def Let_def)

text \<open>After \<open>t\<close> rounds: the variables in their roles, and the last sixteen schedule words in the ring.\<close>

definition rounds_inv :: "bytes \<Rightarrow> u64 list \<Rightarrow> nat \<Rightarrow> u64 list \<times> u64 list \<Rightarrow> bool" where
  "rounds_inv inp st t vX \<longleftrightarrow> length (fst vX) = 8 \<and> length (snd vX) = 16 \<and>
     roles t (fst vX) = fips_vars (block_words inp) st t \<and>
     (\<forall>k. k < t \<and> t \<le> k + 16 \<longrightarrow> snd vX ! (k mod 16) = sched (block_words inp) k)"

lemma first_round_inv:
  assumes inv: "rounds_inv inp st j vX" and j: "j < 16" and inp: "length inp \<ge> 128"
  shows "rounds_inv inp st (Suc j) (first_round inp j vX)"
proof -
  have w: "load_u64_be (drop (j * 8) inp) = sched (block_words inp) j"
    using j inp by (simp add: load_block_word sched.simps)
  show ?thesis using inv j round_roles [of "fst vX" j j "sched (block_words inp) j"]
    by (auto simp: rounds_inv_def first_round_def Let_def w nth_list_update less_Suc_eq)
qed

lemma roles_group: "roles (16 * n + j) = roles j"
proof -
  have "16 * n + j = j + 8 * (2 * n)" by simp
  then have "(16 * n + j) mod 8 = j mod 8" by (simp only: mod_mult_self2)
  then have "arg_pos (16 * n + j) r = arg_pos j r" for r unfolding arg_pos_def by (rule arg_cong)
  then show ?thesis by (intro ext) (simp only: roles_def)
qed

lemma later_round_inv:
  assumes inv: "rounds_inv inp st (16 * n + j) vX" and j: "j < 16" and n: "0 < n"
  shows "rounds_inv inp st (Suc (16 * n + j)) (later_round (16 * n) j vX)"
proof -
  let ?t = "16 * n + j" let ?W = "sched (block_words inp)"
  have ring: "snd vX ! (k mod 16) = ?W k" if "k < ?t" "?t \<le> k + 16" for k
    using inv that by (simp add: rounds_inv_def)
  have at: "snd vX ! ((j + d) mod 16) = ?W (?t - (16 - d))" if "d < 16" for d
  proof -
    obtain m where m: "n = Suc m" using n by (cases n) auto
    have "?t - (16 - d) = (j + d) + 16 * m" using that by (simp add: m)
    then have "(?t - (16 - d)) mod 16 = (j + d) mod 16" by (simp only: mod_mult_self2)
    moreover have "?t - (16 - d) < ?t" "?t \<le> ?t - (16 - d) + 16" using that by (simp_all add: m)
    ultimately show ?thesis using ring [of "?t - (16 - d)"] by simp
  qed
  have X: "snd vX ! ((j + 1) mod 16) = ?W (?t - 15)" "snd vX ! ((j + 14) mod 16) = ?W (?t - 2)"
    "snd vX ! (j mod 16) = ?W (?t - 16)" "snd vX ! ((j + 9) mod 16) = ?W (?t - 7)"
    using at [of 1] at [of 14] at [of 0] at [of 9] by simp_all
  have W: "?W (?t - 16) + (sigma0 (?W (?t - 15)) + sigma1 (?W (?t - 2)) + ?W (?t - 7)) = ?W ?t"
    using n by (simp add: sched.simps [of _ ?t])
  have roles: "roles (Suc j) (ROUND_00_15 ?t j (?W ?t) (fst vX)) = fips_vars (block_words inp) st (Suc ?t)"
  proof -
    have "roles j (fst vX) = roles ?t (fst vX)" by (simp only: roles_group)
    then show ?thesis using inv round_roles [of "fst vX" j ?t "?W ?t"] by (simp add: rounds_inv_def)
  qed
  have step: "later_round (16 * n) j vX = (ROUND_00_15 ?t j (?W ?t) (fst vX), (snd vX)[j mod 16 := ?W ?t])"
    unfolding later_round_def ROUND_16_80_def Let_def X W ..
  have "(snd vX)[j mod 16 := ?W ?t] ! (k mod 16) = ?W k" if "k < Suc ?t" "Suc ?t \<le> k + 16" for k
  proof (cases "k = ?t")
    case True
    then show ?thesis using inv by (simp add: rounds_inv_def)
  next
    case False
    have "k mod 16 \<noteq> j mod 16"
    proof
      assume "k mod 16 = j mod 16"
      then have "16 dvd ?t - k" using that(1) mod_eq_dvd_iff_nat [of k ?t 16] by simp
      then show False using that False by (auto dest: dvd_imp_le)
    qed
    then show ?thesis using ring [of k] that False by simp
  qed
  moreover have "roles (Suc ?t) = roles (Suc j)" using roles_group [of n "Suc j"] by simp
  ultimately show ?thesis using inv roles unfolding rounds_inv_def step by simp
qed

text \<open>All eighty rounds, and the addition of the result to the state.\<close>

lemma fold_inv:
  assumes "\<And>j x. j < n \<Longrightarrow> P j x \<Longrightarrow> P (Suc j) (f j x)" and "P 0 x"
  shows "P n (fold f [0..<n] x)"
  using assms by (induction n) (simp_all add: less_Suc_eq)

lemma one_block_eq:
  assumes "length st = 8" and "length inp \<ge> 128"
  shows "sha512_one_block st inp = fips_compress st inp"
proof -
  define vX0 where "vX0 = fold (first_round inp) [0..<16] (st, replicate 16 0)"
  have "rounds_inv inp st 16 vX0" unfolding vX0_def
  proof (rule fold_inv [where P = "rounds_inv inp st"])
    show "rounds_inv inp st 0 (st, replicate 16 0)" using assms by (simp add: rounds_inv_def roles_0)
  qed (simp add: first_round_inv assms)
  moreover have group: "rounds_inv inp st (16 * Suc n) (fold (later_round (16 * n)) [0..<16] vX)"
    if "rounds_inv inp st (16 * n) vX" "0 < n" for n vX
  proof -
    have "rounds_inv inp st (16 * n + 16) (fold (later_round (16 * n)) [0..<16] vX)"
      by (rule fold_inv [where P = "\<lambda>j. rounds_inv inp st (16 * n + j)"])
        (use that in \<open>simp_all add: later_round_inv\<close>)
    then show ?thesis by (simp add: algebra_simps)
  qed
  ultimately have inv: "rounds_inv inp st 80 (fold (\<lambda>i. fold (later_round i) [0..<16]) [16, 32, 48, 64] vX0)"
    using group [of 1] group [of 2] group [of 3] group [of 4] by simp
  have "roles 80 v = v" if "length v = 8" for v
    using roles_mod [of 80 v] roles_0 [OF that] by simp
  then have "fst (fold (\<lambda>i. fold (later_round i) [0..<16]) [16, 32, 48, 64] vX0) = fips_vars (block_words inp) st 80"
    using inv unfolding rounds_inv_def by metis
  then show ?thesis unfolding sha512_one_block_def fips_compress_def Let_def vX0_def by (rule arg_cong)
qed

subsection \<open>The sliding window computes the rounds\<close>

definition window_inv :: "bytes \<Rightarrow> u64 list \<Rightarrow> nat \<Rightarrow> u64 list \<times> u64 \<times> u64 \<Rightarrow> bool" where
  "window_inv inp st i s \<longleftrightarrow>
     (let (X, A, E) = s; v = fips_vars (block_words inp) st i in
      length X = 89 \<and> A = v ! 0 \<and> E = v ! 4 \<and>
      X ! (81 - i) = v ! 1 \<and> X ! (82 - i) = v ! 2 \<and> X ! (83 - i) = v ! 3 \<and>
      X ! (85 - i) = v ! 5 \<and> X ! (86 - i) = v ! 6 \<and> X ! (87 - i) = v ! 7 \<and>
      (\<forall>k < i. X ! (88 - k) = sched (block_words inp) k))"

lemma window_round_T:
  assumes inv: "window_inv inp st i (X, A, E)" and i: "i < 80" and inp: "length inp \<ge> 128"
  shows "window_round inp i (X, A, E) = window_tail (80 - i) i (sched (block_words inp) i) (X, A, E)"
proof (cases "i < 16")
  case True
  then show ?thesis using inp by (simp add: window_round_def load_block_word sched.simps)
next
  case False
  have W: "X ! (88 - k) = sched (block_words inp) k" if "k < i" for k
    using inv that by (simp add: window_inv_def Let_def)
  have pos: "80 - i + (8 + 16 - 1) = 88 - (i - 15)" "80 - i + (8 + 16 - 14) = 88 - (i - 2)"
    "80 - i + (8 + 16) = 88 - (i - 16)" "80 - i + (8 + 16 - 9) = 88 - (i - 7)"
    using i False by simp_all
  have "sigma0 (X ! (88 - (i - 15))) + sigma1 (X ! (88 - (i - 2))) + (X ! (88 - (i - 16)) + X ! (88 - (i - 7)))
      = sched (block_words inp) i"
    using False W [of "i - 15"] W [of "i - 2"] W [of "i - 16"] W [of "i - 7"]
    by (simp add: sched.simps [of _ i])
  then show ?thesis using False unfolding window_round_def Let_def fst_conv pos by simp
qed

lemma window_round_inv:
  assumes inv: "window_inv inp st i s" and i: "i < 80" and inp: "length inp \<ge> 128" and st: "length st = 8"
  shows "window_inv inp st (Suc i) (window_round inp i s)"
proof -
  obtain X A E where s: "s = (X, A, E)" by (cases s) auto
  define v where "v = fips_vars (block_words inp) st i"
  define T where "T = sched (block_words inp) i"
  define Y where "Y = X[80 - i := A, 84 - i := E, 88 - i := T]"
  have F: "80 - i + 4 = 84 - i" "80 - i + 8 = 88 - i" "80 - i + 7 = 87 - i" "80 - i + 5 = 85 - i"
    "80 - i + 6 = 86 - i" "80 - i + 3 = 83 - i" "80 - i + 1 = 81 - i" "80 - i + 2 = 82 - i"
    using i by simp_all
  have X: "length X = 89" "A = v ! 0" "E = v ! 4" "X ! (81 - i) = v ! 1" "X ! (82 - i) = v ! 2"
    "X ! (83 - i) = v ! 3" "X ! (85 - i) = v ! 5" "X ! (86 - i) = v ! 6" "X ! (87 - i) = v ! 7"
    and W: "\<And>k. k < i \<Longrightarrow> X ! (88 - k) = sched (block_words inp) k"
    using inv by (simp_all add: window_inv_def s v_def Let_def)
  have Y: "length Y = 89" "Y ! (80 - i) = A" "Y ! (81 - i) = v ! 1" "Y ! (82 - i) = v ! 2" "Y ! (83 - i) = v ! 3"
    "Y ! (84 - i) = E" "Y ! (85 - i) = v ! 5" "Y ! (86 - i) = v ! 6" "Y ! (87 - i) = v ! 7"
    using X i by (simp_all add: Y_def nth_list_update)
  have YW: "Y ! (88 - k) = sched (block_words inp) k" if "k < Suc i" for k
    using that W [of k] X(1) i by (cases "k = i") (simp_all add: Y_def T_def nth_list_update)
  let ?T1 = "T + (v ! 7 + Sigma1 E + Ch E (v ! 5) (v ! 6) + K512 ! i)"
  have run: "window_round inp i s = (Y, ?T1 + Sigma0 A + Maj A (v ! 1) (v ! 2), v ! 3 + ?T1)"
    unfolding s window_round_T [OF inv [unfolded s] i inp]
    by (simp only: window_tail_def Let_def prod.case F Y_def [symmetric] T_def [symmetric] Y)
  obtain a b c d e f g h where vl: "v = [a, b, c, d, e, f, g, h]"
    using list8 [of v] st by (auto simp: v_def)
  have next_vars: "fips_vars (block_words inp) st (Suc i)
      = [Sigma0 A + Maj A (v ! 1) (v ! 2) + ?T1, A, v ! 1, v ! 2, v ! 3 + ?T1, E, v ! 5, v ! 6]"
    unfolding X(2,3) by (simp add: fips_round_list Let_def vl flip: v_def T_def)
  have "Suc i \<le> 80" using i by simp
  have S: "81 - Suc i = 80 - i" "82 - Suc i = 81 - i" "83 - Suc i = 82 - i" "85 - Suc i = 84 - i"
    "86 - Suc i = 85 - i" "87 - Suc i = 86 - i" by simp_all
  show ?thesis unfolding window_inv_def run Let_def prod.case next_vars S
    using Y YW by (simp add: add.commute)
qed

lemma one_block_i386_eq:
  assumes "length st = 8" and "length inp \<ge> 128"
  shows "sha512_one_block_i386 st inp = fips_compress st inp"
proof -
  obtain a b c d e f g h where st: "st = [a, b, c, d, e, f, g, h]" using list8 [OF assms(1)] by blast
  define X0 where "X0 = (replicate 89 0)[81 := st ! 1, 82 := st ! 2, 83 := st ! 3,
    85 := st ! 5, 86 := st ! 6, 87 := st ! 7]"
  have 0: "window_inv inp st 0 (X0, st ! 0, st ! 4)"
    by (simp add: window_inv_def X0_def)
  obtain X A E where run: "fold (window_round inp) [0..<80] (X0, st ! 0, st ! 4) = (X, A, E)"
    by (cases "fold (window_round inp) [0..<80] (X0, st ! 0, st ! 4)") auto
  have "window_inv inp st 80 (fold (window_round inp) [0..<80] (X0, st ! 0, st ! 4))"
    by (rule fold_inv [where P = "window_inv inp st"]) (use 0 window_round_inv assms in blast)+
  then have "window_inv inp st 80 (X, A, E)" unfolding run .
  moreover obtain a' b' c' d' e' f' g' h' where
    "fips_vars (block_words inp) st 80 = [a', b', c', d', e', f', g', h']"
    using list8 [of "fips_vars (block_words inp) st 80"] assms(1) by auto
  ultimately show ?thesis
    unfolding sha512_one_block_i386_def fips_compress_def Let_def X0_def [symmetric] run
    by (simp add: window_inv_def Let_def st)
qed

subsection \<open>Messages of several blocks\<close>

text \<open>The hash of the whole blocks of a string; a last partial block is left out.\<close>

function md_blocks :: "u64 list \<Rightarrow> bytes \<Rightarrow> u64 list" where
  "md_blocks st bs = (if length bs < 128 then st else md_blocks (fips_compress st (take 128 bs)) (drop 128 bs))"
  by pat_completeness auto
termination by (relation "measure (\<lambda>(st, bs). length bs)") auto

declare md_blocks.simps [simp del]

lemma length_fips_compress [simp]: "length st = 8 \<Longrightarrow> length (fips_compress st b) = 8"
  by (simp add: fips_compress_def)

lemma length_md_blocks [simp]: "length st = 8 \<Longrightarrow> length (md_blocks st bs) = 8"
  by (induction st bs rule: md_blocks.induct) (simp add: md_blocks.simps)

lemma md_blocks_short: "length bs < 128 \<Longrightarrow> md_blocks st bs = st"
  by (simp add: md_blocks.simps)

lemma md_blocks_block: "length b = 128 \<Longrightarrow> md_blocks st (b @ bs) = md_blocks (fips_compress st b) bs"
  by (subst md_blocks.simps) simp

lemma md_blocks_one: "length b = 128 \<Longrightarrow> md_blocks st b = fips_compress st b"
  using md_blocks_block [of b st "[]"] by (simp add: md_blocks_short)

lemma md_blocks_append: "128 dvd length x \<Longrightarrow> md_blocks st (x @ y) = md_blocks (md_blocks st x) y"
proof (induction st x rule: md_blocks.induct)
  case (1 st x)
  show ?case
  proof (cases "length x < 128")
    case True
    then have "x = []" using "1.prems" by (auto dest: dvd_imp_le)
    then show ?thesis by (simp add: md_blocks_short)
  next
    case False
    then have "md_blocks st (x @ y) = md_blocks (fips_compress st (take 128 x)) (drop 128 x @ y)"
      by (subst md_blocks.simps) simp
    also have "\<dots> = md_blocks (md_blocks (fips_compress st (take 128 x)) (drop 128 x)) y"
      using "1.IH" [OF False] "1.prems" by (simp add: dvd_diff_nat)
    also have "md_blocks (fips_compress st (take 128 x)) (drop 128 x) = md_blocks st x"
      using False by (subst (2) md_blocks.simps) simp
    finally show ?thesis .
  qed
qed

lemma block_data_order_eq:
  "length st = 8 \<Longrightarrow> 128 * n \<le> length inp \<Longrightarrow>
   sha512_block_data_order st inp n = md_blocks st (take (128 * n) inp) \<and>
   sha512_block_data_order_i386 st inp n = md_blocks st (take (128 * n) inp)"
proof (induction n arbitrary: st inp)
  case 0
  then show ?case by (simp add: md_blocks_short)
next
  case (Suc n)
  have "take (128 * Suc n) inp = take 128 inp @ take (128 * n) (drop 128 inp)"
    by (simp flip: take_add)
  moreover have "length (take 128 inp) = 128" using Suc.prems by simp
  ultimately show ?case
    using Suc by (simp add: md_blocks_block one_block_eq one_block_i386_eq)
qed

subsection \<open>Streaming\<close>

text \<open>
  The context after some input \<open>m\<close>: the whole blocks of \<open>m\<close> are hashed, the rest is in the
  buffer, and the two counters hold the length in bits modulo 2^128.
\<close>

definition bits_ok :: "bytes \<Rightarrow> u64 \<Rightarrow> u64 \<Rightarrow> bool" where
  "bits_ok m Nl Nh \<longleftrightarrow> unat Nl + 2 ^ 64 * unat Nh = 8 * length m mod 2 ^ 128"

definition absorbed :: "u64 list \<Rightarrow> bytes \<Rightarrow> sha512_ctx \<Rightarrow> bool" where
  "absorbed iv m c \<longleftrightarrow>
     sha_num c < 128 \<and> length (sha_p c) = 128 \<and>
     (\<exists>w. m = w @ take (sha_num c) (sha_p c) \<and> 128 dvd length w \<and> sha_h c = md_blocks iv w) \<and>
     bits_ok m (sha_Nl c) (sha_Nh c)"

lemma count_step:
  fixes a b q N L :: nat
  assumes "a < L" and "b < L" and "0 < L"
  shows "(a + b) mod L + L * ((N + (if (a + b) mod L < a then 1 else 0) + q) mod L)
    = (a + L * N + (b + L * q)) mod (L * L)"
proof -
  have carry: "(if (a + b) mod L < a then 1 else 0) = (a + b) div L"
  proof (cases "a + b < L")
    case False
    have "(a + b) div L = 1" using False assms by (intro div_nat_eqI) simp_all
    then show ?thesis using False mod_add_wrap [OF assms(1,2)] by simp
  qed (simp add: assms(3))
  let ?x = "a + b + L * (N + q)"
  have "?x mod L = (a + b) mod L" "?x div L = (a + b) div L + (N + q)"
    using assms(3) by simp_all
  then have "?x mod (L * L) = L * (((a + b) div L + (N + q)) mod L) + (a + b) mod L"
    by (simp add: mod_mult2_eq)
  then show ?thesis unfolding carry by (simp add: algebra_simps)
qed

lemma update_count:
  fixes Nl Nh :: u64
  assumes len: "len < 2 ^ 64"
  defines "l \<equiv> Nl + push_bit 3 (word_of_nat len)"
  shows "unat l + 2 ^ 64 * unat ((if l < Nl then Nh + 1 else Nh) + drop_bit 61 (word_of_nat len))
    = (unat Nl + 2 ^ 64 * unat Nh + 8 * len) mod 2 ^ 128"
proof -
  let ?L = "2 ^ 64 :: nat" let ?b = "8 * len mod ?L" let ?q = "len div 2 ^ 61"
  have lw: "unat (word_of_nat len :: u64) = len" using len by (simp add: unat_of_nat)
  have "unat (push_bit 3 (word_of_nat len) :: u64) = ?b"
    by (simp add: push_bit_eq_mult unat_word_ariths lw mult.commute)
  then have ul: "unat l = (unat Nl + ?b) mod ?L" by (simp add: l_def unat_word_ariths)
  have uq: "unat (drop_bit 61 (word_of_nat len) :: u64) = ?q" by (simp add: unat_drop_bit lw)
  have add: "unat (x + y) = (unat x + unat y) mod ?L" for x y :: u64
    by (simp add: unat_word_ariths)
  have hi: "unat ((if l < Nl then Nh + 1 else Nh) + drop_bit 61 (word_of_nat len))
      = (unat Nh + (if (unat Nl + ?b) mod ?L < unat Nl then 1 else 0) + ?q) mod ?L"
  proof (cases "l < Nl")
    case True
    then have c: "(unat Nl + ?b) mod ?L < unat Nl" by (simp only: word_less_nat_alt ul)
    show ?thesis unfolding if_P [OF True] if_P [OF c] add uq unat_1 by (rule mod_add_left_eq)
  next
    case False
    then have c: "\<not> (unat Nl + ?b) mod ?L < unat Nl" by (simp only: word_less_nat_alt ul not_False_eq_True)
    show ?thesis unfolding if_not_P [OF False] if_not_P [OF c] add uq add_0_right ..
  qed
  have "?q = 8 * len div ?L" using div_mult_mult1 [of 8 len "2 ^ 61"] by simp
  then have len8: "?b + ?L * ?q = 8 * len" by (metis mod_mult_div_eq)
  have LL: "?L * ?L = 2 ^ 128" by simp
  have "unat Nl < ?L" by (rule unat_u64_less)
  then have "(unat Nl + ?b) mod ?L + ?L * ((unat Nh + (if (unat Nl + ?b) mod ?L < unat Nl then 1 else 0) + ?q) mod ?L)
      = (unat Nl + ?L * unat Nh + (?b + ?L * ?q)) mod (?L * ?L)"
    by (rule count_step) simp_all
  then show ?thesis unfolding hi ul len8 LL .
qed

lemma take_write_at: "pos \<le> length p \<Longrightarrow> take (pos + length d) (write_at p pos d) = take pos p @ d"
  by (simp add: write_at_def)

lemma update_blocks_absorbs:
  fixes data :: bytes
  assumes c: "sha_num c = 0" "length (sha_p c) = 128" "sha_h c = md_blocks iv w" "128 dvd length w"
    and iv: "length iv = 8"
  defines "c' \<equiv> update_blocks c data"
  shows "sha_num c' < 128 \<and> length (sha_p c') = 128 \<and>
    (\<exists>w'. w @ data = w' @ take (sha_num c') (sha_p c') \<and> 128 dvd length w' \<and> sha_h c' = md_blocks iv w') \<and>
    sha_Nl c' = sha_Nl c \<and> sha_Nh c' = sha_Nh c \<and> sha_md_len c' = sha_md_len c"
proof -
  define n where "n = length data div 128"
  define rest where "rest = drop (128 * n) data"
  have le: "128 * n \<le> length data" by (simp add: n_def)
  have lr: "length rest = length data mod 128" by (simp add: rest_def n_def minus_mult_div_eq_mod)
  have q: "length data - length data mod 128 = 128 * n" by (simp add: n_def minus_mod_eq_mult_div)
  have h: "sha512_block_data_order (sha_h c) data n = md_blocks iv (w @ take (128 * n) data)"
    using block_data_order_eq [of "sha_h c" n data] le c iv by (simp add: md_blocks_append)
  have c': "c' = (let d = c\<lparr>sha_h := md_blocks iv (w @ take (128 * n) data)\<rparr> in
      if rest \<noteq> [] then d\<lparr>sha_p := write_at (sha_p d) 0 rest, sha_num := length rest\<rparr> else d)"
  proof (cases "length data \<ge> 128")
    case True
    then show ?thesis
      by (simp add: c'_def update_blocks_def Let_def q h flip: n_def rest_def)
  next
    case False
    then have "n = 0" by (simp add: n_def)
    then show ?thesis using False c by (simp add: c'_def update_blocks_def Let_def rest_def)
  qed
  have split: "w @ data = (w @ take (128 * n) data) @ rest" by (simp add: rest_def)
  have dvd: "128 dvd length (w @ take (128 * n) data)" using c(4) le by simp
  have "take (length rest) (write_at (sha_p c) 0 rest) = rest" by (simp add: write_at_def)
  moreover have "length (write_at (sha_p c) 0 rest) = 128" using c(2) lr by simp
  moreover have "length rest < 128" using lr by simp
  ultimately show ?thesis
    using c split dvd unfolding c' by (cases "rest = []") (auto simp: Let_def intro!: exI [of _ "w @ take (128 * n) data"])
qed

lemma update_absorbs:
  assumes c: "absorbed iv m c" and iv: "length iv = 8" and len: "length data < 2 ^ 64"
  shows "absorbed iv (m @ data) (SHA512_Update c data) \<and> sha_md_len (SHA512_Update c data) = sha_md_len c"
proof (cases "data = []")
  case True
  then show ?thesis using c by (simp add: SHA512_Update_def)
next
  case False
  define l where "l = sha_Nl c + push_bit 3 (word_of_nat (length data))"
  define Nh where "Nh = (if l < sha_Nl c then sha_Nh c + 1 else sha_Nh c) + drop_bit 61 (word_of_nat (length data))"
  define d where "d = c\<lparr>sha_Nl := l, sha_Nh := Nh\<rparr>"
  obtain w where w: "m = w @ take (sha_num c) (sha_p c)" "128 dvd length w" "sha_h c = md_blocks iv w"
    and p: "sha_num c < 128" "length (sha_p c) = 128"
    and n: "bits_ok m (sha_Nl c) (sha_Nh c)"
    using c by (auto simp: absorbed_def)
  have count: "bits_ok (m @ data) l Nh"
    unfolding bits_ok_def
  proof -
    have "unat l + 2 ^ 64 * unat Nh = (8 * length m mod 2 ^ 128 + 8 * length data) mod 2 ^ 128"
      unfolding l_def Nh_def update_count [OF len] n [unfolded bits_ok_def] ..
    also have "\<dots> = 8 * length (m @ data) mod 2 ^ 128" by (simp only: mod_add_left_eq length_append distrib_left)
    finally show "unat l + 2 ^ 64 * unat Nh = 8 * length (m @ data) mod 2 ^ 128" .
  qed
  have run: "SHA512_Update c data =
     (if sha_num c \<noteq> 0 then
        if length data < 128 - sha_num c
        then d\<lparr>sha_p := write_at (sha_p c) (sha_num c) data, sha_num := sha_num c + length data\<rparr>
        else let p = write_at (sha_p c) (sha_num c) (take (128 - sha_num c) data) in
          update_blocks (d\<lparr>sha_p := p, sha_num := 0, sha_h := sha512_block_data_order (sha_h c) p 1\<rparr>)
            (drop (128 - sha_num c) data)
      else update_blocks d data)"
    using False by (simp add: SHA512_Update_def Let_def d_def Nh_def l_def)
  consider "sha_num c = 0" | "sha_num c \<noteq> 0" "length data < 128 - sha_num c"
    | "sha_num c \<noteq> 0" "128 - sha_num c \<le> length data" by linarith
  then show ?thesis
  proof cases
    case 1
    then have "m = w" using w by simp
    then show ?thesis
      using update_blocks_absorbs [of d iv w data] 1 w p iv count run by (auto simp: absorbed_def d_def)
  next
    case 2
    then show ?thesis using w p count take_write_at [of "sha_num c" "sha_p c" data]
      unfolding run by (auto simp: absorbed_def d_def)
  next
    case 3
    define blk where "blk = take (sha_num c) (sha_p c) @ take (128 - sha_num c) data"
    have lb: "length blk = 128" using 3 p by (simp add: blk_def)
    have wr: "write_at (sha_p c) (sha_num c) (take (128 - sha_num c) data) = blk"
      using 3 p by (simp add: write_at_def blk_def)
    have h: "sha512_block_data_order (sha_h c) blk 1 = md_blocks iv (w @ blk)"
      using block_data_order_eq [of "sha_h c" 1 blk] lb w iv by (simp add: md_blocks_append)
    define e where "e = d\<lparr>sha_p := blk, sha_num := 0, sha_h := md_blocks iv (w @ blk)\<rparr>"
    have e: "sha_num e = 0" "length (sha_p e) = 128" "sha_h e = md_blocks iv (w @ blk)" "128 dvd length (w @ blk)"
      "sha_Nl e = l" "sha_Nh e = Nh" "sha_md_len e = sha_md_len c"
      using w lb by (simp_all add: e_def d_def)
    have run3: "SHA512_Update c data = update_blocks e (drop (128 - sha_num c) data)"
      unfolding run wr Let_def h e_def using 3 by simp
    have "m @ data = (w @ blk) @ drop (128 - sha_num c) data" using w by (simp add: blk_def)
    then show ?thesis
      using update_blocks_absorbs [OF e(1-4) iv, of "drop (128 - sha_num c) data"] count
      by (simp add: absorbed_def run3 e(5-7))
  qed
qed

subsection \<open>Padding\<close>

text \<open>FIPS 180-4, 5.1.2: a one bit, zeros, and the length in bits in sixteen octets.\<close>

definition pad_zeros :: "nat \<Rightarrow> nat" where
  "pad_zeros n = (239 - n mod 128) mod 128"

definition sha512_pad :: "bytes \<Rightarrow> bytes" where
  "sha512_pad m = m @ [0x80] @ replicate (pad_zeros (length m)) 0 @ be_bytes 16 (8 * length m)"

definition sha2_spec :: "u64 list \<Rightarrow> nat \<Rightarrow> bytes \<Rightarrow> bytes" where
  "sha2_spec iv n m = concat (map u64_octets (take n (md_blocks iv (sha512_pad m))))"

lemma u64_octets_eq: "u64_octets t = be_bytes 8 (unat t)"
proof -
  have "u64_octets t = map (\<lambda>i. word_of_nat (unat t div 2 ^ (8 * (7 - i)))) [0..<8]"
    by (simp add: u64_octets_def flip: unat_drop_bit)
  then show ?thesis by (simp add: be_bytes_map pow256 mult.commute cong: map_cong)
qed

lemma be_bytes_add: "be_bytes (a + b) v = be_bytes a (v div 256 ^ b) @ be_bytes b v"
  by (induction b arbitrary: v) (simp_all add: div_mult2_eq)

lemma length_octets:
  assumes "unat (Nl :: u64) + 2 ^ 64 * unat (Nh :: u64) = n mod 2 ^ 128"
  shows "u64_octets Nh @ u64_octets Nl = be_bytes 16 n"
proof -
  have "be_bytes 16 n = be_bytes 16 (n mod 2 ^ 128)" using be_bytes_mod [of 16 n] by simp
  also have "\<dots> = be_bytes 8 ((n mod 2 ^ 128) div 2 ^ 64) @ be_bytes 8 (n mod 2 ^ 128)"
    using be_bytes_add [of 8 8] by simp
  also have "n mod 2 ^ 128 = unat Nl + 2 ^ 64 * unat Nh" by (rule assms [symmetric])
  also have "be_bytes 8 (unat Nl + 2 ^ 64 * unat Nh) = be_bytes 8 (unat Nl)"
    using be_bytes_mod [of 8 "unat Nl + 2 ^ 64 * unat Nh"] unat_u64_less [of Nl] by simp
  also have "(unat Nl + 2 ^ 64 * unat Nh) div 2 ^ 64 = unat Nh" using unat_u64_less [of Nl] by simp
  finally show ?thesis by (simp add: u64_octets_eq)
qed

lemma length_u64_octets [simp]: "length (u64_octets t) = 8"
  by (simp add: u64_octets_def)

lemma last_block:
  assumes "length p = 128" and "n \<le> 112" and "length hi = 8" and "length lo = 8"
  shows "write_at (write_at (write_at p n (replicate (112 - n) 0)) 120 lo) 112 hi
    = take n p @ replicate (112 - n) 0 @ hi @ lo"
  using assms by (simp add: write_at_def)

lemma final_steps:
  assumes c: "absorbed iv m c" and iv: "length iv = 8"
  shows "sha_h (snd (SHA512_Final c)) = md_blocks iv (sha512_pad m)"
proof -
  obtain w where w: "m = w @ take (sha_num c) (sha_p c)" "128 dvd length w" "sha_h c = md_blocks iv w"
    and p: "sha_num c < 128" "length (sha_p c) = 128" and n: "bits_ok m (sha_Nl c) (sha_Nh c)"
    using c by (auto simp: absorbed_def)
  define r t where "r = sha_num c" and "t = take (sha_num c) (sha_p c) @ [0x80]"
  have lt: "length t = Suc r" using p by (simp add: r_def t_def)
  have t: "take (Suc r) ((sha_p c)[r := 0x80]) = t"
    using p by (simp add: r_def t_def take_Suc_conv_app_nth)
  have octets: "u64_octets (sha_Nh c) @ u64_octets (sha_Nl c) = be_bytes 16 (8 * length m)"
    using n length_octets by (simp add: bits_ok_def)
  have step: "sha512_block_data_order (md_blocks iv x) b 1 = md_blocks iv (x @ b)"
    if "length b = 128" "128 dvd length x" for x b
    using block_data_order_eq [of "md_blocks iv x" 1 b] that iv by (simp add: md_blocks_append)
  have "length m mod 128 = r" using w(1,2) p by (auto simp: r_def elim!: dvdE)
  then have z: "pad_zeros (length m) = (239 - r) mod 128" by (simp add: pad_zeros_def)
  have pad: "sha512_pad m = w @ t @ replicate (pad_zeros (length m)) 0 @ be_bytes 16 (8 * length m)"
    by (simp add: sha512_pad_def w(1) t_def)
  show ?thesis
  proof (cases "Suc r > 112")
    case False
    have "(239 - r) mod 128 = 112 - Suc r" using False by (simp add: mod_if)
    moreover have "write_at (write_at (write_at ((sha_p c)[r := 0x80]) (Suc r) (replicate (112 - Suc r) 0))
        120 (u64_octets (sha_Nl c))) 112 (u64_octets (sha_Nh c))
      = t @ replicate (112 - Suc r) 0 @ be_bytes 16 (8 * length m)"
      using last_block [of "(sha_p c)[r := 0x80]" "Suc r" "u64_octets (sha_Nh c)" "u64_octets (sha_Nl c)"]
        False p by (simp only: t octets) simp
    moreover have "length (t @ replicate (112 - Suc r) 0 @ be_bytes 16 (8 * length m)) = 128"
      using lt False by simp
    ultimately show ?thesis
      using False w step [of "t @ replicate (112 - Suc r) 0 @ be_bytes 16 (8 * length m)" w]
      unfolding pad z by (simp add: SHA512_Final_def Let_def flip: r_def)
  next
    case True
    define b1 where "b1 = t @ replicate (128 - Suc r) 0"
    have lb1: "length b1 = 128" using lt p by (simp add: b1_def r_def)
    have w1: "write_at ((sha_p c)[r := 0x80]) (Suc r) (replicate (128 - Suc r) 0) = b1"
      using p by (simp add: write_at_def t b1_def r_def flip: r_def)
    have w2: "write_at (write_at (write_at b1 0 (replicate 112 0)) 120 (u64_octets (sha_Nl c))) 112 (u64_octets (sha_Nh c))
      = replicate 112 0 @ be_bytes 16 (8 * length m)"
      using last_block [of b1 0 "u64_octets (sha_Nh c)" "u64_octets (sha_Nl c)"] lb1 by (simp add: octets)
    have "r < 128" using p by (simp add: r_def)
    then have z2: "(239 - r) mod 128 = (128 - Suc r) + 112" using True by simp
    have "sha512_pad m = (w @ b1) @ replicate 112 0 @ be_bytes 16 (8 * length m)"
      unfolding pad z z2 replicate_add b1_def by simp
    then show ?thesis
      using True w step [OF lb1 w(2)] lb1 step [of "replicate 112 0 @ be_bytes 16 (8 * length m)" "w @ b1"]
      by (simp add: SHA512_Final_def Let_def w1 [simplified] w2 flip: r_def)
  qed
qed

lemma final_digest:
  assumes c: "absorbed iv m c" and iv: "length iv = 8" and n: "sha_md_len c = 8 * n" "n = 6 \<or> n = 8"
  shows "fst (SHA512_Final c) = Some (sha2_spec iv n m)"
proof -
  have "fst (SHA512_Final c) = Some (concat (map u64_octets (take n (sha_h (snd (SHA512_Final c))))))"
    using n by (auto simp: SHA512_Final_def Let_def)
  then show ?thesis by (simp add: final_steps [OF c iv] sha2_spec_def)
qed

lemma init_absorbs:
  "length (sha_p c) = 128 \<Longrightarrow> absorbed (sha_h (SHA512_Init c)) [] (SHA512_Init c)"
  "length (sha_p c) = 128 \<Longrightarrow> absorbed (sha_h (SHA384_Init c)) [] (SHA384_Init c)"
  by (simp_all add: absorbed_def SHA512_Init_def SHA384_Init_def md_blocks_short bits_ok_def)

text \<open>The hash functions themselves, from their initial values.\<close>

definition sha512_iv :: "u64 list" where
  "sha512_iv = sha_h (SHA512_Init \<lparr>sha_h = [], sha_Nl = 0, sha_Nh = 0, sha_p = [], sha_num = 0, sha_md_len = 0\<rparr>)"

definition sha384_iv :: "u64 list" where
  "sha384_iv = sha_h (SHA384_Init \<lparr>sha_h = [], sha_Nl = 0, sha_Nh = 0, sha_p = [], sha_num = 0, sha_md_len = 0\<rparr>)"

definition sha512_hash :: "bytes \<Rightarrow> bytes" where
  "sha512_hash m = sha2_spec sha512_iv 8 m"

definition sha384_hash :: "bytes \<Rightarrow> bytes" where
  "sha384_hash m = sha2_spec sha384_iv 6 m"

lemma init_h: "sha_h (SHA512_Init c) = sha512_iv" "sha_h (SHA384_Init c) = sha384_iv"
  by (simp_all add: sha512_iv_def sha384_iv_def SHA512_Init_def SHA384_Init_def)

lemma length_iv [simp]: "length sha512_iv = 8" "length sha384_iv = 8"
  by (simp_all add: sha512_iv_def sha384_iv_def SHA512_Init_def SHA384_Init_def)

lemma init_md_len: "sha_md_len (SHA512_Init c) = 64" "sha_md_len (SHA384_Init c) = 48"
  by (simp_all add: SHA512_Init_def SHA384_Init_def)

lemma updates_absorb:
  "absorbed iv m c \<Longrightarrow> length iv = 8 \<Longrightarrow> \<forall>d \<in> set ds. length d < 2 ^ 64 \<Longrightarrow>
   absorbed iv (m @ concat ds) (fold (\<lambda>d c. SHA512_Update c d) ds c) \<and>
   sha_md_len (fold (\<lambda>d c. SHA512_Update c d) ds c) = sha_md_len c"
proof (induction ds arbitrary: m c)
  case (Cons d ds)
  then have "absorbed iv (m @ d) (SHA512_Update c d) \<and> sha_md_len (SHA512_Update c d) = sha_md_len c"
    by (intro update_absorbs) simp_all
  then show ?case using Cons.IH [of "m @ d" "SHA512_Update c d"] Cons.prems by simp
qed simp

lemma length_concat_octets: "length (concat (map u64_octets ws)) = 8 * length ws"
  by (induction ws) simp_all

lemma length_hash: "length (sha512_hash m) = 64" "length (sha384_hash m) = 48"
  by (simp_all add: sha512_hash_def sha384_hash_def sha2_spec_def length_concat_octets)

subsection \<open>Properties\<close>

text \<open>C5. Both C versions of the block function, the one with renamed registers and a ring of
  sixteen schedule words and the one with a sliding window for 32-bit x86, compute the same
  thing, the compression of FIPS 180-4 applied to every block in turn.\<close>

theorem sha512_block_functions_agree:
  assumes "length st = 8" and "128 * n \<le> length inp"
  shows "sha512_block_data_order st inp n = md_blocks st (take (128 * n) inp) \<and>
    sha512_block_data_order_i386 st inp n = md_blocks st (take (128 * n) inp)"
  by (rule block_data_order_eq [OF assms])

theorem sha512_block_functions_agree_witness:
  "sha512_block_data_order sha512_iv (replicate 300 7) 2 = md_blocks sha512_iv (replicate 256 7) \<and>
   sha512_block_data_order_i386 sha512_iv (replicate 300 7) 2 = md_blocks sha512_iv (replicate 256 7)"
  using sha512_block_functions_agree [of sha512_iv 2 "replicate 300 7"] by simp

text \<open>C4. Streaming: whatever pieces the input arrives in, and whatever the uninitialised buffer
  held, \<open>SHA512_Final\<close> returns the SHA-512 hash of the concatenated pieces, padded as FIPS
  180-4 says; the bit count is right modulo 2^128 although each piece is counted in two 64-bit
  halves.\<close>

theorem sha512_streaming:
  assumes "length (sha_p c) = 128" and "\<forall>d \<in> set ds. length d < 2 ^ 64"
  shows "fst (SHA512_Final (fold (\<lambda>d c. SHA512_Update c d) ds (SHA512_Init c))) = Some (sha512_hash (concat ds))"
  using final_digest [of sha512_iv "concat ds" _ 8] updates_absorb [OF init_absorbs(1) [OF assms(1)] _ assms(2)]
  by (simp add: init_h init_md_len sha512_hash_def)

definition example_sha :: sha512_ctx where
  "example_sha = \<lparr>sha_h = [], sha_Nl = 5, sha_Nh = 6, sha_p = replicate 128 7, sha_num = 9, sha_md_len = 1\<rparr>"

theorem sha512_streaming_witness:
  "fst (SHA512_Final (SHA512_Update (SHA512_Update (SHA512_Init example_sha) [97]) [98, 99]))
     = Some (sha512_hash [97, 98, 99])"
  using sha512_streaming [of example_sha "[[97], [98, 99]]"] by (simp add: example_sha_def)

end
