(* ===== verification/Digest.thy ===== *)
theory Digest
  imports Sha512
begin

section \<open>Message digests (crypto/fipsmodule/digest/digest.c and digests.c)\<close>

text \<open>
  An \<open>EVP_MD\<close> is a table of functions on a hash state; an \<open>EVP_MD_CTX\<close> holds such a table and
  a heap block with the state. The blocks are values here. What the contract of a digest
  promises its clients (HMAC, PBKDF2) is a locale, interpreted on the two digests of
  \<open>sha512.c\<close>. The \<open>pctx\<close> fields, which only the signing functions set, are always NULL here.
\<close>

subsection \<open>State\<close>

text \<open>The tables are static objects; \<open>md_type\<close>, the object's NID, stands for its address.\<close>

record 's evp_md =
  md_type :: nat
  md_size :: nat
  md_init :: "'s \<Rightarrow> 's"
  md_update :: "'s \<Rightarrow> bytes \<Rightarrow> 's"
  md_final :: "'s \<Rightarrow> bytes \<times> 's"
  md_cleansed :: 's
  md_block_size :: nat

record 's md_ctx =
  digest :: "'s evp_md option"
  md_data :: "'s option"

text \<open>
  The allocator: whether the \<open>k\<close>-th request succeeds, and what the block it returns holds. The
  operations carry the number of requests made so far.
\<close>

record 's md_heap =
  md_alloc :: "nat \<Rightarrow> bool"
  md_junk :: "nat \<Rightarrow> 's"

type_synonym ('c) md_run = "nat \<Rightarrow> 'c \<Rightarrow> bool \<times> nat \<times> 'c"

subsection \<open>Operations\<close>

definition EVP_MD_CTX_init :: "'s md_ctx" where
  "EVP_MD_CTX_init = \<lparr>digest = None, md_data = None\<rparr>"

definition EVP_MD_CTX_cleanup :: "'s md_ctx \<Rightarrow> 's md_ctx" where
  "EVP_MD_CTX_cleanup ctx = EVP_MD_CTX_init"

definition EVP_MD_CTX_reset :: "'s md_ctx \<Rightarrow> 's md_ctx" where
  "EVP_MD_CTX_reset ctx = EVP_MD_CTX_init"

definition same_digest :: "'s evp_md option \<Rightarrow> 's evp_md option \<Rightarrow> bool" where
  "same_digest a b \<longleftrightarrow> map_option md_type a = map_option md_type b"

definition EVP_DigestInit_ex :: "'s md_heap \<Rightarrow> 's evp_md \<Rightarrow> 's md_ctx md_run" where
  "EVP_DigestInit_ex hp type k ctx =
     (if \<not> same_digest (digest ctx) (Some type) then
        if \<not> md_alloc hp k then (False, Suc k, ctx)
        else (True, Suc k, ctx\<lparr>md_data := Some (md_init type (md_junk hp k)), digest := Some type\<rparr>)
      else (True, k, ctx\<lparr>md_data := map_option (md_init type) (md_data ctx)\<rparr>))"

definition EVP_DigestInit :: "'s md_heap \<Rightarrow> 's evp_md \<Rightarrow> 's md_ctx md_run" where
  "EVP_DigestInit hp type k ctx = EVP_DigestInit_ex hp type k EVP_MD_CTX_init"

text \<open>An update of a context without a digest reads through NULL; nothing is modelled there.\<close>

definition EVP_DigestUpdate :: "'s md_ctx \<Rightarrow> bytes \<Rightarrow> bool \<times> 's md_ctx" where
  "EVP_DigestUpdate ctx data =
     (case (digest ctx, md_data ctx) of
        (Some md, Some s) \<Rightarrow> (True, ctx\<lparr>md_data := Some (md_update md s data)\<rparr>)
      | _ \<Rightarrow> (False, ctx))"

text \<open>The digest written, its size, and the context with its state cleansed.\<close>

definition EVP_DigestFinal_ex :: "'s md_ctx \<Rightarrow> (bytes \<times> nat) option \<times> 's md_ctx" where
  "EVP_DigestFinal_ex ctx =
     (case (digest ctx, md_data ctx) of
        (Some md, Some s) \<Rightarrow>
          (Some (fst (md_final md s), md_size md), ctx\<lparr>md_data := Some (md_cleansed md)\<rparr>)
      | _ \<Rightarrow> (None, ctx))"

definition EVP_DigestFinal :: "'s md_ctx \<Rightarrow> (bytes \<times> nat) option \<times> 's md_ctx" where
  "EVP_DigestFinal ctx = (let (r, ctx) = EVP_DigestFinal_ex ctx in (r, EVP_MD_CTX_cleanup ctx))"

definition EVP_MD_CTX_copy_ex :: "'s md_heap \<Rightarrow> 's md_ctx \<Rightarrow> 's md_ctx md_run" where
  "EVP_MD_CTX_copy_ex hp inp k out =
     (if digest inp = None then (False, k, out)
      else if \<not> same_digest (digest out) (digest inp) then
        if \<not> md_alloc hp k then (False, Suc k, out)
        else (True, Suc k, \<lparr>digest = digest inp, md_data = md_data inp\<rparr>)
      else (True, k, \<lparr>digest = digest inp, md_data = md_data inp\<rparr>))"

definition EVP_MD_CTX_copy :: "'s md_heap \<Rightarrow> 's md_ctx \<Rightarrow> 's md_ctx md_run" where
  "EVP_MD_CTX_copy hp inp k out = EVP_MD_CTX_copy_ex hp inp k EVP_MD_CTX_init"

definition EVP_Digest :: "'s md_heap \<Rightarrow> nat \<Rightarrow> 's evp_md \<Rightarrow> bytes \<Rightarrow> (bytes \<times> nat) option" where
  "EVP_Digest hp k type data =
     (case EVP_DigestInit_ex hp type k EVP_MD_CTX_init of
        (False, _, _) \<Rightarrow> None
      | (True, _, ctx) \<Rightarrow>
          (case EVP_DigestUpdate ctx data of
             (False, _) \<Rightarrow> None
           | (True, ctx) \<Rightarrow> fst (EVP_DigestFinal_ex ctx)))"

subsection \<open>The digests\<close>

text \<open>
  The state functions ignore the results of the hash functions (\<open>CHECK\<close> asserts them); a final
  that fails writes nothing.
\<close>

definition sha512_cleansed :: sha512_ctx where
  "sha512_cleansed = \<lparr>sha_h = replicate 8 0, sha_Nl = 0, sha_Nh = 0, sha_p = replicate 128 0,
                      sha_num = 0, sha_md_len = 0\<rparr>"

definition sha512_final :: "sha512_ctx \<Rightarrow> bytes \<times> sha512_ctx" where
  "sha512_final c = (case SHA512_Final c of (out, c) \<Rightarrow> (case out of None \<Rightarrow> [] | Some d \<Rightarrow> d, c))"

definition sha384_final :: "sha512_ctx \<Rightarrow> bytes \<times> sha512_ctx" where
  "sha384_final c = (case SHA384_Final c of (out, c) \<Rightarrow> (case out of None \<Rightarrow> [] | Some d \<Rightarrow> d, c))"

definition EVP_sha384 :: "sha512_ctx evp_md" where
  "EVP_sha384 = \<lparr>md_type = 673, md_size = 48, md_init = SHA384_Init, md_update = SHA384_Update,
                 md_final = sha384_final, md_cleansed = sha512_cleansed, md_block_size = 128\<rparr>"

definition EVP_sha512 :: "sha512_ctx evp_md" where
  "EVP_sha512 = \<lparr>md_type = 674, md_size = 64, md_init = SHA512_Init, md_update = SHA512_Update,
                 md_final = sha512_final, md_cleansed = sha512_cleansed, md_block_size = 128\<rparr>"

subsection \<open>The contract of a digest\<close>

text \<open>
  \<open>H\<close> is the hash function, \<open>repr m s\<close> says that the state \<open>s\<close> has taken in \<open>m\<close>, \<open>wf\<close> that the
  block of memory has the shape of a state.
\<close>

locale digest_contract =
  fixes md :: "'s evp_md" and H :: "bytes \<Rightarrow> bytes" and repr :: "bytes \<Rightarrow> 's \<Rightarrow> bool" and wf :: "'s \<Rightarrow> bool"
  assumes init: "wf s \<Longrightarrow> repr [] (md_init md s)"
    and update: "repr m s \<Longrightarrow> length d < 2 ^ 64 \<Longrightarrow> repr (m @ d) (md_update md s d)"
    and final: "repr m s \<Longrightarrow> fst (md_final md s) = H m"
    and repr_wf: "repr m s \<Longrightarrow> wf s"
    and cleansed: "wf (md_cleansed md)"
    and length_H: "length (H m) = md_size md"
    and size: "0 < md_size md" "md_size md \<le> 64"
    and block_size: "md_size md \<le> md_block_size md" "md_block_size md \<le> 128"
begin

definition ctx_has :: "bytes \<Rightarrow> 's md_ctx \<Rightarrow> bool" where
  "ctx_has m ctx \<longleftrightarrow> digest ctx = Some md \<and> (\<exists>s. md_data ctx = Some s \<and> repr m s)"

definition ctx_idle :: "'s md_ctx \<Rightarrow> bool" where
  "ctx_idle ctx \<longleftrightarrow> digest ctx = Some md \<and> (\<exists>s. md_data ctx = Some s \<and> wf s)"

definition good :: "'s md_heap \<Rightarrow> bool" where
  "good hp \<longleftrightarrow> (\<forall>k. md_alloc hp k \<and> wf (md_junk hp k))"

lemma has_idle: "ctx_has m ctx \<Longrightarrow> ctx_idle ctx"
  using repr_wf by (auto simp: ctx_has_def ctx_idle_def)

lemma init_fresh:
  "good hp \<Longrightarrow> \<exists>ctx'. EVP_DigestInit_ex hp md k EVP_MD_CTX_init = (True, Suc k, ctx') \<and> ctx_has [] ctx'"
  by (simp add: EVP_DigestInit_ex_def EVP_MD_CTX_init_def same_digest_def good_def ctx_has_def init)

lemma init_again:
  "ctx_idle ctx \<Longrightarrow> \<exists>ctx'. EVP_DigestInit_ex hp md k ctx = (True, k, ctx') \<and> ctx_has [] ctx'"
  by (auto simp: EVP_DigestInit_ex_def same_digest_def ctx_idle_def ctx_has_def init)

lemma update_has:
  "ctx_has m ctx \<Longrightarrow> length d < 2 ^ 64 \<Longrightarrow> \<exists>ctx'. EVP_DigestUpdate ctx d = (True, ctx') \<and> ctx_has (m @ d) ctx'"
  by (auto simp: EVP_DigestUpdate_def ctx_has_def update)

lemma final_has:
  "ctx_has m ctx \<Longrightarrow> \<exists>ctx'. EVP_DigestFinal_ex ctx = (Some (H m, md_size md), ctx') \<and> ctx_idle ctx'"
  by (auto simp: EVP_DigestFinal_ex_def ctx_has_def ctx_idle_def final cleansed)

lemma copy_fresh:
  "good hp \<Longrightarrow> ctx_has m inp \<Longrightarrow>
   \<exists>out'. EVP_MD_CTX_copy_ex hp inp k EVP_MD_CTX_init = (True, Suc k, out') \<and> ctx_has m out'"
  by (auto simp: EVP_MD_CTX_copy_ex_def EVP_MD_CTX_init_def same_digest_def good_def ctx_has_def)

lemma copy_again:
  "ctx_idle out \<Longrightarrow> ctx_has m inp \<Longrightarrow> \<exists>out'. EVP_MD_CTX_copy_ex hp inp k out = (True, k, out') \<and> ctx_has m out'"
  by (auto simp: EVP_MD_CTX_copy_ex_def same_digest_def ctx_has_def ctx_idle_def)

lemma one_shot: "good hp \<Longrightarrow> length data < 2 ^ 64 \<Longrightarrow> EVP_Digest hp k md data = Some (H data, md_size md)"
  using init_fresh [of hp k] update_has [of "[]" _ data] final_has [of data]
  by (fastforce simp: EVP_Digest_def)

end

definition sha_wf :: "sha512_ctx \<Rightarrow> bool" where
  "sha_wf c \<longleftrightarrow> length (sha_p c) = 128"

lemma absorbed_wf: "absorbed iv m c \<Longrightarrow> sha_wf c"
  by (simp add: absorbed_def sha_wf_def)

interpretation sha512: digest_contract EVP_sha512 sha512_hash
  "\<lambda>m c. absorbed sha512_iv m c \<and> sha_md_len c = 64" sha_wf
proof unfold_locales
  fix m and s :: sha512_ctx
  show "sha_wf s \<Longrightarrow> absorbed sha512_iv [] (md_init EVP_sha512 s) \<and> sha_md_len (md_init EVP_sha512 s) = 64"
    using init_absorbs(1) [of s] by (simp add: EVP_sha512_def sha_wf_def init_h init_md_len)
  show "absorbed sha512_iv m s \<and> sha_md_len s = 64 \<Longrightarrow> fst (md_final EVP_sha512 s) = sha512_hash m"
    using final_digest [of sha512_iv m s 8]
    by (auto simp: EVP_sha512_def sha512_final_def sha512_hash_def split: prod.splits)
qed (auto simp: EVP_sha512_def update_absorbs sha512_cleansed_def length_hash sha_wf_def
    intro: absorbed_wf [unfolded sha_wf_def])

interpretation sha384: digest_contract EVP_sha384 sha384_hash
  "\<lambda>m c. absorbed sha384_iv m c \<and> sha_md_len c = 48" sha_wf
proof unfold_locales
  fix m and s :: sha512_ctx
  show "sha_wf s \<Longrightarrow> absorbed sha384_iv [] (md_init EVP_sha384 s) \<and> sha_md_len (md_init EVP_sha384 s) = 48"
    using init_absorbs(2) [of s] by (simp add: EVP_sha384_def sha_wf_def init_h init_md_len)
  show "absorbed sha384_iv m s \<and> sha_md_len s = 48 \<Longrightarrow> fst (md_final EVP_sha384 s) = sha384_hash m"
    using final_digest [of sha384_iv m s 6]
    by (auto simp: EVP_sha384_def sha384_final_def SHA384_Final_def sha384_hash_def split: prod.splits)
qed (auto simp: EVP_sha384_def SHA384_Update_def update_absorbs sha512_cleansed_def length_hash sha_wf_def
    intro: absorbed_wf [unfolded sha_wf_def])

end
