(* ===== verification/Hmac.thy ===== *)
theory Hmac
  imports Digest
begin

section \<open>HMAC (crypto/fipsmodule/hmac/hmac.c)\<close>

text \<open>
  The keyed context with its three digest contexts, and the proof that init, update and final
  compute RFC 2104 over any digest that keeps its contract; re-initialising without a key
  rewinds to the keyed state.
\<close>

subsection \<open>State and operations\<close>

record 's hmac_ctx =
  hmac_md :: "'s evp_md option"
  hmac_md_ctx :: "'s md_ctx"
  hmac_i_ctx :: "'s md_ctx"
  hmac_o_ctx :: "'s md_ctx"

definition HMAC_CTX_init :: "'s hmac_ctx" where
  "HMAC_CTX_init = \<lparr>hmac_md = None, hmac_md_ctx = EVP_MD_CTX_init, hmac_i_ctx = EVP_MD_CTX_init,
                    hmac_o_ctx = EVP_MD_CTX_init\<rparr>"

definition HMAC_CTX_cleanup :: "'s hmac_ctx \<Rightarrow> 's hmac_ctx" where
  "HMAC_CTX_cleanup ctx = HMAC_CTX_init"

definition EVP_MAX_MD_BLOCK_SIZE :: nat where "EVP_MAX_MD_BLOCK_SIZE = 128"

text \<open>The key block: a long key is hashed, a short one copied, and both padded with zeros.\<close>

definition hmac_key_block ::
    "'s md_heap \<Rightarrow> 's evp_md \<Rightarrow> bytes \<Rightarrow> nat \<Rightarrow> 's md_ctx \<Rightarrow> bytes option \<times> nat \<times> 's md_ctx" where
  "hmac_key_block hp md key k ctx =
     (let pad = (\<lambda>b. b @ replicate (EVP_MAX_MD_BLOCK_SIZE - length b) 0) in
      if md_block_size md < length key then
        (case EVP_DigestInit_ex hp md k ctx of
           (False, k, ctx) \<Rightarrow> (None, k, ctx)
         | (True, k, ctx) \<Rightarrow>
        (case EVP_DigestUpdate ctx key of
           (False, ctx) \<Rightarrow> (None, k, ctx)
         | (True, ctx) \<Rightarrow>
        (case EVP_DigestFinal_ex ctx of
           (None, ctx) \<Rightarrow> (None, k, ctx)
         | (Some (d, key_block_len), ctx) \<Rightarrow> (Some (pad (take key_block_len d)), k, ctx))))
      else (Some (pad key), k, ctx))"

text \<open>One of the two keyed contexts: the pad is the key block xored with a constant.\<close>

definition hmac_pad_ctx ::
    "'s md_heap \<Rightarrow> 's evp_md \<Rightarrow> byte \<Rightarrow> bytes \<Rightarrow> 's md_ctx md_run" where
  "hmac_pad_ctx hp md x key_block k ctx =
     (let pad = map (\<lambda>b. x XOR b) key_block in
      case EVP_DigestInit_ex hp md k ctx of
        (False, k, ctx) \<Rightarrow> (False, k, ctx)
      | (True, k, ctx) \<Rightarrow>
          (case EVP_DigestUpdate ctx (take (md_block_size md) pad) of (ok, ctx) \<Rightarrow> (ok, k, ctx)))"

definition hmac_set_key :: "'s md_heap \<Rightarrow> 's evp_md \<Rightarrow> bytes \<Rightarrow> 's hmac_ctx md_run" where
  "hmac_set_key hp md key k ctx =
     (case hmac_key_block hp md key k (hmac_md_ctx ctx) of
        (None, k, c) \<Rightarrow> (False, k, ctx\<lparr>hmac_md_ctx := c\<rparr>)
      | (Some key_block, k, c) \<Rightarrow>
     (let ctx = ctx\<lparr>hmac_md_ctx := c\<rparr> in
      case hmac_pad_ctx hp md 0x36 key_block k (hmac_i_ctx ctx) of
        (False, k, c) \<Rightarrow> (False, k, ctx\<lparr>hmac_i_ctx := c\<rparr>)
      | (True, k, c) \<Rightarrow>
     (let ctx = ctx\<lparr>hmac_i_ctx := c\<rparr> in
      case hmac_pad_ctx hp md 0x5c key_block k (hmac_o_ctx ctx) of
        (False, k, c) \<Rightarrow> (False, k, ctx\<lparr>hmac_o_ctx := c\<rparr>)
      | (True, k, c) \<Rightarrow> (True, k, ctx\<lparr>hmac_o_ctx := c, hmac_md := Some md\<rparr>))))"

text \<open>
  A NULL key or a NULL digest is \<open>None\<close>. Keying with no digest at all would read through NULL
  and is left as a failure.
\<close>

definition HMAC_Init_ex :: "'s md_heap \<Rightarrow> bytes option \<Rightarrow> 's evp_md option \<Rightarrow> 's hmac_ctx md_run" where
  "HMAC_Init_ex hp key md k ctx =
     (let md = (if md = None then hmac_md ctx else md);
          copy = (\<lambda>k ctx. case EVP_MD_CTX_copy_ex hp (hmac_i_ctx ctx) k (hmac_md_ctx ctx) of
                            (ok, k, c) \<Rightarrow> (ok, k, ctx\<lparr>hmac_md_ctx := c\<rparr>)) in
      if \<not> same_digest md (hmac_md ctx) \<or> key \<noteq> None then
        (case md of
           None \<Rightarrow> (False, k, ctx)
         | Some md \<Rightarrow>
             (case hmac_set_key hp md (case key of None \<Rightarrow> [] | Some b \<Rightarrow> b) k ctx of
                (False, k, ctx) \<Rightarrow> (False, k, ctx)
              | (True, k, ctx) \<Rightarrow> copy k ctx))
      else copy k ctx)"

definition HMAC_Update :: "'s hmac_ctx \<Rightarrow> bytes \<Rightarrow> bool \<times> 's hmac_ctx" where
  "HMAC_Update ctx data =
     (case EVP_DigestUpdate (hmac_md_ctx ctx) data of (ok, c) \<Rightarrow> (ok, ctx\<lparr>hmac_md_ctx := c\<rparr>))"

definition HMAC_Final :: "'s md_heap \<Rightarrow> nat \<Rightarrow> 's hmac_ctx \<Rightarrow> bytes option \<times> nat \<times> 's hmac_ctx" where
  "HMAC_Final hp k ctx =
     (case EVP_DigestFinal_ex (hmac_md_ctx ctx) of
        (None, c) \<Rightarrow> (None, k, ctx\<lparr>hmac_md_ctx := c\<rparr>)
      | (Some (buf, i), c) \<Rightarrow>
     (case EVP_MD_CTX_copy_ex hp (hmac_o_ctx ctx) k c of
        (False, k, c) \<Rightarrow> (None, k, ctx\<lparr>hmac_md_ctx := c\<rparr>)
      | (True, k, c) \<Rightarrow>
     (case EVP_DigestUpdate c (take i buf) of
        (False, c) \<Rightarrow> (None, k, ctx\<lparr>hmac_md_ctx := c\<rparr>)
      | (True, c) \<Rightarrow>
     (case EVP_DigestFinal_ex c of
        (None, c) \<Rightarrow> (None, k, ctx\<lparr>hmac_md_ctx := c\<rparr>)
      | (Some (out, _), c) \<Rightarrow> (Some out, k, ctx\<lparr>hmac_md_ctx := c\<rparr>)))))"

definition HMAC :: "'s md_heap \<Rightarrow> nat \<Rightarrow> 's evp_md \<Rightarrow> bytes \<Rightarrow> bytes \<Rightarrow> bytes option" where
  "HMAC hp k evp_md key data =
     (case HMAC_Init_ex hp (Some key) (Some evp_md) k HMAC_CTX_init of
        (False, _, _) \<Rightarrow> None
      | (True, k, ctx) \<Rightarrow>
          (case HMAC_Update ctx data of
             (False, _) \<Rightarrow> None
           | (True, ctx) \<Rightarrow> fst (HMAC_Final hp k ctx)))"

definition HMAC_CTX_copy_ex :: "'s md_heap \<Rightarrow> 's hmac_ctx \<Rightarrow> 's hmac_ctx md_run" where
  "HMAC_CTX_copy_ex hp src k dest =
     (case EVP_MD_CTX_copy_ex hp (hmac_i_ctx src) k (hmac_i_ctx dest) of
        (False, k, c) \<Rightarrow> (False, k, dest\<lparr>hmac_i_ctx := c\<rparr>)
      | (True, k, c) \<Rightarrow>
     (let dest = dest\<lparr>hmac_i_ctx := c\<rparr> in
      case EVP_MD_CTX_copy_ex hp (hmac_o_ctx src) k (hmac_o_ctx dest) of
        (False, k, c) \<Rightarrow> (False, k, dest\<lparr>hmac_o_ctx := c\<rparr>)
      | (True, k, c) \<Rightarrow>
     (let dest = dest\<lparr>hmac_o_ctx := c\<rparr> in
      case EVP_MD_CTX_copy_ex hp (hmac_md_ctx src) k (hmac_md_ctx dest) of
        (False, k, c) \<Rightarrow> (False, k, dest\<lparr>hmac_md_ctx := c\<rparr>)
      | (True, k, c) \<Rightarrow> (True, k, dest\<lparr>hmac_md_ctx := c, hmac_md := hmac_md src\<rparr>))))"

definition HMAC_CTX_reset :: "'s hmac_ctx \<Rightarrow> 's hmac_ctx" where
  "HMAC_CTX_reset ctx = HMAC_CTX_init"

definition HMAC_CTX_copy :: "'s md_heap \<Rightarrow> 's hmac_ctx \<Rightarrow> 's hmac_ctx md_run" where
  "HMAC_CTX_copy hp src k dest = HMAC_CTX_copy_ex hp src k HMAC_CTX_init"

subsection \<open>RFC 2104\<close>

text \<open>The key block and the two hashes, for a hash function \<open>H\<close> with blocks of \<open>B\<close> bytes.\<close>

definition hmac_key :: "(bytes \<Rightarrow> bytes) \<Rightarrow> nat \<Rightarrow> bytes \<Rightarrow> bytes" where
  "hmac_key H B key = (let key = (if B < length key then H key else key) in key @ replicate (B - length key) 0)"

definition hmac_spec :: "(bytes \<Rightarrow> bytes) \<Rightarrow> nat \<Rightarrow> bytes \<Rightarrow> bytes \<Rightarrow> bytes" where
  "hmac_spec H B key m =
     H (map (\<lambda>b. 0x5c XOR b) (hmac_key H B key) @ H (map (\<lambda>b. 0x36 XOR b) (hmac_key H B key) @ m))"

context digest_contract begin

abbreviation ipad :: "bytes \<Rightarrow> bytes" where
  "ipad key \<equiv> map (\<lambda>b. 0x36 XOR b) (hmac_key H (md_block_size md) key)"

abbreviation opad :: "bytes \<Rightarrow> bytes" where
  "opad key \<equiv> map (\<lambda>b. 0x5c XOR b) (hmac_key H (md_block_size md) key)"

text \<open>Keyed; ready to take in data; having taken in \<open>m\<close>.\<close>

definition keyed :: "bytes \<Rightarrow> 's hmac_ctx \<Rightarrow> bool" where
  "keyed key ctx \<longleftrightarrow> hmac_md ctx = Some md \<and> ctx_has (ipad key) (hmac_i_ctx ctx) \<and>
     ctx_has (opad key) (hmac_o_ctx ctx) \<and> ctx_idle (hmac_md_ctx ctx)"

definition taking :: "bytes \<Rightarrow> bytes \<Rightarrow> 's hmac_ctx \<Rightarrow> bool" where
  "taking key m ctx \<longleftrightarrow> keyed key ctx \<and> ctx_has (ipad key @ m) (hmac_md_ctx ctx)"

lemma key_block_ok:
  assumes g: "good hp" and len: "length key < 2 ^ 64" and c: "ctx = EVP_MD_CTX_init \<or> ctx_idle ctx"
  shows "\<exists>kb k' ctx'. hmac_key_block hp md key k ctx = (Some kb, k', ctx') \<and>
     take (md_block_size md) kb = hmac_key H (md_block_size md) key \<and>
     (ctx' = EVP_MD_CTX_init \<or> ctx_idle ctx')"
proof (cases "md_block_size md < length key")
  case True
  obtain k1 c1 where 1: "EVP_DigestInit_ex hp md k ctx = (True, k1, c1)" "ctx_has [] c1"
    using c init_fresh [OF g, of k] init_again [of ctx hp k] by blast
  obtain c2 where 2: "EVP_DigestUpdate c1 key = (True, c2)" "ctx_has key c2"
    using update_has [OF 1(2) len] by auto
  obtain c3 where 3: "EVP_DigestFinal_ex c2 = (Some (H key, md_size md), c3)" "ctx_idle c3"
    using final_has [OF 2(2)] by blast
  show ?thesis using True 1 2 3 block_size length_H
    by (simp add: hmac_key_block_def Let_def hmac_key_def EVP_MAX_MD_BLOCK_SIZE_def min_def)
next
  case False
  then show ?thesis using c block_size
    by (simp add: hmac_key_block_def Let_def hmac_key_def EVP_MAX_MD_BLOCK_SIZE_def min_def)
qed

lemma pad_ctx_ok:
  assumes g: "good hp" and c: "ctx = EVP_MD_CTX_init \<or> ctx_idle ctx"
  shows "\<exists>k' ctx'. hmac_pad_ctx hp md x kb k ctx = (True, k', ctx') \<and>
     ctx_has (map (\<lambda>b. x XOR b) (take (md_block_size md) kb)) ctx'"
proof -
  obtain k1 c1 where 1: "EVP_DigestInit_ex hp md k ctx = (True, k1, c1)" "ctx_has [] c1"
    using c init_fresh [OF g, of k] init_again [of ctx hp k] by blast
  let ?p = "take (md_block_size md) (map (\<lambda>b. x XOR b) kb)"
  have "length ?p \<le> 128" using block_size by simp
  then have "length ?p < 2 ^ 64" by (rule order_le_less_trans) simp
  from update_has [OF 1(2) this] 1 show ?thesis by (auto simp: hmac_pad_ctx_def Let_def take_map)
qed

text \<open>A context that keying accepts: fresh, or used with this digest before.\<close>

definition keyable :: "'s hmac_ctx \<Rightarrow> bool" where
  "keyable ctx \<longleftrightarrow> (\<forall>c \<in> {hmac_md_ctx ctx, hmac_i_ctx ctx, hmac_o_ctx ctx}. c = EVP_MD_CTX_init \<or> ctx_idle c)"

lemma set_key_ok:
  assumes g: "good hp" and len: "length key < 2 ^ 64" and c: "keyable ctx"
  shows "\<exists>k' ctx'. hmac_set_key hp md key k ctx = (True, k', ctx') \<and> hmac_md ctx' = Some md \<and>
     ctx_has (ipad key) (hmac_i_ctx ctx') \<and> ctx_has (opad key) (hmac_o_ctx ctx') \<and>
     (hmac_md_ctx ctx' = EVP_MD_CTX_init \<or> ctx_idle (hmac_md_ctx ctx'))"
proof -
  obtain kb k1 c1 where 1: "hmac_key_block hp md key k (hmac_md_ctx ctx) = (Some kb, k1, c1)"
    "take (md_block_size md) kb = hmac_key H (md_block_size md) key" "c1 = EVP_MD_CTX_init \<or> ctx_idle c1"
    using key_block_ok [OF g len, of "hmac_md_ctx ctx" k] c by (auto simp: keyable_def)
  obtain k2 c2 where 2: "hmac_pad_ctx hp md 0x36 kb k1 (hmac_i_ctx ctx) = (True, k2, c2)" "ctx_has (ipad key) c2"
    using pad_ctx_ok [OF g, of "hmac_i_ctx ctx" "0x36" kb k1] c by (auto simp: keyable_def 1(2))
  obtain k3 c3 where 3: "hmac_pad_ctx hp md 0x5c kb k2 (hmac_o_ctx ctx) = (True, k3, c3)" "ctx_has (opad key) c3"
    using pad_ctx_ok [OF g, of "hmac_o_ctx ctx" "0x5c" kb k2] c by (auto simp: keyable_def 1(2))
  show ?thesis using 1 2 3 by (simp add: hmac_set_key_def Let_def)
qed

lemma copy_ok:
  assumes "good hp" and "ctx_has m inp" and "out = EVP_MD_CTX_init \<or> ctx_idle out"
  shows "\<exists>k' out'. EVP_MD_CTX_copy_ex hp inp k out = (True, k', out') \<and> ctx_has m out'"
  using assms copy_fresh [of hp m inp k] copy_again [of out m inp hp k] by blast

lemma init_key_ok:
  assumes g: "good hp" and len: "length key < 2 ^ 64" and c: "keyable ctx"
  shows "\<exists>k' ctx'. HMAC_Init_ex hp (Some key) (Some md) k ctx = (True, k', ctx') \<and> taking key [] ctx'"
proof -
  obtain k1 ctx1 where 1: "hmac_set_key hp md key k ctx = (True, k1, ctx1)" "hmac_md ctx1 = Some md"
    "ctx_has (ipad key) (hmac_i_ctx ctx1)" "ctx_has (opad key) (hmac_o_ctx ctx1)"
    "hmac_md_ctx ctx1 = EVP_MD_CTX_init \<or> ctx_idle (hmac_md_ctx ctx1)"
    using set_key_ok [OF g len c] by blast
  obtain k2 c2 where 2: "EVP_MD_CTX_copy_ex hp (hmac_i_ctx ctx1) k1 (hmac_md_ctx ctx1) = (True, k2, c2)"
    "ctx_has (ipad key) c2"
    using copy_ok [OF g 1(3,5)] by blast
  show ?thesis using 1 2 has_idle [OF 2(2)] by (simp add: HMAC_Init_ex_def taking_def keyed_def)
qed

text \<open>Without a key: back to the keyed state.\<close>

lemma rewind_ok:
  assumes "keyed key ctx"
  shows "\<exists>ctx'. HMAC_Init_ex hp None None k ctx = (True, k, ctx') \<and> taking key [] ctx'"
proof -
  from assms obtain c where "EVP_MD_CTX_copy_ex hp (hmac_i_ctx ctx) k (hmac_md_ctx ctx) = (True, k, c)"
    "ctx_has (ipad key) c"
    using copy_again [of "hmac_md_ctx ctx" "ipad key" "hmac_i_ctx ctx" hp k] by (auto simp: keyed_def)
  with assms has_idle show ?thesis
    by (auto simp: HMAC_Init_ex_def same_digest_def taking_def keyed_def)
qed

lemma hmac_update_ok:
  assumes "taking key m ctx" and "length d < 2 ^ 64"
  shows "\<exists>ctx'. HMAC_Update ctx d = (True, ctx') \<and> taking key (m @ d) ctx'"
  using assms update_has [of "ipad key @ m" "hmac_md_ctx ctx" d] has_idle
  by (auto simp: HMAC_Update_def taking_def keyed_def)

lemma hmac_final_ok:
  assumes "taking key m ctx"
  shows "\<exists>ctx'. HMAC_Final hp k ctx = (Some (hmac_spec H (md_block_size md) key m), k, ctx') \<and> keyed key ctx'"
proof -
  from assms obtain c1 where 1: "EVP_DigestFinal_ex (hmac_md_ctx ctx) = (Some (H (ipad key @ m), md_size md), c1)"
    "ctx_idle c1" using final_has by (fastforce simp: taking_def)
  from assms have o: "ctx_has (opad key) (hmac_o_ctx ctx)" by (simp add: taking_def keyed_def)
  obtain c2 where 2: "EVP_MD_CTX_copy_ex hp (hmac_o_ctx ctx) k c1 = (True, k, c2)" "ctx_has (opad key) c2"
    using copy_again [OF 1(2) o] by blast
  have "length (H (ipad key @ m)) < 2 ^ 64" using size length_H [of "ipad key @ m"] by simp
  from update_has [OF 2(2) this] obtain c3 where
    3: "EVP_DigestUpdate c2 (H (ipad key @ m)) = (True, c3)" "ctx_has (opad key @ H (ipad key @ m)) c3" by blast
  obtain c4 where 4: "EVP_DigestFinal_ex c3 = (Some (H (opad key @ H (ipad key @ m)), md_size md), c4)" "ctx_idle c4"
    using final_has [OF 3(2)] by blast
  show ?thesis using assms 1 2 3 4
    by (auto simp: HMAC_Final_def taking_def keyed_def hmac_spec_def length_H)
qed

lemma keyable_fresh: "keyable HMAC_CTX_init"
  by (simp add: keyable_def HMAC_CTX_init_def)

lemma hmac_one_shot:
  assumes "good hp" and "length key < 2 ^ 64" and "length data < 2 ^ 64"
  shows "HMAC hp k md key data = Some (hmac_spec H (md_block_size md) key data)"
proof -
  obtain k1 c1 where 1: "HMAC_Init_ex hp (Some key) (Some md) k HMAC_CTX_init = (True, k1, c1)" "taking key [] c1"
    using init_key_ok [OF assms(1,2) keyable_fresh] by blast
  obtain c2 where 2: "HMAC_Update c1 data = (True, c2)" "taking key data c2"
    using hmac_update_ok [OF 1(2) assms(3)] by auto
  show ?thesis using 1 2 hmac_final_ok [OF 2(2), of hp k1] by (auto simp: HMAC_def)
qed

lemma length_hmac [simp]: "length (hmac_spec H (md_block_size md) key m) = md_size md"
  by (simp add: hmac_spec_def length_H)

end

subsection \<open>Properties\<close>

text \<open>An allocator that never fails, and blocks of the right size.\<close>

definition heap_ok :: "sha512_ctx md_heap \<Rightarrow> bool" where
  "heap_ok hp \<longleftrightarrow> (\<forall>k. md_alloc hp k \<and> sha_wf (md_junk hp k))"

definition example_heap :: "sha512_ctx md_heap" where
  "example_heap = \<lparr>md_alloc = \<lambda>_. True, md_junk = \<lambda>_. example_sha\<rparr>"

lemma example_heap_ok: "heap_ok example_heap"
  by (simp add: heap_ok_def example_heap_def sha_wf_def example_sha_def)

lemma heap_ok_good: "heap_ok hp \<Longrightarrow> sha512.good hp" "heap_ok hp \<Longrightarrow> sha384.good hp"
  by (simp_all add: heap_ok_def sha512.good_def sha384.good_def)

text \<open>C6. \<open>HMAC\<close> with SHA-512 or SHA-384, memory permitting, returns RFC 2104's value for every key,
  longer or shorter than a block, and every message.\<close>

theorem HMAC_is_rfc2104:
  assumes "heap_ok hp" and "length key < 2 ^ 64" and "length data < 2 ^ 64"
  shows "HMAC hp k EVP_sha512 key data = Some (hmac_spec sha512_hash 128 key data) \<and>
    HMAC hp k EVP_sha384 key data = Some (hmac_spec sha384_hash 128 key data)"
  using sha512.hmac_one_shot [OF heap_ok_good(1) [OF assms(1)] assms(2,3), of k]
    sha384.hmac_one_shot [OF heap_ok_good(2) [OF assms(1)] assms(2,3), of k]
  by (simp add: EVP_sha512_def EVP_sha384_def)

theorem HMAC_is_rfc2104_witness:
  "HMAC example_heap 3 EVP_sha512 [1, 2] [3] = Some (hmac_spec sha512_hash 128 [1, 2] [3])"
  using HMAC_is_rfc2104 [OF example_heap_ok, of "[1, 2]" "[3]" 3] by simp

end
