(* ===== verification/Pbkdf.thy ===== *)
theory Pbkdf
  imports Hmac
begin

section \<open>PBKDF2 (crypto/evp/pbkdf.c)\<close>

text \<open>
  The key derivation of the wallet's passcode and mnemonic: the loops over the blocks and the
  iterations as they are, and the proof that they compute RFC 8018, section 5.2, over HMAC.
\<close>

subsection \<open>Operations\<close>

text \<open>The four stores into \<open>i_buf\<close>.\<close>

definition pbkdf2_i_buf :: "u32 \<Rightarrow> bytes" where
  "pbkdf2_i_buf i = [ucast (drop_bit 24 i AND 0xff), ucast (drop_bit 16 i AND 0xff),
                     ucast (drop_bit 8 i AND 0xff), ucast (i AND 0xff)]"

text \<open>
  The inner loop, by the number of iterations left: \<open>tmp\<close> is \<open>digest_tmp\<close>, \<open>blk\<close> the \<open>todo\<close>
  bytes at \<open>out_key\<close>. The third component of the result is what those bytes hold at the end.
\<close>

fun pbkdf2_iter ::
    "'s md_heap \<Rightarrow> nat \<Rightarrow> nat \<Rightarrow> bytes \<Rightarrow> bytes \<Rightarrow> nat \<Rightarrow> 's hmac_ctx \<Rightarrow> (bool \<times> bytes) \<times> nat \<times> 's hmac_ctx" where
  "pbkdf2_iter hp md_len 0 tmp blk k ctx = ((True, blk), k, ctx)"
| "pbkdf2_iter hp md_len (Suc n) tmp blk k ctx =
     (case HMAC_Init_ex hp None None k ctx of
        (False, k, ctx) \<Rightarrow> ((False, blk), k, ctx)
      | (True, k, ctx) \<Rightarrow>
     (case HMAC_Update ctx (take md_len tmp) of
        (False, ctx) \<Rightarrow> ((False, blk), k, ctx)
      | (True, ctx) \<Rightarrow>
     (case HMAC_Final hp k ctx of
        (None, k, ctx) \<Rightarrow> ((False, blk), k, ctx)
      | (Some tmp, k, ctx) \<Rightarrow>
          pbkdf2_iter hp md_len n tmp (map2 (XOR) blk (take (length blk) tmp)) k ctx)))"

text \<open>One round of the outer loop; \<open>None\<close> is a failure before \<open>out_key\<close> is written.\<close>

definition pbkdf2_block ::
    "'s md_heap \<Rightarrow> nat \<Rightarrow> bytes \<Rightarrow> u32 \<Rightarrow> u32 \<Rightarrow> nat \<Rightarrow> nat \<Rightarrow> 's hmac_ctx \<Rightarrow>
     (bool \<times> bytes option) \<times> nat \<times> 's hmac_ctx" where
  "pbkdf2_block hp md_len salt iterations i todo k ctx =
     (case HMAC_Init_ex hp None None k ctx of
        (False, k, ctx) \<Rightarrow> ((False, None), k, ctx)
      | (True, k, ctx) \<Rightarrow>
     (case HMAC_Update ctx salt of
        (False, ctx) \<Rightarrow> ((False, None), k, ctx)
      | (True, ctx) \<Rightarrow>
     (case HMAC_Update ctx (pbkdf2_i_buf i) of
        (False, ctx) \<Rightarrow> ((False, None), k, ctx)
      | (True, ctx) \<Rightarrow>
     (case HMAC_Final hp k ctx of
        (None, k, ctx) \<Rightarrow> ((False, None), k, ctx)
      | (Some tmp, k, ctx) \<Rightarrow>
     (case pbkdf2_iter hp md_len (unat iterations - 1) tmp (take todo tmp) k ctx of
        ((ok, blk), k, ctx) \<Rightarrow> ((ok, Some blk), k, ctx))))))"

text \<open>
  The outer loop, on fuel: a digest of no bytes would make the code loop for ever, and any
  other digest makes progress, so that one unit of fuel per byte of the key is enough. \<open>pos\<close>
  is how far \<open>out_key\<close> has moved into the caller's buffer \<open>out\<close>.
\<close>

fun pbkdf2_blocks ::
    "nat \<Rightarrow> 's md_heap \<Rightarrow> nat \<Rightarrow> bytes \<Rightarrow> u32 \<Rightarrow> u32 \<Rightarrow> nat \<Rightarrow> bytes \<Rightarrow> nat \<Rightarrow> nat \<Rightarrow> 's hmac_ctx \<Rightarrow>
     (bool \<times> bytes) option" where
  "pbkdf2_blocks 0 hp md_len salt iterations i key_len out pos k ctx = None"
| "pbkdf2_blocks (Suc fuel) hp md_len salt iterations i key_len out pos k ctx =
     (if key_len = 0 then Some (True, out)
      else
        let todo = (if md_len > key_len then key_len else md_len) in
        case pbkdf2_block hp md_len salt iterations i todo k ctx of
          ((_, None), k, ctx) \<Rightarrow> Some (False, out)
        | ((False, Some blk), k, ctx) \<Rightarrow> Some (False, write_at out pos blk)
        | ((True, Some blk), k, ctx) \<Rightarrow>
            pbkdf2_blocks fuel hp md_len salt iterations (i + 1) (key_len - todo)
              (write_at out pos blk) (pos + todo) k ctx)"

text \<open>The return value and the caller's buffer, whose length is \<open>key_len\<close>.\<close>

definition PKCS5_PBKDF2_HMAC ::
    "'s md_heap \<Rightarrow> bytes \<Rightarrow> bytes \<Rightarrow> u32 \<Rightarrow> 's evp_md \<Rightarrow> bytes \<Rightarrow> (bool \<times> bytes) option" where
  "PKCS5_PBKDF2_HMAC hp password salt iterations md out_key =
     (case HMAC_Init_ex hp (Some password) (Some md) 0 HMAC_CTX_init of
        (False, _, _) \<Rightarrow> Some (False, out_key)
      | (True, k, ctx) \<Rightarrow>
          (case pbkdf2_blocks (Suc (length out_key)) hp (md_size md) salt iterations 1
                  (length out_key) out_key 0 k ctx of
             None \<Rightarrow> None
           | Some (False, out) \<Rightarrow> Some (False, out)
           | Some (True, out) \<Rightarrow> Some (if iterations = 0 then False else True, out)))"

subsection \<open>RFC 8018, section 5.2\<close>

fun pbkdf2_U :: "(bytes \<Rightarrow> bytes) \<Rightarrow> bytes \<Rightarrow> nat \<Rightarrow> bytes" where
  "pbkdf2_U mac s 0 = mac s"
| "pbkdf2_U mac s (Suc j) = mac (pbkdf2_U mac s j)"

fun pbkdf2_T :: "(bytes \<Rightarrow> bytes) \<Rightarrow> bytes \<Rightarrow> nat \<Rightarrow> bytes" where
  "pbkdf2_T mac s 0 = pbkdf2_U mac s 0"
| "pbkdf2_T mac s (Suc j) = map2 (XOR) (pbkdf2_T mac s j) (pbkdf2_U mac s (Suc j))"

text \<open>\<open>c\<close> iterations of block number \<open>i\<close>, and the blocks one after the other, cut to size.\<close>

definition pbkdf2_F :: "(bytes \<Rightarrow> bytes) \<Rightarrow> bytes \<Rightarrow> nat \<Rightarrow> nat \<Rightarrow> bytes" where
  "pbkdf2_F mac salt c i = pbkdf2_T mac (salt @ be_bytes 4 i) (c - 1)"

definition pbkdf2_count :: "nat \<Rightarrow> nat \<Rightarrow> nat" where
  "pbkdf2_count hlen dklen = (dklen + hlen - 1) div hlen"

definition pbkdf2_spec :: "(bytes \<Rightarrow> bytes) \<Rightarrow> nat \<Rightarrow> bytes \<Rightarrow> nat \<Rightarrow> nat \<Rightarrow> bytes" where
  "pbkdf2_spec mac hlen salt c dklen =
     take dklen (concat (map (pbkdf2_F mac salt c) [1..<Suc (pbkdf2_count hlen dklen)]))"

lemma i_buf_eq: "pbkdf2_i_buf (word_of_nat i) = be_bytes 4 i"
proof -
  have m: "ucast (x AND 0xff) = (ucast x :: byte)" for x :: u32
    unfolding and_ff_mask by (rule bit_word_eqI) (simp add: bit_simps)
  have b: "ucast (drop_bit n w AND 0xff) = (word_of_nat (unat w div 2 ^ n) :: byte)" for n and w :: u32
    unfolding m unat_drop_bit [symmetric] by simp
  have "pbkdf2_i_buf w = be_bytes 4 (unat w)" for w :: u32
  proof -
    have "pbkdf2_i_buf w = map (\<lambda>n. word_of_nat (unat w div 2 ^ n)) [24, 16, 8, 0]"
      unfolding pbkdf2_i_buf_def b list.map using b [of 0 w] by (simp only: drop_bit_0 id_apply)
    also have "\<dots> = map (\<lambda>i. word_of_nat (unat w div 256 ^ (4 - 1 - i))) [0, 1, 2, 3]"
      unfolding list.map by simp
    also have "[0, 1, 2, 3] = [0..<4]" by (simp add: upt_conv_Cons)
    finally show ?thesis by (simp only: be_bytes_map)
  qed
  moreover have "be_bytes 4 (unat (word_of_nat i :: u32)) = be_bytes 4 i"
    using be_bytes_mod [of 4 i] by (simp add: unat_of_nat)
  ultimately show ?thesis by simp
qed

context digest_contract begin

abbreviation mac :: "bytes \<Rightarrow> bytes \<Rightarrow> bytes" where
  "mac key \<equiv> hmac_spec H (md_block_size md) key"

lemma length_U: "length (pbkdf2_U (mac key) s j) = md_size md"
  by (cases j) simp_all

lemma length_T: "length (pbkdf2_T (mac key) s j) = md_size md"
  by (induction j) (simp_all add: length_U del: pbkdf2_U.simps)

lemma iter_ok:
  assumes "keyed key ctx" and "todo \<le> md_size md"
  shows "\<exists>ctx'. pbkdf2_iter hp (md_size md) n (pbkdf2_U (mac key) s j) (take todo (pbkdf2_T (mac key) s j)) k ctx
     = ((True, take todo (pbkdf2_T (mac key) s (j + n))), k, ctx') \<and> keyed key ctx'"
  using assms
proof (induction n arbitrary: j ctx)
  case (Suc n)
  let ?U = "pbkdf2_U (mac key) s" let ?T = "pbkdf2_T (mac key) s"
  obtain c1 where 1: "HMAC_Init_ex hp None None k ctx = (True, k, c1)" "taking key [] c1"
    using rewind_ok [OF Suc.prems(1)] by blast
  have "length (?U j) < 2 ^ 64" using size by (simp add: length_U)
  then obtain c2 where 2: "HMAC_Update c1 (?U j) = (True, c2)" "taking key (?U j) c2"
    using hmac_update_ok [OF 1(2)] by auto
  obtain c3 where 3: "HMAC_Final hp k c2 = (Some (?U (Suc j)), k, c3)" "keyed key c3"
    using hmac_final_ok [OF 2(2), of hp k] by auto
  have "map2 (XOR) (take todo (?T j)) (take todo (?U (Suc j))) = take todo (?T (Suc j))"
    by (simp add: take_map take_zip)
  moreover have "take (md_size md) (?U j) = ?U j" "length (take todo (?T j)) = todo"
    using Suc.prems(2) by (simp_all add: length_U length_T)
  ultimately have "pbkdf2_iter hp (md_size md) (Suc n) (?U j) (take todo (?T j)) k ctx
      = pbkdf2_iter hp (md_size md) n (?U (Suc j)) (take todo (?T (Suc j))) k c3"
    by (simp only: pbkdf2_iter.simps 1(1) 2(1) 3(1) prod.case bool.case option.case)
  then show ?case using Suc.IH [OF 3(2) Suc.prems(2), of "Suc j"] by simp
qed simp

lemma block_ok:
  assumes "keyed key ctx" and todo: "todo \<le> md_size md" and salt: "length salt < 2 ^ 64"
  shows "\<exists>ctx'. pbkdf2_block hp (md_size md) salt iterations (word_of_nat i) todo k ctx
     = ((True, Some (take todo (pbkdf2_F (mac key) salt (unat iterations) i))), k, ctx') \<and> keyed key ctx'"
proof -
  obtain c1 where 1: "HMAC_Init_ex hp None None k ctx = (True, k, c1)" "taking key [] c1"
    using rewind_ok [OF assms(1)] by blast
  obtain c2 where 2: "HMAC_Update c1 salt = (True, c2)" "taking key salt c2"
    using hmac_update_ok [OF 1(2) salt] by auto
  have "length (be_bytes 4 i) < 2 ^ 64" by simp
  then obtain c3 where 3: "HMAC_Update c2 (be_bytes 4 i) = (True, c3)" "taking key (salt @ be_bytes 4 i) c3"
    using hmac_update_ok [OF 2(2)] by blast
  let ?s = "salt @ be_bytes 4 i"
  obtain c4 where 4: "HMAC_Final hp k c3 = (Some (mac key ?s), k, c4)" "keyed key c4"
    using hmac_final_ok [OF 3(2), of hp k] by blast
  obtain c5 where "pbkdf2_iter hp (md_size md) (unat iterations - 1) (mac key ?s) (take todo (mac key ?s)) k c4
     = ((True, take todo (pbkdf2_F (mac key) salt (unat iterations) i)), k, c5)" "keyed key c5"
    using iter_ok [OF 4(2) todo, of hp "unat iterations - 1" ?s 0 k] by (auto simp: pbkdf2_F_def)
  then show ?thesis using 1(1) 2(1) 3(1) 4(1) by (simp add: pbkdf2_block_def i_buf_eq)
qed

lemma blocks_ok:
  assumes "keyed key ctx" and "length salt < 2 ^ 64" and "n < fuel" and "length out = pos + n"
  shows "pbkdf2_blocks fuel hp (md_size md) salt iterations (word_of_nat i) n out pos k ctx =
    Some (True, take pos out @
      take n (concat (map (pbkdf2_F (mac key) salt (unat iterations)) [i..<i + pbkdf2_count (md_size md) n])))"
  using assms
proof (induction fuel arbitrary: i n out pos ctx)
  case (Suc fuel)
  let ?h = "md_size md" let ?F = "pbkdf2_F (mac key) salt (unat iterations)"
  show ?case
  proof (cases "n = 0")
    case True
    then show ?thesis using Suc.prems(4) by simp
  next
    case False
    define todo where "todo = (if ?h > n then n else ?h)"
    have todo: "todo \<le> ?h" "0 < todo" "todo \<le> n" using size False by (simp_all add: todo_def)
    obtain c1 where 1: "pbkdf2_block hp ?h salt iterations (word_of_nat i) todo k ctx
        = ((True, Some (take todo (?F i))), k, c1)" "keyed key c1"
      using block_ok [OF Suc.prems(1) todo(1) Suc.prems(2)] by blast
    have lF: "length (?F j) = ?h" for j by (simp add: pbkdf2_F_def length_T)
    let ?out = "write_at out pos (take todo (?F i))"
    have "length ?out = length out" using Suc.prems(4) todo lF by simp
    moreover have "take (pos + todo) ?out = take pos out @ take todo (?F i)"
      using take_write_at [of pos out "take todo (?F i)"] Suc.prems(4) todo lF by simp
    moreover have i: "(word_of_nat i + 1 :: u32) = word_of_nat (Suc i)" by simp
    ultimately have "pbkdf2_blocks (Suc fuel) hp ?h salt iterations (word_of_nat i) n out pos k ctx =
      Some (True, take pos out @ take todo (?F i) @
        take (n - todo) (concat (map ?F [Suc i..<Suc i + pbkdf2_count ?h (n - todo)])))"
      using False 1 Suc.IH [OF 1(2) Suc.prems(2), of "n - todo" ?out "pos + todo" "Suc i"] Suc.prems(3,4) todo
      by (simp only: pbkdf2_blocks.simps Let_def todo_def [symmetric] i if_False prod.case option.case bool.case) simp
    moreover have "take n (concat (map ?F [i..<i + pbkdf2_count ?h n]))
        = take todo (?F i) @ take (n - todo) (concat (map ?F [Suc i..<Suc i + pbkdf2_count ?h (n - todo)]))"
    proof (cases "n \<le> ?h")
      case True
      then have "todo = n" by (simp add: todo_def)
      moreover have "pbkdf2_count ?h n = 1"
        using True False size by (simp add: pbkdf2_count_def div_nat_eqI)
      ultimately show ?thesis using lF True by simp
    next
      case big: False
      then have t: "todo = ?h" by (simp add: todo_def)
      have "n + ?h - 1 = (n - ?h + ?h - 1) + ?h" using big size by linarith
      moreover have "((n - ?h + ?h - 1) + ?h) div ?h = Suc ((n - ?h + ?h - 1) div ?h)"
        using size by (subst div_add_self2) simp_all
      ultimately have c: "pbkdf2_count ?h n = Suc (pbkdf2_count ?h (n - ?h))"
        unfolding pbkdf2_count_def by (rule ssubst)
      have u: "[i..<i + Suc m] = i # [Suc i..<Suc i + m]" for m
        using upt_conv_Cons [of i "i + Suc m"] by simp
      show ?thesis unfolding c t u list.map concat.simps take_append lF using big by (simp add: lF)
    qed
    ultimately show ?thesis by simp
  qed
qed simp

lemma pbkdf2_ok:
  assumes "good hp" and "length password < 2 ^ 64" and "length salt < 2 ^ 64"
  shows "PKCS5_PBKDF2_HMAC hp password salt iterations md out =
    Some (iterations \<noteq> 0, pbkdf2_spec (mac password) (md_size md) salt (unat iterations) (length out))"
proof -
  obtain k c where 1: "HMAC_Init_ex hp (Some password) (Some md) 0 HMAC_CTX_init = (True, k, c)"
    "taking password [] c"
    using init_key_ok [OF assms(1,2) keyable_fresh] by blast
  have "keyed password c" using 1(2) by (simp add: taking_def)
  then have "pbkdf2_blocks (Suc (length out)) hp (md_size md) salt iterations 1 (length out) out 0 k c
      = Some (True, pbkdf2_spec (mac password) (md_size md) salt (unat iterations) (length out))"
    using blocks_ok [of password c salt "length out" "Suc (length out)" out 0 hp iterations 1 k] assms(3)
    by (simp only: of_nat_1 take_0 append_Nil pbkdf2_spec_def plus_1_eq_Suc add_0 lessI)
  then show ?thesis using 1(1) by (simp add: PKCS5_PBKDF2_HMAC_def del: pbkdf2_blocks.simps)
qed

end

subsection \<open>Properties\<close>

text \<open>C2. \<open>PKCS5_PBKDF2_HMAC\<close> with SHA-512 returns, for a positive iteration count, success and
  exactly RFC 8018's derived key of the length asked for; the loops end with the fuel given.
  For a count of zero it reports failure and writes the key of one iteration.\<close>

theorem PBKDF2_is_rfc8018:
  assumes "heap_ok hp" and "length password < 2 ^ 64" and "length salt < 2 ^ 64"
  shows "PKCS5_PBKDF2_HMAC hp password salt iterations EVP_sha512 out =
    Some (iterations \<noteq> 0,
      pbkdf2_spec (hmac_spec sha512_hash 128 password) 64 salt (unat iterations) (length out))"
  using sha512.pbkdf2_ok [OF heap_ok_good(1) [OF assms(1)] assms(2,3)]
  by (simp add: EVP_sha512_def)

theorem PBKDF2_is_rfc8018_witness:
  "PKCS5_PBKDF2_HMAC example_heap [112] [115] 2 EVP_sha512 [0, 0, 0] =
    Some (True, pbkdf2_spec (hmac_spec sha512_hash 128 [112]) 64 [115] 2 3)"
  using PBKDF2_is_rfc8018 [OF example_heap_ok, of "[112]" "[115]" 2 "[0, 0, 0]"]
  by (simp add: numeral_3_eq_3)

end
