(* ===== verification/Ige.thy ===== *)
theory Ige
  imports Prelude
begin

section \<open>AES in IGE mode (crypto/fipsmodule/aes/aes_ige.c)\<close>

text \<open>
  Infinite garble extension, on blocks of sixteen bytes and any block cipher: \<open>E\<close> and \<open>D\<close> are
  \<open>AES_encrypt\<close> and \<open>AES_decrypt\<close> under a key. The code has a path for distinct, aligned
  buffers, which chains through pointers into the input and the output, and a path for every
  other case, the one the JNI functions take with \<open>in == out\<close>, which chains through copies.
\<close>

subsection \<open>Blocks\<close>

definition blk :: "nat \<Rightarrow> bytes \<Rightarrow> bytes" where
  "blk pos b = take 16 (drop pos b)"

definition xor_block :: "bytes \<Rightarrow> bytes \<Rightarrow> bytes" where
  "xor_block a b = map2 (XOR) a b"

subsection \<open>Chaining through copies\<close>

text \<open>\<open>inp = None\<close> says that \<open>in == out\<close>: the blocks are loaded from the buffer being written.\<close>

definition load_in :: "bytes option \<Rightarrow> bytes \<Rightarrow> nat \<Rightarrow> bytes" where
  "load_in inp out pos = blk pos (case inp of None \<Rightarrow> out | Some i \<Rightarrow> i)"

fun ige_copy_enc ::
    "(bytes \<Rightarrow> bytes) \<Rightarrow> bytes option \<Rightarrow> nat \<Rightarrow> nat \<Rightarrow> bytes \<Rightarrow> bytes \<Rightarrow> bytes \<Rightarrow> bytes \<times> bytes \<times> bytes" where
  "ige_copy_enc E inp 0 pos out iv iv2 = (out, iv, iv2)"
| "ige_copy_enc E inp (Suc len) pos out iv iv2 =
     (let tmp = load_in inp out pos;
          tmp2 = xor_block tmp iv;
          tmp2 = E tmp2;
          tmp2 = xor_block tmp2 iv2
      in ige_copy_enc E inp len (pos + 16) (write_at out pos tmp2) tmp2 tmp)"

fun ige_copy_dec ::
    "(bytes \<Rightarrow> bytes) \<Rightarrow> bytes option \<Rightarrow> nat \<Rightarrow> nat \<Rightarrow> bytes \<Rightarrow> bytes \<Rightarrow> bytes \<Rightarrow> bytes \<times> bytes \<times> bytes" where
  "ige_copy_dec D inp 0 pos out iv iv2 = (out, iv, iv2)"
| "ige_copy_dec D inp (Suc len) pos out iv iv2 =
     (let tmp = load_in inp out pos;
          tmp2 = tmp;
          tmp = xor_block tmp iv2;
          tmp = D tmp;
          tmp = xor_block tmp iv
      in ige_copy_dec D inp len (pos + 16) (write_at out pos tmp) tmp2 tmp)"

subsection \<open>Chaining through pointers\<close>

datatype blk_ptr = PIvec nat | PIn nat | POut nat

fun deref :: "bytes \<Rightarrow> bytes \<Rightarrow> bytes \<Rightarrow> blk_ptr \<Rightarrow> bytes" where
  "deref ivec inp out (PIvec k) = blk k ivec"
| "deref ivec inp out (PIn k) = blk k inp"
| "deref ivec inp out (POut k) = blk k out"

fun ige_ptr_enc ::
    "(bytes \<Rightarrow> bytes) \<Rightarrow> bytes \<Rightarrow> bytes \<Rightarrow> nat \<Rightarrow> nat \<Rightarrow> bytes \<Rightarrow> blk_ptr \<Rightarrow> blk_ptr \<Rightarrow> bytes \<times> blk_ptr \<times> blk_ptr" where
  "ige_ptr_enc E ivec inp 0 pos out ivp iv2p = (out, ivp, iv2p)"
| "ige_ptr_enc E ivec inp (Suc len) pos out ivp iv2p =
     (let out = write_at out pos (xor_block (blk pos inp) (deref ivec inp out ivp));
          out = write_at out pos (E (blk pos out));
          out = write_at out pos (xor_block (blk pos out) (deref ivec inp out iv2p))
      in ige_ptr_enc E ivec inp len (pos + 16) out (POut pos) (PIn pos))"

fun ige_ptr_dec ::
    "(bytes \<Rightarrow> bytes) \<Rightarrow> bytes \<Rightarrow> bytes \<Rightarrow> nat \<Rightarrow> nat \<Rightarrow> bytes \<Rightarrow> blk_ptr \<Rightarrow> blk_ptr \<Rightarrow> bytes \<times> blk_ptr \<times> blk_ptr" where
  "ige_ptr_dec D ivec inp 0 pos out ivp iv2p = (out, ivp, iv2p)"
| "ige_ptr_dec D ivec inp (Suc len) pos out ivp iv2p =
     (let tmp = xor_block (blk pos inp) (deref ivec inp out iv2p);
          out = write_at out pos (D tmp);
          out = write_at out pos (xor_block (blk pos out) (deref ivec inp out ivp))
      in ige_ptr_dec D ivec inp len (pos + 16) out (PIn pos) (POut pos))"

text \<open>
  The function: \<open>fast\<close> is what the alignment test says, \<open>length\<close> is a multiple of the block
  size (asserted). The result is the output buffer and the new IV.
\<close>

definition AES_ige_encrypt ::
    "(bytes \<Rightarrow> bytes) \<Rightarrow> (bytes \<Rightarrow> bytes) \<Rightarrow> bool \<Rightarrow> bytes option \<Rightarrow> bytes \<Rightarrow> nat \<Rightarrow> bytes \<Rightarrow> bool \<Rightarrow> bytes \<times> bytes" where
  "AES_ige_encrypt E D fast inp out len ivec enc =
     (let n = len div 16 in
      case (inp, fast) of
        (Some i, True) \<Rightarrow>
          (let (out, ivp, iv2p) =
             (if enc then ige_ptr_enc E ivec i n 0 out (PIvec 0) (PIvec 16)
              else ige_ptr_dec D ivec i n 0 out (PIvec 0) (PIvec 16))
           in (out, deref ivec i out ivp @ deref ivec i out iv2p))
      | _ \<Rightarrow>
          (let (out, iv, iv2) =
             (if enc then ige_copy_enc E inp n 0 out (blk 0 ivec) (blk 16 ivec)
              else ige_copy_dec D inp n 0 out (blk 0 ivec) (blk 16 ivec))
           in (out, iv @ iv2)))"

subsection \<open>The two-pass variant\<close>

text \<open>
  \<open>AES_bi_ige_encrypt\<close> with \<open>in != out\<close>: a pass over the input, then a pass back over the output
  with the other half of the four-block IV. Both passes use \<open>key\<close>; \<open>key2\<close> is never read.
\<close>

fun bi_enc_fwd :: "(bytes \<Rightarrow> bytes) \<Rightarrow> bytes \<Rightarrow> nat \<Rightarrow> nat \<Rightarrow> bytes \<Rightarrow> bytes \<Rightarrow> bytes \<Rightarrow> bytes" where
  "bi_enc_fwd E inp 0 pos out iv iv2 = out"
| "bi_enc_fwd E inp (Suc n) pos out iv iv2 =
     (let out = write_at out pos (xor_block (blk pos inp) iv);
          out = write_at out pos (E (blk pos out));
          out = write_at out pos (xor_block (blk pos out) iv2)
      in bi_enc_fwd E inp n (pos + 16) out (blk pos out) (blk pos inp))"

fun bi_enc_back :: "(bytes \<Rightarrow> bytes) \<Rightarrow> nat \<Rightarrow> bytes \<Rightarrow> bytes \<Rightarrow> bytes \<Rightarrow> bytes" where
  "bi_enc_back E 0 out iv iv2 = out"
| "bi_enc_back E (Suc n) out iv iv2 =
     (let pos = 16 * n;
          tmp = blk pos out;
          out = write_at out pos (xor_block (blk pos out) iv);
          out = write_at out pos (E (blk pos out));
          out = write_at out pos (xor_block (blk pos out) iv2)
      in bi_enc_back E n out (blk pos out) tmp)"

fun bi_dec_back :: "(bytes \<Rightarrow> bytes) \<Rightarrow> bytes \<Rightarrow> nat \<Rightarrow> bytes \<Rightarrow> bytes \<Rightarrow> bytes \<Rightarrow> bytes" where
  "bi_dec_back D inp 0 out iv iv2 = out"
| "bi_dec_back D inp (Suc n) out iv iv2 =
     (let pos = 16 * n;
          tmp = blk pos inp; tmp2 = blk pos inp;
          tmp = xor_block tmp iv2;
          out = write_at out pos (D tmp);
          out = write_at out pos (xor_block (blk pos out) iv)
      in bi_dec_back D inp n out tmp2 (blk pos out))"

fun bi_dec_fwd :: "(bytes \<Rightarrow> bytes) \<Rightarrow> nat \<Rightarrow> nat \<Rightarrow> bytes \<Rightarrow> bytes \<Rightarrow> bytes \<Rightarrow> bytes" where
  "bi_dec_fwd D 0 pos out iv iv2 = out"
| "bi_dec_fwd D (Suc n) pos out iv iv2 =
     (let tmp = blk pos out; tmp2 = blk pos out;
          tmp = xor_block tmp iv2;
          out = write_at out pos (D tmp);
          out = write_at out pos (xor_block (blk pos out) iv)
      in bi_dec_fwd D n (pos + 16) out tmp2 (blk pos out))"

definition AES_bi_ige_encrypt ::
    "(bytes \<Rightarrow> bytes) \<Rightarrow> (bytes \<Rightarrow> bytes) \<Rightarrow> bytes \<Rightarrow> bytes \<Rightarrow> nat \<Rightarrow> bytes \<Rightarrow> bool \<Rightarrow> bytes" where
  "AES_bi_ige_encrypt E D inp out len ivec enc =
     (let n = len div 16 in
      if enc then
        (let out = bi_enc_fwd E inp n 0 out (blk 0 ivec) (blk 16 ivec) in
         bi_enc_back E n out (blk 32 ivec) (blk 48 ivec))
      else
        (let out = bi_dec_back D inp n out (blk 32 ivec) (blk 48 ivec) in
         bi_dec_fwd D n 0 out (blk 0 ivec) (blk 16 ivec)))"

subsection \<open>The mode\<close>

text \<open>The recurrences of IGE on a list of blocks, with the last two chaining values.\<close>

fun ige_enc :: "(bytes \<Rightarrow> bytes) \<Rightarrow> bytes \<Rightarrow> bytes \<Rightarrow> bytes list \<Rightarrow> bytes list" where
  "ige_enc E iv iv2 [] = []"
| "ige_enc E iv iv2 (p # ps) =
     (let c = xor_block (E (xor_block p iv)) iv2 in c # ige_enc E c p ps)"

fun ige_dec :: "(bytes \<Rightarrow> bytes) \<Rightarrow> bytes \<Rightarrow> bytes \<Rightarrow> bytes list \<Rightarrow> bytes list" where
  "ige_dec D iv iv2 [] = []"
| "ige_dec D iv iv2 (c # cs) =
     (let p = xor_block (D (xor_block c iv2)) iv in p # ige_dec D c p cs)"

definition block_cipher :: "(bytes \<Rightarrow> bytes) \<Rightarrow> (bytes \<Rightarrow> bytes) \<Rightarrow> bool" where
  "block_cipher E D \<longleftrightarrow>
     (\<forall>b. length b = 16 \<longrightarrow> length (E b) = 16 \<and> length (D b) = 16 \<and> D (E b) = b)"

lemma length_xor_block: "length (xor_block a b) = min (length a) (length b)"
  by (simp add: xor_block_def)

lemma xor_block_cancel: "length a = length b \<Longrightarrow> xor_block (xor_block a b) b = a"
  by (induction a b rule: list_induct2) (simp_all add: xor_block_def xor.assoc)

text \<open>Lists of whole blocks.\<close>

definition all16 :: "bytes list \<Rightarrow> bool" where
  "all16 ps \<longleftrightarrow> list_all (\<lambda>p. length p = 16) ps"

lemma all16_simps [simp]: "all16 []" "all16 (p # ps) \<longleftrightarrow> length p = 16 \<and> all16 ps"
  "all16 (xs @ ys) \<longleftrightarrow> all16 xs \<and> all16 ys" "all16 (rev xs) \<longleftrightarrow> all16 xs"
  by (simp_all add: all16_def)

lemma xor_block_16: "length a = 16 \<Longrightarrow> length b = 16 \<Longrightarrow> length (xor_block a b) = 16"
  by (simp add: length_xor_block)

lemma ige_round_trip:
  assumes "block_cipher E D"
  shows "length iv = 16 \<Longrightarrow> length iv2 = 16 \<Longrightarrow> all16 ps \<Longrightarrow>
    ige_dec D iv iv2 (ige_enc E iv iv2 ps) = ps"
proof (induction ps arbitrary: iv iv2)
  case (Cons p ps)
  then have "length (E (xor_block p iv)) = 16" "D (E (xor_block p iv)) = xor_block p iv"
    using assms by (simp_all add: block_cipher_def xor_block_16)
  then show ?case using Cons by (simp add: Let_def xor_block_cancel xor_block_16)
qed simp

lemma length_ige [simp]: "length (ige_enc E iv iv2 ps) = length ps" "length (ige_dec D iv iv2 ps) = length ps"
  by (induction ps arbitrary: iv iv2) (simp_all add: Let_def)

lemma cipher_16:
  assumes "block_cipher E D" and "length a = 16"
  shows "length (E a) = 16" "length (D a) = 16"
  using assms by (simp_all add: block_cipher_def)

lemma ige_enc_16:
  assumes "block_cipher E D"
  shows "length iv = 16 \<Longrightarrow> length iv2 = 16 \<Longrightarrow> all16 ps \<Longrightarrow>
    all16 (ige_enc E iv iv2 ps)"
proof (induction ps arbitrary: iv iv2)
  case (Cons p ps)
  then have p: "length p = 16" by simp
  have c: "length (xor_block (E (xor_block p iv)) iv2) = 16"
    by (intro xor_block_16 cipher_16(1) [OF assms] p Cons.prems)
  then show ?case using Cons.IH [OF c p] Cons.prems(3) by (simp add: Let_def)
qed simp

lemma ige_dec_16:
  assumes "block_cipher E D"
  shows "length iv = 16 \<Longrightarrow> length iv2 = 16 \<Longrightarrow> all16 ps \<Longrightarrow>
    all16 (ige_dec D iv iv2 ps)"
proof (induction ps arbitrary: iv iv2)
  case (Cons p ps)
  then have p: "length p = 16" by simp
  have c: "length (xor_block (D (xor_block p iv2)) iv) = 16"
    by (intro xor_block_16 cipher_16(2) [OF assms] p Cons.prems)
  then show ?case using Cons.IH [OF p c] Cons.prems(3) by (simp add: Let_def)
qed simp

subsection \<open>The loops implement the mode\<close>

fun blocks :: "nat \<Rightarrow> bytes \<Rightarrow> bytes list" where
  "blocks 0 b = []"
| "blocks (Suc n) b = take 16 b # blocks n (drop 16 b)"

lemma length_blocks [simp]: "length (blocks n b) = n"
  by (induction n arbitrary: b) simp_all

lemma blocks_16: "16 * n \<le> length b \<Longrightarrow> all16 (blocks n b)"
proof (induction n arbitrary: b)
  case (Suc n)
  then show ?case using Suc.IH [of "drop 16 b"] by simp
qed simp

lemma concat_blocks: "concat (blocks n b) = take (16 * n) b"
proof (induction n arbitrary: b)
  case (Suc n)
  have "take (16 * Suc n) b = take 16 b @ take (16 * n) (drop 16 b)" by (simp flip: take_add)
  then show ?case using Suc by simp
qed simp

lemma length_concat_16: "all16 ps \<Longrightarrow> length (concat ps) = 16 * length ps"
  by (induction ps) simp_all

lemma blocks_concat: "all16 ps \<Longrightarrow> blocks (length ps) (concat ps @ r) = ps"
  by (induction ps) simp_all

definition source :: "bytes option \<Rightarrow> bytes \<Rightarrow> bytes" where
  "source inp out = (case inp of None \<Rightarrow> out | Some i \<Rightarrow> i)"

lemma source_write:
  "pos + length d \<le> length out \<Longrightarrow> drop (pos + length d) (source inp (write_at out pos d)) = drop (pos + length d) (source inp out)"
  "pos + length d \<le> length out \<Longrightarrow> length (source inp (write_at out pos d)) = length (source inp out)"
  by (simp_all add: source_def write_at_def split: option.splits)

lemma write_at_append:
  "pos + length d \<le> length out \<Longrightarrow>
   take (pos + length d) (write_at out pos d) = take pos out @ d \<and>
   drop (pos + length d + k) (write_at out pos d) = drop (pos + length d + k) out"
  by (simp add: write_at_def add.commute)

lemma copy_enc_eq:
  assumes "block_cipher E D"
  shows "length iv = 16 \<Longrightarrow> length iv2 = 16 \<Longrightarrow> pos + 16 * n \<le> length out \<Longrightarrow>
    pos + 16 * n \<le> length (source inp out) \<Longrightarrow>
    ige_copy_enc E inp n pos out iv iv2 =
     (let ps = blocks n (drop pos (source inp out)); cs = ige_enc E iv iv2 ps in
      (take pos out @ concat cs @ drop (pos + 16 * n) out, last (iv # cs), last (iv2 # ps)))"
proof (induction n arbitrary: pos out iv iv2)
  case (Suc n)
  define p where "p = take 16 (drop pos (source inp out))"
  define c where "c = xor_block (E (xor_block p iv)) iv2"
  have p: "length p = 16" using Suc.prems by (simp add: p_def)
  then have c: "length c = 16" using assms Suc.prems by (simp add: c_def block_cipher_def xor_block_16)
  let ?out = "write_at out pos c"
  have src: "drop (pos + 16) (source inp ?out) = drop (pos + 16) (source inp out)"
    "length (source inp ?out) = length (source inp out)"
    using source_write [of pos c out inp] Suc.prems(3) c by simp_all
  have w: "take (pos + 16) ?out = take pos out @ c" "drop (pos + 16 + 16 * n) ?out = drop (pos + 16 + 16 * n) out"
    using write_at_append [of pos c out "16 * n"] c Suc.prems(3) by simp_all
  have lo: "length ?out = length out" using c Suc.prems(3) by simp
  have bl: "blocks (Suc n) (drop pos (source inp out)) = p # blocks n (drop (pos + 16) (source inp out))"
    by (simp add: p_def add.commute)
  have step: "ige_copy_enc E inp (Suc n) pos out iv iv2 = ige_copy_enc E inp n (pos + 16) ?out c p"
    by (simp add: Let_def load_in_def blk_def p_def c_def source_def)
  let ?tl = "blocks n (drop (pos + 16) (source inp out))"
  have "ige_copy_enc E inp n (pos + 16) ?out c p
      = (take (pos + 16) ?out @ concat (ige_enc E c p ?tl) @ drop (pos + 16 + 16 * n) ?out,
         last (c # ige_enc E c p ?tl), last (p # ?tl))"
    using Suc.IH [OF c p, of "pos + 16" ?out] Suc.prems(3,4) src lo by (simp add: Let_def)
  moreover have "ige_enc E iv iv2 (p # ?tl) = c # ige_enc E c p ?tl" by (simp add: c_def Let_def)
  moreover have "pos + 16 + 16 * n = pos + 16 * Suc n" by simp
  ultimately show ?case unfolding step bl Let_def w by simp
qed simp

lemma copy_dec_eq:
  assumes "block_cipher E D"
  shows "length iv = 16 \<Longrightarrow> length iv2 = 16 \<Longrightarrow> pos + 16 * n \<le> length out \<Longrightarrow>
    pos + 16 * n \<le> length (source inp out) \<Longrightarrow>
    ige_copy_dec D inp n pos out iv iv2 =
     (let cs = blocks n (drop pos (source inp out)); ps = ige_dec D iv iv2 cs in
      (take pos out @ concat ps @ drop (pos + 16 * n) out, last (iv # cs), last (iv2 # ps)))"
proof (induction n arbitrary: pos out iv iv2)
  case (Suc n)
  define c where "c = take 16 (drop pos (source inp out))"
  define p where "p = xor_block (D (xor_block c iv2)) iv"
  have c: "length c = 16" using Suc.prems by (simp add: c_def)
  then have p: "length p = 16" using assms Suc.prems by (simp add: p_def block_cipher_def xor_block_16)
  let ?out = "write_at out pos p"
  have src: "drop (pos + 16) (source inp ?out) = drop (pos + 16) (source inp out)"
    "length (source inp ?out) = length (source inp out)"
    using source_write [of pos p out inp] Suc.prems(3) p by simp_all
  have w: "take (pos + 16) ?out = take pos out @ p" "drop (pos + 16 + 16 * n) ?out = drop (pos + 16 + 16 * n) out"
    using write_at_append [of pos p out "16 * n"] p Suc.prems(3) by simp_all
  have lo: "length ?out = length out" using p Suc.prems(3) by simp
  have bl: "blocks (Suc n) (drop pos (source inp out)) = c # blocks n (drop (pos + 16) (source inp out))"
    by (simp add: c_def add.commute)
  have step: "ige_copy_dec D inp (Suc n) pos out iv iv2 = ige_copy_dec D inp n (pos + 16) ?out c p"
    by (simp add: Let_def load_in_def blk_def p_def c_def source_def)
  let ?tl = "blocks n (drop (pos + 16) (source inp out))"
  have "ige_copy_dec D inp n (pos + 16) ?out c p
      = (take (pos + 16) ?out @ concat (ige_dec D c p ?tl) @ drop (pos + 16 + 16 * n) ?out,
         last (c # ?tl), last (p # ige_dec D c p ?tl))"
    using Suc.IH [OF c p, of "pos + 16" ?out] Suc.prems(3,4) src lo by (simp add: Let_def)
  moreover have "ige_dec D iv iv2 (c # ?tl) = p # ige_dec D c p ?tl" by (simp add: p_def Let_def)
  moreover have "pos + 16 + 16 * n = pos + 16 * Suc n" by simp
  ultimately show ?case unfolding step bl Let_def w by simp
qed simp

text \<open>The pointer paths agree with the copying ones on distinct buffers.\<close>

fun ptr_ok :: "nat \<Rightarrow> blk_ptr \<Rightarrow> bool" where
  "ptr_ok pos (POut k) = (k + 16 \<le> pos)"
| "ptr_ok pos p = True"

lemma deref_write: "ptr_ok pos p \<Longrightarrow> pos \<le> length out \<Longrightarrow> deref ivec inp (write_at out pos d) p = deref ivec inp out p"
  by (cases p) (simp_all add: blk_def write_at_def take_drop)

lemma blk_write: "pos \<le> length out \<Longrightarrow> length d = 16 \<Longrightarrow> blk pos (write_at out pos d) = d"
  by (simp add: blk_def write_at_def)

lemma write_write: "pos \<le> length out \<Longrightarrow> length d = length e \<Longrightarrow> write_at (write_at out pos d) pos e = write_at out pos e"
  by (simp add: write_at_def)

lemma ptr_enc_eq:
  assumes "block_cipher E D"
  shows "ptr_ok pos ivp \<Longrightarrow> ptr_ok pos iv2p \<Longrightarrow> length (deref ivec i out ivp) = 16 \<Longrightarrow>
    length (deref ivec i out iv2p) = 16 \<Longrightarrow> pos + 16 * n \<le> length out \<Longrightarrow> pos + 16 * n \<le> length i \<Longrightarrow>
    ige_ptr_enc E ivec i n pos out ivp iv2p = (o', p', q') \<Longrightarrow>
    ige_copy_enc E (Some i) n pos out (deref ivec i out ivp) (deref ivec i out iv2p)
      = (o', deref ivec i o' p', deref ivec i o' q')"
proof (induction n arbitrary: pos out ivp iv2p)
  case (Suc n)
  define c where "c = xor_block (E (xor_block (blk pos i) (deref ivec i out ivp))) (deref ivec i out iv2p)"
  let ?x = "xor_block (blk pos i) (deref ivec i out ivp)"
  have pos: "pos \<le> length out" "length (blk pos i) = 16" using Suc.prems by (simp_all add: blk_def)
  have x: "length ?x = 16" "length (E ?x) = 16" using assms pos Suc.prems by (simp_all add: block_cipher_def xor_block_16)
  have c: "length c = 16" using x Suc.prems by (simp add: c_def xor_block_16)
  have lo: "length (write_at out pos d) = length out" if "length d = 16" for d using that Suc.prems by simp
  let ?out = "write_at out pos c"
  have step: "ige_ptr_enc E ivec i (Suc n) pos out ivp iv2p = ige_ptr_enc E ivec i n (pos + 16) ?out (POut pos) (PIn pos)"
    using pos x Suc.prems(1-4)
    by (simp add: Let_def blk_write write_write deref_write lo c flip: c_def)
  have d: "deref ivec i ?out (POut pos) = c" "deref ivec i ?out (PIn pos) = blk pos i"
    using pos c by (simp_all add: blk_write)
  have "ige_copy_enc E (Some i) (Suc n) pos out (deref ivec i out ivp) (deref ivec i out iv2p)
      = ige_copy_enc E (Some i) n (pos + 16) ?out c (blk pos i)"
    by (simp add: Let_def load_in_def c_def)
  also have "\<dots> = (o', deref ivec i o' p', deref ivec i o' q')"
    using Suc.IH [of "pos + 16" "POut pos" "PIn pos" ?out] Suc.prems(5-7) step d c pos lo [OF c] by simp
  finally show ?case .
qed simp

lemma ptr_dec_eq:
  assumes "block_cipher E D"
  shows "ptr_ok pos ivp \<Longrightarrow> ptr_ok pos iv2p \<Longrightarrow> length (deref ivec i out ivp) = 16 \<Longrightarrow>
    length (deref ivec i out iv2p) = 16 \<Longrightarrow> pos + 16 * n \<le> length out \<Longrightarrow> pos + 16 * n \<le> length i \<Longrightarrow>
    ige_ptr_dec D ivec i n pos out ivp iv2p = (o', p', q') \<Longrightarrow>
    ige_copy_dec D (Some i) n pos out (deref ivec i out ivp) (deref ivec i out iv2p)
      = (o', deref ivec i o' p', deref ivec i o' q')"
proof (induction n arbitrary: pos out ivp iv2p)
  case (Suc n)
  define p where "p = xor_block (D (xor_block (blk pos i) (deref ivec i out iv2p))) (deref ivec i out ivp)"
  let ?x = "xor_block (blk pos i) (deref ivec i out iv2p)"
  have pos: "pos \<le> length out" "length (blk pos i) = 16" using Suc.prems by (simp_all add: blk_def)
  have x: "length ?x = 16" "length (D ?x) = 16" using assms pos Suc.prems by (simp_all add: block_cipher_def xor_block_16)
  have p: "length p = 16" using x Suc.prems by (simp add: p_def xor_block_16)
  have lo: "length (write_at out pos d) = length out" if "length d = 16" for d using that Suc.prems by simp
  let ?out = "write_at out pos p"
  have step: "ige_ptr_dec D ivec i (Suc n) pos out ivp iv2p = ige_ptr_dec D ivec i n (pos + 16) ?out (PIn pos) (POut pos)"
    using pos x Suc.prems(1-4)
    by (simp add: Let_def blk_write write_write deref_write lo p flip: p_def)
  have d: "deref ivec i ?out (POut pos) = p" "deref ivec i ?out (PIn pos) = blk pos i"
    using pos p by (simp_all add: blk_write)
  have "ige_copy_dec D (Some i) (Suc n) pos out (deref ivec i out ivp) (deref ivec i out iv2p)
      = ige_copy_dec D (Some i) n (pos + 16) ?out (blk pos i) p"
    by (simp add: Let_def load_in_def p_def)
  also have "\<dots> = (o', deref ivec i o' p', deref ivec i o' q')"
    using Suc.IH [of "pos + 16" "PIn pos" "POut pos" ?out] Suc.prems(5-7) step d p pos lo [OF p] by simp
  finally show ?case .
qed simp

text \<open>Every path of \<open>AES_ige_encrypt\<close> computes the recurrences.\<close>

lemma ige_encrypt_eq:
  assumes bc: "block_cipher E D" and len: "len = 16 * n" "len \<le> length out" "len \<le> length (source inp out)"
    and iv: "length ivec = 32"
  defines "ps \<equiv> blocks n (source inp out)"
  shows "AES_ige_encrypt E D fast inp out len ivec True =
      (concat (ige_enc E (blk 0 ivec) (blk 16 ivec) ps) @ drop len out,
       last (blk 0 ivec # ige_enc E (blk 0 ivec) (blk 16 ivec) ps) @ last (blk 16 ivec # ps))"
    and "AES_ige_encrypt E D fast inp out len ivec False =
      (concat (ige_dec D (blk 0 ivec) (blk 16 ivec) ps) @ drop len out,
       last (blk 0 ivec # ps) @ last (blk 16 ivec # ige_dec D (blk 0 ivec) (blk 16 ivec) ps))"
proof -
  have l: "length (blk 0 ivec) = 16" "length (blk 16 ivec) = 16" using iv by (simp_all add: blk_def)
  have n: "len div 16 = n" using len(1) by simp
  have e: "ige_copy_enc E inp n 0 out (blk 0 ivec) (blk 16 ivec) =
     (concat (ige_enc E (blk 0 ivec) (blk 16 ivec) ps) @ drop len out,
      last (blk 0 ivec # ige_enc E (blk 0 ivec) (blk 16 ivec) ps), last (blk 16 ivec # ps))"
    and d: "ige_copy_dec D inp n 0 out (blk 0 ivec) (blk 16 ivec) =
     (concat (ige_dec D (blk 0 ivec) (blk 16 ivec) ps) @ drop len out,
      last (blk 0 ivec # ps), last (blk 16 ivec # ige_dec D (blk 0 ivec) (blk 16 ivec) ps))"
    using copy_enc_eq [OF bc l, of 0 n out inp] copy_dec_eq [OF bc l, of 0 n out inp] len
    by (simp_all add: Let_def ps_def)
  have pe: "ige_copy_enc E inp n 0 out (blk 0 ivec) (blk 16 ivec) = (o', deref ivec i o' p', deref ivec i o' q')"
    if "inp = Some i" "ige_ptr_enc E ivec i n 0 out (PIvec 0) (PIvec 16) = (o', p', q')" for i o' p' q'
    using ptr_enc_eq [OF bc, of 0 "PIvec 0" "PIvec 16" ivec i out n o' p' q'] that l len
    by (simp add: source_def)
  have pd: "ige_copy_dec D inp n 0 out (blk 0 ivec) (blk 16 ivec) = (o', deref ivec i o' p', deref ivec i o' q')"
    if "inp = Some i" "ige_ptr_dec D ivec i n 0 out (PIvec 0) (PIvec 16) = (o', p', q')" for i o' p' q'
    using ptr_dec_eq [OF bc, of 0 "PIvec 0" "PIvec 16" ivec i out n o' p' q'] that l len
    by (simp add: source_def)
  show "AES_ige_encrypt E D fast inp out len ivec True =
      (concat (ige_enc E (blk 0 ivec) (blk 16 ivec) ps) @ drop len out,
       last (blk 0 ivec # ige_enc E (blk 0 ivec) (blk 16 ivec) ps) @ last (blk 16 ivec # ps))"
    unfolding AES_ige_encrypt_def Let_def n using e pe
    by (cases inp; cases fast) (auto simp: Let_def split: prod.splits)
  show "AES_ige_encrypt E D fast inp out len ivec False =
      (concat (ige_dec D (blk 0 ivec) (blk 16 ivec) ps) @ drop len out,
       last (blk 0 ivec # ps) @ last (blk 16 ivec # ige_dec D (blk 0 ivec) (blk 16 ivec) ps))"
    unfolding AES_ige_encrypt_def Let_def n using d pd
    by (cases inp; cases fast) (auto simp: Let_def split: prod.splits)
qed

lemma blk_16: "length ivec = 32 \<Longrightarrow> length (blk 0 ivec) = 16 \<and> length (blk 16 ivec) = 16"
  by (simp add: blk_def)

lemma last_16: "all16 ps \<Longrightarrow> length iv = 16 \<Longrightarrow> length (last (iv # ps)) = 16"
  by (induction ps arbitrary: iv) simp_all

text \<open>The two-pass variant is IGE forwards, then IGE backwards.\<close>

lemma blocks_snoc: "16 * Suc n \<le> length b \<Longrightarrow> blocks (Suc n) b = blocks n b @ [blk (16 * n) b]"
proof (induction n arbitrary: b)
  case 0
  then show ?case by (simp add: blk_def)
next
  case (Suc n)
  then have "blocks (Suc n) (drop 16 b) = blocks n (drop 16 b) @ [blk (16 * n) (drop 16 b)]"
    using Suc.IH [of "drop 16 b"] by simp
  then show ?case by (simp add: blk_def add.commute)
qed

lemma blocks_take: "16 * n \<le> k \<Longrightarrow> blocks n (take k b) = blocks n b"
proof (induction n arbitrary: b k)
  case (Suc n)
  then show ?case by (simp add: drop_take min_absorb1)
qed simp

lemma bi_enc_fwd_eq:
  assumes "block_cipher E D"
  shows "length iv = 16 \<Longrightarrow> length iv2 = 16 \<Longrightarrow> pos + 16 * n \<le> length out \<Longrightarrow> pos + 16 * n \<le> length inp \<Longrightarrow>
    bi_enc_fwd E inp n pos out iv iv2 =
      take pos out @ concat (ige_enc E iv iv2 (blocks n (drop pos inp))) @ drop (pos + 16 * n) out"
proof (induction n arbitrary: pos out iv iv2)
  case (Suc n)
  define p c where "p = blk pos inp" and "c = xor_block (E (xor_block p iv)) iv2"
  have p: "length p = 16" using Suc.prems by (simp add: p_def blk_def)
  then have x: "length (xor_block p iv) = 16" using Suc.prems by (simp add: xor_block_16)
  then have e: "length (E (xor_block p iv)) = 16" using cipher_16(1) [OF assms] by simp
  then have c: "length c = 16" using Suc.prems by (simp add: c_def xor_block_16)
  have pos: "pos \<le> length out" using Suc.prems by simp
  have lo: "length (write_at out pos d) = length out" if "length d = 16" for d using that Suc.prems by simp
  have step: "bi_enc_fwd E inp (Suc n) pos out iv iv2 = bi_enc_fwd E inp n (pos + 16) (write_at out pos c) c p"
    using pos x e c by (simp add: Let_def blk_write write_write lo flip: p_def c_def)
  have bl: "blocks (Suc n) (drop pos inp) = p # blocks n (drop (pos + 16) inp)"
    by (simp add: p_def blk_def add.commute)
  have w: "take (pos + 16) (write_at out pos c) = take pos out @ c"
    "drop (pos + 16 + 16 * n) (write_at out pos c) = drop (pos + 16 + 16 * n) out"
    using write_at_append [of pos c out "16 * n"] c Suc.prems(3) by simp_all
  have "bi_enc_fwd E inp n (pos + 16) (write_at out pos c) c p
      = take pos out @ c @ concat (ige_enc E c p (blocks n (drop (pos + 16) inp))) @ drop (pos + 16 + 16 * n) out"
    using Suc.IH [OF c p, of "pos + 16" "write_at out pos c"] Suc.prems(3,4) lo [OF c] w by simp
  moreover have "pos + 16 + 16 * n = pos + 16 * Suc n" by simp
  ultimately show ?case unfolding step bl by (simp add: c_def Let_def)
qed simp

lemma bi_enc_back_eq:
  assumes "block_cipher E D"
  shows "length iv = 16 \<Longrightarrow> length iv2 = 16 \<Longrightarrow> 16 * n \<le> length out \<Longrightarrow>
    bi_enc_back E n out iv iv2 = concat (rev (ige_enc E iv iv2 (rev (blocks n out)))) @ drop (16 * n) out"
proof (induction n arbitrary: out iv iv2)
  case (Suc n)
  define p c where "p = blk (16 * n) out" and "c = xor_block (E (xor_block p iv)) iv2"
  have p: "length p = 16" using Suc.prems by (simp add: p_def blk_def)
  then have x: "length (xor_block p iv) = 16" using Suc.prems by (simp add: xor_block_16)
  then have e: "length (E (xor_block p iv)) = 16" using cipher_16(1) [OF assms] by simp
  then have c: "length c = 16" using Suc.prems by (simp add: c_def xor_block_16)
  have pos: "16 * n \<le> length out" using Suc.prems by simp
  have lo: "length (write_at out (16 * n) d) = length out" if "length d = 16" for d using that Suc.prems by simp
  let ?out = "write_at out (16 * n) c"
  have step: "bi_enc_back E (Suc n) out iv iv2 = bi_enc_back E n ?out c p"
    using pos x e c by (simp add: Let_def blk_write write_write lo flip: p_def c_def)
  have "take (16 * n) ?out = take (16 * n) out" "drop (16 * n) ?out = c @ drop (16 * Suc n) out"
    using pos c by (simp_all add: write_at_def add.commute)
  moreover from this have "blocks n ?out = blocks n out" using blocks_take [of n "16 * n"] by (metis order_refl)
  moreover have "rev (blocks (Suc n) out) = p # rev (blocks n out)"
    using blocks_snoc [of n out] Suc.prems(3) by (simp add: p_def)
  ultimately show ?case
    unfolding step using Suc.IH [OF c p, of ?out] lo [OF c] pos by (simp add: c_def Let_def)
qed simp

lemma bi_dec_back_eq:
  assumes "block_cipher E D"
  shows "length iv = 16 \<Longrightarrow> length iv2 = 16 \<Longrightarrow> 16 * n \<le> length out \<Longrightarrow> 16 * n \<le> length inp \<Longrightarrow>
    bi_dec_back D inp n out iv iv2 = concat (rev (ige_dec D iv iv2 (rev (blocks n inp)))) @ drop (16 * n) out"
proof (induction n arbitrary: out iv iv2)
  case (Suc n)
  define c p where "c = blk (16 * n) inp" and "p = xor_block (D (xor_block c iv2)) iv"
  have c: "length c = 16" using Suc.prems by (simp add: c_def blk_def)
  then have x: "length (xor_block c iv2) = 16" using Suc.prems by (simp add: xor_block_16)
  then have e: "length (D (xor_block c iv2)) = 16" using cipher_16(2) [OF assms] by simp
  then have p: "length p = 16" using Suc.prems by (simp add: p_def xor_block_16)
  have pos: "16 * n \<le> length out" using Suc.prems by simp
  have lo: "length (write_at out (16 * n) d) = length out" if "length d = 16" for d using that Suc.prems by simp
  let ?out = "write_at out (16 * n) p"
  have step: "bi_dec_back D inp (Suc n) out iv iv2 = bi_dec_back D inp n ?out c p"
    using pos x e p by (simp add: Let_def blk_write write_write lo flip: c_def p_def)
  have "drop (16 * n) ?out = p @ drop (16 * Suc n) out"
    using pos p by (simp add: write_at_def add.commute)
  moreover have "rev (blocks (Suc n) inp) = c # rev (blocks n inp)"
    using blocks_snoc [of n inp] Suc.prems(4) by (simp add: c_def)
  ultimately show ?case
    unfolding step using Suc.IH [OF c p, of ?out] lo [OF p] pos Suc.prems(4) by (simp add: p_def Let_def)
qed simp

lemma bi_dec_fwd_eq: "bi_dec_fwd D n pos out iv iv2 = fst (ige_copy_dec D None n pos out iv iv2)"
  if "pos + 16 * n \<le> length out" "block_cipher E D" "length iv = 16" "length iv2 = 16"
  using that
proof (induction n arbitrary: pos out iv iv2)
  case (Suc n)
  define c p where "c = blk pos out" and "p = xor_block (D (xor_block c iv2)) iv"
  have c: "length c = 16" using Suc.prems by (simp add: c_def blk_def)
  then have x: "length (xor_block c iv2) = 16" using Suc.prems by (simp add: xor_block_16)
  then have e: "length (D (xor_block c iv2)) = 16" using cipher_16(2) [OF Suc.prems(2)] by simp
  then have p: "length p = 16" using Suc.prems by (simp add: p_def xor_block_16)
  have pos: "pos \<le> length out" using Suc.prems by simp
  have lo: "length (write_at out pos d) = length out" if "length d = 16" for d using that Suc.prems by simp
  have "bi_dec_fwd D (Suc n) pos out iv iv2 = bi_dec_fwd D n (pos + 16) (write_at out pos p) c p"
    using pos x e p by (simp add: Let_def blk_write write_write lo flip: c_def p_def)
  moreover have "ige_copy_dec D None (Suc n) pos out iv iv2 = ige_copy_dec D None n (pos + 16) (write_at out pos p) c p"
    by (simp add: Let_def load_in_def flip: c_def p_def)
  ultimately show ?case using Suc.IH [of "pos + 16" "write_at out pos p" c p] Suc.prems lo [OF p] c p by simp
qed simp

lemma bi_ige_eq:
  assumes bc: "block_cipher E D" and len: "len = 16 * n" "len \<le> length out" "len \<le> length inp" and iv: "length ivec = 64"
  shows "AES_bi_ige_encrypt E D inp out len ivec True =
      concat (rev (ige_enc E (blk 32 ivec) (blk 48 ivec)
        (rev (ige_enc E (blk 0 ivec) (blk 16 ivec) (blocks n inp))))) @ drop len out"
    and "AES_bi_ige_encrypt E D inp out len ivec False =
      concat (ige_dec D (blk 0 ivec) (blk 16 ivec)
        (rev (ige_dec D (blk 32 ivec) (blk 48 ivec) (rev (blocks n inp))))) @ drop len out"
proof -
  have l: "length (blk k ivec) = 16" if "k \<le> 48" for k using iv that by (simp add: blk_def)
  have n: "len div 16 = n" using len(1) by simp
  let ?e = "ige_enc E (blk 0 ivec) (blk 16 ivec) (blocks n inp)"
  have e16: "all16 ?e" using ige_enc_16 [OF bc l l blocks_16] len by simp
  have "length (concat ?e @ drop len out) = length out" using length_concat_16 [OF e16] len by simp
  moreover have "blocks n (concat ?e @ drop len out) = ?e" using blocks_concat [OF e16] by simp
  moreover have "drop len (concat ?e @ drop len out) = drop len out" using length_concat_16 [OF e16] len by simp
  ultimately show "AES_bi_ige_encrypt E D inp out len ivec True =
      concat (rev (ige_enc E (blk 32 ivec) (blk 48 ivec) (rev ?e))) @ drop len out"
    using bi_enc_fwd_eq [OF bc l l, of 0 16 0 n out inp] bi_enc_back_eq [OF bc l l, of 32 48 n "concat ?e @ drop len out"] len
    by (simp add: AES_bi_ige_encrypt_def)
  let ?d = "rev (ige_dec D (blk 32 ivec) (blk 48 ivec) (rev (blocks n inp)))"
  have d16: "all16 ?d" using ige_dec_16 [OF bc l l, of 32 48 "rev (blocks n inp)"] blocks_16 len by simp
  have "length (concat ?d @ drop len out) = length out" using length_concat_16 [OF d16] len by simp
  moreover have "blocks n (concat ?d @ drop len out) = ?d" using blocks_concat [OF d16] by simp
  moreover have "drop len (concat ?d @ drop len out) = drop len out" using length_concat_16 [OF d16] len by simp
  ultimately show "AES_bi_ige_encrypt E D inp out len ivec False =
      concat (ige_dec D (blk 0 ivec) (blk 16 ivec) ?d) @ drop len out"
    using bi_dec_back_eq [OF bc l l, of 32 48 n out inp]
      bi_dec_fwd_eq [OF _ bc l l, of 0 n "concat ?d @ drop len out" 0 16]
      copy_dec_eq [OF bc l l, of 0 16 0 n "concat ?d @ drop len out" None] len
    by (simp add: AES_bi_ige_encrypt_def Let_def source_def)
qed

subsection \<open>Round trips\<close>

lemma ige_inverse:
  assumes bc: "block_cipher E D" and len: "16 dvd len" "len \<le> length out" "len \<le> length (source inp out)"
    and iv: "length ivec = 32"
  shows "fst (AES_ige_encrypt E D fast' None (fst (AES_ige_encrypt E D fast inp out len ivec True)) len ivec False)
    = take len (source inp out) @ drop len out"
proof -
  obtain n where n: "len = 16 * n" using len(1) by blast
  have l: "length (blk 0 ivec) = 16" "length (blk 16 ivec) = 16" using iv by (simp_all add: blk_def)
  let ?ps = "blocks n (source inp out)"
  let ?cs = "ige_enc E (blk 0 ivec) (blk 16 ivec) ?ps"
  have p16: "all16 ?ps" using blocks_16 len n by simp
  have c16: "all16 ?cs" by (rule ige_enc_16 [OF bc l p16])
  have enc: "fst (AES_ige_encrypt E D fast inp out len ivec True) = concat ?cs @ drop len out"
    using ige_encrypt_eq(1) [OF bc n len(2,3) iv] by simp
  have lc: "length (concat ?cs) = len" using length_concat_16 [OF c16] n by simp
  have s: "source None (concat ?cs @ drop len out) = concat ?cs @ drop len out" by (simp add: source_def)
  have "fst (AES_ige_encrypt E D fast' None (concat ?cs @ drop len out) len ivec False)
      = concat (ige_dec D (blk 0 ivec) (blk 16 ivec) (blocks n (concat ?cs @ drop len out))) @ drop len (concat ?cs @ drop len out)"
    using ige_encrypt_eq(2) [OF bc n _ _ iv, of "concat ?cs @ drop len out" None fast'] lc len by (simp add: s)
  also have "blocks n (concat ?cs @ drop len out) = ?cs" using blocks_concat [OF c16] by simp
  also have "ige_dec D (blk 0 ivec) (blk 16 ivec) ?cs = ?ps" by (rule ige_round_trip [OF bc l p16])
  also have "concat ?ps = take len (source inp out)" using n by (simp add: concat_blocks)
  finally show ?thesis using lc by (simp add: enc)
qed

lemma bi_ige_inverse:
  assumes bc: "block_cipher E D" and len: "16 dvd len" "len \<le> length out" "len \<le> length inp" "len \<le> length out2"
    and iv: "length ivec = 64"
  shows "AES_bi_ige_encrypt E D (AES_bi_ige_encrypt E D inp out len ivec True) out2 len ivec False
    = take len inp @ drop len out2"
proof -
  obtain n where n: "len = 16 * n" using len(1) by blast
  have l: "length (blk k ivec) = 16" if "k \<le> 48" for k using iv that by (simp add: blk_def)
  let ?ps = "blocks n inp"
  let ?f = "rev (ige_enc E (blk 0 ivec) (blk 16 ivec) ?ps)"
  let ?cs = "rev (ige_enc E (blk 32 ivec) (blk 48 ivec) ?f)"
  have p16: "all16 ?ps" using blocks_16 len n by simp
  have f16: "all16 ?f" using ige_enc_16 [OF bc l l p16] by simp
  have c16: "all16 ?cs" using ige_enc_16 [OF bc l l f16, of 32 48] by simp
  have lc: "length (concat ?cs) = len" using length_concat_16 [OF c16] n by simp
  have bl: "blocks n (concat ?cs @ drop len out) = ?cs" using blocks_concat [OF c16] by simp
  have inner: "ige_dec D (blk 32 ivec) (blk 48 ivec) (rev ?cs) = ?f"
    using ige_round_trip [OF bc l l f16, of 32 48] by simp
  have outer: "ige_dec D (blk 0 ivec) (blk 16 ivec) (rev ?f) = ?ps"
    using ige_round_trip [OF bc l l p16, of 0 16] by simp
  have "len \<le> length (concat ?cs @ drop len out)" using lc by simp
  from bi_ige_eq(2) [OF bc n len(4) this iv]
  have "AES_bi_ige_encrypt E D (concat ?cs @ drop len out) out2 len ivec False = concat ?ps @ drop len out2"
    unfolding bl inner outer .
  then show ?thesis
    unfolding bi_ige_eq(1) [OF bc n len(2,3) iv] using n by (simp add: concat_blocks)
qed

subsection \<open>Chaining calls\<close>

lemma ige_enc_append:
  "ige_enc E iv iv2 (ps @ qs) =
     ige_enc E iv iv2 ps @ ige_enc E (last (iv # ige_enc E iv iv2 ps)) (last (iv2 # ps)) qs"
  by (induction ps arbitrary: iv iv2) (simp_all add: Let_def)

lemma blocks_add: "16 * m \<le> length b \<Longrightarrow> blocks (m + n) b = blocks m b @ blocks n (drop (16 * m) b)"
  by (induction m arbitrary: b) (simp_all add: add.commute)

lemma blk_of_append: "length a = 16 \<Longrightarrow> length b = 16 \<Longrightarrow> blk 0 (a @ b) = a \<and> blk 16 (a @ b) = b"
  by (simp add: blk_def)

subsection \<open>Properties\<close>

text \<open>C21. The pointer-chasing path and the copying path of \<open>AES_ige_encrypt\<close> are the same function
  of the input block by block: on every path, and in both directions, the output is the IGE
  recurrence over the input blocks followed by the untouched rest of the output buffer.\<close>

theorem AES_ige_encrypt_paths_agree:
  assumes "block_cipher E D" and "len = 16 * n" and "len \<le> length out" and "len \<le> length (source inp out)"
    and "length ivec = 32"
  shows "fst (AES_ige_encrypt E D fast inp out len ivec True) =
      concat (ige_enc E (blk 0 ivec) (blk 16 ivec) (blocks n (source inp out))) @ drop len out \<and>
    fst (AES_ige_encrypt E D fast inp out len ivec False) =
      concat (ige_dec D (blk 0 ivec) (blk 16 ivec) (blocks n (source inp out))) @ drop len out"
  using ige_encrypt_eq [OF assms] by simp

text \<open>A block cipher for the concrete runs: every byte is complemented.\<close>

definition flip_block :: "bytes \<Rightarrow> bytes" where
  "flip_block b = map NOT b"

lemma flip_cipher: "block_cipher flip_block flip_block"
  by (simp add: block_cipher_def flip_block_def comp_def)

theorem AES_ige_encrypt_paths_agree_witness:
  "fst (AES_ige_encrypt flip_block flip_block True (Some (replicate 16 1)) (replicate 17 9) 16 (replicate 32 2) True)
     = concat (ige_enc flip_block (blk 0 (replicate 32 2)) (blk 16 (replicate 32 2)) (blocks 1 (replicate 16 1))) @ [9]"
  using AES_ige_encrypt_paths_agree [OF flip_cipher, of 16 1 "replicate 17 9" "Some (replicate 16 1)" "replicate 32 2" True]
  by (simp add: source_def)

text \<open>The IV that \<open>AES_ige_encrypt\<close> hands back chains calls: encrypting \<open>m\<close> blocks and then
  \<open>k\<close> more with the returned IV gives the bytes of one call on all \<open>m + k\<close> blocks.\<close>

theorem AES_ige_encrypt_chains:
  assumes bc: "block_cipher E D" and len: "length a = 16 * m" "length b = 16 * k" and iv: "length ivec = 32"
  shows "fst (AES_ige_encrypt E D fast None (a @ b) (16 * (m + k)) ivec True) =
    (let (out, ivec') = AES_ige_encrypt E D fast None a (16 * m) ivec True in
     out @ fst (AES_ige_encrypt E D fast None b (16 * k) ivec' True))"
proof -
  let ?i = "blk 0 ivec" let ?j = "blk 16 ivec"
  let ?cs = "ige_enc E ?i ?j (blocks m a)"
  have l: "length ?i = 16" "length ?j = 16" using blk_16 [OF iv] by simp_all
  have a16: "all16 (blocks m a)" using blocks_16 [of m a] len by simp
  then have c16: "all16 ?cs" using ige_enc_16 [OF bc l] by simp
  let ?iv2 = "last (?i # ?cs) @ last (?j # blocks m a)"
  have i2: "length ?iv2 = 32" "blk 0 ?iv2 = last (?i # ?cs)" "blk 16 ?iv2 = last (?j # blocks m a)"
    using last_16 [OF c16 l(1)] last_16 [OF a16 l(2)] blk_of_append by (simp_all only: length_append)
  have "blocks (m + k) (a @ b) = blocks m a @ blocks k b"
    using blocks_add [of m "a @ b" k] blocks_take [of m "16 * m" "a @ b"] len by simp
  moreover have "AES_ige_encrypt E D fast None a (16 * m) ivec True = (concat ?cs, ?iv2)"
    using ige_encrypt_eq(1) [OF bc refl, of m a None ivec fast] len iv by (simp add: source_def)
  moreover have "fst (AES_ige_encrypt E D fast None b (16 * k) ?iv2 True)
      = concat (ige_enc E (last (?i # ?cs)) (last (?j # blocks m a)) (blocks k b))"
    using ige_encrypt_eq(1) [OF bc refl, of k b None ?iv2 fast] len i2 by (simp add: source_def)
  moreover have "fst (AES_ige_encrypt E D fast None (a @ b) (16 * (m + k)) ivec True)
      = concat (ige_enc E ?i ?j (blocks (m + k) (a @ b)))"
    using ige_encrypt_eq(1) [OF bc refl, of "m + k" "a @ b" None ivec fast] len iv by (simp add: source_def)
  ultimately show ?thesis by (simp add: ige_enc_append)
qed

theorem AES_ige_encrypt_chains_witness:
  "fst (AES_ige_encrypt flip_block flip_block False None (replicate 16 1 @ replicate 32 3) 48 (replicate 32 2) True) =
    (let (out, ivec') = AES_ige_encrypt flip_block flip_block False None (replicate 16 1) 16 (replicate 32 2) True in
     out @ fst (AES_ige_encrypt flip_block flip_block False None (replicate 32 3) 32 ivec' True))"
  using AES_ige_encrypt_chains [OF flip_cipher, of "replicate 16 1" 1 "replicate 32 3" 2 "replicate 32 2" False]
  by simp

text \<open>The two-pass variant inverts itself: decrypting with \<open>AES_bi_ige_encrypt\<close> what it
  encrypted under the same four-block IV gives back the input.\<close>

theorem AES_bi_ige_round_trip:
  assumes "block_cipher E D" and "16 dvd len" and "len \<le> length out" and "len \<le> length inp"
    and "len \<le> length out2" and "length ivec = 64"
  shows "AES_bi_ige_encrypt E D (AES_bi_ige_encrypt E D inp out len ivec True) out2 len ivec False
    = take len inp @ drop len out2"
  by (rule bi_ige_inverse [OF assms])

theorem AES_bi_ige_round_trip_witness:
  "AES_bi_ige_encrypt flip_block flip_block
     (AES_bi_ige_encrypt flip_block flip_block (replicate 32 7) (replicate 32 0) 32 (replicate 64 5) True)
     (replicate 33 0) 32 (replicate 64 5) False = replicate 32 7 @ [0]"
  using AES_bi_ige_round_trip [OF flip_cipher, of 32 "replicate 32 0" "replicate 32 7" "replicate 33 0" "replicate 64 5"]
  by simp

end
