(* ===== verification/Jni.thy ===== *)
theory Jni
  imports Pbkdf Ige
begin

section \<open>The JNI entry points (app/jni/jni.c)\<close>

text \<open>
  The three native methods of \<open>org.telegram.messenger.Utilities\<close>. A Java array is its bytes: the
  functions work on a copy and release it either back into the array or, with \<open>JNI_ABORT\<close>,
  not at all. The AES key schedules and the cipher are parameters: \<open>enc key\<close> and \<open>dec key\<close>
  are \<open>AES_encrypt\<close> and \<open>AES_decrypt\<close> under the schedules of the first 32 bytes of \<open>key\<close>.
\<close>

type_synonym aes = "bytes \<Rightarrow> bytes \<Rightarrow> bytes"

text \<open>The direct buffer is changed in place from \<open>offset\<close>; the IV array is written back.\<close>

definition aesIgeEncryption ::
    "aes \<Rightarrow> aes \<Rightarrow> bytes \<Rightarrow> bytes \<Rightarrow> bytes \<Rightarrow> bool \<Rightarrow> nat \<Rightarrow> nat \<Rightarrow> bytes \<times> bytes" where
  "aesIgeEncryption enc dec buffer key iv encrypt offset len =
     (let what = drop offset buffer;
          akey = take 32 key;
          (what, ivBuff) = AES_ige_encrypt (enc akey) (dec akey) False None what len (take 32 iv) encrypt
      in (take offset buffer @ what, ivBuff @ drop 32 iv))"

text \<open>The array version: \<open>offset\<close> is an argument, and nothing uses it.\<close>

definition aesIgeEncryptionByteArray ::
    "aes \<Rightarrow> aes \<Rightarrow> bytes \<Rightarrow> bytes \<Rightarrow> bytes \<Rightarrow> bool \<Rightarrow> nat \<Rightarrow> nat \<Rightarrow> bytes \<times> bytes" where
  "aesIgeEncryptionByteArray enc dec buffer key iv encrypt offset len =
     (let akey = take 32 key;
          (bufferBuff, ivBuff) = AES_ige_encrypt (enc akey) (dec akey) False None buffer len (take 32 iv) encrypt
      in (bufferBuff, ivBuff @ drop 32 iv))"

text \<open>The result and the new contents of \<open>dst\<close>; the \<open>jint\<close> count is read as unsigned.\<close>

definition pbkdf2 :: "sha512_ctx md_heap \<Rightarrow> bytes \<Rightarrow> bytes \<Rightarrow> bytes \<Rightarrow> u32 \<Rightarrow> (bool \<times> bytes) option" where
  "pbkdf2 hp password salt dst iterations = PKCS5_PBKDF2_HMAC hp password salt iterations EVP_sha512 dst"

subsection \<open>Properties\<close>

definition aes_ok :: "aes \<Rightarrow> aes \<Rightarrow> bool" where
  "aes_ok enc dec \<longleftrightarrow> (\<forall>key. length key = 32 \<longrightarrow> block_cipher (enc key) (dec key))"

lemma ige_region:
  assumes aes: "aes_ok enc dec" and key: "32 \<le> length key" and iv: "32 \<le> length iv"
    and len: "16 dvd len" "len \<le> length what"
  shows "fst (AES_ige_encrypt (enc (take 32 key)) (dec (take 32 key)) False None
      (fst (AES_ige_encrypt (enc (take 32 key)) (dec (take 32 key)) False None what len (take 32 iv) True))
      len (take 32 iv) False) = what"
proof -
  have "block_cipher (enc (take 32 key)) (dec (take 32 key))" using aes key by (simp add: aes_ok_def)
  from ige_inverse [OF this len(1,2), of None "take 32 iv" False False] len iv
  show ?thesis by (simp add: source_def)
qed

text \<open>C7. Both JNI encryption methods are undone by a second call with the same key and IV and
  \<open>encrypt\<close> false, for any AES that inverts itself: the buffer comes back whole, also outside
  the region encrypted.\<close>

theorem aesIge_round_trip:
  assumes "aes_ok enc dec" and "32 \<le> length key" and "32 \<le> length iv"
    and "16 dvd len" and "offset + len \<le> length buffer"
  shows "fst (aesIgeEncryption enc dec (fst (aesIgeEncryption enc dec buffer key iv True offset len)) key iv False offset len)
      = buffer \<and>
    fst (aesIgeEncryptionByteArray enc dec (fst (aesIgeEncryptionByteArray enc dec buffer key iv True offset len))
      key iv False offset len) = buffer"
  using ige_region [OF assms(1-4), of "drop offset buffer"] ige_region [OF assms(1-4), of buffer] assms(5)
  by (simp add: aesIgeEncryption_def aesIgeEncryptionByteArray_def split_def Let_def)

definition flip_aes :: aes where
  "flip_aes key b = map2 (XOR) (take 16 key) b"

lemma flip_aes_ok: "aes_ok flip_aes flip_aes"
proof -
  have "map2 (XOR) k (map2 (XOR) k b) = b" if "length k = length b" for k b :: bytes
    using that by (induction k b rule: list_induct2) (simp_all flip: xor.assoc)
  then show ?thesis by (simp add: aes_ok_def block_cipher_def flip_aes_def)
qed

theorem aesIge_round_trip_witness:
  "fst (aesIgeEncryption flip_aes flip_aes
     (fst (aesIgeEncryption flip_aes flip_aes (replicate 40 7) (replicate 32 1) (replicate 32 2) True 3 32))
     (replicate 32 1) (replicate 32 2) False 3 32) = replicate 40 7"
  using aesIge_round_trip [OF flip_aes_ok, of "replicate 32 1" "replicate 32 2" 32 3 "replicate 40 7"]
  by simp

text \<open>\<open>aesIgeEncryptionByteArray\<close> ignores its \<open>offset\<close>: it always works on the first
  \<open>length\<close> bytes, where the method on direct buffers starts at \<open>offset\<close>.\<close>

theorem byte_array_offset_ignored:
  "aesIgeEncryptionByteArray enc dec buffer key iv encrypt offset len
     = aesIgeEncryption enc dec buffer key iv encrypt 0 len"
  by (simp add: aesIgeEncryption_def aesIgeEncryptionByteArray_def split_def Let_def)

lemma passcode_path:
  assumes "aes_ok enc dec" and "heap_ok hp" and "length passcode < 2 ^ 64" and "length salt < 2 ^ 64"
    and "iterations \<noteq> 0" and "16 dvd length secret"
  defines "h \<equiv> pbkdf2_spec (hmac_spec sha512_hash 128 passcode) 64 salt (unat iterations) 64"
  shows "pbkdf2 hp passcode salt (replicate 64 0) iterations = Some (True, h) \<and> length h = 64 \<and>
    fst (aesIgeEncryptionByteArray enc dec
      (fst (aesIgeEncryptionByteArray enc dec secret (take 32 h) (drop 32 h) True 0 (length secret)))
      (take 32 h) (drop 32 h) False 0 (length secret)) = secret"
proof -
  have run: "pbkdf2 hp passcode salt (replicate 64 0) iterations = Some (True, h)"
    using sha512.pbkdf2_ok [OF heap_ok_good(1) [OF assms(2)] assms(3,4), of iterations "replicate 64 0"] assms(5)
    by (simp add: pbkdf2_def EVP_sha512_def h_def)
  have len: "length h = 64"
    using sha512.length_T [of passcode "salt @ be_bytes 4 1" "unat iterations - 1"]
    by (simp add: h_def pbkdf2_spec_def pbkdf2_count_def pbkdf2_F_def EVP_sha512_def)
  then have "fst (aesIgeEncryptionByteArray enc dec
      (fst (aesIgeEncryptionByteArray enc dec secret (take 32 h) (drop 32 h) True 0 (length secret)))
      (take 32 h) (drop 32 h) False 0 (length secret)) = secret"
    using ige_region [OF assms(1) _ _ assms(6), of "take 32 h" "drop 32 h" secret]
    by (simp add: aesIgeEncryptionByteArray_def split_def Let_def)
  with run len show ?thesis by simp
qed

text \<open>The passcode path of the wallet: a key and an IV taken from the two halves of the 64 bytes
  that \<open>pbkdf2\<close> writes decrypt what they encrypted, and they are the halves of RFC 8018's key.\<close>

theorem passcode_protects:
  assumes "aes_ok enc dec" and "heap_ok hp" and "length passcode < 2 ^ 64" and "length salt < 2 ^ 64"
    and "iterations \<noteq> 0" and "16 dvd length secret"
  shows "\<exists>h. pbkdf2 hp passcode salt (replicate 64 0) iterations = Some (True, h) \<and>
    h = pbkdf2_spec (hmac_spec sha512_hash 128 passcode) 64 salt (unat iterations) 64 \<and>
    fst (aesIgeEncryptionByteArray enc dec
      (fst (aesIgeEncryptionByteArray enc dec secret (take 32 h) (drop 32 h) True 0 (length secret)))
      (take 32 h) (drop 32 h) False 0 (length secret)) = secret"
  using passcode_path [OF assms] by blast

theorem passcode_protects_witness:
  "\<exists>h. pbkdf2 example_heap [1, 2] [3] (replicate 64 0) 5 = Some (True, h) \<and>
    fst (aesIgeEncryptionByteArray flip_aes flip_aes
      (fst (aesIgeEncryptionByteArray flip_aes flip_aes (replicate 48 9) (take 32 h) (drop 32 h) True 0 48))
      (take 32 h) (drop 32 h) False 0 48) = replicate 48 9"
  using passcode_protects [OF flip_aes_ok example_heap_ok, of "[1, 2]" "[3]" 5 "replicate 48 9"] by auto

end
