(* ===== verification/AesFips.thy ===== *)
theory AesFips
  imports Aes
begin

section \<open>The C code is the AES of FIPS 197\<close>

text \<open>
  The standard's field arithmetic, S-box, state transformations, Cipher, InvCipher and
  KeyExpansion; what the tables of the code hold; and the proofs that the rounds, the schedules
  and the dispatching functions of \<open>aes.c\<close> compute them, so that decryption inverts encryption.
\<close>

subsection \<open>FIPS 197\<close>

text \<open>Multiplication in the field of 256 elements, by \<open>x\<close> and in general.\<close>

definition xtime :: "byte \<Rightarrow> byte" where
  "xtime b = (if bit b 7 then push_bit 1 b XOR 0x1b else push_bit 1 b)"

definition gf_mul :: "byte \<Rightarrow> byte \<Rightarrow> byte" where
  "gf_mul a b = foldr (\<lambda>i acc. (if bit a i then (xtime ^^ i) b else 0) XOR acc) [0..<8] 0"

text \<open>The S-box (figure 7).\<close>

definition sbox :: "byte list" where
  "sbox =
    [0x63, 0x7c, 0x77, 0x7b, 0xf2, 0x6b, 0x6f, 0xc5, 0x30, 0x01, 0x67, 0x2b, 0xfe, 0xd7, 0xab, 0x76,
     0xca, 0x82, 0xc9, 0x7d, 0xfa, 0x59, 0x47, 0xf0, 0xad, 0xd4, 0xa2, 0xaf, 0x9c, 0xa4, 0x72, 0xc0,
     0xb7, 0xfd, 0x93, 0x26, 0x36, 0x3f, 0xf7, 0xcc, 0x34, 0xa5, 0xe5, 0xf1, 0x71, 0xd8, 0x31, 0x15,
     0x04, 0xc7, 0x23, 0xc3, 0x18, 0x96, 0x05, 0x9a, 0x07, 0x12, 0x80, 0xe2, 0xeb, 0x27, 0xb2, 0x75,
     0x09, 0x83, 0x2c, 0x1a, 0x1b, 0x6e, 0x5a, 0xa0, 0x52, 0x3b, 0xd6, 0xb3, 0x29, 0xe3, 0x2f, 0x84,
     0x53, 0xd1, 0x00, 0xed, 0x20, 0xfc, 0xb1, 0x5b, 0x6a, 0xcb, 0xbe, 0x39, 0x4a, 0x4c, 0x58, 0xcf,
     0xd0, 0xef, 0xaa, 0xfb, 0x43, 0x4d, 0x33, 0x85, 0x45, 0xf9, 0x02, 0x7f, 0x50, 0x3c, 0x9f, 0xa8,
     0x51, 0xa3, 0x40, 0x8f, 0x92, 0x9d, 0x38, 0xf5, 0xbc, 0xb6, 0xda, 0x21, 0x10, 0xff, 0xf3, 0xd2,
     0xcd, 0x0c, 0x13, 0xec, 0x5f, 0x97, 0x44, 0x17, 0xc4, 0xa7, 0x7e, 0x3d, 0x64, 0x5d, 0x19, 0x73,
     0x60, 0x81, 0x4f, 0xdc, 0x22, 0x2a, 0x90, 0x88, 0x46, 0xee, 0xb8, 0x14, 0xde, 0x5e, 0x0b, 0xdb,
     0xe0, 0x32, 0x3a, 0x0a, 0x49, 0x06, 0x24, 0x5c, 0xc2, 0xd3, 0xac, 0x62, 0x91, 0x95, 0xe4, 0x79,
     0xe7, 0xc8, 0x37, 0x6d, 0x8d, 0xd5, 0x4e, 0xa9, 0x6c, 0x56, 0xf4, 0xea, 0x65, 0x7a, 0xae, 0x08,
     0xba, 0x78, 0x25, 0x2e, 0x1c, 0xa6, 0xb4, 0xc6, 0xe8, 0xdd, 0x74, 0x1f, 0x4b, 0xbd, 0x8b, 0x8a,
     0x70, 0x3e, 0xb5, 0x66, 0x48, 0x03, 0xf6, 0x0e, 0x61, 0x35, 0x57, 0xb9, 0x86, 0xc1, 0x1d, 0x9e,
     0xe1, 0xf8, 0x98, 0x11, 0x69, 0xd9, 0x8e, 0x94, 0x9b, 0x1e, 0x87, 0xe9, 0xce, 0x55, 0x28, 0xdf,
     0x8c, 0xa1, 0x89, 0x0d, 0xbf, 0xe6, 0x42, 0x68, 0x41, 0x99, 0x2d, 0x0f, 0xb0, 0x54, 0xbb, 0x16]"

definition sub_byte :: "byte \<Rightarrow> byte" where
  "sub_byte b = sbox ! unat b"

definition inv_sub_byte :: "byte \<Rightarrow> byte" where
  "inv_sub_byte b = Td4 ! unat b"

text \<open>Words of four bytes.\<close>

definition cat4 :: "byte \<Rightarrow> byte \<Rightarrow> byte \<Rightarrow> byte \<Rightarrow> u32" where
  "cat4 a b c d = word_of_nat (unat a * 16777216 + unat b * 65536 + unat c * 256 + unat d)"

definition byt :: "nat \<Rightarrow> u32 \<Rightarrow> byte" where
  "byt k w = ucast (drop_bit k w)"

text \<open>MixColumns on a column, and its inverse, as in sections 5.1.3 and 5.3.3.\<close>

type_synonym column = "byte \<times> byte \<times> byte \<times> byte"

definition mix_column :: "column \<Rightarrow> column" where
  "mix_column = (\<lambda>(a, b, c, d).
     (gf_mul 2 a XOR gf_mul 3 b XOR c XOR d, a XOR gf_mul 2 b XOR gf_mul 3 c XOR d,
      a XOR b XOR gf_mul 2 c XOR gf_mul 3 d, gf_mul 3 a XOR b XOR c XOR gf_mul 2 d))"

definition inv_mix_column :: "column \<Rightarrow> column" where
  "inv_mix_column = (\<lambda>(a, b, c, d).
     (gf_mul 0xe a XOR gf_mul 0xb b XOR gf_mul 0xd c XOR gf_mul 0x9 d,
      gf_mul 0x9 a XOR gf_mul 0xe b XOR gf_mul 0xb c XOR gf_mul 0xd d,
      gf_mul 0xd a XOR gf_mul 0x9 b XOR gf_mul 0xe c XOR gf_mul 0xb d,
      gf_mul 0xb a XOR gf_mul 0xd b XOR gf_mul 0x9 c XOR gf_mul 0xe d))"

subsection \<open>Bytes and words\<close>

lemma bit_byt: "bit (byt k w) i \<longleftrightarrow> i < 8 \<and> bit w (k + i)"
  by (auto simp: byt_def bit_ucast_iff bit_drop_bit_eq)

lemma byt_xor: "byt k (v XOR w) = byt k v XOR byt k w"
  by (rule bit_word_eqI) (auto simp: bit_byt bit_xor_iff)

lemma unat_byt_and: "unat (drop_bit k w AND 0xff) = unat (byt k w)"
  by (simp add: byt_def and_ff_mask unat_and_mask unat_ucast_down)

lemma unat_byt_0: "unat (w AND 0xff) = unat (byt 0 w)"
  using unat_byt_and [of 0 w] by simp

lemma unat_byt_24: "unat (drop_bit 24 w) = unat (byt 24 w)"
proof -
  have "unat w div 2 ^ 24 < 256" using unat_u32_less [of w] by (simp add: less_mult_imp_div_less)
  then show ?thesis by (simp add: byt_def unat_ucast_down unat_drop_bit)
qed

lemma unat_cat4: "unat (cat4 a b c d) = ((unat a * 256 + unat b) * 256 + unat c) * 256 + unat d"
proof -
  have fits: "unat (word_of_nat n :: u32) = n" if "n < 2 ^ 32" for n
    using that by (simp add: unat_of_nat)
  have h: "x * 256 + y < n * 256" if "x < n" "y < 256" for x y n :: nat
    using that by linarith
  have "((unat a * 256 + unat b) * 256 + unat c) * 256 + unat d < 256 * 256 * 256 * 256"
    by (intro h unat_byte_less)
  then have "unat a * 16777216 + unat b * 65536 + unat c * 256 + unat d < 2 ^ 32"
    by (simp add: algebra_simps)
  from fits [OF this] show ?thesis unfolding cat4_def by (simp add: algebra_simps)
qed

lemma uint_cat4: "uint (cat4 a b c d) = uint a * 16777216 + uint b * 65536 + uint c * 256 + uint d"
  using arg_cong [OF unat_cat4, of int a b c d] by simp

lemma byt_cat4: "byt 24 (cat4 a b c d) = a" "byt 16 (cat4 a b c d) = b"
  "byt 8 (cat4 a b c d) = c" "byt 0 (cat4 a b c d) = d"
proof -
  have u: "unat (byt k (cat4 a b c d)) =
      (((unat a * 256 + unat b) * 256 + unat c) * 256 + unat d) div 2 ^ k mod 256" for k
    by (simp add: byt_def unat_ucast_down unat_drop_bit unat_cat4)
  have dv: "(x * 256 + unat y) div 256 = x" for x and y :: byte
    using unat_byte_less [of y] by (simp del: unat_byte_less)
  have md: "(x * 256 + unat y) mod 256 = unat y" "unat y mod 256 = unat y" for x and y :: byte
    using unat_byte_less [of y] by (simp_all del: unat_byte_less)
  have p: "(2 :: nat) ^ 24 = 256 * (256 * 256)" "(2 :: nat) ^ 16 = 256 * 256" "(2 :: nat) ^ 8 = 256" by simp_all
  show "byt 24 (cat4 a b c d) = a" "byt 16 (cat4 a b c d) = b"
    "byt 8 (cat4 a b c d) = c" "byt 0 (cat4 a b c d) = d"
    unfolding word_unat_eq_iff u p div_mult2_eq dv by (simp_all only: md power_0 div_by_1)
qed

lemma word_byt_eqI:
  assumes "byt 24 v = byt 24 w" "byt 16 v = byt 16 w" "byt 8 v = byt 8 w" "byt 0 v = byt 0 w"
  shows "v = w"
proof (rule bit_word_eqI)
  fix i assume "i < LENGTH(32)"
  then have "i < 32" by simp
  have eq: "bit v (k + j) = bit w (k + j)" if "j < 8" "k \<in> {0, 8, 16, 24}" for k j
    using that assms by (metis bit_byt insertE singletonD)
  consider "i < 8" | "8 \<le> i" "i < 16" | "16 \<le> i" "i < 24" | "24 \<le> i" "i < 32"
    using \<open>i < 32\<close> by linarith
  then show "bit v i = bit w i"
  proof cases
    case 1 then show ?thesis using eq [of i 0] by simp
  next
    case 2 then show ?thesis using eq [of "i - 8" 8] by simp
  next
    case 3 then show ?thesis using eq [of "i - 16" 16] by simp
  next
    case 4 then show ?thesis using eq [of "i - 24" 24] by simp
  qed
qed

lemma bit_xtime: "bit (xtime b) i \<longleftrightarrow> i < 8 \<and> ((0 < i \<and> bit b (i - 1)) \<noteq> (bit b 7 \<and> i \<in> {0, 1, 3, 4}))"
proof -
  have 27: "bit (27 :: byte) i \<longleftrightarrow> i \<in> {0, 1, 3, 4}" if i: "i < 8"
  proof -
    consider "i = 0" | "i = 1" | "i = 2" | "i = 3" | "i = 4" | "i = 5" | "i = 6" | "i = 7"
      using i by linarith
    then show ?thesis by cases simp_all
  qed
  have 2: "bit (push_bit 1 b) i \<longleftrightarrow> 0 < i \<and> bit b (i - 1)" if "i < 8"
    using that bit_push_bit_iff [of 1 b i] by (simp add: Suc_le_eq)
  show ?thesis
  proof (cases "i < 8")
    case True
    then show ?thesis
      unfolding xtime_def by (cases "bit b 7") (simp_all only: if_True if_False bit_xor_iff 2 27, blast+)
  next
    case False
    then show ?thesis using bit_imp_le_length [of "xtime b" i] by auto
  qed
qed

lemma xtime_xor: "xtime (a XOR b) = xtime a XOR xtime b"
  by (rule bit_word_eqI) (auto simp: bit_xtime bit_xor_iff)

lemma funpow_23: "(f ^^ 2) x = f (f x)" "(f ^^ 3) x = f (f (f x))"
  by (simp_all add: numeral_2_eq_2 numeral_3_eq_3)

lemma gf_mul_consts:
  "gf_mul 2 b = xtime b" "gf_mul 3 b = b XOR xtime b"
  "gf_mul 0x9 b = b XOR xtime (xtime (xtime b))"
  "gf_mul 0xb b = b XOR xtime b XOR xtime (xtime (xtime b))"
  "gf_mul 0xd b = b XOR xtime (xtime b) XOR xtime (xtime (xtime b))"
  "gf_mul 0xe b = xtime b XOR xtime (xtime b) XOR xtime (xtime (xtime b))"
proof -
  have "[0..<8] = [0, 1, 2, 3, 4, 5, 6, 7 :: nat]" by (simp add: upt_rec)
  note unfold = gf_mul_def this
  show "gf_mul 2 b = xtime b" "gf_mul 3 b = b XOR xtime b"
    "gf_mul 0x9 b = b XOR xtime (xtime (xtime b))"
    "gf_mul 0xb b = b XOR xtime b XOR xtime (xtime (xtime b))"
    "gf_mul 0xd b = b XOR xtime (xtime b) XOR xtime (xtime (xtime b))"
    "gf_mul 0xe b = xtime b XOR xtime (xtime b) XOR xtime (xtime (xtime b))"
    unfolding unfold by (simp_all add: funpow_23)
qed

lemma gf_mul_xor:
  "gf_mul 2 (a XOR b) = gf_mul 2 a XOR gf_mul 2 b" "gf_mul 3 (a XOR b) = gf_mul 3 a XOR gf_mul 3 b"
  "gf_mul 0x9 (a XOR b) = gf_mul 0x9 a XOR gf_mul 0x9 b"
  "gf_mul 0xb (a XOR b) = gf_mul 0xb a XOR gf_mul 0xb b"
  "gf_mul 0xd (a XOR b) = gf_mul 0xd a XOR gf_mul 0xd b"
  "gf_mul 0xe (a XOR b) = gf_mul 0xe a XOR gf_mul 0xe b"
  by (simp_all add: gf_mul_consts xtime_xor ac_simps)

lemma xor_pair_cancel: "a XOR (a XOR b) = b" for a :: byte
  by (simp flip: xor.assoc)

lemma inv_mix_mix: "inv_mix_column (mix_column col) = col"
  by (cases col)
    (simp add: inv_mix_column_def mix_column_def gf_mul_consts xtime_xor ac_simps xor_pair_cancel)

lemma mix_inv_mix: "mix_column (inv_mix_column col) = col"
  by (cases col)
    (simp add: inv_mix_column_def mix_column_def gf_mul_consts xtime_xor ac_simps xor_pair_cancel)

subsection \<open>The tables\<close>

text \<open>The tables are compared as lists of integers, where evaluation is fast.\<close>

definition xt :: "int \<Rightarrow> int" where
  "xt n = (if n < 128 then 2 * n else (2 * n - 256) XOR 27)"

lemma uint_xtime: "uint (xtime b) = xt (uint b)"
proof -
  have b: "0 \<le> uint b" "uint b < 256" using uint_bounded [of b] by simp_all
  have "bit b 7 \<longleftrightarrow> b AND 0x80 \<noteq> 0"
    using bit_iff_and_push_bit_not_eq_0 [of b 7] by simp
  then have high: "bit b 7 \<longleftrightarrow> 128 \<le> uint b"
    unfolding and_80_iff uint_nat by linarith
  have double: "uint (push_bit 1 b) = (if uint b < 128 then 2 * uint b else 2 * uint b - 256)"
  proof -
    have "uint (push_bit 1 b) = uint b * 2 mod 256"
      unfolding unsigned_push_bit_eq by (simp add: take_bit_eq_mod push_bit_eq_mult)
    moreover have "uint b * 2 mod 256 = 2 * uint b" if "uint b < 128"
      using b that by (subst mod_pos_pos_trivial) auto
    moreover have "uint b * 2 mod 256 = 2 * uint b - 256" if "\<not> uint b < 128"
    proof -
      have "uint b * 2 mod 256 = (2 * uint b - 256 + 256) mod 256" by (simp add: mult.commute)
      also have "\<dots> = (2 * uint b - 256) mod 256" by (rule mod_add_self2)
      also have "\<dots> = 2 * uint b - 256" using b that by (intro mod_pos_pos_trivial) auto
      finally show ?thesis .
    qed
    ultimately show ?thesis by simp
  qed
  show ?thesis
    unfolding xtime_def xt_def using high double by (auto simp: uint_xor)
qed

lemma table_at:
  assumes eq: "map uint T = map f (map uint base)" and len: "length base = 256"
    and f: "\<And>s :: byte. uint (g s) = f (uint s)"
  shows "(T :: u32 list) ! unat (b :: byte) = g (base ! unat b)"
proof -
  have "length T = 256" using arg_cong [OF eq, of length] len by simp
  then have i: "unat b < length T" "unat b < length base" using unat_byte_less [of b] len by simp_all
  then have "uint (T ! unat b) = f (uint (base ! unat b))"
    using arg_cong [OF eq, of "\<lambda>xs. xs ! unat b"] by simp
  then show ?thesis using f by (metis word_uint_eq_iff)
qed

lemmas uint_cells = uint_cat4 uint_xtime uint_xor gf_mul_consts

lemma length_sbox: "length sbox = 256"
  by (simp add: sbox_def)

lemma length_Td4: "length Td4 = 256"
  by (simp add: Td4_def)

lemma Te0_ints: "map uint Te0 = map (\<lambda>s. (xt s) * 16777216 + s * 65536 + s * 256 + (s XOR xt s)) (map uint sbox)"
  unfolding Te0_def sbox_def xt_def by simp

lemma Te1_ints: "map uint Te1 = map (\<lambda>s. (s XOR xt s) * 16777216 + (xt s) * 65536 + s * 256 + s) (map uint sbox)"
  unfolding Te1_def sbox_def xt_def by simp

lemma Te2_ints: "map uint Te2 = map (\<lambda>s. s * 16777216 + (s XOR xt s) * 65536 + (xt s) * 256 + s) (map uint sbox)"
  unfolding Te2_def sbox_def xt_def by simp

lemma Te3_ints: "map uint Te3 = map (\<lambda>s. s * 16777216 + s * 65536 + (s XOR xt s) * 256 + (xt s)) (map uint sbox)"
  unfolding Te3_def sbox_def xt_def by simp

lemma Td0_ints:
  "map uint Td0 = map (\<lambda>s. (xt s XOR xt (xt s) XOR xt (xt (xt s))) * 16777216 + (s XOR xt (xt (xt s))) * 65536 +
      (s XOR xt (xt s) XOR xt (xt (xt s))) * 256 + (s XOR xt s XOR xt (xt (xt s)))) (map uint Td4)"
  unfolding Td0_def Td4_def xt_def by simp

lemma Td1_ints:
  "map uint Td1 = map (\<lambda>s. (s XOR xt s XOR xt (xt (xt s))) * 16777216 + (xt s XOR xt (xt s) XOR xt (xt (xt s))) * 65536 +
      (s XOR xt (xt (xt s))) * 256 + (s XOR xt (xt s) XOR xt (xt (xt s)))) (map uint Td4)"
  unfolding Td1_def Td4_def xt_def by simp

lemma Td2_ints:
  "map uint Td2 = map (\<lambda>s. (s XOR xt (xt s) XOR xt (xt (xt s))) * 16777216 + (s XOR xt s XOR xt (xt (xt s))) * 65536 +
      (xt s XOR xt (xt s) XOR xt (xt (xt s))) * 256 + (s XOR xt (xt (xt s)))) (map uint Td4)"
  unfolding Td2_def Td4_def xt_def by simp

lemma Td3_ints:
  "map uint Td3 = map (\<lambda>s. (s XOR xt (xt (xt s))) * 16777216 + (s XOR xt (xt s) XOR xt (xt (xt s))) * 65536 +
      (s XOR xt s XOR xt (xt (xt s))) * 256 + (xt s XOR xt (xt s) XOR xt (xt (xt s)))) (map uint Td4)"
  unfolding Td3_def Td4_def xt_def by simp

lemma Te0_at: "Te0 ! unat b = (let s = sub_byte b in cat4 (gf_mul 2 s) s s (gf_mul 3 s))"
  unfolding sub_byte_def Let_def by (rule table_at [OF Te0_ints length_sbox]) (simp only: uint_cells)

lemma Te1_at: "Te1 ! unat b = (let s = sub_byte b in cat4 (gf_mul 3 s) (gf_mul 2 s) s s)"
  unfolding sub_byte_def Let_def by (rule table_at [OF Te1_ints length_sbox]) (simp only: uint_cells)

lemma Te2_at: "Te2 ! unat b = (let s = sub_byte b in cat4 s (gf_mul 3 s) (gf_mul 2 s) s)"
  unfolding sub_byte_def Let_def by (rule table_at [OF Te2_ints length_sbox]) (simp only: uint_cells)

lemma Te3_at: "Te3 ! unat b = (let s = sub_byte b in cat4 s s (gf_mul 3 s) (gf_mul 2 s))"
  unfolding sub_byte_def Let_def by (rule table_at [OF Te3_ints length_sbox]) (simp only: uint_cells)

lemma Td0_at: "Td0 ! unat b = (let s = inv_sub_byte b in cat4 (gf_mul 0xe s) (gf_mul 0x9 s) (gf_mul 0xd s) (gf_mul 0xb s))"
  unfolding inv_sub_byte_def Let_def by (rule table_at [OF Td0_ints length_Td4]) (simp only: uint_cells)

lemma Td1_at: "Td1 ! unat b = (let s = inv_sub_byte b in cat4 (gf_mul 0xb s) (gf_mul 0xe s) (gf_mul 0x9 s) (gf_mul 0xd s))"
  unfolding inv_sub_byte_def Let_def by (rule table_at [OF Td1_ints length_Td4]) (simp only: uint_cells)

lemma Td2_at: "Td2 ! unat b = (let s = inv_sub_byte b in cat4 (gf_mul 0xd s) (gf_mul 0xb s) (gf_mul 0xe s) (gf_mul 0x9 s))"
  unfolding inv_sub_byte_def Let_def by (rule table_at [OF Td2_ints length_Td4]) (simp only: uint_cells)

lemma Td3_at: "Td3 ! unat b = (let s = inv_sub_byte b in cat4 (gf_mul 0x9 s) (gf_mul 0xd s) (gf_mul 0xb s) (gf_mul 0xe s))"
  unfolding inv_sub_byte_def Let_def by (rule table_at [OF Td3_ints length_Td4]) (simp only: uint_cells)

lemma upt_16: "[0..<16] = [0, 1, 2, 3, 4, 5, 6, 7, 8, 9, 10, 11, 12, 13, 14, 15 :: nat]"
  by (simp add: upt_rec)

lemma upt_256: "[0..<256] = concat (map (\<lambda>i. map (\<lambda>j. 16 * i + j) [0..<16]) [0..<16 :: nat])"
  by (simp add: upt_rec)

subsection \<open>The S-box\<close>

text \<open>
  The S-box as FIPS 197 defines it (section 5.1.1): the inverse in the field, by the table of the
  inverses, then an affine map, as a sum of rotations.
\<close>

definition gf_inverses :: "byte list" where
  "gf_inverses =
    [0x00, 0x01, 0x8d, 0xf6, 0xcb, 0x52, 0x7b, 0xd1, 0xe8, 0x4f, 0x29, 0xc0, 0xb0, 0xe1, 0xe5, 0xc7,
     0x74, 0xb4, 0xaa, 0x4b, 0x99, 0x2b, 0x60, 0x5f, 0x58, 0x3f, 0xfd, 0xcc, 0xff, 0x40, 0xee, 0xb2,
     0x3a, 0x6e, 0x5a, 0xf1, 0x55, 0x4d, 0xa8, 0xc9, 0xc1, 0x0a, 0x98, 0x15, 0x30, 0x44, 0xa2, 0xc2,
     0x2c, 0x45, 0x92, 0x6c, 0xf3, 0x39, 0x66, 0x42, 0xf2, 0x35, 0x20, 0x6f, 0x77, 0xbb, 0x59, 0x19,
     0x1d, 0xfe, 0x37, 0x67, 0x2d, 0x31, 0xf5, 0x69, 0xa7, 0x64, 0xab, 0x13, 0x54, 0x25, 0xe9, 0x09,
     0xed, 0x5c, 0x05, 0xca, 0x4c, 0x24, 0x87, 0xbf, 0x18, 0x3e, 0x22, 0xf0, 0x51, 0xec, 0x61, 0x17,
     0x16, 0x5e, 0xaf, 0xd3, 0x49, 0xa6, 0x36, 0x43, 0xf4, 0x47, 0x91, 0xdf, 0x33, 0x93, 0x21, 0x3b,
     0x79, 0xb7, 0x97, 0x85, 0x10, 0xb5, 0xba, 0x3c, 0xb6, 0x70, 0xd0, 0x06, 0xa1, 0xfa, 0x81, 0x82,
     0x83, 0x7e, 0x7f, 0x80, 0x96, 0x73, 0xbe, 0x56, 0x9b, 0x9e, 0x95, 0xd9, 0xf7, 0x02, 0xb9, 0xa4,
     0xde, 0x6a, 0x32, 0x6d, 0xd8, 0x8a, 0x84, 0x72, 0x2a, 0x14, 0x9f, 0x88, 0xf9, 0xdc, 0x89, 0x9a,
     0xfb, 0x7c, 0x2e, 0xc3, 0x8f, 0xb8, 0x65, 0x48, 0x26, 0xc8, 0x12, 0x4a, 0xce, 0xe7, 0xd2, 0x62,
     0x0c, 0xe0, 0x1f, 0xef, 0x11, 0x75, 0x78, 0x71, 0xa5, 0x8e, 0x76, 0x3d, 0xbd, 0xbc, 0x86, 0x57,
     0x0b, 0x28, 0x2f, 0xa3, 0xda, 0xd4, 0xe4, 0x0f, 0xa9, 0x27, 0x53, 0x04, 0x1b, 0xfc, 0xac, 0xe6,
     0x7a, 0x07, 0xae, 0x63, 0xc5, 0xdb, 0xe2, 0xea, 0x94, 0x8b, 0xc4, 0xd5, 0x9d, 0xf8, 0x90, 0x6b,
     0xb1, 0x0d, 0xd6, 0xeb, 0xc6, 0x0e, 0xcf, 0xad, 0x08, 0x4e, 0xd7, 0xe3, 0x5d, 0x50, 0x1e, 0xb3,
     0x5b, 0x23, 0x38, 0x34, 0x68, 0x46, 0x03, 0x8c, 0xdd, 0x9c, 0x7d, 0xa0, 0xcd, 0x1a, 0x41, 0x1c]"

definition gf_inverse :: "byte \<Rightarrow> byte" where
  "gf_inverse b = gf_inverses ! unat b"

definition rotl8 :: "nat \<Rightarrow> byte \<Rightarrow> byte" where
  "rotl8 k b = push_bit k b OR drop_bit (8 - k) b"

definition affine :: "byte \<Rightarrow> byte" where
  "affine b = b XOR rotl8 1 b XOR rotl8 2 b XOR rotl8 3 b XOR rotl8 4 b XOR 0x63"

definition gm :: "int \<Rightarrow> int \<Rightarrow> int" where
  "gm a b0 =
     (let b1 = xt b0; b2 = xt b1; b3 = xt b2; b4 = xt b3; b5 = xt b4; b6 = xt b5; b7 = xt b6 in
      (if bit a 0 then b0 else 0) XOR (if bit a 1 then b1 else 0) XOR (if bit a 2 then b2 else 0) XOR
      (if bit a 3 then b3 else 0) XOR (if bit a 4 then b4 else 0) XOR (if bit a 5 then b5 else 0) XOR
      (if bit a 6 then b6 else 0) XOR (if bit a 7 then b7 else 0))"

lemma uint_gf_mul: "uint (gf_mul a b) = gm (uint a) (uint b)"
proof -
  have u: "[0..<8] = [0, 1, 2, 3, 4, 5, 6, 7 :: nat]" by (simp add: upt_rec)
  have f: "uint ((xtime ^^ i) b) = (xt ^^ i) (uint b)" for i
    by (induction i) (simp_all add: uint_xtime)
  have n: "(xt ^^ 0) x = x" "(xt ^^ 1) x = xt x" "(xt ^^ 2) x = xt (xt x)" "(xt ^^ 3) x = xt (xt (xt x))"
    "(xt ^^ 4) x = xt (xt (xt (xt x)))" "(xt ^^ 5) x = xt (xt (xt (xt (xt x))))"
    "(xt ^^ 6) x = xt (xt (xt (xt (xt (xt x)))))" "(xt ^^ 7) x = xt (xt (xt (xt (xt (xt (xt x))))))" for x
    by (simp_all add: eval_nat_numeral)
  have c: "uint (if bit a i then x else 0) = (if bit (uint a) i then uint x else 0)" for i and x :: byte
    using bit_imp_le_length [of a i] by (auto simp: bit_uint_iff)
  show ?thesis
    unfolding gf_mul_def gm_def Let_def u foldr.simps comp_def id_apply uint_xor c f n by simp
qed

lemma xt_cases: "n < 128 \<Longrightarrow> xt n = 2 * n" "\<not> n < 128 \<Longrightarrow> xt n = (2 * n - 256) XOR 27"
  by (simp_all add: xt_def)

lemmas gm_at = gm_def [of "numeral a" "numeral b" for a b] gm_def [of 1 1] gm_def [of 0 0]

lemma gf_inverses_ints:
  "map2 gm (map int [0..<256]) (map uint gf_inverses) =
     map (\<lambda>i. if i = 0 then 0 else 1) [0..<256]"
  unfolding upt_256 upt_16 gf_inverses_def by (simp add: gm_at xt_cases Let_def)

definition affine_int :: "int \<Rightarrow> int" where
  "affine_int b =
     b XOR (take_bit 8 (push_bit 1 b) OR drop_bit 7 b) XOR (take_bit 8 (push_bit 2 b) OR drop_bit 6 b) XOR
     (take_bit 8 (push_bit 3 b) OR drop_bit 5 b) XOR (take_bit 8 (push_bit 4 b) OR drop_bit 4 b) XOR 0x63"

lemma uint_affine: "uint (affine b) = affine_int (uint b)"
proof -
  have t: "take_bit 8 (uint b) = uint b"
    using uint_bounded [of b] by (simp add: take_bit_int_eq_self)
  show ?thesis
    unfolding affine_def affine_int_def rotl8_def uint_xor uint_or unsigned_push_bit_eq unsigned_drop_bit_eq
    by (simp add: t)
qed

lemma length_gf_inverses: "length gf_inverses = 256"
  by (simp add: gf_inverses_def)

lemma affine_ints: "map uint sbox = map affine_int (map uint gf_inverses)"
  unfolding sbox_def gf_inverses_def affine_int_def by simp

lemma gf_inverse_mul: "gf_mul b (gf_inverse b) = (if b = 0 then 0 else 1)"
proof -
  have i: "unat b < 256" by (rule unat_byte_less)
  have "map2 gm (map int [0..<256]) (map uint gf_inverses) ! unat b = (if unat b = 0 then 0 else 1)"
    unfolding gf_inverses_ints using i by (simp del: unat_byte_less)
  then have "gm (uint b) (uint (gf_inverse b)) = (if unat b = 0 then 0 else 1)"
    using i by (simp add: length_gf_inverses gf_inverse_def del: unat_byte_less)
  then have "uint (gf_mul b (gf_inverse b)) = (if unat b = 0 then 0 else 1)" by (simp only: uint_gf_mul)
  then show ?thesis
    by (cases "b = 0") (simp, metis uint_0_iff, metis uint_1 unat_eq_zero word_uint_eq_iff)
qed

subsection \<open>States\<close>

text \<open>The state is the sixteen bytes of the block, column by column.\<close>

definition sub_bytes :: "bytes \<Rightarrow> bytes" where
  "sub_bytes st = map sub_byte st"

definition inv_sub_bytes :: "bytes \<Rightarrow> bytes" where
  "inv_sub_bytes st = map inv_sub_byte st"

definition shift_rows :: "bytes \<Rightarrow> bytes" where
  "shift_rows st = map (\<lambda>i. st ! ((i + 4 * (i mod 4)) mod 16)) [0..<16]"

definition inv_shift_rows :: "bytes \<Rightarrow> bytes" where
  "inv_shift_rows st = map (\<lambda>i. st ! ((i + 12 * (i mod 4)) mod 16)) [0..<16]"

definition on_columns :: "(column \<Rightarrow> column) \<Rightarrow> bytes \<Rightarrow> bytes" where
  "on_columns f st =
     concat (map (\<lambda>c. case f (st ! (4 * c), st ! (4 * c + 1), st ! (4 * c + 2), st ! (4 * c + 3)) of
                        (x0, x1, x2, x3) \<Rightarrow> [x0, x1, x2, x3]) [0..<4])"

definition mix_columns :: "bytes \<Rightarrow> bytes" where
  "mix_columns st = on_columns mix_column st"

definition inv_mix_columns :: "bytes \<Rightarrow> bytes" where
  "inv_mix_columns st = on_columns inv_mix_column st"

definition word_bytes :: "u32 \<Rightarrow> bytes" where
  "word_bytes w = [byt 24 w, byt 16 w, byt 8 w, byt 0 w]"

definition round_key :: "u32 list \<Rightarrow> nat \<Rightarrow> bytes" where
  "round_key w i = concat (map (\<lambda>c. word_bytes (w ! (4 * i + c))) [0..<4])"

definition add_round_key :: "u32 list \<Rightarrow> nat \<Rightarrow> bytes \<Rightarrow> bytes" where
  "add_round_key w i st = map2 (XOR) st (round_key w i)"

text \<open>Cipher and InvCipher (figures 5 and 12), for \<open>nr\<close> rounds.\<close>

definition fips_cipher :: "u32 list \<Rightarrow> nat \<Rightarrow> bytes \<Rightarrow> bytes" where
  "fips_cipher w nr inp =
     (let st = add_round_key w 0 inp;
          st = foldl (\<lambda>st i. add_round_key w i (mix_columns (shift_rows (sub_bytes st)))) st [1..<nr]
      in add_round_key w nr (shift_rows (sub_bytes st)))"

definition fips_inv_cipher :: "u32 list \<Rightarrow> nat \<Rightarrow> bytes \<Rightarrow> bytes" where
  "fips_inv_cipher w nr inp =
     (let st = add_round_key w nr inp;
          st = foldl (\<lambda>st i. inv_mix_columns (add_round_key w i (inv_sub_bytes (inv_shift_rows st)))) st (rev [1..<nr])
      in add_round_key w 0 (inv_sub_bytes (inv_shift_rows st)))"

lemma list16:
  assumes "length (st :: bytes) = 16"
  obtains a b c d e f g h i j k l m n p q where "st = [a, b, c, d, e, f, g, h, i, j, k, l, m, n, p, q]"
  using assms by (auto simp: length_Suc_conv eval_nat_numeral)

lemma upt_4: "[0..<4] = [0, 1, 2, 3 :: nat]"
  by (simp add: upt_rec)

lemma inv_shift_shift: "length st = 16 \<Longrightarrow> inv_shift_rows (shift_rows st) = st"
  by (erule list16) (simp add: shift_rows_def inv_shift_rows_def upt_16)

lemma shift_inv_shift: "length st = 16 \<Longrightarrow> shift_rows (inv_shift_rows st) = st"
  by (erule list16) (simp add: shift_rows_def inv_shift_rows_def upt_16)

lemma length_states [simp]:
  "length (sub_bytes st) = length st" "length (inv_sub_bytes st) = length st"
  "length (shift_rows st) = 16" "length (inv_shift_rows st) = 16"
  "length (mix_columns st) = 16" "length (inv_mix_columns st) = 16"
  "length (round_key w i) = 16" "length (add_round_key w i st) = min (length st) 16"
  by (simp_all add: sub_bytes_def inv_sub_bytes_def shift_rows_def inv_shift_rows_def mix_columns_def
      inv_mix_columns_def on_columns_def upt_4 round_key_def word_bytes_def add_round_key_def
      split: prod.split)

lemma add_round_key_twice: "length st = 16 \<Longrightarrow> add_round_key w i (add_round_key w i st) = st"
  using xor_block_cancel [of st "round_key w i"] by (simp add: add_round_key_def xor_block_def)

lemma on_columns_inverse:
  "length st = 16 \<Longrightarrow> (\<And>c. f (g c) = c) \<Longrightarrow> on_columns f (on_columns g st) = st"
proof (erule list16)
  fix a b c d e f' g' h i j k l m n p q
  assume inv: "\<And>c. f (g c) = c" and st: "st = [a, b, c, d, e, f', g', h, i, j, k, l, m, n, p, q]"
  obtain x0 x1 x2 x3 where x: "g (a, b, c, d) = (x0, x1, x2, x3)" by (cases "g (a, b, c, d)")
  obtain y0 y1 y2 y3 where y: "g (e, f', g', h) = (y0, y1, y2, y3)" by (cases "g (e, f', g', h)")
  obtain z0 z1 z2 z3 where z: "g (i, j, k, l) = (z0, z1, z2, z3)" by (cases "g (i, j, k, l)")
  obtain u0 u1 u2 u3 where u: "g (m, n, p, q) = (u0, u1, u2, u3)" by (cases "g (m, n, p, q)")
  show ?thesis
    using inv [of "(a, b, c, d)"] inv [of "(e, f', g', h)"] inv [of "(i, j, k, l)"] inv [of "(m, n, p, q)"]
    unfolding x y z u by (simp add: st on_columns_def upt_4 x y z u)
qed

lemma inv_mix_mix_columns: "length st = 16 \<Longrightarrow> inv_mix_columns (mix_columns st) = st"
  unfolding mix_columns_def inv_mix_columns_def by (rule on_columns_inverse) (simp_all add: inv_mix_mix)

lemma mix_inv_mix_columns: "length st = 16 \<Longrightarrow> mix_columns (inv_mix_columns st) = st"
  unfolding mix_columns_def inv_mix_columns_def by (rule on_columns_inverse) (simp_all add: mix_inv_mix)

text \<open>The two S-boxes are inverse to each other.\<close>

lemma sbox_inverse: "map (\<lambda>s. Td4 ! unat s) sbox = map word_of_nat [0..<256]"
proof -
  have indexed: "map ((!) Td4) [0..<256] = Td4"
    using map_nth [of Td4] by (simp add: length_Td4)
  have two: "Td4 ! 2 = 106" by (simp add: Td4_def)
  from indexed have cells: "map ((!) Td4) (concat (map (\<lambda>i. map (\<lambda>j. 16 * i + j) [0..<16]) [0..<16])) =
      tl (0 # Td4)" unfolding upt_256 by simp
  show ?thesis
    using cells [unfolded upt_16 Td4_def [THEN arg_cong [of _ _ "\<lambda>x. tl (0 # x)"]], simplified]
    unfolding upt_256 upt_16 sbox_def by (simp add: two)
qed

lemma inv_sub_sub: "inv_sub_byte (sub_byte b) = b"
proof -
  have "map (\<lambda>s. Td4 ! unat s) sbox ! unat b = map word_of_nat [0..<256] ! unat b"
    unfolding sbox_inverse ..
  then show ?thesis
    using unat_byte_less [of b] length_sbox by (simp add: inv_sub_byte_def sub_byte_def del: unat_byte_less)
qed

lemma sub_inv_sub: "sub_byte (inv_sub_byte b) = b"
proof -
  have "inj sub_byte" by (rule inj_on_inverseI [of _ inv_sub_byte]) (rule inv_sub_sub)
  then have "surj sub_byte" by (rule finite_UNIV_inj_surj [rotated]) simp
  then obtain c where "b = sub_byte c" by blast
  then show ?thesis by (simp add: inv_sub_sub)
qed

lemma inv_sub_sub_bytes: "inv_sub_bytes (sub_bytes st) = st"
  by (simp add: sub_bytes_def inv_sub_bytes_def comp_def inv_sub_sub)

lemma sub_inv_sub_bytes: "sub_bytes (inv_sub_bytes st) = st"
  by (simp add: sub_bytes_def inv_sub_bytes_def comp_def sub_inv_sub)

text \<open>InvCipher undoes Cipher, and Cipher InvCipher.\<close>

lemma cipher_rounds:
  assumes "length st = 16"
  shows "foldl (\<lambda>st i. inv_mix_columns (add_round_key w i (inv_sub_bytes (inv_shift_rows st))))
     (shift_rows (sub_bytes (foldl (\<lambda>st i. add_round_key w i (mix_columns (shift_rows (sub_bytes st)))) st is))) (rev is)
     = shift_rows (sub_bytes st)"
  using assms
proof (induction "is" arbitrary: st rule: rev_induct)
  case (snoc i "is")
  have "length (foldl (\<lambda>st i. add_round_key w i (mix_columns (shift_rows (sub_bytes st)))) st is) = 16" (is "length ?s = 16")
    using snoc.prems by (induction "is" rule: rev_induct) auto
  then show ?case
    using snoc
    by (simp add: inv_shift_shift inv_sub_sub_bytes add_round_key_twice inv_mix_mix_columns)
qed simp

lemma inv_cipher_cipher:
  assumes "length b = 16"
  shows "fips_inv_cipher w nr (fips_cipher w nr b) = b"
proof -
  define st where "st = foldl (\<lambda>st i. add_round_key w i (mix_columns (shift_rows (sub_bytes st)))) (add_round_key w 0 b) [1..<nr]"
  have "fips_inv_cipher w nr (fips_cipher w nr b) =
      add_round_key w 0 (inv_sub_bytes (inv_shift_rows (foldl (\<lambda>st i. inv_mix_columns (add_round_key w i (inv_sub_bytes (inv_shift_rows st))))
        (shift_rows (sub_bytes st)) (rev [1..<nr]))))"
    by (simp add: fips_cipher_def fips_inv_cipher_def Let_def st_def add_round_key_twice)
  also have "\<dots> = b"
    unfolding st_def
    using assms by (subst cipher_rounds) (simp_all add: inv_shift_shift inv_sub_sub_bytes add_round_key_twice)
  finally show ?thesis .
qed

subsection \<open>The rounds of the code\<close>

lemma list_byt: "w = cat4 a b c d \<longleftrightarrow> word_bytes w = [a, b, c, d]"
  by (auto simp: word_bytes_def byt_cat4 intro: word_byt_eqI)

lemma word_bytes_xor: "word_bytes (v XOR w) = map2 (XOR) (word_bytes v) (word_bytes w)"
  by (simp add: word_bytes_def byt_xor)

lemma be_bytes_4: "be_bytes 4 (unat w) = word_bytes w"
proof -
  have "(4 :: nat) = Suc (Suc (Suc (Suc 0)))" by simp
  then have "be_bytes 4 (unat w) = [word_of_nat (unat w div 256 div 256 div 256),
      word_of_nat (unat w div 256 div 256), word_of_nat (unat w div 256), word_of_nat (unat w)]"
    by (simp only: be_bytes.simps) simp
  moreover have "word_of_nat (unat w div 2 ^ k) = byt k w" for k
    by (simp add: byt_def word_unat_eq_iff unat_of_nat unat_ucast_down unat_drop_bit)
  from this [of 24] this [of 16] this [of 8] this [of 0] have
    "word_of_nat (unat w div 16777216) = byt 24 w" "word_of_nat (unat w div 65536) = byt 16 w"
    "word_of_nat (unat w div 256) = byt 8 w" "word_of_nat (unat w) = byt 0 w" by simp_all
  moreover have "unat w div 256 div 256 = unat w div 65536" "unat w div 65536 div 256 = unat w div 16777216"
    by (simp_all flip: div_mult2_eq)
  ultimately show ?thesis by (simp add: word_bytes_def)
qed

lemma unat_be_word: "length xs = 4 \<Longrightarrow> unat (word_of_nat (be_nat xs) :: u32) = be_nat xs"
  using be_nat_less [of xs] by (simp only: unat_of_nat) simp

lemma bswap4_bytes: "length xs = 4 \<Longrightarrow> CRYPTO_bswap4 (word_of_nat (be_nat (rev xs))) = word_of_nat (be_nat xs)"
  using be_bytes_be_nat [of "rev xs"] unat_be_word [of "rev xs"] by (simp add: CRYPTO_bswap4_def)

lemma PUTU32_bytes: "PUTU32 w = word_bytes w"
proof -
  define xs where "xs = be_bytes 4 (unat w)"
  have len: "length (rev xs) = 4" by (simp add: xs_def)
  have "unat (CRYPTO_bswap4 w) = be_nat (rev xs)"
    unfolding CRYPTO_bswap4_def xs_def [symmetric] by (rule unat_be_word [OF len])
  then have "PUTU32 w = rev (be_bytes (length (rev xs)) (be_nat (rev xs)))"
    by (simp only: PUTU32_def Let_def len)
  then show ?thesis unfolding be_bytes_be_nat rev_rev_ident by (simp only: xs_def be_bytes_4)
qed

lemma GETU32_bytes: "GETU32 (a # b # c # d # rest) = cat4 a b c d"
proof -
  have "take 4 (a # b # c # d # rest) = [a, b, c, d]" by (simp add: numeral_eq_Suc)
  then have "GETU32 (a # b # c # d # rest) = word_of_nat (be_nat [a, b, c, d])"
    using bswap4_bytes [of "[a, b, c, d]"] by (simp only: GETU32_def) simp
  moreover have "unat (word_of_nat (be_nat [a, b, c, d]) :: u32) = be_nat [a, b, c, d]"
    by (rule unat_be_word) simp
  moreover have "be_nat [a, b, c, d] = ((unat a * 256 + unat b) * 256 + unat c) * 256 + unat d"
    by (simp only: be_nat_def foldl.simps mult_0 add_0)
  ultimately show ?thesis by (metis unat_cat4 word_unat_eq_iff)
qed

text \<open>The state a quadruple of columns stands for.\<close>

definition st_of :: "columns \<Rightarrow> bytes" where
  "st_of = (\<lambda>(s0, s1, s2, s3). word_bytes s0 @ word_bytes s1 @ word_bytes s2 @ word_bytes s3)"

lemma byt_0_drop: "byt 0 (drop_bit k w) = byt k w"
  by (simp add: byt_def)

lemmas index_simps = unat_byt_and unat_byt_0 unat_byt_24 byt_0_drop

lemma word_bytes_cat4 [simp]: "word_bytes (cat4 a b c d) = [a, b, c, d]"
  by (simp add: word_bytes_def byt_cat4)

lemma enc_word_bytes:
  "word_bytes (enc_word a b c d k) =
     (case mix_column (sub_byte (byt 24 a), sub_byte (byt 16 b), sub_byte (byt 8 c), sub_byte (byt 0 d)) of
        (x0, x1, x2, x3) \<Rightarrow> map2 (XOR) [x0, x1, x2, x3] (word_bytes k))"
  by (simp add: enc_word_def index_simps Te0_at Te1_at Te2_at Te3_at Let_def word_bytes_xor mix_column_def)
    (simp add: word_bytes_def ac_simps)

lemma dec_word_bytes:
  "word_bytes (dec_word a b c d k) =
     (case inv_mix_column (inv_sub_byte (byt 24 a), inv_sub_byte (byt 16 b), inv_sub_byte (byt 8 c), inv_sub_byte (byt 0 d)) of
        (x0, x1, x2, x3) \<Rightarrow> map2 (XOR) [x0, x1, x2, x3] (word_bytes k))"
  by (simp add: dec_word_def index_simps Td0_at Td1_at Td2_at Td3_at Let_def word_bytes_xor inv_mix_column_def)
    (simp add: word_bytes_def ac_simps)

lemma byt_and_mask:
  assumes "j \<in> {0, 8, 16, 24}" and "n \<in> {0, 8, 16, 24}"
  shows "byt j (w AND push_bit n (mask 8)) = (if j = n then byt j w else 0)"
  using assms
  by (intro bit_word_eqI) (auto simp: bit_byt bit_and_iff bit_push_bit_iff bit_mask_iff)

lemma byte_masks:
  "(0xff000000 :: u32) = push_bit 24 (mask 8)" "(0x00ff0000 :: u32) = push_bit 16 (mask 8)"
  "(0x0000ff00 :: u32) = push_bit 8 (mask 8)" "(0x000000ff :: u32) = push_bit 0 (mask 8)"
  by (simp_all add: mask_eq_exp_minus_1)

lemma masked_cells:
  "word_bytes (w AND 0xff000000) = [byt 24 w, 0, 0, 0]" "word_bytes (w AND 0x00ff0000) = [0, byt 16 w, 0, 0]"
  "word_bytes (w AND 0x0000ff00) = [0, 0, byt 8 w, 0]" "word_bytes (w AND 0x000000ff) = [0, 0, 0, byt 0 w]"
  unfolding byte_masks word_bytes_def by (simp_all add: byt_and_mask del: push_bit_0_id)

lemma enc_last_bytes:
  "word_bytes (enc_last a b c d k) =
     map2 (XOR) [sub_byte (byt 24 a), sub_byte (byt 16 b), sub_byte (byt 8 c), sub_byte (byt 0 d)] (word_bytes k)"
  by (simp add: enc_last_def index_simps masked_cells word_bytes_xor Te0_at Te1_at Te2_at Te3_at Let_def byt_cat4)
    (simp add: word_bytes_def)

lemma push_byte_bytes:
  "word_bytes (push_bit 24 (ucast (x :: byte))) = [x, 0, 0, 0]" "word_bytes (push_bit 16 (ucast x)) = [0, x, 0, 0]"
  "word_bytes (push_bit 8 (ucast x)) = [0, 0, x, 0]" "word_bytes (ucast x) = [0, 0, 0, x]"
proof -
  have b: "byt j (push_bit n (ucast x)) = (if j = n then x else 0)"
    if "j \<in> {0, 8, 16, 24}" "n \<in> {0, 8, 16, 24}" for j n
    using that
    by (intro bit_word_eqI) (auto simp: bit_byt bit_push_bit_iff bit_ucast_iff dest: bit_imp_le_length)
  show "word_bytes (push_bit 24 (ucast x)) = [x, 0, 0, 0]" "word_bytes (push_bit 16 (ucast x)) = [0, x, 0, 0]"
    "word_bytes (push_bit 8 (ucast x)) = [0, 0, x, 0]" "word_bytes (ucast x) = [0, 0, 0, x]"
    using b [of _ 0] unfolding word_bytes_def by (simp_all add: b)
qed

lemma dec_last_bytes:
  "word_bytes (dec_last a b c d k) =
     map2 (XOR) [inv_sub_byte (byt 24 a), inv_sub_byte (byt 16 b), inv_sub_byte (byt 8 c), inv_sub_byte (byt 0 d)]
       (word_bytes k)"
  unfolding dec_last_def word_bytes_xor push_byte_bytes
  by (simp add: index_simps inv_sub_byte_def word_bytes_def)

text \<open>A round of the code is a round of the cipher.\<close>

lemma round_key_words: "round_key w i = st_of (w ! (4 * i), w ! (4 * i + 1), w ! (4 * i + 2), w ! (4 * i + 3))"
  by (simp add: round_key_def upt_4 st_of_def)

lemma enc_round_st:
  "st_of (enc_round w (4 * i) s) = add_round_key w i (mix_columns (shift_rows (sub_bytes (st_of s))))"
proof -
  obtain s0 s1 s2 s3 where s: "s = (s0, s1, s2, s3)" by (cases s)
  show ?thesis
    unfolding add_round_key_def round_key_words s
    by (simp add: enc_round_def st_of_def enc_word_bytes split: prod.split)
      (simp add: word_bytes_def sub_bytes_def shift_rows_def mix_columns_def on_columns_def upt_4 upt_16)
qed

lemma dec_round_st:
  "st_of (dec_round w (4 * i) s) = add_round_key w i (inv_mix_columns (inv_sub_bytes (inv_shift_rows (st_of s))))"
proof -
  obtain s0 s1 s2 s3 where s: "s = (s0, s1, s2, s3)" by (cases s)
  show ?thesis
    unfolding add_round_key_def round_key_words s
    by (simp add: dec_round_def st_of_def dec_word_bytes split: prod.split)
      (simp add: word_bytes_def inv_sub_bytes_def inv_shift_rows_def inv_mix_columns_def on_columns_def upt_4 upt_16)
qed

lemma round_loop_st:
  assumes step: "\<And>i s. st_of (f (4 * i) s) = g (st_of s) i" and r: "0 < r"
  shows "\<exists>t. round_loop f (4 * i) r s = Some (4 * (i + 2 * r), t) \<and> st_of t = foldl g (st_of s) [i + 1..<i + 2 * r]"
  using r
proof (induction r arbitrary: i s)
  case (Suc r)
  have one: "st_of (f (4 * i + 4) s) = g (st_of s) (i + 1)"
    using step [of "i + 1" s] by (simp add: add.commute)
  have two: "st_of (f (4 * i + 8) t) = g (st_of t) (i + 2)" for t
    using step [of "i + 2" t] by (simp add: add.commute)
  show ?case
  proof (cases "r = 0")
    case True
    then show ?thesis using one by (simp add: Let_def)
  next
    case False
    define s' where "s' = f (4 * i + 8) (f (4 * i + 4) s)"
    obtain t where t: "round_loop f (4 * (i + 2)) r s' = Some (4 * (i + 2 + 2 * r), t)"
      "st_of t = foldl g (st_of s') [i + 2 + 1..<i + 2 + 2 * r]"
      using Suc.IH [of "i + 2" s'] False by blast
    have "[i + 1..<i + 2 * Suc r] = (i + 1) # (i + 2) # [i + 2 + 1..<i + 2 + 2 * r]"
      using False by (simp add: upt_rec)
    then show ?thesis
      using t one two False by (simp add: Let_def s'_def add.commute)
  qed
qed simp

lemma load_state:
  assumes "length inp = 16"
  shows "st_of (GETU32 inp XOR w ! 0, GETU32 (drop 4 inp) XOR w ! 1,
     GETU32 (drop 8 inp) XOR w ! 2, GETU32 (drop 12 inp) XOR w ! 3) = add_round_key w 0 inp"
  using assms
  by (rule list16)
    (simp add: GETU32_bytes st_of_def word_bytes_xor add_round_key_def round_key_def upt_4, simp add: word_bytes_def)

lemma nohw_encrypt_cipher:
  assumes "length inp = 16" and "rounds key = 2 * r" and "0 < r"
  shows "aes_nohw_encrypt inp key = Some (fips_cipher (rd_key key) (rounds key) inp)"
proof -
  let ?w = "rd_key key"
  define s where "s = (GETU32 inp XOR ?w ! 0, GETU32 (drop 4 inp) XOR ?w ! 1,
     GETU32 (drop 8 inp) XOR ?w ! 2, GETU32 (drop 12 inp) XOR ?w ! 3)"
  obtain t0 t1 t2 t3 where t: "round_loop (enc_round ?w) 0 r s = Some (4 * (2 * r), (t0, t1, t2, t3))"
    "st_of (t0, t1, t2, t3) = foldl (\<lambda>st i. add_round_key ?w i (mix_columns (shift_rows (sub_bytes st))))
       (st_of s) [1..<2 * r]"
    using round_loop_st [of "enc_round ?w" "\<lambda>st i. add_round_key ?w i (mix_columns (shift_rows (sub_bytes st)))", OF enc_round_st assms(3), of 0 s]
    by auto
  have last: "st_of (enc_last t0 t1 t2 t3 k0, enc_last t1 t2 t3 t0 k1, enc_last t2 t3 t0 t1 k2, enc_last t3 t0 t1 t2 k3) =
      map2 (XOR) (shift_rows (sub_bytes (st_of (t0, t1, t2, t3)))) (st_of (k0, k1, k2, k3))" for k0 k1 k2 k3
    by (simp add: st_of_def enc_last_bytes)
      (simp add: word_bytes_def sub_bytes_def shift_rows_def upt_16)
  have "aes_nohw_encrypt inp key = Some (st_of (enc_last t0 t1 t2 t3 (?w ! (4 * (2 * r))),
      enc_last t1 t2 t3 t0 (?w ! (4 * (2 * r) + 1)), enc_last t2 t3 t0 t1 (?w ! (4 * (2 * r) + 2)),
      enc_last t3 t0 t1 t2 (?w ! (4 * (2 * r) + 3))))"
    using t(1) assms(2) by (simp add: aes_nohw_encrypt_def Let_def s_def PUTU32_bytes st_of_def)
  then show ?thesis
    unfolding last t(2) s_def load_state [OF assms(1)]
    by (simp add: fips_cipher_def Let_def add_round_key_def round_key_words assms(2))
qed

text \<open>The decryption of the code, with its own round keys.\<close>

definition equivalent_inv_cipher :: "u32 list \<Rightarrow> nat \<Rightarrow> bytes \<Rightarrow> bytes" where
  "equivalent_inv_cipher dw nr inp =
     (let st = add_round_key dw 0 inp;
          st = foldl (\<lambda>st i. add_round_key dw i (inv_mix_columns (inv_sub_bytes (inv_shift_rows st)))) st [1..<nr]
      in add_round_key dw nr (inv_sub_bytes (inv_shift_rows st)))"

lemma nohw_decrypt_cipher:
  assumes "length inp = 16" and "rounds key = 2 * r" and "0 < r"
  shows "aes_nohw_decrypt inp key = Some (equivalent_inv_cipher (rd_key key) (rounds key) inp)"
proof -
  let ?w = "rd_key key"
  define s where "s = (GETU32 inp XOR ?w ! 0, GETU32 (drop 4 inp) XOR ?w ! 1,
     GETU32 (drop 8 inp) XOR ?w ! 2, GETU32 (drop 12 inp) XOR ?w ! 3)"
  obtain t0 t1 t2 t3 where t: "round_loop (dec_round ?w) 0 r s = Some (4 * (2 * r), (t0, t1, t2, t3))"
    "st_of (t0, t1, t2, t3) = foldl (\<lambda>st i. add_round_key ?w i (inv_mix_columns (inv_sub_bytes (inv_shift_rows st))))
       (st_of s) [1..<2 * r]"
    using round_loop_st [of "dec_round ?w" "\<lambda>st i. add_round_key ?w i (inv_mix_columns (inv_sub_bytes (inv_shift_rows st)))", OF dec_round_st assms(3), of 0 s]
    by auto
  have last: "st_of (dec_last t0 t3 t2 t1 k0, dec_last t1 t0 t3 t2 k1, dec_last t2 t1 t0 t3 k2, dec_last t3 t2 t1 t0 k3) =
      map2 (XOR) (inv_sub_bytes (inv_shift_rows (st_of (t0, t1, t2, t3)))) (st_of (k0, k1, k2, k3))" for k0 k1 k2 k3
    by (simp add: st_of_def dec_last_bytes)
      (simp add: word_bytes_def inv_sub_bytes_def inv_shift_rows_def upt_16)
  have "aes_nohw_decrypt inp key = Some (st_of (dec_last t0 t3 t2 t1 (?w ! (4 * (2 * r))),
      dec_last t1 t0 t3 t2 (?w ! (4 * (2 * r) + 1)), dec_last t2 t1 t0 t3 (?w ! (4 * (2 * r) + 2)),
      dec_last t3 t2 t1 t0 (?w ! (4 * (2 * r) + 3))))"
    using t(1) assms(2) by (simp add: aes_nohw_decrypt_def Let_def s_def PUTU32_bytes st_of_def)
  then show ?thesis
    unfolding last t(2) s_def load_state [OF assms(1)]
    by (simp add: equivalent_inv_cipher_def Let_def add_round_key_def round_key_words assms(2))
qed

lemma inv_mix_column_xor:
  "inv_mix_column (a XOR a', b XOR b', c XOR c', d XOR d') =
     (case (inv_mix_column (a, b, c, d), inv_mix_column (a', b', c', d')) of
        ((x0, x1, x2, x3), (y0, y1, y2, y3)) \<Rightarrow> (x0 XOR y0, x1 XOR y1, x2 XOR y2, x3 XOR y3))"
  by (simp add: inv_mix_column_def gf_mul_xor ac_simps)

lemma inv_mix_columns_xor:
  assumes "length a = 16" and "length b = 16"
  shows "inv_mix_columns (map2 (XOR) a b) = map2 (XOR) (inv_mix_columns a) (inv_mix_columns b)"
  using assms(1)
proof (rule list16)
  fix a0 a1 a2 a3 a4 a5 a6 a7 a8 a9 aa ab ac ad ae af
  assume a: "a = [a0, a1, a2, a3, a4, a5, a6, a7, a8, a9, aa, ab, ac, ad, ae, af]"
  from assms(2) show ?thesis
  proof (rule list16)
    fix b0 b1 b2 b3 b4 b5 b6 b7 b8 b9 ba bb bc bd be bf
    assume b: "b = [b0, b1, b2, b3, b4, b5, b6, b7, b8, b9, ba, bb, bc, bd, be, bf]"
    show ?thesis
      by (simp add: a b inv_mix_columns_def on_columns_def upt_4 inv_mix_column_xor split: prod.split)
  qed
qed

text \<open>What the decryption schedule holds, and that it makes the code compute InvCipher.\<close>

definition decryption_keys :: "u32 list \<Rightarrow> u32 list \<Rightarrow> nat \<Rightarrow> bool" where
  "decryption_keys dw w nr \<longleftrightarrow>
     (\<forall>i \<le> nr. round_key dw i =
        (if i = 0 \<or> i = nr then round_key w (nr - i) else inv_mix_columns (round_key w (nr - i))))"

lemma rev_upt_1: "rev [1..<n] = map (\<lambda>i. n - i) [1..<n]"
  by (rule nth_equalityI) (auto simp: rev_nth)

lemma equivalent_cipher:
  assumes keys: "decryption_keys dw w nr" and nr: "0 < nr" and len: "length inp = 16"
  shows "equivalent_inv_cipher dw nr inp = fips_inv_cipher w nr inp"
proof -
  have ends: "round_key dw 0 = round_key w nr" "round_key dw nr = round_key w 0"
    using keys by (simp_all add: decryption_keys_def)
  have rounds: "foldl (\<lambda>st i. add_round_key dw i (inv_mix_columns (inv_sub_bytes (inv_shift_rows st)))) st is =
      foldl (\<lambda>st i. inv_mix_columns (add_round_key w (nr - i) (inv_sub_bytes (inv_shift_rows st)))) st is"
    if "\<forall>i \<in> set is. 0 < i \<and> i < nr" for st "is"
    using that
  proof (induction "is" arbitrary: st)
    case (Cons i "is")
    have "round_key dw i = inv_mix_columns (round_key w (nr - i))"
      using keys Cons.prems by (simp add: decryption_keys_def)
    then have "add_round_key dw i (inv_mix_columns (inv_sub_bytes (inv_shift_rows st))) =
        inv_mix_columns (add_round_key w (nr - i) (inv_sub_bytes (inv_shift_rows st)))"
      by (simp add: add_round_key_def inv_mix_columns_xor)
    then show ?case using Cons by simp
  qed simp
  have "foldl (\<lambda>st i. add_round_key dw i (inv_mix_columns (inv_sub_bytes (inv_shift_rows st)))) st [1..<nr] =
      foldl (\<lambda>st i. inv_mix_columns (add_round_key w i (inv_sub_bytes (inv_shift_rows st)))) st (rev [1..<nr])" for st
    unfolding rev_upt_1 foldl_map by (rule rounds) simp
  then show ?thesis
    using ends by (simp only: equivalent_inv_cipher_def fips_inv_cipher_def Let_def add_round_key_def)
qed

subsection \<open>The decryption schedule\<close>

lemma inv_mix_word_bytes:
  "word_bytes (inv_mix_word w) = (case inv_mix_column (byt 24 w, byt 16 w, byt 8 w, byt 0 w) of
     (x0, x1, x2, x3) \<Rightarrow> [x0, x1, x2, x3])"
  by (simp add: inv_mix_word_def index_simps Te1_at Td0_at Td1_at Td2_at Td3_at Let_def byt_cat4
      inv_sub_sub word_bytes_xor inv_mix_column_def)

lemma swap_words_nth:
  "i < length rk \<Longrightarrow> j < length rk \<Longrightarrow> swap_words rk i j ! m = (if m = j then rk ! i else if m = i then rk ! j else rk ! m)"
  by (auto simp: swap_words_def nth_list_update)

lemma length_swap_words [simp]: "length (swap_words rk i j) = length rk"
  by (simp add: swap_words_def)

lemma length_swap_round_keys [simp]: "length (swap_round_keys rk i j) = length rk"
  by (simp add: swap_round_keys_def)

lemma swap_round_keys_nth:
  assumes "c < 4" and "a < b" and "4 * b + 3 < length rk"
  shows "swap_round_keys rk (4 * a) (4 * b) ! (4 * k + c) =
    rk ! (4 * (if k = a then b else if k = b then a else k) + c)"
proof -
  have "c = 0 \<or> c = 1 \<or> c = 2 \<or> c = 3" using assms(1) by linarith
  then show ?thesis
    using assms(2,3) unfolding swap_round_keys_def
    by (elim disjE) (auto simp: swap_words_nth, (presburger+)?)
qed

lemma invert_order_nth:
  assumes "c < 4" and "a \<le> b + 1" and "4 * b + 3 < length rk"
  shows "invert_order rk (4 * a) (4 * b) ! (4 * k + c) =
    rk ! (4 * (if a \<le> k \<and> k \<le> b then a + b - k else k) + c) \<and>
    length (invert_order rk (4 * a) (4 * b)) = length rk"
  using assms
proof (induction "b - a" arbitrary: a b rk k rule: less_induct)
  case less
  show ?case
  proof (cases "a < b")
    case True
    then have "invert_order rk (4 * a) (4 * b) =
        invert_order (swap_round_keys rk (4 * a) (4 * b)) (4 * (a + 1)) (4 * (b - 1))"
      by (subst invert_order.simps) (simp add: right_diff_distrib' add.commute)
    moreover have "invert_order (swap_round_keys rk (4 * a) (4 * b)) (4 * (a + 1)) (4 * (b - 1)) ! (4 * k + c) =
        swap_round_keys rk (4 * a) (4 * b) !
          (4 * (if a + 1 \<le> k \<and> k \<le> b - 1 then a + 1 + (b - 1) - k else k) + c) \<and>
        length (invert_order (swap_round_keys rk (4 * a) (4 * b)) (4 * (a + 1)) (4 * (b - 1))) =
        length (swap_round_keys rk (4 * a) (4 * b))"
      by (rule less.hyps) (use True less.prems in auto)
    ultimately show ?thesis
      using True less.prems(1,3) by (auto simp: swap_round_keys_nth)
  next
    case False
    then have "a + b - k = k" if "a \<le> k" "k \<le> b" using that by linarith
    then show ?thesis
      using False by (subst (1 2) invert_order.simps) auto
  qed
qed

lemma inv_mix_round_keys_nth:
  assumes "c < 4" and "4 * n \<le> length rk"
  shows "foldl inv_mix_round_key rk [1..<n] ! (4 * k + c) =
    (if 1 \<le> k \<and> k < n then inv_mix_word (rk ! (4 * k + c)) else rk ! (4 * k + c)) \<and>
    length (foldl inv_mix_round_key rk [1..<n]) = length rk"
  using assms(2)
proof (induction n)
  case (Suc n)
  show ?case
  proof (cases "n = 0")
    case False
    define r where "r = foldl inv_mix_round_key rk [1..<n]"
    have IH: "r ! (4 * k + c) = (if 1 \<le> k \<and> k < n then inv_mix_word (rk ! (4 * k + c)) else rk ! (4 * k + c))"
      "length r = length rk"
      using Suc by (simp_all add: r_def)
    have "foldl inv_mix_round_key rk [1..<Suc n] = inv_mix_round_key r n"
      using False by (simp add: r_def)
    moreover have "inv_mix_round_key r n ! (4 * k + c) =
        (if k = n then inv_mix_word (r ! (4 * k + c)) else r ! (4 * k + c))"
    proof -
      have "c = 0 \<or> c = 1 \<or> c = 2 \<or> c = 3" using assms(1) by linarith
      then show ?thesis
        using Suc.prems IH(2) unfolding inv_mix_round_key_def
        by (elim disjE) (auto simp: nth_list_update, (presburger+)?)
    qed
    moreover have "length (inv_mix_round_key r n) = length rk" by (simp add: inv_mix_round_key_def IH(2))
    ultimately show ?thesis using IH(1) False by auto
  next
    case True
    then show ?thesis by auto
  qed
qed auto

lemma decryption_schedule:
  assumes nr: "0 < nr" and len: "4 * (nr + 1) \<le> length w"
  defines "dw \<equiv> foldl inv_mix_round_key (invert_order w 0 (4 * nr)) [1..<nr]"
  shows "decryption_keys dw w nr"
  unfolding decryption_keys_def
proof (intro allI impI)
  fix i assume i: "i \<le> nr"
  have inv: "invert_order w 0 (4 * nr) ! (4 * k + c) = w ! (4 * (if k \<le> nr then nr - k else k) + c) \<and>
      length (invert_order w 0 (4 * nr)) = length w" if "c < 4" for k c
    using invert_order_nth [OF that, of 0 nr w k] len by simp
  have at: "dw ! (4 * i + c) = (if i = 0 \<or> i = nr then w ! (4 * (nr - i) + c) else inv_mix_word (w ! (4 * (nr - i) + c)))"
    if "c < 4" for c
    using inv_mix_round_keys_nth [OF that, of nr "invert_order w 0 (4 * nr)" i] inv [OF that, of i] len i nr
    by (auto simp: dw_def)
  note at4 = at [of 0] at [of 1] at [of 2] at [of 3]
  show "round_key dw i = (if i = 0 \<or> i = nr then round_key w (nr - i) else inv_mix_columns (round_key w (nr - i)))"
  proof (cases "i = 0 \<or> i = nr")
    case True
    then show ?thesis using at4 by (simp add: round_key_words)
  next
    case False
    then have "round_key dw i = st_of (inv_mix_word (w ! (4 * (nr - i))), inv_mix_word (w ! (4 * (nr - i) + 1)),
        inv_mix_word (w ! (4 * (nr - i) + 2)), inv_mix_word (w ! (4 * (nr - i) + 3)))"
      using at4 by (simp add: round_key_words)
    also have "\<dots> = inv_mix_columns (round_key w (nr - i))"
      unfolding round_key_words st_of_def prod.case inv_mix_word_bytes
      by (simp add: inv_mix_columns_def on_columns_def upt_4 word_bytes_def split: prod.split)
    finally show ?thesis using False by simp
  qed
qed

subsection \<open>Key expansion\<close>

text \<open>
  KeyExpansion (figure 11): the words of the schedule as a growing list, for a key of \<open>nk\<close> words;
  \<open>Rcon\<close> is a power of \<open>x\<close>.
\<close>

definition sub_word :: "u32 \<Rightarrow> u32" where
  "sub_word w = cat4 (sub_byte (byt 24 w)) (sub_byte (byt 16 w)) (sub_byte (byt 8 w)) (sub_byte (byt 0 w))"

definition rot_word :: "u32 \<Rightarrow> u32" where
  "rot_word w = cat4 (byt 16 w) (byt 8 w) (byt 0 w) (byt 24 w)"

definition Rcon :: "nat \<Rightarrow> u32" where
  "Rcon i = cat4 ((xtime ^^ (i - 1)) 1) 0 0 0"

definition next_word :: "nat \<Rightarrow> u32 list \<Rightarrow> nat \<Rightarrow> u32 list" where
  "next_word nk w i =
     (let temp = w ! (i - 1);
          temp = (if i mod nk = 0 then sub_word (rot_word temp) XOR Rcon (i div nk)
                  else if nk > 6 \<and> i mod nk = 4 then sub_word temp else temp)
      in w @ [w ! (i - nk) XOR temp])"

definition key_words :: "bytes \<Rightarrow> nat \<Rightarrow> u32 list" where
  "key_words key nk = map (\<lambda>i. cat4 (key ! (4 * i)) (key ! (4 * i + 1)) (key ! (4 * i + 2)) (key ! (4 * i + 3))) [0..<nk]"

definition key_expansion :: "bytes \<Rightarrow> nat \<Rightarrow> nat \<Rightarrow> u32 list" where
  "key_expansion key nk n = foldl (next_word nk) (key_words key nk) [nk..<n]"

lemma rcon_table: "i < 10 \<Longrightarrow> rcon ! i = Rcon (i + 1)"
proof -
  assume "i < 10"
  have x: "xtime 1 = 2" "xtime 2 = 4" "xtime 4 = 8" "xtime 8 = 16" "xtime 16 = 32" "xtime 32 = 64"
    "xtime 64 = 128" "xtime 128 = 27" "xtime 27 = 54"
    by (simp_all add: xtime_def)
  have p: "(xtime ^^ m) 1 = xtime ((xtime ^^ n) 1)" if "m = Suc n" for m n using that by simp
  have p2: "(xtime ^^ 2) 1 = 4" using p [of 2 1] x by simp
  have p3: "(xtime ^^ 3) 1 = 8" using p [of 3 2] p2 x by simp
  have p4: "(xtime ^^ 4) 1 = 16" using p [of 4 3] p3 x by simp
  have p5: "(xtime ^^ 5) 1 = 32" using p [of 5 4] p4 x by simp
  have p6: "(xtime ^^ 6) 1 = 64" using p [of 6 5] p5 x by simp
  have p7: "(xtime ^^ 7) 1 = 128" using p [of 7 6] p6 x by simp
  have p8: "(xtime ^^ 8) 1 = 27" using p [of 8 7] p7 x by simp
  have p9: "(xtime ^^ 9) 1 = 54" using p [of 9 8] p8 x by simp
  have "i = 0 \<or> i = 1 \<or> i = 2 \<or> i = 3 \<or> i = 4 \<or> i = 5 \<or> i = 6 \<or> i = 7 \<or> i = 8 \<or> i = 9"
    using \<open>i < 10\<close> by presburger
  then show ?thesis
    by (elim disjE) (simp_all add: rcon_def Rcon_def cat4_def x p2 p3 p4 p5 p6 p7 p8 p9)
qed

lemma word_bytes_inject: "word_bytes v = word_bytes w \<Longrightarrow> v = w"
  by (rule word_byt_eqI) (simp_all add: word_bytes_def)

lemma plain_sub_eq: "plain_sub w = sub_word w"
  by (rule word_bytes_inject)
    (simp add: plain_sub_def sub_word_def index_simps word_bytes_xor masked_cells Te0_at Te1_at Te2_at Te3_at Let_def byt_cat4)

lemma rot_sub_eq: "rot_sub w = sub_word (rot_word w)"
  by (rule word_bytes_inject)
    (simp add: rot_sub_def sub_word_def rot_word_def index_simps word_bytes_xor masked_cells Te0_at Te1_at Te2_at Te3_at Let_def byt_cat4)

lemma length_key_expansion: "nk \<le> n \<Longrightarrow> length (key_expansion key nk n) = n"
  by (induction n) (auto simp: key_expansion_def key_words_def next_word_def Let_def le_Suc_eq)

lemma key_expansion_Suc: "nk \<le> n \<Longrightarrow> key_expansion key nk (Suc n) = next_word nk (key_expansion key nk n) n"
  by (simp add: key_expansion_def)

text \<open>
  The schedule under construction holds the first \<open>n\<close> words of the expansion; storing the right
  word extends it.
\<close>

definition expanded :: "bytes \<Rightarrow> nat \<Rightarrow> nat \<Rightarrow> u32 list \<Rightarrow> bool" where
  "expanded key nk n rk \<longleftrightarrow> length rk = 60 \<and> nk \<le> n \<and> n \<le> 60 \<and> take n rk = key_expansion key nk n"

lemma put_rk_expanded:
  assumes ex: "expanded key nk n rk" and n: "n < 60" "0 < nk" "n = Suc j" "n' = Suc n"
    and x: "x = (if n mod nk = 0 then sub_word (rot_word (rk ! j)) XOR Rcon (n div nk)
                 else if nk > 6 \<and> n mod nk = 4 then sub_word (rk ! j) else rk ! j)"
  shows "expanded key nk n' (put_rk nk n x rk)"
proof -
  define W where "W = key_expansion key nk n"
  have W: "take n rk = W" "length W = n" and le: "nk \<le> n" "length rk = 60"
    using ex length_key_expansion by (auto simp: expanded_def W_def)
  have at: "rk ! m = W ! m" if "m < n" for m
    using W(1) that by (metis nth_take)
  have "take (Suc n) (put_rk nk n x rk) = W @ [rk ! (n - nk) XOR x]"
    using W(1) le n by (simp add: put_rk_def take_Suc_conv_app_nth)
  also have "\<dots> = key_expansion key nk (Suc n)"
    unfolding key_expansion_Suc [OF le(1)] next_word_def Let_def W_def [symmetric] x
    using at [of j] at [of "n - nk"] le(1) n by simp
  finally show ?thesis using le n by (simp add: expanded_def put_rk_def)
qed

lemma expand128_step:
  assumes ex: "expanded key 4 (4 * i + 4) rk" and i: "i < 10"
  shows "expanded key 4 (4 * i + 8) (expand128 rk i)"
proof -
  have m: "(4 * i + 4) mod 4 = 0" "(4 * i + 4) div 4 = i + 1" "(4 * i + 5) mod 4 = 1"
    "(4 * i + 6) mod 4 = 2" "(4 * i + 7) mod 4 = 3" by presburger+
  show ?thesis
    unfolding expand128_def Let_def
    by (rule put_rk_expanded [where j = "4 * i + 6" and n = "4 * i + 7"]
        put_rk_expanded [where j = "4 * i + 5" and n = "4 * i + 6"]
        put_rk_expanded [where j = "4 * i + 4" and n = "4 * i + 5"]
        put_rk_expanded [where j = "4 * i + 3" and n = "4 * i + 4"])+
      (use ex i in \<open>simp_all add: m rot_sub_eq rcon_table\<close>)
qed

lemma expand192_step:
  assumes ex: "expanded key 6 (6 * i + 6) rk" and i: "i < 8"
  shows "expanded key 6 (6 * i + (if i + 1 = 8 then 10 else 12)) (expand192 rk i)"
proof -
  have m: "(6 * i + 6) mod 6 = 0" "(6 * i + 7) mod 6 = 1" "(6 * i + 8) mod 6 = 2"
    "(6 * i + 9) mod 6 = 3" "(6 * i + 10) mod 6 = 4" "(6 * i + 11) mod 6 = 5"
    "(6 * i + 6) div 6 = i + 1" by presburger+
  show ?thesis
  proof (cases "i + 1 = 8")
    case True
    show ?thesis
      unfolding expand192_def Let_def if_P [OF True]
      by (rule put_rk_expanded [where j = "6 * i + 8" and n = "6 * i + 9"]
        put_rk_expanded [where j = "6 * i + 7" and n = "6 * i + 8"]
        put_rk_expanded [where j = "6 * i + 6" and n = "6 * i + 7"]
        put_rk_expanded [where j = "6 * i + 5" and n = "6 * i + 6"])+
        (use ex i in \<open>simp_all add: m rot_sub_eq rcon_table\<close>)
  next
    case False
    then have "i < 7" using i by simp
    show ?thesis
      unfolding expand192_def Let_def if_not_P [OF False]
      by (rule put_rk_expanded [where j = "6 * i + 10" and n = "6 * i + 11"]
        put_rk_expanded [where j = "6 * i + 9" and n = "6 * i + 10"]
        put_rk_expanded [where j = "6 * i + 8" and n = "6 * i + 9"]
        put_rk_expanded [where j = "6 * i + 7" and n = "6 * i + 8"]
        put_rk_expanded [where j = "6 * i + 6" and n = "6 * i + 7"]
        put_rk_expanded [where j = "6 * i + 5" and n = "6 * i + 6"])+
        (use ex \<open>i < 7\<close> in \<open>simp_all add: m rot_sub_eq plain_sub_eq rcon_table\<close>)
  qed
qed

lemma expand256_step:
  assumes ex: "expanded key 8 (8 * i + 8) rk" and i: "i < 7"
  shows "expanded key 8 (8 * i + (if i + 1 = 7 then 12 else 16)) (expand256 rk i)"
proof -
  have m: "(8 * i + 8) mod 8 = 0" "(8 * i + 9) mod 8 = 1" "(8 * i + 10) mod 8 = 2"
    "(8 * i + 11) mod 8 = 3" "(8 * i + 12) mod 8 = 4" "(8 * i + 13) mod 8 = 5"
    "(8 * i + 14) mod 8 = 6" "(8 * i + 15) mod 8 = 7" "(8 * i + 8) div 8 = i + 1" by presburger+
  show ?thesis
  proof (cases "i + 1 = 7")
    case True
    show ?thesis
      unfolding expand256_def Let_def if_P [OF True]
      by (rule put_rk_expanded [where j = "8 * i + 10" and n = "8 * i + 11"]
        put_rk_expanded [where j = "8 * i + 9" and n = "8 * i + 10"]
        put_rk_expanded [where j = "8 * i + 8" and n = "8 * i + 9"]
        put_rk_expanded [where j = "8 * i + 7" and n = "8 * i + 8"])+
        (use ex i in \<open>simp_all add: m rot_sub_eq rcon_table\<close>)
  next
    case False
    then have "i < 6" using i by simp
    show ?thesis
      unfolding expand256_def Let_def if_not_P [OF False]
      by (rule put_rk_expanded [where j = "8 * i + 14" and n = "8 * i + 15"]
        put_rk_expanded [where j = "8 * i + 13" and n = "8 * i + 14"]
        put_rk_expanded [where j = "8 * i + 12" and n = "8 * i + 13"]
        put_rk_expanded [where j = "8 * i + 11" and n = "8 * i + 12"]
        put_rk_expanded [where j = "8 * i + 10" and n = "8 * i + 11"]
        put_rk_expanded [where j = "8 * i + 9" and n = "8 * i + 10"]
        put_rk_expanded [where j = "8 * i + 8" and n = "8 * i + 9"]
        put_rk_expanded [where j = "8 * i + 7" and n = "8 * i + 8"])+
        (use ex \<open>i < 6\<close> in \<open>simp_all add: m rot_sub_eq plain_sub_eq rcon_table\<close>)
  qed
qed

lemma fold_expanded:
  assumes step: "\<And>i rk. i < k \<Longrightarrow> expanded key nk (nk * i + nk) rk \<Longrightarrow>
      expanded key nk (nk * i + (if i + 1 = k then m else 2 * nk)) (f rk i)"
    and init: "expanded key nk nk rk" and j: "0 < j" "j \<le> k"
  shows "expanded key nk (if j = k then nk * (k - 1) + m else nk * j + nk) (foldl f rk [0..<j])"
  using j
proof (induction j)
  case (Suc j)
  have "expanded key nk (nk * j + nk) (foldl f rk [0..<j])"
    using Suc init by (cases "j = 0") auto
  then have "expanded key nk (nk * j + (if j + 1 = k then m else 2 * nk)) (f (foldl f rk [0..<j]) j)"
    using Suc.prems by (intro step) simp
  then show ?case by (auto simp: mult_2 mult_2_right ac_simps split: if_splits)
qed simp

lemma load_key_words:
  assumes len: "length rk = 60" "4 * n \<le> length key" "n \<le> 60" and kn: "k \<le> n" and t: "take k rk = key_words key k"
  shows "take n (load_key key k n rk) = key_words key n \<and> length (load_key key k n rk) = 60"
  using kn len
proof (induction n rule: dec_induct)
  case base
  then show ?case using t by (simp add: load_key_def)
next
  case (step n)
  then have IH: "take n (load_key key k n rk) = key_words key n" "length (load_key key k n rk) = 60" by simp_all
  have lt: "4 * n + 3 < length key" using step.prems by simp
  then have "drop (4 * n) key = key ! (4 * n) # key ! (4 * n + 1) # key ! (4 * n + 2) # key ! (4 * n + 3) # drop (4 * n + 4) key"
    by (simp add: Cons_nth_drop_Suc numeral_eq_Suc)
  then have "GETU32 (drop (4 * n) key) = cat4 (key ! (4 * n)) (key ! (4 * n + 1)) (key ! (4 * n + 2)) (key ! (4 * n + 3))"
    by (simp only: GETU32_bytes)
  then have "take (Suc n) (load_key key k (Suc n) rk) = key_words key (Suc n)"
    using IH step by (simp add: load_key_def key_words_def take_Suc_conv_app_nth)
  then show ?case using IH step by (simp add: load_key_def)
qed

text \<open>The key sizes, the number of rounds and the schedule of a key.\<close>

definition rounds_of :: "nat \<Rightarrow> nat" where
  "rounds_of bits = bits div 32 + 6"

definition aes_words :: "bytes \<Rightarrow> nat \<Rightarrow> u32 list" where
  "aes_words key bits = key_expansion key (bits div 32) (4 * (rounds_of bits + 1))"

lemma nohw_set_encrypt_key:
  assumes bits: "bits = 128 \<or> bits = 192 \<or> bits = 256" and key: "length key = bits div 8"
    and k0: "length (rd_key k0) = 60"
  shows "\<exists>ek. aes_nohw_set_encrypt_key key bits k0 = (0, ek) \<and> rounds ek = rounds_of bits \<and>
    length (rd_key ek) = 60 \<and> take (4 * (rounds_of bits + 1)) (rd_key ek) = aes_words key bits"
proof -
  have init: "expanded key n n rk"
    if "take n rk = key_words key n" "length rk = 60" "n \<le> 60" for n rk
    using that by (simp add: expanded_def key_expansion_def)
  define r4 where "r4 = load_key key 0 4 (rd_key k0)"
  define r6 where "r6 = load_key key 4 6 r4"
  define r8 where "r8 = load_key key 6 8 r6"
  have w0: "take 0 (rd_key k0) = key_words key 0" by (simp add: key_words_def)
  have r4: "take 4 r4 = key_words key 4" "length r4 = 60"
    using load_key_words [OF k0 _ _ _ w0, of 4] key bits by (auto simp: r4_def)
  have r6: "take 6 r6 = key_words key 6" "length r6 = 60" if "bits \<noteq> 128"
    using load_key_words [OF r4(2) _ _ _ r4(1), of 6] key bits that by (auto simp: r6_def)
  have r8: "take 8 r8 = key_words key 8" "length r8 = 60" if "bits = 256"
    using load_key_words [OF r6(2) _ _ _ r6(1), of 8] key that by (auto simp: r8_def)
  from bits show ?thesis
  proof (elim disjE)
    assume b: "bits = 128"
    have "expanded key 4 (4 * i + (if i + 1 = 10 then 8 else 2 * 4)) (expand128 rk i)"
      if "i < 10" "expanded key 4 (4 * i + 4) rk" for i rk
      using expand128_step [OF that(2,1)] by auto
    from fold_expanded [of 10, OF this init [OF r4]] have "expanded key 4 44 (foldl expand128 r4 [0..<10])"
      by force
    then show ?thesis
      using b by (simp add: aes_nohw_set_encrypt_key_def Let_def expanded_def rounds_of_def aes_words_def flip: r4_def)
  next
    assume b: "bits = 192"
    have "expanded key 6 (6 * i + (if i + 1 = 8 then 10 else 2 * 6)) (expand192 rk i)"
      if "i < 8" "expanded key 6 (6 * i + 6) rk" for i rk
      using expand192_step [OF that(2,1)] by auto
    from fold_expanded [of 8, OF this init [OF r6]] b have "expanded key 6 52 (foldl expand192 r6 [0..<8])"
      by force
    then show ?thesis
      using b by (simp add: aes_nohw_set_encrypt_key_def Let_def expanded_def rounds_of_def aes_words_def flip: r4_def r6_def)
  next
    assume b: "bits = 256"
    have "expanded key 8 (8 * i + (if i + 1 = 7 then 12 else 2 * 8)) (expand256 rk i)"
      if "i < 7" "expanded key 8 (8 * i + 8) rk" for i rk
      using expand256_step [OF that(2,1)] by auto
    from fold_expanded [of 7, OF this init [OF r8]] b have "expanded key 8 60 (foldl expand256 r8 [0..<7])"
      by force
    then show ?thesis
      using b by (simp add: aes_nohw_set_encrypt_key_def Let_def expanded_def rounds_of_def aes_words_def flip: r4_def r6_def r8_def)
  qed
qed

lemma cipher_cong:
  assumes "\<And>i. i \<le> nr \<Longrightarrow> round_key w i = round_key w' i"
  shows "fips_cipher w nr b = fips_cipher w' nr b \<and> fips_inv_cipher w nr b = fips_inv_cipher w' nr b"
proof -
  have "add_round_key w i = add_round_key w' i" if "i \<le> nr" for i
    using assms [OF that] by (simp add: add_round_key_def fun_eq_iff)
  note ark = this
  have "foldl (\<lambda>st i. add_round_key w i (g st)) st [1..<nr] = foldl (\<lambda>st i. add_round_key w' i (g st)) st [1..<nr]"
    for g st by (rule foldl_cong) (simp_all add: ark)
  moreover have "foldl (\<lambda>st i. inv_mix_columns (add_round_key w i (g st))) st (rev [1..<nr]) =
      foldl (\<lambda>st i. inv_mix_columns (add_round_key w' i (g st))) st (rev [1..<nr])" for g st
    by (rule foldl_cong) (simp_all add: ark)
  ultimately show ?thesis
    using ark [of 0] ark [of nr] by (simp only: fips_cipher_def fips_inv_cipher_def Let_def)
qed

lemma round_key_take: "4 * (i + 1) \<le> n \<Longrightarrow> round_key (take n w) i = round_key w i"
  by (simp add: round_key_words)

subsection \<open>Correctness\<close>

definition plain_cpu :: "aes_cpu \<Rightarrow> bool" where
  "plain_cpu cpu \<longleftrightarrow> \<not> hwaes_capable cpu \<and> \<not> vpaes_capable cpu"

lemma aes_correct:
  assumes cpu: "plain_cpu cpu" and bits: "bits = 128 \<or> bits = 192 \<or> bits = 256"
    and key: "length key = bits div 8" and ks: "length (rd_key k0) = 60" "length (rd_key k1) = 60"
  shows "\<exists>ek dk. AES_set_encrypt_key cpu key bits k0 = (0, ek) \<and> AES_set_decrypt_key cpu key bits k1 = (0, dk) \<and>
    (\<forall>b. length b = 16 \<longrightarrow>
       AES_encrypt cpu b ek = Some (fips_cipher (aes_words key bits) (rounds_of bits) b) \<and>
       AES_decrypt cpu b dk = Some (fips_inv_cipher (aes_words key bits) (rounds_of bits) b))"
proof -
  define nr where "nr = rounds_of bits"
  have nr: "0 < nr" "nr = 2 * (nr div 2)" "0 < nr div 2" using bits by (auto simp: nr_def rounds_of_def)
  obtain ek where ek: "aes_nohw_set_encrypt_key key bits k0 = (0, ek)" "rounds ek = nr"
    "take (4 * (nr + 1)) (rd_key ek) = aes_words key bits"
    using nohw_set_encrypt_key [OF bits key ks(1)] by (auto simp: nr_def)
  obtain ek1 where ek1: "aes_nohw_set_encrypt_key key bits k1 = (0, ek1)" "rounds ek1 = nr"
    "length (rd_key ek1) = 60" "take (4 * (nr + 1)) (rd_key ek1) = aes_words key bits"
    using nohw_set_encrypt_key [OF bits key ks(2)] by (auto simp: nr_def)
  define dk where "dk = ek1\<lparr>rd_key := foldl inv_mix_round_key (invert_order (rd_key ek1) 0 (4 * nr)) [1..<nr]\<rparr>"
  have sets: "AES_set_encrypt_key cpu key bits k0 = (0, ek)" "AES_set_decrypt_key cpu key bits k1 = (0, dk)"
    using cpu bits ek ek1
    by (auto simp: AES_set_encrypt_key_def AES_set_decrypt_key_def plain_cpu_def aes_nohw_set_decrypt_key_def
        Let_def dk_def)
  have fits: "4 * (nr + 1) \<le> 60" using bits by (auto simp: nr_def rounds_of_def)
  have words: "round_key (rd_key e) i = round_key (aes_words key bits) i"
    if "take (4 * (nr + 1)) (rd_key e) = aes_words key bits" "i \<le> nr" for e i
    unfolding that(1) [symmetric] using that(2) by (simp add: round_key_take)
  have keys: "decryption_keys (rd_key dk) (rd_key ek1) nr"
    using decryption_schedule [OF nr(1), of "rd_key ek1"] ek1(3) fits by (simp add: dk_def)
  have dk_rounds: "rounds dk = nr" by (simp add: dk_def ek1)
  have "AES_encrypt cpu b ek = Some (fips_cipher (aes_words key bits) nr b) \<and>
      AES_decrypt cpu b dk = Some (fips_inv_cipher (aes_words key bits) nr b)" if b: "length b = 16" for b
  proof
    have "aes_nohw_encrypt b ek = Some (fips_cipher (rd_key ek) nr b)"
      using nohw_encrypt_cipher [OF b, of ek "nr div 2"] nr ek(2) by simp
    moreover have "fips_cipher (rd_key ek) nr b = fips_cipher (aes_words key bits) nr b"
      using cipher_cong [OF words [OF ek(3)]] by blast
    ultimately show "AES_encrypt cpu b ek = Some (fips_cipher (aes_words key bits) nr b)"
      using cpu by (simp add: AES_encrypt_def plain_cpu_def)
    have "aes_nohw_decrypt b dk = Some (equivalent_inv_cipher (rd_key dk) nr b)"
      using nohw_decrypt_cipher [OF b, of dk "nr div 2"] nr dk_rounds by simp
    also have "equivalent_inv_cipher (rd_key dk) nr b = fips_inv_cipher (rd_key ek1) nr b"
      by (rule equivalent_cipher [OF keys nr(1) b])
    also have "\<dots> = fips_inv_cipher (aes_words key bits) nr b"
      using cipher_cong [OF words [OF ek1(4)]] by blast
    finally show "AES_decrypt cpu b dk = Some (fips_inv_cipher (aes_words key bits) nr b)"
      using cpu by (simp add: AES_decrypt_def plain_cpu_def)
  qed
  then show ?thesis using sets unfolding nr_def by blast
qed

lemma length_fips [simp]: "length b = 16 \<Longrightarrow> length (fips_cipher w nr b) = 16 \<and> length (fips_inv_cipher w nr b) = 16"
  by (simp add: fips_cipher_def fips_inv_cipher_def Let_def)

text \<open>C3. On a processor with neither implementation the C code is the AES of FIPS 197: for each key
  size and any previous contents of the schedules, the two schedules are computed, and encryption
  and decryption of a block are Cipher and InvCipher under the expanded key.\<close>

theorem AES_is_fips197:
  assumes "plain_cpu cpu" and "bits = 128 \<or> bits = 192 \<or> bits = 256"
    and "length key = bits div 8" and "length (rd_key k0) = 60" and "length (rd_key k1) = 60"
  shows "\<exists>ek dk. AES_set_encrypt_key cpu key bits k0 = (0, ek) \<and> AES_set_decrypt_key cpu key bits k1 = (0, dk) \<and>
    (\<forall>b. length b = 16 \<longrightarrow>
       AES_encrypt cpu b ek = Some (fips_cipher (aes_words key bits) (rounds_of bits) b) \<and>
       AES_decrypt cpu b dk = Some (fips_inv_cipher (aes_words key bits) (rounds_of bits) b))"
  using assms by (rule aes_correct)

definition old_phone :: aes_cpu where
  "old_phone = \<lparr> hwaes_capable = False, vpaes_capable = False,
     aes_hw_set_encrypt_key = (\<lambda>key bits k. (- 1, k)), aes_hw_set_decrypt_key = (\<lambda>key bits k. (- 1, k)),
     aes_hw_encrypt = (\<lambda>b k. None), aes_hw_decrypt = (\<lambda>b k. None),
     vpaes_set_encrypt_key = (\<lambda>key bits k. (- 1, k)), vpaes_set_decrypt_key = (\<lambda>key bits k. (- 1, k)),
     vpaes_encrypt = (\<lambda>b k. None), vpaes_decrypt = (\<lambda>b k. None) \<rparr>"

definition blank_key :: aes_key where
  "blank_key = \<lparr> rd_key = replicate 60 0, rounds = 0 \<rparr>"

lemma old_phone_plain: "plain_cpu old_phone" "length (rd_key blank_key) = 60"
  by (simp_all add: plain_cpu_def old_phone_def blank_key_def)

theorem AES_is_fips197_witness:
  "\<exists>ek dk. AES_set_encrypt_key old_phone (replicate 24 7) 192 blank_key = (0, ek) \<and>
     AES_set_decrypt_key old_phone (replicate 24 7) 192 blank_key = (0, dk) \<and>
     AES_encrypt old_phone (replicate 16 1) ek = Some (fips_cipher (aes_words (replicate 24 7) 192) 12 (replicate 16 1))"
  using AES_is_fips197 [OF old_phone_plain(1) _ _ old_phone_plain(2) old_phone_plain(2), of 192 "replicate 24 7"]
  by (auto simp: rounds_of_def)

text \<open>C8. Decrypting under the decryption schedule of a key what was encrypted under its encryption
  schedule gives the block back.\<close>

theorem AES_round_trip:
  assumes "plain_cpu cpu" and "bits = 128 \<or> bits = 192 \<or> bits = 256"
    and "length key = bits div 8" and "length (rd_key k0) = 60" and "length (rd_key k1) = 60"
    and "length b = 16"
  shows "\<exists>c. AES_encrypt cpu b (snd (AES_set_encrypt_key cpu key bits k0)) = Some c \<and> length c = 16 \<and>
    AES_decrypt cpu c (snd (AES_set_decrypt_key cpu key bits k1)) = Some b"
  using aes_correct [OF assms(1-5)] assms(6) inv_cipher_cipher [OF assms(6)] by force

theorem AES_round_trip_witness:
  "\<exists>c. AES_encrypt old_phone (replicate 16 1) (snd (AES_set_encrypt_key old_phone (replicate 32 7) 256 blank_key)) = Some c \<and>
    AES_decrypt old_phone c (snd (AES_set_decrypt_key old_phone (replicate 32 7) 256 blank_key)) = Some (replicate 16 1)"
  using AES_round_trip [OF old_phone_plain(1) _ _ old_phone_plain(2) old_phone_plain(2), of 256 "replicate 32 7" "replicate 16 1"]
  by auto

text \<open>The S-box of the tables, the one the code looks up in the masked bytes of \<open>Te0\<close> to
  \<open>Te3\<close>, is the one of FIPS 197: inversion in the field and the affine map; \<open>Td4\<close> is its inverse.\<close>

theorem sbox_is_affine_inverse:
  "byt 8 (Te0 ! unat b) = affine (gf_inverse b) \<and>
   gf_mul b (gf_inverse b) = (if b = 0 then 0 else 1) \<and>
   Td4 ! unat (byt 8 (Te0 ! unat b)) = b"
proof -
  have "map uint sbox ! unat b = map affine_int (map uint gf_inverses) ! unat b"
    by (simp only: affine_ints)
  then have "sub_byte b = affine (gf_inverse b)"
    using unat_byte_less [of b]
    by (simp add: sub_byte_def gf_inverse_def length_sbox length_gf_inverses word_uint_eq_iff uint_affine
        del: unat_byte_less)
  moreover have "byt 8 (Te0 ! unat b) = sub_byte b" by (simp add: Te0_at Let_def byt_cat4)
  moreover have "Td4 ! unat (sub_byte b) = b" using inv_sub_sub [of b] by (simp add: inv_sub_byte_def)
  ultimately show ?thesis using gf_inverse_mul by simp
qed

end
