(* ===== verification/Wallet.thy ===== *)
theory Wallet
  imports Jni AesFips
begin

section \<open>The passcode path over the C implementation of AES\<close>

text \<open>
  The components of the passcode path put together: the JNI methods of \<open>jni.c\<close> with the key
  schedules and the cipher of \<open>aes.c\<close> in place of their parameters.
\<close>

subsection \<open>The AES of the JNI methods\<close>

text \<open>The calls on \<open>akey\<close>, a local \<open>AES_KEY\<close> whose contents \<open>k0\<close> are arbitrary before them.\<close>

definition key_encrypt :: "aes_cpu \<Rightarrow> aes_key \<Rightarrow> aes" where
  "key_encrypt cpu k0 key b = the (AES_encrypt cpu b (snd (AES_set_encrypt_key cpu key (32 * 8) k0)))"

definition key_decrypt :: "aes_cpu \<Rightarrow> aes_key \<Rightarrow> aes" where
  "key_decrypt cpu k0 key b = the (AES_decrypt cpu b (snd (AES_set_decrypt_key cpu key (32 * 8) k0)))"

lemma key_encrypt_fips:
  assumes "plain_cpu cpu" and "length (rd_key k0) = 60" and "length key = 32" and "length b = 16"
  shows "key_encrypt cpu k0 key b = fips_cipher (aes_words key 256) 14 b \<and>
         key_decrypt cpu k0 key b = fips_inv_cipher (aes_words key 256) 14 b"
  using aes_correct [OF assms(1), of 256 key k0 k0] assms(2-4)
  by (auto simp: key_encrypt_def key_decrypt_def rounds_of_def)

lemma c_aes_ok:
  assumes "plain_cpu cpu" and "length (rd_key k0) = 60"
  shows "aes_ok (key_encrypt cpu k0) (key_decrypt cpu k0)"
  using key_encrypt_fips [OF assms] by (simp add: aes_ok_def block_cipher_def inv_cipher_cipher)

lemma ige_enc_cong:
  assumes "\<And>b. length b = 16 \<Longrightarrow> E b = E' b \<and> length (E b) = 16"
    and "length iv = 16" and "length iv2 = 16" and "all16 ps"
  shows "ige_enc E iv iv2 ps = ige_enc E' iv iv2 ps"
  using assms(2-4)
proof (induction ps arbitrary: iv iv2)
  case (Cons p ps)
  then have "length (xor_block p iv) = 16" by (simp add: xor_block_16)
  with assms(1) have E: "E (xor_block p iv) = E' (xor_block p iv)" "length (E' (xor_block p iv)) = 16"
    by metis+
  then have "length (xor_block (E' (xor_block p iv)) iv2) = 16" using Cons.prems by (intro xor_block_16)
  then show ?case using Cons E(1) by (simp add: Let_def)
qed simp

subsection \<open>Properties\<close>

text \<open>C1. The passcode path of the wallet with no assumption on its parts but the heap: on a processor
  without AES or vector instructions, \<open>pbkdf2\<close> writes the 64 bytes of RFC 8018's derivation, the
  encryption method writes the IGE chaining of FIPS 197's AES-256 under the first half, with the
  two halves of the rest as IVs, and the decrypting call gives the secret back.\<close>

theorem wallet_passcode_end_to_end:
  assumes "plain_cpu cpu" and "length (rd_key k0) = 60" and "heap_ok hp"
    and "length passcode < 2 ^ 64" and "length salt < 2 ^ 64" and "iterations \<noteq> 0" and "16 dvd length secret"
  defines "h \<equiv> pbkdf2_spec (hmac_spec sha512_hash 128 passcode) 64 salt (unat iterations) 64"
  shows "pbkdf2 hp passcode salt (replicate 64 0) iterations = Some (True, h) \<and>
    (\<exists>c. fst (aesIgeEncryptionByteArray (key_encrypt cpu k0) (key_decrypt cpu k0) secret
            (take 32 h) (drop 32 h) True 0 (length secret)) = c \<and>
       c = concat (ige_enc (fips_cipher (aes_words (take 32 h) 256) 14) (take 16 (drop 32 h)) (drop 48 h)
             (blocks (length secret div 16) secret)) \<and>
       fst (aesIgeEncryptionByteArray (key_encrypt cpu k0) (key_decrypt cpu k0) c
            (take 32 h) (drop 32 h) False 0 (length secret)) = secret)"
proof -
  note path = passcode_path [OF c_aes_ok [OF assms(1,2)] assms(3-7), folded h_def]
  have len: "length h = 64" and run: "pbkdf2 hp passcode salt (replicate 64 0) iterations = Some (True, h)"
    using path by blast+
  obtain n where n: "length secret = 16 * n" using assms(7) by blast
  have bc: "block_cipher (key_encrypt cpu k0 (take 32 h)) (key_decrypt cpu k0 (take 32 h))"
    using c_aes_ok [OF assms(1,2)] len by (simp add: aes_ok_def)
  have iv: "blk 0 (drop 32 h) = take 16 (drop 32 h)" "blk 16 (drop 32 h) = drop 48 h"
    using len by (simp_all add: blk_def)
  have "fst (aesIgeEncryptionByteArray (key_encrypt cpu k0) (key_decrypt cpu k0) secret
      (take 32 h) (drop 32 h) True 0 (length secret)) =
    concat (ige_enc (key_encrypt cpu k0 (take 32 h)) (take 16 (drop 32 h)) (drop 48 h) (blocks n secret))"
    using ige_encrypt_eq(1) [OF bc n, of secret None "drop 32 h" False] len iv
    by (simp add: aesIgeEncryptionByteArray_def split_def Let_def source_def)
  also have "\<dots> = concat (ige_enc (fips_cipher (aes_words (take 32 h) 256) 14) (take 16 (drop 32 h)) (drop 48 h) (blocks n secret))"
    by (intro arg_cong [of _ _ concat] ige_enc_cong) (use key_encrypt_fips [OF assms(1,2)] len blocks_16 n in auto)
  finally show ?thesis using run path n by auto
qed

theorem wallet_passcode_end_to_end_witness:
  "\<exists>h c. pbkdf2 example_heap [1, 2] [3] (replicate 64 0) 5 = Some (True, h) \<and>
     c = concat (ige_enc (fips_cipher (aes_words (take 32 h) 256) 14) (take 16 (drop 32 h)) (drop 48 h)
           (blocks 3 (replicate 48 9))) \<and>
     fst (aesIgeEncryptionByteArray (key_encrypt old_phone blank_key) (key_decrypt old_phone blank_key) c
       (take 32 h) (drop 32 h) False 0 48) = replicate 48 9"
  using wallet_passcode_end_to_end [OF old_phone_plain example_heap_ok, of "[1, 2]" "[3]" 5 "replicate 48 9"]
  by auto

end
