(* ===== verification/BioPair.thy ===== *)
theory BioPair
  imports Prelude
begin

section \<open>BIO pairs (crypto/bio/pair.c and the entry points of crypto/bio/bio.c)\<close>

text \<open>
  Two connected BIOs, each with a ring buffer that its owner writes and its peer reads. The heap
  maps addresses to BIOs; \<open>bio->ptr\<close> is set by \<open>bio_new\<close> for the life of the BIO, so the
  \<open>bio_bio_st\<close> is a field of the record. \<open>None\<close> is a failed assertion (or a dereference of a
  null pointer, which the assertions guard). The allocator is a parameter: \<open>malloc n\<close> is a block
  with arbitrary contents, or \<open>None\<close>.
\<close>

unbundle bit_operations_syntax

subsection \<open>State\<close>

record ring =
  peer :: "nat option"
  closed :: bool
  rlen :: nat
  roffset :: nat
  rsize :: nat
  rbuf :: "bytes option"
  request :: nat

record bio =
  bio_init :: bool
  bio_shutdown :: int
  bio_flags :: u32
  retry_reason :: int
  num_read :: u64
  num_write :: u64
  bio_ptr :: ring

type_synonym bios = "nat \<Rightarrow> bio option"

definition BIO_FLAGS_READ :: u32 where "BIO_FLAGS_READ = 0x01"

definition BIO_FLAGS_WRITE :: u32 where "BIO_FLAGS_WRITE = 0x02"

definition BIO_FLAGS_IO_SPECIAL :: u32 where "BIO_FLAGS_IO_SPECIAL = 0x04"

definition BIO_FLAGS_RWS :: u32 where
  "BIO_FLAGS_RWS = BIO_FLAGS_READ OR BIO_FLAGS_WRITE OR BIO_FLAGS_IO_SPECIAL"

definition BIO_FLAGS_SHOULD_RETRY :: u32 where "BIO_FLAGS_SHOULD_RETRY = 0x08"

definition kRetryFlags :: u32 where
  "kRetryFlags = BIO_FLAGS_RWS OR BIO_FLAGS_SHOULD_RETRY"

definition BIO_set_retry_read :: "bio \<Rightarrow> bio" where
  "BIO_set_retry_read b = b\<lparr>bio_flags := bio_flags b OR (BIO_FLAGS_READ OR BIO_FLAGS_SHOULD_RETRY)\<rparr>"

definition BIO_set_retry_write :: "bio \<Rightarrow> bio" where
  "BIO_set_retry_write b = b\<lparr>bio_flags := bio_flags b OR (BIO_FLAGS_WRITE OR BIO_FLAGS_SHOULD_RETRY)\<rparr>"

definition BIO_clear_retry_flags :: "bio \<Rightarrow> bio" where
  "BIO_clear_retry_flags b = b\<lparr>bio_flags := bio_flags b AND NOT kRetryFlags, retry_reason := 0\<rparr>"

definition BIO_test_flags :: "bio \<Rightarrow> u32 \<Rightarrow> u32" where
  "BIO_test_flags b flags = bio_flags b AND flags"

definition BIO_should_read :: "bio \<Rightarrow> u32" where
  "BIO_should_read b = BIO_test_flags b BIO_FLAGS_READ"

definition BIO_should_write :: "bio \<Rightarrow> u32" where
  "BIO_should_write b = BIO_test_flags b BIO_FLAGS_WRITE"

definition BIO_should_retry :: "bio \<Rightarrow> u32" where
  "BIO_should_retry b = BIO_test_flags b BIO_FLAGS_SHOULD_RETRY"

subsection \<open>The ring\<close>

text \<open>
  The two copying loops. A \<open>size_t\<close> difference is only taken where the assertions make it
  non-negative; when the offset lies outside the buffer the C difference wraps, which is outside
  the model (\<open>None\<close>).
\<close>

partial_function (option) read_loop :: "ring \<Rightarrow> nat \<Rightarrow> bytes \<Rightarrow> (ring \<times> bytes) option" where
  "read_loop r rest out =
     (if \<not> rest \<le> rlen r \<or> roffset r > rsize r then None
      else
        let chunk = (if roffset r + rest \<le> rsize r then rest else rsize r - roffset r);
            out = out @ take chunk (drop (roffset r) (the (rbuf r)));
            n = rlen r - chunk in
        if n \<noteq> 0 then
          let r = r\<lparr>rlen := n,
                    roffset := (if roffset r + chunk = rsize r then 0 else roffset r + chunk)\<rparr> in
          if rest - chunk = 0 then Some (r, out) else read_loop r (rest - chunk) out
        else if chunk \<noteq> rest then None
        else Some (r\<lparr>rlen := 0, roffset := 0\<rparr>, out))"

partial_function (option) write_loop :: "ring \<Rightarrow> bytes \<Rightarrow> ring option" where
  "write_loop r d =
     (if \<not> rlen r + length d \<le> rsize r then None
      else
        let write_offset = (if roffset r + rlen r \<ge> rsize r then roffset r + rlen r - rsize r
                            else roffset r + rlen r) in
        if write_offset > rsize r then None
        else
          let chunk = (if write_offset + length d \<le> rsize r then length d else rsize r - write_offset);
              r = r\<lparr>rbuf := Some (write_at (the (rbuf r)) write_offset (take chunk d)),
                    rlen := rlen r + chunk\<rparr> in
          if length d - chunk = 0 then Some r else write_loop r (drop chunk d))"

declare read_loop.simps [code] write_loop.simps [code]

subsection \<open>Operations\<close>

definition bio_new :: ring where
  "bio_new = \<lparr> peer = None, closed = False, rlen = 0, roffset = 0, rsize = 17 * 1024,
     rbuf = None, request = 0 \<rparr>"

definition BIO_new :: bio where
  "BIO_new = \<lparr> bio_init = False, bio_shutdown = 1, bio_flags = 0, retry_reason = 0, num_read = 0,
     num_write = 0, bio_ptr = bio_new \<rparr>"

text \<open>\<open>upd h a f\<close> updates the BIO at \<open>a\<close> in place, \<open>with_ring\<close> its \<open>bio_bio_st\<close>.\<close>

definition upd :: "bios \<Rightarrow> nat \<Rightarrow> (bio \<Rightarrow> bio) \<Rightarrow> bios" where
  "upd h a f = (case h a of None \<Rightarrow> h | Some b \<Rightarrow> h(a \<mapsto> f b))"

definition with_ring :: "(ring \<Rightarrow> ring) \<Rightarrow> bio \<Rightarrow> bio" where
  "with_ring f b = b\<lparr>bio_ptr := f (bio_ptr b)\<rparr>"

definition bio_destroy_pair :: "bios \<Rightarrow> nat \<Rightarrow> bios option" where
  "bio_destroy_pair h a =
     (case h a of None \<Rightarrow> None
      | Some bio \<Rightarrow>
        (case peer (bio_ptr bio) of None \<Rightarrow> Some h
         | Some p \<Rightarrow>
           (case h p of None \<Rightarrow> None
            | Some peer_bio \<Rightarrow>
              if peer (bio_ptr peer_bio) \<noteq> Some a then None
              else if rbuf (bio_ptr peer_bio) = None \<or> rbuf (bio_ptr bio) = None then None
              else
                let h = upd h p (\<lambda>x. with_ring (\<lambda>r. r\<lparr>peer := None, rlen := 0, roffset := 0\<rparr>) x\<lparr>bio_init := False\<rparr>)
                in Some (upd h a (\<lambda>x. with_ring (\<lambda>r. r\<lparr>peer := None, rlen := 0, roffset := 0\<rparr>) x\<lparr>bio_init := False\<rparr>)))))"

definition bio_free :: "bios \<Rightarrow> nat \<Rightarrow> (bool \<times> bios) option" where
  "bio_free h a =
     (case h a of None \<Rightarrow> None
      | Some bio \<Rightarrow>
        (if peer (bio_ptr bio) \<noteq> None
         then map_option (\<lambda>h. (True, h(a := None))) (bio_destroy_pair h a)
         else Some (True, h(a := None))))"

text \<open>
  \<open>buf\<close> says whether the buffer pointer is not \<open>NULL\<close>. The size is the \<open>int\<close> that \<open>BIO_read\<close>
  has checked to be positive. The result is the return value and the bytes copied to the buffer.
\<close>

definition bio_read :: "bios \<Rightarrow> nat \<Rightarrow> bool \<Rightarrow> nat \<Rightarrow> (int \<times> bytes \<times> bios) option" where
  "bio_read h a buf sz =
     (let h = upd h a BIO_clear_retry_flags in
      case h a of None \<Rightarrow> None
      | Some bio \<Rightarrow>
        if \<not> bio_init bio then Some (0, [], h)
        else case peer (bio_ptr bio) of None \<Rightarrow> None
        | Some p \<Rightarrow>
          case h p of None \<Rightarrow> None
          | Some peer_bio \<Rightarrow>
            if rbuf (bio_ptr peer_bio) = None then None
            else
              let h = upd h p (with_ring (\<lambda>r. r\<lparr>request := 0\<rparr>));
                  peer_b = (bio_ptr peer_bio)\<lparr>request := 0\<rparr> in
              if \<not> buf \<or> sz = 0 then Some (0, [], h)
              else if rlen peer_b = 0 then
                (if closed peer_b then Some (0, [], h)
                 else
                   let h = upd h a BIO_set_retry_read in
                   Some (- 1, [], upd h p (with_ring (\<lambda>r. r\<lparr>request :=
                     (if sz \<le> rsize peer_b then sz else rsize peer_b)\<rparr>))))
              else
                let sz = (if rlen peer_b < sz then rlen peer_b else sz) in
                case read_loop peer_b sz [] of None \<Rightarrow> None
                | Some (peer_b, out) \<Rightarrow> Some (int sz, out, upd h p (with_ring (\<lambda>_. peer_b))))"

definition bio_write :: "bios \<Rightarrow> nat \<Rightarrow> bytes option \<Rightarrow> (int \<times> bios) option" where
  "bio_write h a buf =
     (let h = upd h a BIO_clear_retry_flags in
      case h a of None \<Rightarrow> None
      | Some bio \<Rightarrow>
        if \<not> bio_init bio \<or> buf = None \<or> buf = Some [] then Some (0, h)
        else if peer (bio_ptr bio) = None \<or> rbuf (bio_ptr bio) = None then None
        else
          let h = upd h a (with_ring (\<lambda>r. r\<lparr>request := 0\<rparr>));
              b = (bio_ptr bio)\<lparr>request := 0\<rparr> in
          if closed b then Some (- 1, h)
          else if \<not> rlen b \<le> rsize b then None
          else if rlen b = rsize b then Some (- 1, upd h a BIO_set_retry_write)
          else
            let num = (if length (the buf) > rsize b - rlen b then rsize b - rlen b else length (the buf)) in
            case write_loop b (take num (the buf)) of None \<Rightarrow> None
            | Some b \<Rightarrow> Some (int num, upd h a (with_ring (\<lambda>_. b))))"

text \<open>The buffer of one end of a new pair; the second component is an allocation failure.\<close>

definition make_buffer :: "(nat \<Rightarrow> bytes option) \<Rightarrow> nat \<Rightarrow> ring \<Rightarrow> ring \<times> bool" where
  "make_buffer malloc writebuf_len b =
     (if rbuf b = None then
        let b = (if writebuf_len \<noteq> 0 then b\<lparr>rsize := writebuf_len\<rparr> else b);
            b = b\<lparr>rbuf := malloc (rsize b)\<rparr> in
        if rbuf b = None then (b, False) else (b\<lparr>rlen := 0, roffset := 0\<rparr>, True)
      else (b, True))"

definition bio_make_pair :: "(nat \<Rightarrow> bytes option) \<Rightarrow> bios \<Rightarrow> nat \<Rightarrow> nat \<Rightarrow> nat \<Rightarrow> nat \<Rightarrow> (bool \<times> bios) option" where
  "bio_make_pair malloc h a1 a2 writebuf1_len writebuf2_len =
     (case (h a1, h a2) of
        (Some bio1, Some bio2) \<Rightarrow>
          if peer (bio_ptr bio1) \<noteq> None \<or> peer (bio_ptr bio2) \<noteq> None then Some (False, h)
          else
            let (b1, ok1) = make_buffer malloc writebuf1_len (bio_ptr bio1);
                h = upd h a1 (with_ring (\<lambda>_. b1)) in
            if \<not> ok1 then Some (False, h)
            else
              let (b2, ok2) = make_buffer malloc writebuf2_len (bio_ptr bio2);
                  h = upd h a2 (with_ring (\<lambda>_. b2)) in
              if \<not> ok2 then Some (False, h)
              else
                let h = upd h a1 (\<lambda>x. with_ring (\<lambda>r. r\<lparr>peer := Some a2, closed := False, request := 0\<rparr>) x\<lparr>bio_init := True\<rparr>)
                in Some (True, upd h a2 (\<lambda>x. with_ring (\<lambda>r. r\<lparr>peer := Some a1, closed := False, request := 0\<rparr>) x\<lparr>bio_init := True\<rparr>))
      | _ \<Rightarrow> None)"

text \<open>The addresses of the two new BIOs are given, \<open>None\<close> when the allocation of one fails; what
  was allocated is freed again on failure.\<close>

definition BIO_new_bio_pair ::
  "(nat \<Rightarrow> bytes option) \<Rightarrow> bios \<Rightarrow> nat option \<Rightarrow> nat \<Rightarrow> nat option \<Rightarrow> nat \<Rightarrow> (bool \<times> bios) option" where
  "BIO_new_bio_pair malloc h bio1 writebuf1_len bio2 writebuf2_len =
     (let new = (\<lambda>h a. case a of None \<Rightarrow> h | Some a \<Rightarrow> h(a \<mapsto> BIO_new));
          free = (\<lambda>h a. case a of None \<Rightarrow> Some h | Some a \<Rightarrow> map_option snd (bio_free h a));
          h = new (new h bio1) bio2 in
      case (bio1, bio2) of
        (Some a1, Some a2) \<Rightarrow>
          (case bio_make_pair malloc h a1 a2 writebuf1_len writebuf2_len of
             None \<Rightarrow> None
           | Some (True, h) \<Rightarrow> Some (True, h)
           | Some (False, h) \<Rightarrow>
               Option.bind (free h bio1) (\<lambda>h. map_option (Pair False) (free h bio2)))
      | _ \<Rightarrow> Option.bind (free h bio1) (\<lambda>h. map_option (Pair False) (free h bio2)))"


text \<open>The control commands; \<open>other\<close> is the pointer argument, read as a BIO.\<close>

definition BIO_CTRL_EOF :: int where "BIO_CTRL_EOF = 2"

definition BIO_CTRL_GET_CLOSE :: int where "BIO_CTRL_GET_CLOSE = 8"

definition BIO_CTRL_SET_CLOSE :: int where "BIO_CTRL_SET_CLOSE = 9"

definition BIO_CTRL_PENDING :: int where "BIO_CTRL_PENDING = 10"

definition BIO_CTRL_FLUSH :: int where "BIO_CTRL_FLUSH = 11"

definition BIO_CTRL_WPENDING :: int where "BIO_CTRL_WPENDING = 13"

definition BIO_C_GET_WRITE_BUF_SIZE :: int where "BIO_C_GET_WRITE_BUF_SIZE = 137"

definition BIO_C_GET_WRITE_GUARANTEE :: int where "BIO_C_GET_WRITE_GUARANTEE = 140"

definition BIO_C_GET_READ_REQUEST :: int where "BIO_C_GET_READ_REQUEST = 141"

definition BIO_C_SHUTDOWN_WR :: int where "BIO_C_SHUTDOWN_WR = 142"

definition BIO_C_RESET_READ_REQUEST :: int where "BIO_C_RESET_READ_REQUEST = 147"

definition bio_ctrl :: "bios \<Rightarrow> nat \<Rightarrow> int \<Rightarrow> int \<Rightarrow> nat option \<Rightarrow> (int \<times> bios) option" where
  "bio_ctrl h a cmd num other =
     (case h a of None \<Rightarrow> None
      | Some bio \<Rightarrow>
        let b = bio_ptr bio in
        if cmd = BIO_C_GET_WRITE_BUF_SIZE then Some (int (rsize b), h)
        else if cmd = BIO_C_GET_WRITE_GUARANTEE then
          Some (if peer b = None \<or> closed b then 0 else int (rsize b) - int (rlen b), h)
        else if cmd = BIO_C_GET_READ_REQUEST then Some (int (request b), h)
        else if cmd = BIO_C_RESET_READ_REQUEST then
          Some (1, upd h a (with_ring (\<lambda>r. r\<lparr>request := 0\<rparr>)))
        else if cmd = BIO_C_SHUTDOWN_WR then
          Some (1, upd h a (with_ring (\<lambda>r. r\<lparr>closed := True\<rparr>)))
        else if cmd = BIO_CTRL_GET_CLOSE then Some (bio_shutdown bio, h)
        else if cmd = BIO_CTRL_SET_CLOSE then
          Some (1, upd h a (\<lambda>x. x\<lparr>bio_shutdown := num\<rparr>))
        else if cmd = BIO_CTRL_PENDING then
          (case peer b of None \<Rightarrow> Some (0, h)
           | Some p \<Rightarrow> map_option (\<lambda>y. (int (rlen (bio_ptr y)), h)) (h p))
        else if cmd = BIO_CTRL_WPENDING then
          Some (if rbuf b \<noteq> None then int (rlen b) else 0, h)
        else if cmd = BIO_CTRL_FLUSH then Some (1, h)
        else if cmd = BIO_CTRL_EOF then
          (case other of None \<Rightarrow> Some (1, h)
           | Some p \<Rightarrow> map_option (\<lambda>y. (of_bool (rlen (bio_ptr y) = 0 \<and> closed (bio_ptr y)), h)) (h p))
        else Some (0, h))"

definition BIO_ctrl_get_read_request :: "bios \<Rightarrow> nat \<Rightarrow> (int \<times> bios) option" where
  "BIO_ctrl_get_read_request h a = bio_ctrl h a BIO_C_GET_READ_REQUEST 0 None"

definition BIO_ctrl_get_write_guarantee :: "bios \<Rightarrow> nat \<Rightarrow> (int \<times> bios) option" where
  "BIO_ctrl_get_write_guarantee h a = bio_ctrl h a BIO_C_GET_WRITE_GUARANTEE 0 None"

definition BIO_shutdown_wr :: "bios \<Rightarrow> nat \<Rightarrow> (int \<times> bios) option" where
  "BIO_shutdown_wr h a = bio_ctrl h a BIO_C_SHUTDOWN_WR 0 None"

definition BIO_pending :: "bios \<Rightarrow> nat \<Rightarrow> int option" where
  "BIO_pending h a =
     (case bio_ctrl h a BIO_CTRL_PENDING 0 None of None \<Rightarrow> None
      | Some (r, _) \<Rightarrow> if r \<ge> 0 then Some r else None)"

definition BIO_wpending :: "bios \<Rightarrow> nat \<Rightarrow> int option" where
  "BIO_wpending h a =
     (case bio_ctrl h a BIO_CTRL_WPENDING 0 None of None \<Rightarrow> None
      | Some (r, _) \<Rightarrow> if r \<ge> 0 then Some r else None)"

text \<open>The entry points of \<open>bio.c\<close>, for a BIO whose method is the pair: the return value, the bytes
  read and the heap.\<close>

definition BIO_read :: "bios \<Rightarrow> nat \<Rightarrow> bool \<Rightarrow> int \<Rightarrow> (int \<times> bytes \<times> bios) option" where
  "BIO_read h a buf len =
     (case h a of None \<Rightarrow> Some (- 2, [], h)
      | Some bio \<Rightarrow>
        if \<not> bio_init bio then Some (- 2, [], h)
        else if len \<le> 0 then Some (0, [], h)
        else case bio_read h a buf (nat len) of None \<Rightarrow> None
        | Some (ret, out, h) \<Rightarrow>
            Some (ret, out, if ret > 0 then upd h a (\<lambda>x. x\<lparr>num_read := num_read x + word_of_int ret\<rparr>) else h))"

definition BIO_write :: "bios \<Rightarrow> nat \<Rightarrow> bytes option \<Rightarrow> int \<Rightarrow> (int \<times> bios) option" where
  "BIO_write h a inp inl =
     (case h a of None \<Rightarrow> Some (- 2, h)
      | Some bio \<Rightarrow>
        if \<not> bio_init bio then Some (- 2, h)
        else if inl \<le> 0 then Some (0, h)
        else case bio_write h a (map_option (take (nat inl)) inp) of None \<Rightarrow> None
        | Some (ret, h) \<Rightarrow>
            Some (ret, if ret > 0 then upd h a (\<lambda>x. x\<lparr>num_write := num_write x + word_of_int ret\<rparr>) else h))"

text \<open>The loop of \<open>BIO_write_all\<close>; it may run for ever only if \<open>BIO_write\<close> returned a positive
  count without consuming anything.\<close>

partial_function (option) BIO_write_all :: "bios \<Rightarrow> nat \<Rightarrow> bytes \<Rightarrow> (bool \<times> bios) option" where
  "BIO_write_all h a data =
     (if data = [] then Some (True, h)
      else
        case BIO_write h a (Some data) (int (if length data > 2147483647 then 2147483647 else length data)) of
          None \<Rightarrow> None
        | Some (ret, h) \<Rightarrow>
            if ret \<le> 0 then Some (False, h) else BIO_write_all h a (drop (nat ret) data))"


subsection \<open>The ring as a queue\<close>

text \<open>
  The interface of a bounded byte queue: what its clients see is the list of bytes held and the
  room left. From it follows that a sequence of transfers neither loses, invents nor reorders
  bytes.
\<close>

locale byte_queue =
  fixes ok :: "'s \<Rightarrow> bool" and held :: "'s \<Rightarrow> bytes" and room :: "'s \<Rightarrow> nat"
    and put :: "'s \<Rightarrow> bytes \<Rightarrow> 's option" and get :: "'s \<Rightarrow> nat \<Rightarrow> ('s \<times> bytes) option"
  assumes put_law: "ok s \<Longrightarrow> d \<noteq> [] \<Longrightarrow> length d \<le> room s \<Longrightarrow>
      \<exists>s'. put s d = Some s' \<and> ok s' \<and> held s' = held s @ d \<and> room s' + length d = room s"
    and get_law: "ok s \<Longrightarrow> 0 < n \<Longrightarrow> n \<le> length (held s) \<Longrightarrow>
      \<exists>s'. get s n = Some (s', take n (held s)) \<and> ok s' \<and> held s' = drop n (held s) \<and> room s' = room s + n"
begin

text \<open>Transfers, as the values put and the counts got.\<close>

fun transfer :: "'s \<Rightarrow> (bytes + nat) list \<Rightarrow> ('s \<times> bytes) option" where
  "transfer s [] = Some (s, [])"
| "transfer s (Inl d # ops) =
     (if d \<noteq> [] \<and> length d \<le> room s then Option.bind (put s d) (\<lambda>s. transfer s ops) else transfer s ops)"
| "transfer s (Inr n # ops) =
     (if 0 < n \<and> n \<le> length (held s)
      then Option.bind (get s n) (\<lambda>(s, out). map_option (\<lambda>(s, rest). (s, out @ rest)) (transfer s ops))
      else transfer s ops)"

lemma transfer_total: "ok s \<Longrightarrow> \<exists>s' out. transfer s ops = Some (s', out) \<and> ok s' \<and>
    length (held s') + room s' = length (held s) + room s"
proof (induction ops arbitrary: s)
  case (Cons op ops)
  show ?case
  proof (cases op)
    case (Inl d)
    show ?thesis
    proof (cases "d \<noteq> [] \<and> length d \<le> room s")
      case True
      obtain s1 where "put s d = Some s1" "ok s1" "held s1 = held s @ d" "room s1 + length d = room s"
        using put_law [OF Cons.prems] True by blast
      then show ?thesis using Cons.IH [of s1] True Inl by auto
    qed (use Cons Inl in auto)
  next
    case (Inr n)
    show ?thesis
    proof (cases "0 < n \<and> n \<le> length (held s)")
      case True
      obtain s1 where "get s n = Some (s1, take n (held s))" "ok s1" "held s1 = drop n (held s)"
          "room s1 = room s + n"
        using get_law [OF Cons.prems] True by blast
      then show ?thesis using Cons.IH [of s1] True Inr by auto
    qed (use Cons Inr in auto)
  qed
qed simp

end

definition ring_at :: "ring \<Rightarrow> nat \<Rightarrow> byte" where
  "ring_at r i = the (rbuf r) ! ((roffset r + i) mod rsize r)"

definition contents :: "ring \<Rightarrow> bytes" where
  "contents r = map (ring_at r) [0..<rlen r]"

text \<open>The invariant the comments of \<open>struct bio_bio_st\<close> state for a connected end.\<close>

definition ring_ok :: "ring \<Rightarrow> bool" where
  "ring_ok r \<longleftrightarrow> (\<exists>b. rbuf r = Some b \<and> length b = rsize r) \<and> 0 < rsize r \<and> rlen r \<le> rsize r \<and>
     roffset r < rsize r \<and> (rlen r = 0 \<longrightarrow> roffset r = 0)"

definition ring_room :: "ring \<Rightarrow> nat" where
  "ring_room r = rsize r - rlen r"

lemma length_contents [simp]: "length (contents r) = rlen r"
  by (simp add: contents_def)

lemma nth_write_at:
  "pos + length d \<le> length b \<Longrightarrow> k < length b \<Longrightarrow>
   write_at b pos d ! k = (if pos \<le> k \<and> k < pos + length d then d ! (k - pos) else b ! k)"
  by (auto simp: write_at_def nth_append)

lemma mod_less_twice: "a < s \<Longrightarrow> i \<le> s \<Longrightarrow> (a + i) mod s = (if a + i < s then a + i else a + i - s)" for s :: nat
  by (auto simp: mod_if)

lemma write_step:
  assumes ok: "ring_ok r" and fit: "rlen r + length d \<le> rsize r"
    and wo: "wo = (roffset r + rlen r) mod rsize r" and c: "wo + c \<le> rsize r" "c \<le> length d"
  defines "r' \<equiv> r\<lparr>rbuf := Some (write_at (the (rbuf r)) wo (take c d)), rlen := rlen r + c\<rparr>"
  shows "contents r' = contents r @ take c d" "ring_ok r'"
proof -
  obtain b where b: "rbuf r = Some b" "length b = rsize r" and s: "roffset r < rsize r" "rlen r \<le> rsize r"
    using ok by (auto simp: ring_ok_def)
  have len: "length (take c d) = c" using c by simp
  show "contents r' = contents r @ take c d"
  proof (rule nth_equalityI)
    show "length (contents r') = length (contents r @ take c d)"
      using c by (simp add: r'_def)
    fix i assume "i < length (contents r')"
    then have i: "i < rlen r + c" by (simp add: r'_def)
    let ?k = "(roffset r + i) mod rsize r"
    have k: "?k < rsize r" using s by simp
    have k_eq: "?k = (if roffset r + i < rsize r then roffset r + i else roffset r + i - rsize r)"
      using s i c fit by (intro mod_less_twice) simp_all
    have wo_eq: "wo = (if roffset r + rlen r < rsize r then roffset r + rlen r else roffset r + rlen r - rsize r)"
      using s unfolding wo by (intro mod_less_twice) simp_all
    have "contents r' ! i = write_at b wo (take c d) ! ?k"
      using i by (simp add: r'_def contents_def ring_at_def b)
    also have "\<dots> = (if wo \<le> ?k \<and> ?k < wo + c then take c d ! (?k - wo) else b ! ?k)"
      using c len b k by (subst nth_write_at) simp_all
    also have "\<dots> = (contents r @ take c d) ! i"
    proof (cases "i < rlen r")
      case True
      then have "\<not> (wo \<le> ?k \<and> ?k < wo + c)"
        using k_eq wo_eq c fit s by (auto split: if_splits)
      then show ?thesis using True by (auto simp: nth_append contents_def ring_at_def b)
    next
      case False
      then have "wo \<le> ?k \<and> ?k < wo + c \<and> ?k - wo = i - rlen r"
        using k_eq wo_eq c fit s i by (auto split: if_splits)
      then show ?thesis using False by (simp add: nth_append)
    qed
    finally show "contents r' ! i = (contents r @ take c d) ! i" .
  qed
  show "ring_ok r'"
    using ok b c fit len by (simp add: r'_def ring_ok_def)
qed


lemma write_loop_correct:
  "ring_ok r \<Longrightarrow> rlen r + length d \<le> rsize r \<Longrightarrow> d \<noteq> [] \<Longrightarrow>
   \<exists>r'. write_loop r d = Some r' \<and> ring_ok r' \<and> contents r' = contents r @ d \<and>
     r' = r\<lparr>rbuf := rbuf r', rlen := rlen r + length d\<rparr>"
proof (induction "length d" arbitrary: r d rule: less_induct)
  case less
  have s: "roffset r < rsize r" "rlen r \<le> rsize r" using less.prems by (auto simp: ring_ok_def)
  define wo where "wo = (roffset r + rlen r) mod rsize r"
  have wo: "(if roffset r + rlen r \<ge> rsize r then roffset r + rlen r - rsize r
      else roffset r + rlen r) = wo" "wo < rsize r"
    using s mod_less_twice [of "roffset r" "rsize r" "rlen r"] by (auto simp: wo_def)
  define c where "c = (if wo + length d \<le> rsize r then length d else rsize r - wo)"
  have c: "0 < c" "c \<le> length d" "wo + c \<le> rsize r" using wo(2) less.prems(3) by (auto simp: c_def)
  define r1 where "r1 = r\<lparr>rbuf := Some (write_at (the (rbuf r)) wo (take c d)), rlen := rlen r + c\<rparr>"
  note step = write_step [OF less.prems(1,2) wo_def c(3,2), folded r1_def]
  have run: "write_loop r d = (if length d - c = 0 then Some r1 else write_loop r1 (drop c d))"
    using less.prems(2) wo(2)
    by (subst write_loop.simps) (auto simp: wo(1) c_def [symmetric] r1_def Let_def)
  show ?case
  proof (cases "length d - c = 0")
    case True
    then have "c = length d" using c(2) by simp
    then show ?thesis using step run by (simp add: r1_def)
  next
    case False
    have "\<exists>r'. write_loop r1 (drop c d) = Some r' \<and> ring_ok r' \<and> contents r' = contents r1 @ drop c d \<and>
        r' = r1\<lparr>rbuf := rbuf r', rlen := rlen r1 + length (drop c d)\<rparr>"
      using False c less.prems step by (intro less.hyps) (simp_all add: r1_def)
    then obtain r' where r': "write_loop r1 (drop c d) = Some r'" "ring_ok r'"
        "contents r' = contents r1 @ drop c d" "r' = r1\<lparr>rbuf := rbuf r', rlen := rlen r1 + length (drop c d)\<rparr>"
      by blast
    have "r1\<lparr>rbuf := rbuf r', rlen := rlen r1 + length (drop c d)\<rparr> =
        r\<lparr>rbuf := rbuf r', rlen := rlen r + length d\<rparr>"
      using c by (simp add: r1_def)
    then have "r' = r\<lparr>rbuf := rbuf r', rlen := rlen r + length d\<rparr>" using r'(4) by simp
    then show ?thesis using r'(1-3) run False step by auto
  qed
qed

lemma read_step:
  assumes ok: "ring_ok r" and c: "0 < c" "c \<le> rlen r" "roffset r + c \<le> rsize r"
  defines "r' \<equiv> (if rlen r - c \<noteq> 0 then r\<lparr>rlen := rlen r - c,
      roffset := (if roffset r + c = rsize r then 0 else roffset r + c)\<rparr> else r\<lparr>rlen := 0, roffset := 0\<rparr>)"
  shows "take c (drop (roffset r) (the (rbuf r))) = take c (contents r)"
    and "contents r' = drop c (contents r)" "ring_ok r'"
proof -
  obtain b where b: "rbuf r = Some b" "length b = rsize r" and s: "roffset r < rsize r" "rlen r \<le> rsize r"
    using ok by (auto simp: ring_ok_def)
  show "take c (drop (roffset r) (the (rbuf r))) = take c (contents r)"
  proof (rule nth_equalityI)
    fix i assume "i < length (take c (drop (roffset r) (the (rbuf r))))"
    then have "i < c" by simp
    then show "take c (drop (roffset r) (the (rbuf r))) ! i = take c (contents r) ! i"
      using b c by (simp add: contents_def ring_at_def)
  qed (use b c in simp)
  show "contents r' = drop c (contents r)"
  proof (rule nth_equalityI)
    fix i assume "i < length (contents r')"
    then have i: "i < rlen r - c" "rlen r - c \<noteq> 0" by (auto simp: r'_def split: if_splits)
    have "(roffset r' + i) mod rsize r = (roffset r + (c + i)) mod rsize r"
      using i by (auto simp: r'_def add.assoc [symmetric] intro: mod_add_left_eq [THEN trans])
    then show "contents r' ! i = drop c (contents r) ! i"
      using i by (simp add: contents_def ring_at_def r'_def)
  qed (simp add: r'_def)
  show "ring_ok r'" using ok c by (auto simp: ring_ok_def r'_def)
qed

lemma read_loop_correct:
  "ring_ok r \<Longrightarrow> 0 < n \<Longrightarrow> n \<le> rlen r \<Longrightarrow>
   \<exists>r'. read_loop r n out = Some (r', out @ take n (contents r)) \<and> ring_ok r' \<and>
     contents r' = drop n (contents r) \<and> r' = r\<lparr>rlen := rlen r - n, roffset := roffset r'\<rparr>"
proof (induction n arbitrary: r out rule: less_induct)
  case (less n)
  have s: "roffset r < rsize r" using less.prems by (auto simp: ring_ok_def)
  define c where "c = (if roffset r + n \<le> rsize r then n else rsize r - roffset r)"
  have c: "0 < c" "c \<le> n" "roffset r + c \<le> rsize r" using s less.prems by (auto simp: c_def)
  then have c': "c \<le> rlen r" using less.prems by simp
  let ?out = "out @ take c (contents r)"
  define r1 where "r1 = (if rlen r - c \<noteq> 0 then r\<lparr>rlen := rlen r - c,
      roffset := (if roffset r + c = rsize r then 0 else roffset r + c)\<rparr> else r\<lparr>rlen := 0, roffset := 0\<rparr>)"
  note step = read_step [OF less.prems(1) c(1) c' c(3), folded r1_def]
  have run: "read_loop r n out = (if n - c = 0 then Some (r1, ?out) else read_loop r1 (n - c) ?out)"
    using less.prems s c c' unfolding step(1) [symmetric]
    by (subst read_loop.simps) (auto simp: c_def [symmetric] r1_def Let_def)
  show ?case
  proof (cases "n - c = 0")
    case True
    then have "c = n" using c(2) by simp
    then show ?thesis using step run by (auto simp: r1_def)
  next
    case False
    have "\<exists>r'. read_loop r1 (n - c) ?out = Some (r', ?out @ take (n - c) (contents r1)) \<and> ring_ok r' \<and>
        contents r' = drop (n - c) (contents r1) \<and> r' = r1\<lparr>rlen := rlen r1 - (n - c), roffset := roffset r'\<rparr>"
      using False c less.prems step(3) by (intro less.IH) (simp_all add: r1_def)
    then obtain r' where r': "read_loop r1 (n - c) ?out = Some (r', ?out @ take (n - c) (contents r1))"
        "ring_ok r'" "contents r' = drop (n - c) (contents r1)"
        "r' = r1\<lparr>rlen := rlen r1 - (n - c), roffset := roffset r'\<rparr>" by blast
    have "r1\<lparr>rlen := rlen r1 - (n - c), roffset := roffset r'\<rparr> = r\<lparr>rlen := rlen r - n, roffset := roffset r'\<rparr>"
      using c False less.prems by (simp add: r1_def)
    then have "r' = r\<lparr>rlen := rlen r - n, roffset := roffset r'\<rparr>" using r'(4) by simp
    moreover have "take c (contents r) @ take (n - c) (contents r1) = take n (contents r)"
      using c by (simp add: step(2) take_add [symmetric])
    moreover have "drop (n - c) (contents r1) = drop n (contents r)"
      using c by (simp add: step(2))
    ultimately show ?thesis using r'(1-3) run False by auto
  qed
qed

lemma ring_write:
  assumes "ring_ok r" "d \<noteq> []" "length d \<le> ring_room r"
  obtains r' where "write_loop r d = Some r'" "ring_ok r'" "contents r' = contents r @ d"
    "rlen r' = rlen r + length d" "rsize r' = rsize r" "peer r' = peer r" "closed r' = closed r"
    "request r' = request r"
proof -
  have "rlen r + length d \<le> rsize r" using assms by (auto simp: ring_room_def ring_ok_def)
  then obtain r' where r': "write_loop r d = Some r'" "ring_ok r'" "contents r' = contents r @ d"
      and eq: "r' = r\<lparr>rbuf := rbuf r', rlen := rlen r + length d\<rparr>"
    using write_loop_correct [OF assms(1) _ assms(2)] by blast
  show ?thesis
    by (rule that [OF r']) (subst eq, simp)+
qed

lemma ring_read:
  assumes "ring_ok r" "0 < n" "n \<le> rlen r"
  obtains r' where "read_loop r n [] = Some (r', take n (contents r))" "ring_ok r'"
    "contents r' = drop n (contents r)" "rlen r' = rlen r - n" "rsize r' = rsize r" "peer r' = peer r"
    "closed r' = closed r" "request r' = request r"
proof -
  obtain r' where r': "read_loop r n [] = Some (r', take n (contents r))" "ring_ok r'"
      "contents r' = drop n (contents r)" and eq: "r' = r\<lparr>rlen := rlen r - n, roffset := roffset r'\<rparr>"
    using read_loop_correct [OF assms, of "[]"] by auto
  show ?thesis
    by (rule that [OF r']) (subst eq, simp)+
qed

interpretation ring: byte_queue ring_ok contents ring_room write_loop "\<lambda>r n. read_loop r n []"
proof
  fix s and d :: bytes assume a: "ring_ok s" "d \<noteq> []" "length d \<le> ring_room s"
  then obtain s' where "write_loop s d = Some s'" "ring_ok s'" "contents s' = contents s @ d"
      "rlen s' = rlen s + length d" "rsize s' = rsize s"
    using ring_write by blast
  then show "\<exists>s'. write_loop s d = Some s' \<and> ring_ok s' \<and> contents s' = contents s @ d \<and>
      ring_room s' + length d = ring_room s"
    using a by (simp add: ring_room_def)
next
  fix s n assume a: "ring_ok s" "0 < n" "n \<le> length (contents s)"
  then obtain s' where "read_loop s n [] = Some (s', take n (contents s))" "ring_ok s'"
      "contents s' = drop n (contents s)" "rlen s' = rlen s - n" "rsize s' = rsize s"
    using ring_read [of s n] by auto
  then show "\<exists>s'. read_loop s n [] = Some (s', take n (contents s)) \<and> ring_ok s' \<and>
      contents s' = drop n (contents s) \<and> ring_room s' = ring_room s + n"
    using a by (auto simp: ring_room_def ring_ok_def)
qed


subsection \<open>Two byte channels\<close>

definition connected :: "bios \<Rightarrow> nat \<Rightarrow> nat \<Rightarrow> bool" where
  "connected h a c \<longleftrightarrow> a \<noteq> c \<and> (\<exists>x y. h a = Some x \<and> h c = Some y \<and> bio_init x \<and> bio_init y \<and>
     peer (bio_ptr x) = Some c \<and> peer (bio_ptr y) = Some a \<and> ring_ok (bio_ptr x) \<and> ring_ok (bio_ptr y))"

text \<open>What the BIO at \<open>a\<close> has written and its peer has not read yet, the room left, and whether it
  has shut down its writing.\<close>

definition end_ring :: "bios \<Rightarrow> nat \<Rightarrow> ring" where
  "end_ring h a = bio_ptr (the (h a))"

definition held_at :: "bios \<Rightarrow> nat \<Rightarrow> bytes" where
  "held_at h a = contents (end_ring h a)"

lemma upd_apply: "upd h a f b = (if b = a then map_option f (h a) else h b)"
  by (auto simp: upd_def split: option.splits)

lemma connected_sym: "connected h a c \<Longrightarrow> connected h c a"
  by (auto simp: connected_def)

lemma bio_ptr_simps [simp]:
  "bio_ptr (BIO_clear_retry_flags b) = bio_ptr b" "bio_init (BIO_clear_retry_flags b) = bio_init b"
  "bio_ptr (BIO_set_retry_read b) = bio_ptr b" "bio_init (BIO_set_retry_read b) = bio_init b"
  "bio_ptr (BIO_set_retry_write b) = bio_ptr b" "bio_init (BIO_set_retry_write b) = bio_init b"
  "bio_ptr (with_ring f b) = f (bio_ptr b)" "bio_init (with_ring f b) = bio_init b"
  by (simp_all add: BIO_clear_retry_flags_def BIO_set_retry_read_def BIO_set_retry_write_def with_ring_def)

lemma ring_ok_request [simp]: "ring_ok (r\<lparr>request := n\<rparr>) = ring_ok r"
  by (simp add: ring_ok_def)

lemma ring_ok_closed [simp]: "ring_ok (r\<lparr>closed := n\<rparr>) = ring_ok r"
  by (simp add: ring_ok_def)

lemma ring_at_request [simp]: "ring_at (r\<lparr>request := n\<rparr>) i = ring_at r i"
  by (simp add: ring_at_def)

lemma contents_request [simp]: "contents (r\<lparr>request := n\<rparr>) = contents r"
  by (simp add: contents_def)

lemma contents_closed [simp]: "contents (r\<lparr>closed := n\<rparr>) = contents r"
  by (simp add: contents_def ring_at_def)

text \<open>The return value of a write of \<open>num\<close> bytes into the ring of the writing end.\<close>

definition write_result :: "ring \<Rightarrow> nat \<Rightarrow> int" where
  "write_result r num =
     (if num = 0 then 0 else if closed r then - 1 else if ring_room r = 0 then - 1
      else int (min num (ring_room r)))"

definition read_result :: "ring \<Rightarrow> nat \<Rightarrow> int" where
  "read_result r num =
     (if num = 0 then 0 else if rlen r = 0 then (if closed r then 0 else - 1)
      else int (min num (rlen r)))"

text \<open>The pair is still connected, with the same buffer sizes and the same ends shut down.\<close>

definition same_pair :: "bios \<Rightarrow> bios \<Rightarrow> nat \<Rightarrow> nat \<Rightarrow> bool" where
  "same_pair h h' a c \<longleftrightarrow> connected h' a c \<and>
     (\<forall>s \<in> {a, c}. rsize (end_ring h' s) = rsize (end_ring h s) \<and> closed (end_ring h' s) = closed (end_ring h s))"

lemma same_pair_trans: "same_pair h1 h2 a c \<Longrightarrow> same_pair h2 h3 a c \<Longrightarrow> same_pair h1 h3 a c"
  by (simp add: same_pair_def)

lemma same_pair_upd:
  assumes "connected h a c" "\<And>b. bio_init (f b) = bio_init b" "\<And>b. bio_ptr (f b) = bio_ptr b" "s \<in> {a, c}"
  shows "same_pair h (upd h s f) a c" "held_at (upd h s f) b = held_at h b"
proof -
  have ptr: "h b \<noteq> None \<Longrightarrow> bio_ptr (the (upd h s f b)) = bio_ptr (the (h b))" for b
    using assms(3) by (auto simp: upd_apply)
  moreover have None: "h b = None \<Longrightarrow> upd h s f b = None" for b by (auto simp: upd_apply)
  ultimately have ring: "end_ring (upd h s f) b = end_ring h b" for b
    by (cases "h b = None") (simp_all add: end_ring_def)
  then show "held_at (upd h s f) b = held_at h b" by (simp add: held_at_def)
  have "connected (upd h s f) a c"
    using assms by (auto simp: connected_def upd_apply)
  then show "same_pair h (upd h s f) a c" by (simp add: same_pair_def ring)
qed

lemma bio_write_connected:
  assumes "connected h a c"
  shows "\<exists>h'. bio_write h a (Some d) = Some (write_result (end_ring h a) (length d), h') \<and>
     same_pair h h' a c \<and> held_at h' c = held_at h c \<and>
     held_at h' a = held_at h a @ take (nat (write_result (end_ring h a) (length d))) d"
proof -
  obtain x y where ac: "a \<noteq> c" and x: "h a = Some x" "bio_init x" "peer (bio_ptr x) = Some c" "ring_ok (bio_ptr x)"
      and y: "h c = Some y" "bio_init y" "peer (bio_ptr y) = Some a" "ring_ok (bio_ptr y)"
    using assms by (auto simp: connected_def)
  have r: "end_ring h a = bio_ptr x" by (simp add: end_ring_def x)
  obtain b where b: "rbuf (bio_ptr x) = Some b" and le: "rlen (bio_ptr x) \<le> rsize (bio_ptr x)"
    using x(4) by (auto simp: ring_ok_def)
  consider "d = []" | "d \<noteq> []" "closed (bio_ptr x)" | "d \<noteq> []" "\<not> closed (bio_ptr x)" "ring_room (bio_ptr x) = 0"
    | "d \<noteq> []" "\<not> closed (bio_ptr x)" "ring_room (bio_ptr x) \<noteq> 0" by blast
  then show ?thesis
  proof cases
    case 4
    define k where "k = min (length d) (ring_room (bio_ptr x))"
    have k: "take k d \<noteq> []" "length (take k d) = k" "k \<le> ring_room (bio_ptr x)"
      using 4 by (auto simp: k_def min_def)
    have num: "(if length d > rsize (bio_ptr x) - rlen (bio_ptr x) then rsize (bio_ptr x) - rlen (bio_ptr x)
        else length d) = k"
      by (auto simp: k_def ring_room_def)
    have ok: "ring_ok ((bio_ptr x)\<lparr>request := 0\<rparr>)" using x(4) by simp
    have "length (take k d) \<le> ring_room ((bio_ptr x)\<lparr>request := 0\<rparr>)" using k by (simp add: ring_room_def)
    from ring_write [OF ok k(1) this]
    obtain r' where r': "write_loop ((bio_ptr x)\<lparr>request := 0\<rparr>) (take k d) = Some r'" "ring_ok r'"
        "contents r' = contents (bio_ptr x) @ take k d" "rsize r' = rsize (bio_ptr x)" "peer r' = Some c"
        "closed r' = closed (bio_ptr x)"
      using x(3) by auto
    have res: "write_result (bio_ptr x) (length d) = int k"
      using 4 by (simp add: write_result_def k_def)
    let ?h = "upd (upd (upd h a BIO_clear_retry_flags) a (with_ring (\<lambda>r. r\<lparr>request := 0\<rparr>))) a (with_ring (\<lambda>_. r'))"
    have "bio_write h a (Some d) = Some (int k, ?h)"
      using 4 x y ac b le r'(1) num
      by (cases "length d > rsize (bio_ptr x) - rlen (bio_ptr x)")
        (simp_all add: bio_write_def upd_apply ring_room_def Let_def)
    moreover have "same_pair h ?h a c" "held_at ?h c = held_at h c" "held_at ?h a = held_at h a @ take k d"
      using x y ac r' by (simp_all add: same_pair_def connected_def held_at_def end_ring_def upd_apply)
    ultimately show ?thesis unfolding r res by auto
  qed (use x y ac b le r in \<open>auto simp: bio_write_def upd_apply ring_room_def Let_def connected_def
        held_at_def end_ring_def write_result_def same_pair_def\<close>)
qed

lemma BIO_write_connected:
  assumes "connected h a c"
  shows "\<exists>h'. BIO_write h a (Some d) inl = Some (write_result (end_ring h a) (length (take (nat inl) d)), h') \<and>
     same_pair h h' a c \<and> held_at h' c = held_at h c \<and>
     held_at h' a = held_at h a @ take (nat (write_result (end_ring h a) (length (take (nat inl) d)))) d"
proof (cases "inl \<le> 0")
  case True
  then show ?thesis
    using assms by (auto simp: BIO_write_def connected_def same_pair_def write_result_def)
next
  case False
  let ?d = "take (nat inl) d"
  let ?r = "write_result (end_ring h a) (length ?d)"
  obtain h' where h': "bio_write h a (Some ?d) = Some (?r, h')" "same_pair h h' a c"
      "held_at h' c = held_at h c" "held_at h' a = held_at h a @ take (nat ?r) ?d"
    using bio_write_connected [OF assms, of ?d] by blast
  have "take (nat ?r) ?d = take (nat ?r) d" by (auto simp: write_result_def min_def)
  moreover have "\<exists>f. BIO_write h a (Some d) inl = Some (?r, if ?r > 0 then upd h' a f else h') \<and>
      (\<forall>b. bio_init (f b) = bio_init b \<and> bio_ptr (f b) = bio_ptr b)"
    using assms False h'(1)
    by (intro exI [of _ "\<lambda>x. x\<lparr>num_write := num_write x + word_of_int ?r\<rparr>"])
      (auto simp: BIO_write_def connected_def)
  then obtain f where f: "BIO_write h a (Some d) inl = Some (?r, if ?r > 0 then upd h' a f else h')"
      "\<And>b. bio_init (f b) = bio_init b" "\<And>b. bio_ptr (f b) = bio_ptr b" by blast
  moreover have "same_pair h' (upd h' a f) a c" "held_at (upd h' a f) b = held_at h' b" for b
    using same_pair_upd(1) [where h = h' and a = a and c = c and s = a and f = f]
      same_pair_upd(2) [where h = h' and a = a and c = c and s = a and f = f and b = b] h'(2) f(2,3)
    by (auto simp: same_pair_def)
  ultimately show ?thesis
    using h' same_pair_trans [OF h'(2)] by auto
qed

lemma bio_read_connected:
  assumes "connected h a c"
  shows "\<exists>h'. bio_read h a True n = Some (read_result (end_ring h c) n,
        take (nat (read_result (end_ring h c) n)) (held_at h c), h') \<and>
     same_pair h h' a c \<and> held_at h' a = held_at h a \<and>
     held_at h' c = drop (nat (read_result (end_ring h c) n)) (held_at h c)"
proof -
  obtain x y where ac: "a \<noteq> c" and x: "h a = Some x" "bio_init x" "peer (bio_ptr x) = Some c" "ring_ok (bio_ptr x)"
      and y: "h c = Some y" "bio_init y" "peer (bio_ptr y) = Some a" "ring_ok (bio_ptr y)"
    using assms by (auto simp: connected_def)
  have r: "end_ring h c = bio_ptr y" by (simp add: end_ring_def y)
  obtain b where b: "rbuf (bio_ptr y) = Some b" and le: "rlen (bio_ptr y) \<le> rsize (bio_ptr y)"
    using y(4) by (auto simp: ring_ok_def)
  consider "n = 0" | "n \<noteq> 0" "rlen (bio_ptr y) = 0" | "n \<noteq> 0" "rlen (bio_ptr y) \<noteq> 0" by blast
  then show ?thesis
  proof cases
    case 3
    define k where "k = (if rlen (bio_ptr y) < n then rlen (bio_ptr y) else n)"
    have k: "0 < k" "k \<le> rlen ((bio_ptr y)\<lparr>request := 0\<rparr>)" "k \<le> n" using 3 by (auto simp: k_def)
    have ok: "ring_ok ((bio_ptr y)\<lparr>request := 0\<rparr>)" using y(4) by simp
    from ring_read [OF ok k(1,2)]
    obtain r' where r': "read_loop ((bio_ptr y)\<lparr>request := 0\<rparr>) k [] = Some (r', take k (contents (bio_ptr y)))"
        "ring_ok r'" "contents r' = drop k (contents (bio_ptr y))" "rsize r' = rsize (bio_ptr y)"
        "peer r' = Some a" "closed r' = closed (bio_ptr y)"
      using y(3) by auto
    have res: "read_result (bio_ptr y) n = int k"
      using 3 by (simp add: read_result_def k_def min_def)
    let ?h = "upd (upd (upd h a BIO_clear_retry_flags) c (with_ring (\<lambda>r. r\<lparr>request := 0\<rparr>))) c (with_ring (\<lambda>_. r'))"
    have "bio_read h a True n = Some (int k, take k (contents (bio_ptr y)), ?h)"
      using 3 x y ac b le r'(1) k_def
      by (cases "rlen (bio_ptr y) < n") (simp_all add: bio_read_def upd_apply Let_def)
    moreover have "same_pair h ?h a c" "held_at ?h a = held_at h a" "held_at ?h c = drop k (held_at h c)"
      using x y ac r' by (simp_all add: same_pair_def connected_def held_at_def end_ring_def upd_apply)
    ultimately show ?thesis unfolding r res by (auto simp: held_at_def r)
  qed (use x y ac b le r in \<open>auto simp: bio_read_def upd_apply Let_def connected_def
        held_at_def end_ring_def read_result_def same_pair_def contents_def\<close>)
qed

lemma BIO_read_connected:
  assumes "connected h a c"
  shows "\<exists>h'. BIO_read h a True n = Some (read_result (end_ring h c) (nat n),
        take (nat (read_result (end_ring h c) (nat n))) (held_at h c), h') \<and>
     same_pair h h' a c \<and> held_at h' a = held_at h a \<and>
     held_at h' c = drop (nat (read_result (end_ring h c) (nat n))) (held_at h c)"
proof (cases "n \<le> 0")
  case True
  then show ?thesis
    using assms by (auto simp: BIO_read_def connected_def same_pair_def read_result_def)
next
  case False
  let ?r = "read_result (end_ring h c) (nat n)"
  obtain h' where h': "bio_read h a True (nat n) = Some (?r, take (nat ?r) (held_at h c), h')" "same_pair h h' a c"
      "held_at h' a = held_at h a" "held_at h' c = drop (nat ?r) (held_at h c)"
    using bio_read_connected [OF assms, of "nat n"] by blast
  have "\<exists>f. BIO_read h a True n = Some (?r, take (nat ?r) (held_at h c), if ?r > 0 then upd h' a f else h') \<and>
      (\<forall>b. bio_init (f b) = bio_init b \<and> bio_ptr (f b) = bio_ptr b)"
    using assms False h'(1)
    by (intro exI [of _ "\<lambda>x. x\<lparr>num_read := num_read x + word_of_int ?r\<rparr>"])
      (auto simp: BIO_read_def connected_def)
  then obtain f where f: "BIO_read h a True n = Some (?r, take (nat ?r) (held_at h c), if ?r > 0 then upd h' a f else h')"
      "\<And>b. bio_init (f b) = bio_init b" "\<And>b. bio_ptr (f b) = bio_ptr b" by blast
  moreover have "same_pair h' (upd h' a f) a c" "held_at (upd h' a f) b = held_at h' b" for b
    using same_pair_upd(1) [where h = h' and a = a and c = c and s = a and f = f]
      same_pair_upd(2) [where h = h' and a = a and c = c and s = a and f = f and b = b] h'(2) f(2,3)
    by (auto simp: same_pair_def)
  ultimately show ?thesis
    using h' same_pair_trans [OF h'(2)] by auto
qed


text \<open>
  The runs of a caller that makes a pair and then reads, writes and shuts down either end. \<open>w\<close> and
  \<open>r\<close> collect what the calls reported: the bytes that writes at each end accepted, and the bytes
  that reads at each end delivered.
\<close>

inductive pair_run :: "(nat \<Rightarrow> bytes option) \<Rightarrow> nat \<Rightarrow> nat \<Rightarrow> bios \<Rightarrow> (nat \<Rightarrow> bytes) \<Rightarrow> (nat \<Rightarrow> bytes) \<Rightarrow> bool"
  for malloc a c where
  run_new: "BIO_new_bio_pair malloc h0 (Some a) n1 (Some c) n2 = Some (True, h) \<Longrightarrow>
    pair_run malloc a c h (\<lambda>_. []) (\<lambda>_. [])"
| run_write: "pair_run malloc a c h w r \<Longrightarrow> s \<in> {a, c} \<Longrightarrow>
    BIO_write h s (Some d) n = Some (ret, h') \<Longrightarrow>
    pair_run malloc a c h' (w(s := w s @ take (nat ret) d)) r"
| run_read: "pair_run malloc a c h w r \<Longrightarrow> s \<in> {a, c} \<Longrightarrow>
    BIO_read h s True n = Some (ret, out, h') \<Longrightarrow>
    pair_run malloc a c h' w (r(s := r s @ out))"
| run_shutdown: "pair_run malloc a c h w r \<Longrightarrow> s \<in> {a, c} \<Longrightarrow>
    BIO_shutdown_wr h s = Some (ret, h') \<Longrightarrow> pair_run malloc a c h' w r"

inductive_cases pair_run_cases: "pair_run malloc a c h w r"

definition malloc_ok :: "(nat \<Rightarrow> bytes option) \<Rightarrow> bool" where
  "malloc_ok malloc \<longleftrightarrow> (\<forall>n b. malloc n = Some b \<longrightarrow> length b = n)"

lemma make_buffer_ok:
  assumes "malloc_ok malloc" "make_buffer malloc n bio_new = (r, True)"
  shows "ring_ok (r\<lparr>peer := p, closed := False, request := 0\<rparr>)"
    "contents (r\<lparr>peer := p, closed := False, request := 0\<rparr>) = []"
  using assms
  by (auto simp: make_buffer_def bio_new_def malloc_ok_def ring_ok_def contents_def Let_def split: if_splits)

lemma new_pair_connected:
  assumes m: "malloc_ok malloc" and ac: "a \<noteq> c"
    and new: "BIO_new_bio_pair malloc h0 (Some a) n1 (Some c) n2 = Some (True, h)"
  shows "connected h a c" "held_at h a = []" "held_at h c = []"
proof -
  obtain b1 ok1 where b1: "make_buffer malloc n1 bio_new = (b1, ok1)" by fastforce
  obtain b2 ok2 where b2: "make_buffer malloc n2 bio_new = (b2, ok2)" by fastforce
  have ptr: "bio_ptr BIO_new = bio_new" "peer bio_new = None" by (simp_all add: BIO_new_def bio_new_def)
  define h1 where "h1 = h0(a \<mapsto> BIO_new, c \<mapsto> BIO_new)"
  have h1: "h1 a = Some BIO_new" "h1 c = Some BIO_new" using ac by (simp_all add: h1_def)
  have "bio_make_pair malloc h1 a c n1 n2 = Some (True, h)"
    using new by (auto simp: BIO_new_bio_pair_def h1_def Let_def bind_eq_Some_conv
        split: option.splits prod.splits bool.splits)
  then have "ok1" "ok2" and h: "h a = Some (with_ring (\<lambda>r. r\<lparr>peer := Some c, closed := False, request := 0\<rparr>)
        (with_ring (\<lambda>_. b1) BIO_new)\<lparr>bio_init := True\<rparr>)"
      "h c = Some (with_ring (\<lambda>r. r\<lparr>peer := Some a, closed := False, request := 0\<rparr>)
        (with_ring (\<lambda>_. b2) BIO_new)\<lparr>bio_init := True\<rparr>)"
    using ac by (auto simp: bio_make_pair_def h1 ptr b1 b2 Let_def upd_apply split: if_splits)
  then show "connected h a c" "held_at h a = []" "held_at h c = []"
    using make_buffer_ok [OF m, of n1 b1] make_buffer_ok [OF m, of n2 b2] b1 b2 ac
    by (simp_all add: connected_def held_at_def end_ring_def with_ring_def)
qed


lemma shutdown_connected:
  assumes "connected h a c" "s \<in> {a, c}"
  shows "\<exists>h'. BIO_shutdown_wr h s = Some (1, h') \<and> connected h' a c \<and> (\<forall>x. held_at h' x = held_at h x)"
proof -
  have "bio_ctrl h s BIO_C_SHUTDOWN_WR 0 None = Some (1, upd h s (with_ring (\<lambda>r. r\<lparr>closed := True\<rparr>)))"
    using assms by (auto simp: bio_ctrl_def connected_def BIO_C_SHUTDOWN_WR_def BIO_C_GET_WRITE_BUF_SIZE_def
        BIO_C_GET_WRITE_GUARANTEE_def BIO_C_GET_READ_REQUEST_def BIO_C_RESET_READ_REQUEST_def Let_def)
  moreover have "connected (upd h s (with_ring (\<lambda>r. r\<lparr>closed := True\<rparr>))) a c"
    using assms by (auto simp: connected_def upd_apply)
  moreover have "held_at (upd h s (with_ring (\<lambda>r. r\<lparr>closed := True\<rparr>))) x = held_at h x" for x
    using assms by (auto simp: held_at_def end_ring_def upd_apply connected_def)
  ultimately show ?thesis by (simp add: BIO_shutdown_wr_def)
qed

text \<open>One side of a pair, seen from either end.\<close>

definition other_end :: "nat \<Rightarrow> nat \<Rightarrow> nat \<Rightarrow> nat" where
  "other_end a c s = (if s = a then c else a)"

lemma run_invariant:
  assumes "pair_run malloc a c h w r" "malloc_ok malloc" "a \<noteq> c"
  shows "connected h a c \<and> w a = r c @ held_at h a \<and> w c = r a @ held_at h c"
  using assms(1)
proof (induction rule: pair_run.induct)
  case (run_new h0 n1 n2 h)
  then show ?case using new_pair_connected [OF assms(2,3)] by auto
next
  case (run_write h w r s d n ret h')
  have conn: "connected h s (other_end a c s)"
    using run_write assms(3) connected_sym by (auto simp: other_end_def)
  from BIO_write_connected [OF this, of d n] show ?case
    using run_write assms(3) connected_sym [of h' c a]
    by (auto simp: same_pair_def other_end_def split: if_splits)
next
  case (run_read h w r s n ret out h')
  have conn: "connected h s (other_end a c s)"
    using run_read assms(3) connected_sym by (auto simp: other_end_def)
  from BIO_read_connected [OF this, of n] show ?case
    using run_read assms(3) connected_sym [of h' c a]
    by (auto simp: same_pair_def other_end_def split: if_splits)
next
  case (run_shutdown h w r s ret h')
  then show ?case using shutdown_connected [of h a c s] by auto
qed

text \<open>C25. A BIO pair is two reliable byte streams: after any sequence of reads, writes and
  shutdowns at either end, the bytes an end accepted are the bytes the other end delivered
  followed by the bytes the ring still holds, in order; no call ever fails an assertion or reads
  outside the ring.\<close>

theorem bio_pair_streams:
  assumes "pair_run malloc a c h w r" "malloc_ok malloc" "a \<noteq> c"
  shows "w a = r c @ held_at h a \<and> w c = r a @ held_at h c \<and>
    (\<forall>s \<in> {a, c}. \<forall>d n. BIO_write h s (Some d) n \<noteq> None \<and> BIO_read h s True n \<noteq> None \<and>
       BIO_shutdown_wr h s \<noteq> None)"
proof -
  note inv = run_invariant [OF assms]
  have "BIO_write h s (Some d) n \<noteq> None \<and> BIO_read h s True n \<noteq> None \<and> BIO_shutdown_wr h s \<noteq> None"
    if s: "s \<in> {a, c}" for s d n
  proof -
    have "connected h s (other_end a c s)"
      using inv s connected_sym by (auto simp: other_end_def)
    then show ?thesis
      using BIO_write_connected [of h s _ d n] BIO_read_connected [of h s _ n] shutdown_connected [of h a c s] inv s
      by fastforce
  qed
  then show ?thesis using inv by blast
qed

definition small_malloc :: "nat \<Rightarrow> bytes option" where
  "small_malloc n = (if n < 100 then Some (replicate n 0) else None)"

definition no_bios :: bios where
  "no_bios = (\<lambda>_. None)"

theorem bio_pair_streams_witness:
  "\<exists>h. BIO_new_bio_pair small_malloc no_bios (Some 1) 4 (Some 2) 3 = Some (True, h) \<and>
    (\<exists>h'. BIO_write h 1 (Some [5, 6, 7, 8, 9]) 5 = Some (4, h') \<and>
      [5, 6, 7, 8] = [] @ held_at h' 1 \<and> [] = [] @ held_at h' 2)"
proof -
  have "(case BIO_new_bio_pair small_malloc no_bios (Some 1) 4 (Some 2) 3 of
      Some (True, h) \<Rightarrow> map_option fst (BIO_write h 1 (Some [5, 6, 7, 8, 9]) 5) | _ \<Rightarrow> None) = Some 4"
    by code_simp
  then obtain h h' where new: "BIO_new_bio_pair small_malloc no_bios (Some 1) 4 (Some 2) 3 = Some (True, h)"
      and wr: "BIO_write h 1 (Some [5, 6, 7, 8, 9]) 5 = Some (4, h')"
    by (auto split: option.splits bool.splits)
  have m: "malloc_ok small_malloc" by (simp add: malloc_ok_def small_malloc_def)
  from bio_pair_streams [OF run_write [OF run_new [OF new] _ wr] m]
  have "[5, 6, 7, 8] = [] @ held_at h' 1 \<and> [] = [] @ held_at h' 2" by simp
  then show ?thesis using new wr by blast
qed


lemma write_all_step:
  assumes conn: "connected h a c" and open_end: "\<not> closed (end_ring h a)" and data: "data \<noteq> []"
  defines "k \<equiv> min (min (length data) 2147483647) (ring_room (end_ring h a))"
  shows "\<exists>h'. BIO_write_all h a data =
      (if k = 0 then Some (False, h') else BIO_write_all h' a (drop k data)) \<and>
    same_pair h h' a c \<and> held_at h' a = held_at h a @ take k data \<and> held_at h' c = held_at h c"
proof -
  let ?n = "if length data > 2147483647 then 2147483647 else length data"
  have n: "?n = min (length data) 2147483647" "length (take (nat (int ?n)) data) = ?n" "?n \<noteq> 0"
    using data by auto
  have res: "write_result (end_ring h a) ?n = (if k = 0 then - 1 else int k)"
    using open_end n(3) unfolding write_result_def k_def n(1) [symmetric] by (auto simp: min_def)
  obtain h' where h': "BIO_write h a (Some data) (int ?n) = Some (if k = 0 then - 1 else int k, h')"
      "same_pair h h' a c" "held_at h' c = held_at h c" "held_at h' a = held_at h a @ take k data"
    using BIO_write_connected [OF conn, of data "int ?n"] unfolding n(2) res by (auto split: if_splits)
  have "BIO_write_all h a data = (if k = 0 then Some (False, h') else BIO_write_all h' a (drop k data))"
    using data h'(1) by (subst BIO_write_all.simps) simp
  then show ?thesis using h' by blast
qed

lemma held_room:
  "connected h a c \<Longrightarrow> length (held_at h a) + ring_room (end_ring h a) = rsize (end_ring h a)"
  by (auto simp: connected_def held_at_def end_ring_def ring_room_def ring_ok_def)

text \<open>C26. \<open>BIO_write_all\<close> on an open end always returns, and returns success exactly when the data
  fits in the ring; either way the ring takes the longest prefix it has room for, behind what it
  held, and the other direction is untouched.\<close>

theorem BIO_write_all_exact:
  assumes "connected h a c" "\<not> closed (end_ring h a)"
  shows "\<exists>h'. BIO_write_all h a data = Some (length data \<le> ring_room (end_ring h a), h') \<and>
    held_at h' a = held_at h a @ take (ring_room (end_ring h a)) data \<and> held_at h' c = held_at h c"
  using assms
proof (induction "length data" arbitrary: h data rule: less_induct)
  case less
  show ?case
  proof (cases "data = []")
    case True
    then show ?thesis by (subst BIO_write_all.simps) simp
  next
    case False
    let ?room = "ring_room (end_ring h a)"
    define k where "k = min (min (length data) 2147483647) ?room"
    obtain h1 where run: "BIO_write_all h a data = (if k = 0 then Some (False, h1) else BIO_write_all h1 a (drop k data))"
        and pair: "same_pair h h1 a c"
        and held: "held_at h1 a = held_at h a @ take k data" "held_at h1 c = held_at h c"
      using write_all_step [OF less.prems False] unfolding k_def by blast
    show ?thesis
    proof (cases "k = 0")
      case True
      then have "?room = 0" using False by (simp add: k_def min_def split: if_splits)
      then show ?thesis using True run held False by auto
    next
      case nz: False
      have conn: "connected h1 a c" "\<not> closed (end_ring h1 a)" "rsize (end_ring h1 a) = rsize (end_ring h a)"
        using pair less.prems(2) by (simp_all add: same_pair_def)
      have k: "k \<le> length data" "k \<le> ?room" by (simp_all add: k_def)
      have room: "ring_room (end_ring h1 a) = ?room - k"
        using held_room [OF conn(1)] held_room [OF less.prems(1)] conn(3) held(1) k by simp
      have "length (drop k data) < length data" using nz False by simp
      from less.hyps [OF this conn(1,2)] obtain h2 where
          "BIO_write_all h1 a (drop k data) = Some (length (drop k data) \<le> ?room - k, h2)"
          "held_at h2 a = held_at h1 a @ take (?room - k) (drop k data)" "held_at h2 c = held_at h1 c"
        unfolding room by blast
      moreover have "take k data @ take (?room - k) (drop k data) = take ?room data"
        using k by (simp add: take_add [symmetric])
      ultimately show ?thesis using run nz held k by auto
    qed
  qed
qed

lemma example_pair:
  "\<exists>h. BIO_new_bio_pair small_malloc no_bios (Some 1) 4 (Some 2) 3 = Some (True, h) \<and> connected h 1 2 \<and>
    rlen (end_ring h 1) = 0 \<and> rsize (end_ring h 1) = 4 \<and> \<not> closed (end_ring h 1)"
proof -
  have "(case BIO_new_bio_pair small_malloc no_bios (Some 1) 4 (Some 2) 3 of
      Some (True, h) \<Rightarrow> rlen (bio_ptr (the (h 1))) = 0 \<and> rsize (bio_ptr (the (h 1))) = 4 \<and>
        \<not> closed (bio_ptr (the (h 1))) | _ \<Rightarrow> False)"
    by code_simp
  then obtain h where h: "BIO_new_bio_pair small_malloc no_bios (Some 1) 4 (Some 2) 3 = Some (True, h)"
      "rlen (end_ring h 1) = 0" "rsize (end_ring h 1) = 4" "\<not> closed (end_ring h 1)"
    by (auto simp: end_ring_def split: option.splits bool.splits)
  have "malloc_ok small_malloc" by (simp add: malloc_ok_def small_malloc_def)
  then show ?thesis using h new_pair_connected [OF _ _ h(1)] by auto
qed

theorem BIO_write_all_exact_witness:
  "\<exists>h h'. connected h 1 2 \<and> BIO_write_all h 1 [7, 8] = Some (True, h') \<and> held_at h' 1 = [7, 8]"
proof -
  obtain h where h: "connected h 1 2" "rlen (end_ring h 1) = 0" "rsize (end_ring h 1) = 4"
      "\<not> closed (end_ring h 1)"
    using example_pair by blast
  have "held_at h 1 = []" using h(2) by (simp add: held_at_def flip: length_0_conv)
  then show ?thesis
    using BIO_write_all_exact [OF h(1,4), of "[7, 8]"] h by (auto simp: ring_room_def)
qed

text \<open>Freeing one end tears the pair down: the other end is left unconnected with an empty
  ring, every read and write on it returns \<open>-2\<close> from then on, and what had been written but not
  read is gone.\<close>

theorem bio_free_disconnects:
  assumes "connected h a c"
  shows "\<exists>h'. bio_free h a = Some (True, h') \<and> h' a = None \<and> held_at h' c = [] \<and>
    peer (end_ring h' c) = None \<and>
    (\<forall>d n. BIO_write h' c d n = Some (- 2, h') \<and> BIO_read h' c True n = Some (- 2, [], h'))"
proof -
  obtain x y where x: "h a = Some x" "peer (bio_ptr x) = Some c" "rbuf (bio_ptr x) \<noteq> None"
      and y: "h c = Some y" "peer (bio_ptr y) = Some a" "rbuf (bio_ptr y) \<noteq> None" and ac: "a \<noteq> c"
    using assms by (auto simp: connected_def ring_ok_def)
  then show ?thesis
    by (auto simp: bio_free_def bio_destroy_pair_def upd_apply Let_def held_at_def end_ring_def
        contents_def BIO_write_def BIO_read_def with_ring_def)
qed

theorem bio_free_disconnects_witness:
  "\<exists>h h'. connected h 1 2 \<and> bio_free h 1 = Some (True, h') \<and> h' 1 = None \<and> held_at h' 2 = []"
  using example_pair bio_free_disconnects by blast

end
