(* ===== verification/ConstantTime.thy ===== *)
theory ConstantTime
  imports Prelude
begin

section \<open>Constant-time comparison and selection (crypto/internal.h, crypto/mem.c)\<close>

text \<open>
  The branch-free comparisons that the encoders and the padding checks use, over
  \<open>crypto_word_t\<close> (64 bits on the ABIs with \<open>OPENSSL_64_BIT\<close>) and its 8-bit results. Each one
  is shown to be the mask of the comparison it stands for, which is how the clients use it.
  \<open>CRYPTO_memcmp\<close>, \<open>OPENSSL_hash32\<close> and the string helpers of \<open>mem.c\<close> come with them.
\<close>

unbundle bit_operations_syntax

subsection \<open>Code\<close>

definition value_barrier_w :: "u64 \<Rightarrow> u64" where
  "value_barrier_w a = a"

definition constant_time_msb_w :: "u64 \<Rightarrow> u64" where
  "constant_time_msb_w a = 0 - drop_bit (8 * 8 - 1) a"

definition constant_time_lt_w :: "u64 \<Rightarrow> u64 \<Rightarrow> u64" where
  "constant_time_lt_w a b = constant_time_msb_w (a XOR ((a XOR b) OR ((a - b) XOR a)))"

definition constant_time_lt_8 :: "u64 \<Rightarrow> u64 \<Rightarrow> byte" where
  "constant_time_lt_8 a b = ucast (constant_time_lt_w a b)"

definition constant_time_ge_w :: "u64 \<Rightarrow> u64 \<Rightarrow> u64" where
  "constant_time_ge_w a b = NOT (constant_time_lt_w a b)"

definition constant_time_ge_8 :: "u64 \<Rightarrow> u64 \<Rightarrow> byte" where
  "constant_time_ge_8 a b = ucast (constant_time_ge_w a b)"

definition constant_time_is_zero_w :: "u64 \<Rightarrow> u64" where
  "constant_time_is_zero_w a = constant_time_msb_w (NOT a AND (a - 1))"

definition constant_time_is_zero_8 :: "u64 \<Rightarrow> byte" where
  "constant_time_is_zero_8 a = ucast (constant_time_is_zero_w a)"

definition constant_time_eq_w :: "u64 \<Rightarrow> u64 \<Rightarrow> u64" where
  "constant_time_eq_w a b = constant_time_is_zero_w (a XOR b)"

definition constant_time_eq_8 :: "u64 \<Rightarrow> u64 \<Rightarrow> byte" where
  "constant_time_eq_8 a b = ucast (constant_time_eq_w a b)"

text \<open>A C \<open>int\<close> is a 32-bit word read as signed; the cast to \<open>crypto_word_t\<close> extends its sign.\<close>

definition constant_time_eq_int :: "u32 \<Rightarrow> u32 \<Rightarrow> u64" where
  "constant_time_eq_int a b = constant_time_eq_w (scast a) (scast b)"

definition constant_time_eq_int_8 :: "u32 \<Rightarrow> u32 \<Rightarrow> byte" where
  "constant_time_eq_int_8 a b = constant_time_eq_8 (scast a) (scast b)"

definition constant_time_select_w :: "u64 \<Rightarrow> u64 \<Rightarrow> u64 \<Rightarrow> u64" where
  "constant_time_select_w m a b = (value_barrier_w m AND a) OR (value_barrier_w (NOT m) AND b)"

definition constant_time_select_8 :: "byte \<Rightarrow> byte \<Rightarrow> byte \<Rightarrow> byte" where
  "constant_time_select_8 m a b = ucast (constant_time_select_w (ucast m) (ucast a) (ucast b))"

definition constant_time_select_int :: "u64 \<Rightarrow> u32 \<Rightarrow> u32 \<Rightarrow> u32" where
  "constant_time_select_int m a b = ucast (constant_time_select_w m (scast a) (scast b))"

text \<open>The two comparisons that base64.c adds for 8-bit arguments.\<close>

definition constant_time_lt_args_8 :: "byte \<Rightarrow> byte \<Rightarrow> byte" where
  "constant_time_lt_args_8 a b = ucast (constant_time_msb_w (ucast a - ucast b))"

definition constant_time_in_range_8 :: "byte \<Rightarrow> byte \<Rightarrow> byte \<Rightarrow> byte" where
  "constant_time_in_range_8 a lo hi = constant_time_lt_args_8 (a - lo) (hi - lo + 1)"

definition CRYPTO_memcmp :: "bytes \<Rightarrow> bytes \<Rightarrow> nat \<Rightarrow> byte" where
  "CRYPTO_memcmp a b len = foldl (\<lambda>x i. x OR (a ! i XOR b ! i)) 0 [0..<len]"

definition OPENSSL_hash32 :: "bytes \<Rightarrow> nat \<Rightarrow> u32" where
  "OPENSSL_hash32 ptr len = foldl (\<lambda>h i. (h XOR ucast (ptr ! i)) * 16777619) 2166136261 [0..<len]"

text \<open>
  The string helpers read a \<open>char\<close> at a time (signed on the application's x86 ABIs, unsigned on
  its ARM ABIs: \<open>sx\<close> is the conversion of a \<open>char\<close> to \<open>int\<close>) up to the terminating NUL, which a
  C string has; the unbounded loop reads past the list when neither string is terminated, and is
  then stuck.
\<close>

fun OPENSSL_strnlen_from :: "bytes \<Rightarrow> nat \<Rightarrow> nat \<Rightarrow> nat" where
  "OPENSSL_strnlen_from s i 0 = i"
| "OPENSSL_strnlen_from s i (Suc k) = (if s ! i = 0 then i else OPENSSL_strnlen_from s (i + 1) k)"

definition OPENSSL_strnlen :: "bytes \<Rightarrow> nat \<Rightarrow> nat" where
  "OPENSSL_strnlen s len = OPENSSL_strnlen_from s 0 len"

definition OPENSSL_tolower :: "int \<Rightarrow> int" where
  "OPENSSL_tolower c = (if 65 \<le> c \<and> c \<le> 90 then c + (97 - 65) else c)"

fun OPENSSL_strcasecmp :: "(byte \<Rightarrow> int) \<Rightarrow> bytes \<Rightarrow> bytes \<Rightarrow> int option" where
  "OPENSSL_strcasecmp sx (a # as) (b # bs) =
     (let aa = OPENSSL_tolower (sx a); bb = OPENSSL_tolower (sx b) in
      if aa < bb then Some (-1)
      else if aa > bb then Some 1
      else if aa = 0 then Some 0
      else OPENSSL_strcasecmp sx as bs)"
| "OPENSSL_strcasecmp sx as bs = None"

fun OPENSSL_strncasecmp :: "(byte \<Rightarrow> int) \<Rightarrow> bytes \<Rightarrow> bytes \<Rightarrow> nat \<Rightarrow> int option" where
  "OPENSSL_strncasecmp sx as bs 0 = Some 0"
| "OPENSSL_strncasecmp sx (a # as) (b # bs) (Suc n) =
     (let aa = OPENSSL_tolower (sx a); bb = OPENSSL_tolower (sx b) in
      if aa < bb then Some (-1)
      else if aa > bb then Some 1
      else if aa = 0 then Some 0
      else OPENSSL_strncasecmp sx as bs n)"
| "OPENSSL_strncasecmp sx as bs (Suc n) = None"

subsection \<open>Masks\<close>

text \<open>The mask of a truth value, at any width: all ones or zero.\<close>

definition truth_mask :: "bool \<Rightarrow> 'a::len word" where
  "truth_mask P = (if P then - 1 else 0)"

lemma truth_mask_simps [simp]: "truth_mask True = - 1" "truth_mask False = 0"
  by (simp_all add: truth_mask_def)

lemma bit_truth_mask [simp]: "bit (truth_mask P :: 'a::len word) n \<longleftrightarrow> P \<and> n < LENGTH('a)"
  by (cases P) simp_all

lemma ucast_truth_mask [simp]: "ucast (truth_mask P :: u64) = (truth_mask P :: byte)"
  by (rule bit_word_eqI) (auto simp: bit_simps)

lemma not_truth_mask [simp]: "NOT (truth_mask P) = truth_mask (\<not> P)"
  by (cases P) simp_all

lemma truth_mask_eq_iff [simp]: "truth_mask P = (truth_mask Q :: 'a::len word) \<longleftrightarrow> P = Q"
  by (auto simp: truth_mask_def)

lemma drop_bit_63: "drop_bit 63 (a :: u64) = of_bool (bit a 63)"
proof (rule bit_word_eqI)
  fix n
  show "bit (drop_bit 63 a) n = bit (of_bool (bit a 63) :: u64) n"
    using bit_imp_le_length [of a "63 + n"] by (cases "n = 0") (auto simp: bit_simps)
qed

lemma msb_w_eq: "constant_time_msb_w a = truth_mask (bit a 63)"
  by (simp add: constant_time_msb_w_def drop_bit_63)

lemma bit_63_iff: "bit (a :: u64) 63 \<longleftrightarrow> 9223372036854775808 \<le> unat a"
proof -
  have "unat a div 9223372036854775808 < 2"
    using unat_u64_less [of a] by (simp add: less_mult_imp_div_less)
  then have "odd (unat a div 9223372036854775808) \<longleftrightarrow> unat a \<ge> 9223372036854775808"
    by (metis One_nat_def Suc_leI div_greater_zero_iff dvd_0_right less_2_cases_iff
        not_gr_zero odd_one zero_less_numeral)
  then show ?thesis
    using bit_iff_unat [of a 63] by simp
qed

lemma unat_diff_wrap:
  "unat (a - b :: u64) = (if unat b \<le> unat a then unat a - unat b else unat a + 18446744073709551616 - unat b)"
  using unat_u64_less [of a] unat_u64_less [of b]
  by (auto simp: unat_sub_if_size word_size)

lemma lt_w_eq: "constant_time_lt_w a b = truth_mask (unat a < unat b)"
proof -
  have a: "unat a < 18446744073709551616" and b: "unat b < 18446744073709551616"
    using unat_u64_less [of a] unat_u64_less [of b] by simp_all
  have "bit (a XOR ((a XOR b) OR ((a - b) XOR a))) 63 \<longleftrightarrow>
      (if bit a 63 = bit b 63 then bit (a - b) 63 else bit b 63)"
    by (auto simp: bit_simps)
  also have "\<dots> \<longleftrightarrow> unat a < unat b"
    unfolding bit_63_iff unat_diff_wrap using a b by (auto split: if_splits)
  finally show ?thesis by (simp add: constant_time_lt_w_def msb_w_eq)
qed

lemma xor_eq_0_iff [simp]: "a XOR b = 0 \<longleftrightarrow> a = b" for a b :: "'a::len word"
  by (auto simp: bit_eq_iff bit_simps)

lemma is_zero_w_eq: "constant_time_is_zero_w a = truth_mask (a = 0)"
proof (cases "a = 0")
  case False
  then have "1 \<le> unat a" by (simp add: Suc_le_eq unat_gt_0)
  then have "unat (a - 1) = unat a - 1" using unat_diff_wrap [of a 1] by simp
  then have "\<not> bit (NOT a AND (a - 1)) 63"
    by (simp only: bit_and_iff bit_not_iff) (simp add: bit_63_iff, linarith)
  then show ?thesis using False by (simp add: constant_time_is_zero_w_def msb_w_eq)
qed (simp add: constant_time_is_zero_w_def msb_w_eq bit_not_iff)

lemma eq_w_eq: "constant_time_eq_w a b = truth_mask (a = b)"
  by (simp add: constant_time_eq_w_def is_zero_w_eq)

lemma select_w_mask: "constant_time_select_w (truth_mask P) a b = (if P then a else b)"
  by (simp add: constant_time_select_w_def value_barrier_w_def)

lemma select_8_eq: "constant_time_select_8 (truth_mask P) a b = (if P then a else b)"
  by (rule bit_word_eqI)
    (auto simp: constant_time_select_8_def constant_time_select_w_def value_barrier_w_def
      bit_simps)

lemma select_int_mask: "constant_time_select_int (truth_mask P) a b = (if P then a else b)"
  by (rule bit_word_eqI)
    (auto simp: constant_time_select_int_def select_w_mask bit_simps)

lemma eq_8_eq: "constant_time_eq_8 a b = truth_mask (a = b)"
  by (simp add: constant_time_eq_8_def eq_w_eq)

lemma lt_args_8_eq: "constant_time_lt_args_8 a b = truth_mask (unat a < unat b)"
proof -
  have "unat (ucast a - ucast b :: u64) =
      (if unat b \<le> unat a then unat a - unat b else unat a + 18446744073709551616 - unat b)"
    unfolding unat_diff_wrap by (simp add: unat_ucast_up)
  then have "bit (ucast a - ucast b :: u64) 63 \<longleftrightarrow> unat a < unat b"
    unfolding bit_63_iff using unat_byte_less [of a] unat_byte_less [of b]
    by (auto simp del: unat_byte_less)
  then show ?thesis by (simp add: constant_time_lt_args_8_def msb_w_eq)
qed

lemma unat_byte_diff:
  "unat (a - b :: byte) = (if unat b \<le> unat a then unat a - unat b else unat a + 256 - unat b)"
  using unat_byte_less [of a] unat_byte_less [of b]
  by (auto simp: unat_sub_if_size word_size simp del: unat_byte_less)

lemma in_range_8_eq:
  assumes "unat lo \<le> unat hi" "unat hi - unat lo < 255"
  shows "constant_time_in_range_8 a lo hi = truth_mask (unat lo \<le> unat a \<and> unat a \<le> unat hi)"
proof -
  have "unat (hi - lo + 1) = unat hi - unat lo + 1"
    using assms unat_byte_diff [of hi lo] by (simp add: unat_word_ariths)
  then show ?thesis
    unfolding constant_time_in_range_8_def lt_args_8_eq unat_byte_diff
    using assms unat_byte_less [of a] unat_byte_less [of hi]
    by (auto simp del: unat_byte_less)
qed

text \<open>Everything the clients rewrite with.\<close>

lemmas constant_time_eqs = lt_w_eq is_zero_w_eq eq_w_eq eq_8_eq lt_args_8_eq in_range_8_eq
  select_8_eq select_w_mask select_int_mask

text \<open>C34. The branch-free comparisons are the masks of the comparisons they replace: for all
  64-bit operands \<open>lt\<close>, \<open>ge\<close>, \<open>is_zero\<close> and \<open>eq\<close> give all ones when the comparison holds and
  zero otherwise, at both result widths, and selecting with such a mask is a conditional.\<close>

theorem constant_time_masks:
  "constant_time_lt_w a b = truth_mask (a < b) \<and> constant_time_lt_8 a b = truth_mask (a < b) \<and>
   constant_time_ge_w a b = truth_mask (a \<ge> b) \<and> constant_time_ge_8 a b = truth_mask (a \<ge> b) \<and>
   constant_time_is_zero_w a = truth_mask (a = 0) \<and>
   constant_time_is_zero_8 a = truth_mask (a = 0) \<and>
   constant_time_eq_w a b = truth_mask (a = b) \<and> constant_time_eq_8 a b = truth_mask (a = b) \<and>
   constant_time_select_w (truth_mask P) a b = (if P then a else b) \<and>
   constant_time_select_8 (truth_mask P) x y = (if P then x else y)"
  by (simp add: constant_time_eqs constant_time_lt_8_def constant_time_ge_8_def
      constant_time_ge_w_def constant_time_is_zero_8_def word_less_nat_alt word_le_nat_alt not_less)

lemma scast_u32_inject: "scast (a :: u32) = (scast b :: u64) \<longleftrightarrow> a = b"
proof
  assume "scast a = (scast b :: u64)"
  then have "ucast (scast a :: u64) = (ucast (scast b :: u64) :: u32)" by simp
  moreover have "ucast (scast c :: u64) = c" for c :: u32
    by (rule bit_word_eqI) (simp add: bit_simps)
  ultimately show "a = b" by simp
qed simp

lemma eq_int_eq: "constant_time_eq_int a b = truth_mask (a = b)"
  by (simp add: constant_time_eq_int_def eq_w_eq scast_u32_inject)

lemma eq_int_8_eq: "constant_time_eq_int_8 a b = truth_mask (a = b)"
  by (simp add: constant_time_eq_int_8_def eq_8_eq scast_u32_inject)

subsection \<open>Memory and strings\<close>

lemma or_eq_0_iff: "(x OR y = 0) \<longleftrightarrow> x = 0 \<and> y = 0" for x y :: byte
  by (auto simp: bit_eq_iff bit_simps)

lemma memcmp_fold:
  "foldl (\<lambda>x i. x OR (a ! i XOR b ! i)) z is = (0 :: byte) \<longleftrightarrow> z = 0 \<and> (\<forall>i \<in> set is. a ! i = b ! i)"
  by (induction "is" arbitrary: z) (auto simp: or_eq_0_iff)

lemma CRYPTO_memcmp_exact:
  "len \<le> length a \<Longrightarrow> len \<le> length b \<Longrightarrow> CRYPTO_memcmp a b len = 0 \<longleftrightarrow> take len a = take len b"
  unfolding CRYPTO_memcmp_def memcmp_fold by (auto simp: list_eq_iff_nth_eq)

lemma strnlen_from:
  "i + k \<le> length s \<Longrightarrow>
   OPENSSL_strnlen_from s i k = i + length (takeWhile (\<lambda>c. c \<noteq> 0) (take k (drop i s)))"
proof (induction k arbitrary: i)
  case (Suc k)
  then have "drop i s = s ! i # drop (Suc i) s" by (simp add: Cons_nth_drop_Suc)
  then show ?case using Suc by simp
qed simp

lemma strnlen_bounded:
  "len \<le> length s \<Longrightarrow> OPENSSL_strnlen s len = length (takeWhile (\<lambda>c. c \<noteq> 0) (take len s))"
  using strnlen_from [of 0 len s] by (simp add: OPENSSL_strnlen_def)

text \<open>The lower-cased contents of a C string, up to its terminator.\<close>

definition folded :: "(byte \<Rightarrow> int) \<Rightarrow> bytes \<Rightarrow> int list" where
  "folded sx s = map (OPENSSL_tolower \<circ> sx) (takeWhile (\<lambda>c. c \<noteq> 0) s)"

lemma tolower_0 [simp]: "OPENSSL_tolower c = 0 \<longleftrightarrow> c = 0"
  by (simp add: OPENSSL_tolower_def)

text \<open>For terminated strings the unbounded case-insensitive comparison always returns, and
  returns zero exactly when the lower-cased strings are equal.\<close>

theorem strcasecmp_total_exact:
  assumes "0 \<in> set a" "0 \<in> set b" "\<forall>c. sx c = 0 \<longleftrightarrow> c = 0"
  shows "\<exists>r. OPENSSL_strcasecmp sx a b = Some r \<and> (r = 0 \<longleftrightarrow> folded sx a = folded sx b)"
  using assms
proof (induction sx a b rule: OPENSSL_strcasecmp.induct)
  case (1 sx a as b bs)
  have sx0: "sx c = 0 \<longleftrightarrow> c = 0" for c using "1.prems" by blast
  let ?a = "OPENSSL_tolower (sx a)" and ?b = "OPENSSL_tolower (sx b)"
  have zero: "?a = 0 \<longleftrightarrow> a = 0" "?b = 0 \<longleftrightarrow> b = 0" by (simp_all add: sx0)
  have folded_Cons: "folded sx (c # cs) = (if c = 0 then [] else OPENSSL_tolower (sx c) # folded sx cs)"
    for c cs by (simp add: folded_def)
  show ?case
  proof (cases "?a = ?b \<and> a \<noteq> 0")
    case True
    then have "0 \<in> set as" "0 \<in> set bs" using zero "1.prems" by auto
    then show ?thesis using True zero "1.IH" [OF refl refl] "1.prems" by (simp add: folded_Cons)
  next
    case False
    then have "?a \<noteq> ?b \<or> a = 0 \<and> b = 0" using zero by metis
    then show ?thesis using zero by (cases "?a < ?b"; cases "?b < ?a") (auto simp: folded_Cons)
  qed
qed simp_all

theorem strcasecmp_total_exact_witness:
  "\<exists>r. OPENSSL_strcasecmp uint [83, 72, 65, 0] [115, 104, 97, 0] = Some r \<and>
     (r = 0 \<longleftrightarrow> folded uint [83, 72, 65, 0] = folded uint [115, 104, 97, 0])"
  by (rule strcasecmp_total_exact) (auto simp: unsigned_eq_0_iff)

end
