(* ===== verification/Lhash.thy ===== *)
theory Lhash
  imports ConstantTime "HOL-Library.Multiset"
begin

section \<open>The hash table (crypto/lhash/lhash.c)\<close>

text \<open>
  Chained buckets that double and halve. A pointer to a link (\<open>LHASH_ITEM **\<close>) is the bucket and
  the position in its chain; it points to \<open>NULL\<close> when the position is the end. Comparison and
  hash functions are parameters, and so is the outcome of each allocation. The table is shown to be
  a finite map on the classes of the comparison function.
\<close>

unbundle bit_operations_syntax

subsection \<open>State\<close>

record 'd lhash_item =
  item_data :: 'd
  item_hash :: u32

record 'd lhash =
  num_items :: nat
  buckets :: "'d lhash_item list list"
  num_buckets :: nat
  callback_depth :: nat

definition kMinNumBuckets :: nat where "kMinNumBuckets = 16"

definition kMaxAverageChainLength :: nat where "kMaxAverageChainLength = 2"

definition kMinAverageChainLength :: nat where "kMinAverageChainLength = 1"

definition UINT_MAX :: nat where "UINT_MAX = 4294967295"

subsection \<open>Operations\<close>

definition lh_new :: "bool \<Rightarrow> bool \<Rightarrow> 'd lhash option" where
  "lh_new table_ok buckets_ok =
     (if \<not> table_ok \<or> \<not> buckets_ok then None
      else Some \<lparr> num_items = 0, buckets = replicate kMinNumBuckets [], num_buckets = kMinNumBuckets,
                  callback_depth = 0 \<rparr>)"

definition lh_num_items :: "'d lhash \<Rightarrow> nat" where
  "lh_num_items lh = num_items lh"

text \<open>The position of the first item of a chain that the predicate accepts, or the chain's end.\<close>

fun chain_find :: "('d \<Rightarrow> bool) \<Rightarrow> 'd lhash_item list \<Rightarrow> nat" where
  "chain_find p [] = 0"
| "chain_find p (cur # rest) = (if p (item_data cur) then 0 else Suc (chain_find p rest))"

text \<open>The hash, the bucket and the position of the link.\<close>

definition get_next_ptr_and_hash ::
  "('d \<Rightarrow> u32) \<Rightarrow> ('d \<Rightarrow> 'd \<Rightarrow> int) \<Rightarrow> 'd lhash \<Rightarrow> 'd \<Rightarrow> u32 \<times> nat \<times> nat" where
  "get_next_ptr_and_hash hash cmp lh d =
     (let h = hash d; b = unat h mod num_buckets lh in
      (h, b, chain_find (\<lambda>x. cmp x d = 0) (buckets lh ! b)))"

definition get_next_ptr_by_key :: "'d lhash \<Rightarrow> 'k \<Rightarrow> u32 \<Rightarrow> ('k \<Rightarrow> 'd \<Rightarrow> int) \<Rightarrow> nat \<times> nat" where
  "get_next_ptr_by_key lh k key_hash cmp_key =
     (let b = unat key_hash mod num_buckets lh in
      (b, chain_find (\<lambda>x. cmp_key k x = 0) (buckets lh ! b)))"

text \<open>\<open>*ptr == NULL ? NULL : (*ptr)->data\<close>.\<close>

definition link_data :: "'d lhash \<Rightarrow> nat \<Rightarrow> nat \<Rightarrow> 'd option" where
  "link_data lh b n =
     (if n = length (buckets lh ! b) then None else Some (item_data (buckets lh ! b ! n)))"

definition lh_retrieve :: "('d \<Rightarrow> u32) \<Rightarrow> ('d \<Rightarrow> 'd \<Rightarrow> int) \<Rightarrow> 'd lhash \<Rightarrow> 'd \<Rightarrow> 'd option" where
  "lh_retrieve hash cmp lh d =
     (case get_next_ptr_and_hash hash cmp lh d of (_, b, n) \<Rightarrow> link_data lh b n)"

definition lh_retrieve_key :: "'d lhash \<Rightarrow> 'k \<Rightarrow> u32 \<Rightarrow> ('k \<Rightarrow> 'd \<Rightarrow> int) \<Rightarrow> 'd option" where
  "lh_retrieve_key lh k key_hash cmp_key =
     (case get_next_ptr_by_key lh k key_hash cmp_key of (b, n) \<Rightarrow> link_data lh b n)"

text \<open>One item moved to the head of its chain in the new array.\<close>

definition rebucket_item :: "nat \<Rightarrow> 'd lhash_item list list \<Rightarrow> 'd lhash_item \<Rightarrow> 'd lhash_item list list" where
  "rebucket_item new_num_buckets new_buckets cur =
     (let new_bucket = unat (item_hash cur) mod new_num_buckets in
      new_buckets[new_bucket := cur # new_buckets ! new_bucket])"

definition lh_rebucket :: "bool \<Rightarrow> 'd lhash \<Rightarrow> nat \<Rightarrow> 'd lhash" where
  "lh_rebucket buckets_ok lh new_num_buckets =
     (let alloc_size = 8 * new_num_buckets mod SIZE_LIMIT in
      if alloc_size div 8 \<noteq> new_num_buckets \<or> \<not> buckets_ok then lh
      else lh\<lparr>num_buckets := new_num_buckets,
              buckets := foldl (foldl (rebucket_item new_num_buckets))
                (replicate new_num_buckets []) (buckets lh)\<rparr>)"

text \<open>\<open>None\<close> is the failed assertion.\<close>

definition lh_maybe_resize :: "bool \<Rightarrow> 'd lhash \<Rightarrow> 'd lhash option" where
  "lh_maybe_resize buckets_ok lh =
     (if callback_depth lh > 0 then Some lh
      else if \<not> num_buckets lh \<ge> kMinNumBuckets then None
      else
        let avg_chain_length = num_items lh div num_buckets lh in
        if avg_chain_length > kMaxAverageChainLength then
          (let new_num_buckets = num_buckets lh * 2 mod SIZE_LIMIT in
           Some (if new_num_buckets > num_buckets lh then lh_rebucket buckets_ok lh new_num_buckets else lh))
        else if avg_chain_length < kMinAverageChainLength \<and> num_buckets lh > kMinNumBuckets then
          (let new_num_buckets = num_buckets lh div 2;
               new_num_buckets = (if new_num_buckets < kMinNumBuckets then kMinNumBuckets else new_num_buckets)
           in Some (lh_rebucket buckets_ok lh new_num_buckets))
        else Some lh)"

text \<open>The return value, \<open>*old_data\<close> and the table.\<close>

definition lh_insert ::
  "('d \<Rightarrow> u32) \<Rightarrow> ('d \<Rightarrow> 'd \<Rightarrow> int) \<Rightarrow> bool \<Rightarrow> bool \<Rightarrow> 'd lhash \<Rightarrow> 'd \<Rightarrow> (bool \<times> 'd option \<times> 'd lhash) option" where
  "lh_insert hash cmp item_ok buckets_ok lh d =
     (case get_next_ptr_and_hash hash cmp lh d of (h, b, n) \<Rightarrow>
        let chain = buckets lh ! b in
        if n \<noteq> length chain then
          Some (True, link_data lh b n,
                lh\<lparr>buckets := (buckets lh)[b := chain[n := (chain ! n)\<lparr>item_data := d\<rparr>]]\<rparr>)
        else if \<not> item_ok then Some (False, None, lh)
        else
          let item = \<lparr> item_data = d, item_hash = h \<rparr>;
              lh = lh\<lparr>buckets := (buckets lh)[b := chain @ [item]], num_items := num_items lh + 1\<rparr>
          in map_option (\<lambda>lh. (True, None, lh)) (lh_maybe_resize buckets_ok lh))"

definition lh_delete ::
  "('d \<Rightarrow> u32) \<Rightarrow> ('d \<Rightarrow> 'd \<Rightarrow> int) \<Rightarrow> bool \<Rightarrow> 'd lhash \<Rightarrow> 'd \<Rightarrow> ('d option \<times> 'd lhash) option" where
  "lh_delete hash cmp buckets_ok lh d =
     (case get_next_ptr_and_hash hash cmp lh d of (_, b, n) \<Rightarrow>
        let chain = buckets lh ! b in
        if n = length chain then Some (None, lh)
        else
          let ret = item_data (chain ! n);
              lh = lh\<lparr>buckets := (buckets lh)[b := take n chain @ drop (n + 1) chain],
                      num_items := num_items lh - 1\<rparr>
          in map_option (\<lambda>lh. (Some ret, lh)) (lh_maybe_resize buckets_ok lh))"

text \<open>
  The iteration, for a callback that works on a state of its own (one that changes the table is
  outside the model). The counter saturates.
\<close>

definition lh_doall_arg :: "bool \<Rightarrow> 'd lhash \<Rightarrow> ('d \<Rightarrow> 's \<Rightarrow> 's) \<Rightarrow> 's \<Rightarrow> ('s \<times> 'd lhash) option" where
  "lh_doall_arg buckets_ok lh func arg =
     (let lh = (if callback_depth lh < UINT_MAX then lh\<lparr>callback_depth := callback_depth lh + 1\<rparr> else lh);
          arg = foldl (foldl (\<lambda>s cur. func (item_data cur) s)) arg (buckets lh);
          lh = (if callback_depth lh < UINT_MAX then lh\<lparr>callback_depth := callback_depth lh - 1\<rparr> else lh)
      in map_option (Pair arg) (lh_maybe_resize buckets_ok lh))"

definition lh_strhash :: "bytes option \<Rightarrow> u32" where
  "lh_strhash c = (case c of None \<Rightarrow> 0 | Some s \<Rightarrow> OPENSSL_hash32 s (length (takeWhile (\<lambda>x. x \<noteq> 0) s)))"


subsection \<open>A finite map\<close>

text \<open>
  The interface of a finite map whose values carry their keys, as the users of the table see it:
  an invariant, the map it stands for, and what lookup, insertion and deletion do to it. Insertion
  may fail and then changes nothing.
\<close>

locale keyed_map =
  fixes key :: "'d \<Rightarrow> 'k" and inv :: "'t \<Rightarrow> bool" and abs :: "'t \<Rightarrow> 'k \<Rightarrow> 'd option"
    and lookup :: "'t \<Rightarrow> 'd \<Rightarrow> 'd option"
    and insert :: "'t \<Rightarrow> 'd \<Rightarrow> (bool \<times> 'd option \<times> 't) option"
    and delete :: "'t \<Rightarrow> 'd \<Rightarrow> ('d option \<times> 't) option"
  assumes lookup_law: "inv t \<Longrightarrow> lookup t d = abs t (key d)"
    and insert_law: "inv t \<Longrightarrow> \<exists>stored t'. insert t d = Some (stored, abs t (key d), t') \<and> inv t' \<and>
      abs t' = (if stored then (abs t)(key d \<mapsto> d) else abs t) \<and> (stored \<or> abs t (key d) = None)"
    and delete_law: "inv t \<Longrightarrow> \<exists>t'. delete t d = Some (abs t (key d), t') \<and> inv t' \<and>
      abs t' = (abs t)(key d := None)"
begin

lemma lookup_after_insert:
  assumes "inv t" "insert t d = Some (True, old, t')"
  shows "lookup t' e = (if key e = key d then Some d else lookup t e)"
  using assms insert_law [OF assms(1), of d] by (auto simp: lookup_law)

lemma lookup_after_delete:
  assumes "inv t" "delete t d = Some (old, t')"
  shows "lookup t' e = (if key e = key d then None else lookup t e)"
  using assms delete_law [OF assms(1), of d] by (auto simp: lookup_law)

lemma insert_again:
  assumes "inv t" "insert t d = Some (True, old, t')" "key e = key d"
  shows "\<exists>t''. insert t' e = Some (True, Some d, t'')"
  using assms insert_law [OF assms(1), of d] insert_law [of t' e] by auto

end

text \<open>All items, chain by chain, and the map they stand for.\<close>

definition all_items :: "'d lhash \<Rightarrow> 'd lhash_item list" where
  "all_items lh = concat (buckets lh)"

definition lh_map :: "('d \<Rightarrow> 'k) \<Rightarrow> 'd lhash \<Rightarrow> 'k \<Rightarrow> 'd option" where
  "lh_map key lh = map_of (map (\<lambda>i. (key (item_data i), item_data i)) (all_items lh))"

text \<open>
  The invariant: every item carries its hash and lies in the bucket the hash selects, no two items
  are equal, the count is right, and there are at least the initial number of buckets.
\<close>

definition in_place :: "('d \<Rightarrow> u32) \<Rightarrow> nat \<Rightarrow> nat \<Rightarrow> 'd lhash_item \<Rightarrow> bool" where
  "in_place hash n b i \<longleftrightarrow> item_hash i = hash (item_data i) \<and> unat (item_hash i) mod n = b"

definition lh_inv :: "('d \<Rightarrow> 'k) \<Rightarrow> ('d \<Rightarrow> u32) \<Rightarrow> 'd lhash \<Rightarrow> bool" where
  "lh_inv key hash lh \<longleftrightarrow> length (buckets lh) = num_buckets lh \<and> kMinNumBuckets \<le> num_buckets lh \<and>
     (\<forall>b < num_buckets lh. \<forall>i \<in> set (buckets lh ! b). in_place hash (num_buckets lh) b i) \<and>
     distinct (map (key \<circ> item_data) (all_items lh)) \<and> num_items lh = length (all_items lh)"

subsection \<open>Chains\<close>

lemma chain_find_le: "chain_find p c \<le> length c"
  by (induction c) auto

lemma chain_find_less: "chain_find p c < length c \<Longrightarrow> p (item_data (c ! chain_find p c))"
  by (induction c) auto

lemma chain_find_none: "chain_find p c = length c \<longleftrightarrow> (\<forall>i \<in> set c. \<not> p (item_data i))"
  using chain_find_le by (induction c) (auto simp: le_Suc_eq)

lemma mset_concat_update:
  "b < length xs \<Longrightarrow> mset (concat (xs[b := c])) + mset (xs ! b) = mset (concat xs) + mset c"
proof (induction xs arbitrary: b)
  case (Cons x xs)
  then show ?case by (cases b) (auto simp: add.assoc add.commute add.left_commute)
qed simp

lemma map_of_mset:
  "mset xs = mset ys \<Longrightarrow> distinct (map fst xs) \<Longrightarrow> map_of xs = map_of ys"
proof -
  assume m: "mset xs = mset ys" and d: "distinct (map fst xs)"
  have "distinct (map fst ys)"
    using d mset_eq_imp_distinct_iff [of "map fst xs" "map fst ys"] m by simp
  then show "map_of xs = map_of ys"
    using d mset_eq_setD [OF m] by (intro map_of_eqI) (force, metis map_of_eq_Some_iff option.exhaust)
qed

lemma lh_map_cong:
  assumes "mset (all_items lh) = mset (all_items lh')" "distinct (map (key \<circ> item_data) (all_items lh))"
  shows "lh_map key lh = lh_map key lh'"
  unfolding lh_map_def
  by (rule map_of_mset) (use assms in \<open>simp_all add: o_def\<close>)

text \<open>Rebucketing permutes the items and puts each in its place.\<close>

lemma rebucket_items:
  assumes "0 < n" "length bs = n"
    "\<forall>b < n. \<forall>i \<in> set (bs ! b). in_place hash n b i" "\<forall>i \<in> set is. item_hash i = hash (item_data i)"
  shows "length (foldl (rebucket_item n) bs is) = n \<and>
    (\<forall>b < n. \<forall>i \<in> set (foldl (rebucket_item n) bs is ! b). in_place hash n b i) \<and>
    mset (concat (foldl (rebucket_item n) bs is)) = mset (concat bs) + mset is"
  using assms
proof (induction "is" arbitrary: bs)
  case (Cons i "is")
  let ?b = "unat (item_hash i) mod n"
  have b: "?b < length bs" using Cons.prems by simp
  have len: "length (rebucket_item n bs i) = n" using Cons.prems by (simp add: rebucket_item_def Let_def)
  moreover have "\<forall>b < n. \<forall>j \<in> set (rebucket_item n bs i ! b). in_place hash n b j"
  proof -
    have "in_place hash n ?b i" using Cons.prems by (simp add: in_place_def)
    then show ?thesis
      using Cons.prems(1-3) by (auto simp: rebucket_item_def Let_def nth_list_update)
  qed
  moreover have "mset (concat (rebucket_item n bs i)) = add_mset i (mset (concat bs))"
    using mset_concat_update [OF b, of "i # bs ! ?b"] by (simp add: rebucket_item_def Let_def)
  ultimately show ?case using Cons.IH [of "rebucket_item n bs i"] Cons.prems by auto
qed simp

lemma rebucket_all:
  assumes "0 < n" "length bs = n"
    "\<forall>b < n. \<forall>i \<in> set (bs ! b). in_place hash n b i" "\<forall>c \<in> set cs. \<forall>i \<in> set c. item_hash i = hash (item_data i)"
  shows "length (foldl (foldl (rebucket_item n)) bs cs) = n \<and>
    (\<forall>b < n. \<forall>i \<in> set (foldl (foldl (rebucket_item n)) bs cs ! b). in_place hash n b i) \<and>
    mset (concat (foldl (foldl (rebucket_item n)) bs cs)) = mset (concat bs) + mset (concat cs)"
  using assms
proof (induction cs arbitrary: bs)
  case (Cons c cs)
  note one = rebucket_items [OF Cons.prems(1-3), of c]
  show ?case
    using one Cons.prems Cons.IH [of "foldl (rebucket_item n) bs c"] by (auto simp: add.assoc)
qed simp

lemma rebucket_inv:
  assumes inv: "lh_inv key hash lh" and n: "kMinNumBuckets \<le> n"
  shows "lh_inv key hash (lh_rebucket ok lh n) \<and> lh_map key (lh_rebucket ok lh n) = lh_map key lh \<and>
    mset (all_items (lh_rebucket ok lh n)) = mset (all_items lh)"
proof (cases "8 * n mod SIZE_LIMIT div 8 \<noteq> n \<or> \<not> ok")
  case False
  have n0: "0 < n" using n by (simp add: kMinNumBuckets_def)
  have placed: "\<forall>c \<in> set (buckets lh). \<forall>i \<in> set c. item_hash i = hash (item_data i)"
    using inv unfolding lh_inv_def in_place_def by (metis in_set_conv_nth)
  let ?lh = "lh_rebucket ok lh n"
  have eq: "?lh = lh\<lparr>num_buckets := n,
      buckets := foldl (foldl (rebucket_item n)) (replicate n []) (buckets lh)\<rparr>"
    using False by (simp add: lh_rebucket_def Let_def)
  note all = rebucket_all [OF n0, of "replicate n []" hash "buckets lh"]
  have perm: "mset (all_items lh) = mset (all_items ?lh)"
    using all placed by (simp add: eq all_items_def)
  have "distinct (map (key \<circ> item_data) (all_items ?lh))"
    using inv perm mset_eq_imp_distinct_iff [of "map (key \<circ> item_data) (all_items lh)"
        "map (key \<circ> item_data) (all_items ?lh)"] by (simp add: lh_inv_def)
  moreover have "length (all_items ?lh) = length (all_items lh)" using mset_eq_length [OF perm] by simp
  ultimately have "lh_inv key hash ?lh"
    using all placed inv n unfolding lh_inv_def by (simp add: eq all_items_def)
  then show ?thesis using perm lh_map_cong [OF perm, of key] inv by (simp add: lh_inv_def)
qed (use inv in \<open>simp add: lh_rebucket_def Let_def\<close>)


lemma maybe_resize_inv:
  assumes inv: "lh_inv key hash lh"
  shows "\<exists>lh'. lh_maybe_resize ok lh = Some lh' \<and> lh_inv key hash lh' \<and> lh_map key lh' = lh_map key lh \<and>
    mset (all_items lh') = mset (all_items lh)"
proof -
  have min: "kMinNumBuckets \<le> num_buckets lh" using inv by (simp add: lh_inv_def)
  have "lh_maybe_resize ok lh = Some lh \<or> (\<exists>n \<ge> kMinNumBuckets. lh_maybe_resize ok lh = Some (lh_rebucket ok lh n))"
    (is "_ \<or> ?resized")
  proof -
    let ?avg = "num_items lh div num_buckets lh"
    let ?up = "num_buckets lh * 2 mod SIZE_LIMIT"
    let ?down = "if num_buckets lh div 2 < kMinNumBuckets then kMinNumBuckets else num_buckets lh div 2"
    consider "callback_depth lh > 0" | "callback_depth lh = 0" "?avg > kMaxAverageChainLength" "?up > num_buckets lh"
      | "callback_depth lh = 0" "?avg > kMaxAverageChainLength" "\<not> ?up > num_buckets lh"
      | "callback_depth lh = 0" "\<not> ?avg > kMaxAverageChainLength"
          "?avg < kMinAverageChainLength \<and> num_buckets lh > kMinNumBuckets"
      | "callback_depth lh = 0" "\<not> ?avg > kMaxAverageChainLength"
          "\<not> (?avg < kMinAverageChainLength \<and> num_buckets lh > kMinNumBuckets)" by blast
    then show ?thesis
    proof cases
      case 2
      then have "lh_maybe_resize ok lh = Some (lh_rebucket ok lh ?up)"
        using min by (simp add: lh_maybe_resize_def Let_def)
      then show ?thesis using 2(3) min by (intro disjI2 exI [of _ ?up]) simp
    next
      case 4
      then have "lh_maybe_resize ok lh = Some (lh_rebucket ok lh ?down)"
        unfolding lh_maybe_resize_def Let_def using min by simp
      then show ?thesis by (intro disjI2 exI [of _ ?down]) simp
    qed (use min in \<open>auto simp: lh_maybe_resize_def Let_def\<close>)
  qed
  then show ?thesis using inv rebucket_inv [OF inv] by (elim disjE exE conjE) auto
qed

subsection \<open>The operations on the map\<close>

text \<open>What the table relies on: the comparison decides equality of keys, and equal keys have equal
  hashes.\<close>

locale lhash_functions =
  fixes key :: "'d \<Rightarrow> 'k" and hash :: "'d \<Rightarrow> u32" and cmp :: "'d \<Rightarrow> 'd \<Rightarrow> int"
  assumes cmp_zero: "cmp a b = 0 \<longleftrightarrow> key a = key b"
    and hash_key: "key a = key b \<Longrightarrow> hash a = hash b"
begin

lemma map_Some_iff:
  assumes "lh_inv key hash lh"
  shows "lh_map key lh k = Some d \<longleftrightarrow> key d = k \<and> (\<exists>i \<in> set (all_items lh). item_data i = d)"
proof -
  have "distinct (map fst (map (\<lambda>i. (key (item_data i), item_data i)) (all_items lh)))"
    using assms by (simp add: lh_inv_def o_def)
  then show ?thesis unfolding lh_map_def by (subst map_of_eq_Some_iff) auto
qed

lemma map_None_iff: "lh_map key lh k = None \<longleftrightarrow> (\<forall>i \<in> set (all_items lh). key (item_data i) \<noteq> k)"
  by (auto simp: lh_map_def map_of_eq_None_iff image_iff)

lemma bucket_less: "lh_inv key hash lh \<Longrightarrow> unat (h :: u32) mod num_buckets lh < length (buckets lh)"
  by (simp add: lh_inv_def kMinNumBuckets_def)

text \<open>An item equal to \<open>d\<close> can only be in the bucket of \<open>d\<close>.\<close>

lemma item_in_bucket:
  assumes inv: "lh_inv key hash lh" and i: "i \<in> set (all_items lh)" "key (item_data i) = key d"
  shows "i \<in> set (buckets lh ! (unat (hash d) mod num_buckets lh))"
proof -
  obtain b where b: "b < num_buckets lh" "i \<in> set (buckets lh ! b)"
    using i(1) inv unfolding all_items_def lh_inv_def by (metis in_set_conv_nth set_concat UN_iff)
  then have "in_place hash (num_buckets lh) b i" using inv by (auto simp: lh_inv_def)
  then have "b = unat (hash d) mod num_buckets lh"
    using hash_key [OF i(2)] unfolding in_place_def by metis
  then show ?thesis using b by simp
qed

lemma find_link:
  assumes inv: "lh_inv key hash lh"
  obtains b n where "get_next_ptr_and_hash hash cmp lh d = (hash d, b, n)"
    "b < length (buckets lh)" "b = unat (hash d) mod num_buckets lh" "n \<le> length (buckets lh ! b)"
    "link_data lh b n = lh_map key lh (key d)"
    "n < length (buckets lh ! b) \<longrightarrow> key (item_data (buckets lh ! b ! n)) = key d"
proof -
  define b where "b = unat (hash d) mod num_buckets lh"
  define n where "n = chain_find (\<lambda>x. cmp x d = 0) (buckets lh ! b)"
  have b: "b < length (buckets lh)" using bucket_less [OF inv] by (simp add: b_def)
  have n: "n \<le> length (buckets lh ! b)" by (simp add: n_def chain_find_le)
  have found: "key (item_data (buckets lh ! b ! n)) = key d" if "n < length (buckets lh ! b)"
  proof -
    have "cmp (item_data (buckets lh ! b ! n)) d = 0"
      using chain_find_less [of "\<lambda>x. cmp x d = 0" "buckets lh ! b"] that unfolding n_def by simp
    then show ?thesis by (simp only: cmp_zero)
  qed
  have "link_data lh b n = lh_map key lh (key d)"
  proof (cases "n = length (buckets lh ! b)")
    case True
    then have "\<forall>i \<in> set (buckets lh ! b). key (item_data i) \<noteq> key d"
      unfolding n_def chain_find_none by (simp add: cmp_zero)
    then have "lh_map key lh (key d) = None"
      unfolding map_None_iff using item_in_bucket [OF inv] b_def by metis
    then show ?thesis using True by (simp add: link_data_def)
  next
    case False
    then have less: "n < length (buckets lh ! b)" using n by simp
    then have "buckets lh ! b ! n \<in> set (all_items lh)"
      using b by (auto simp: all_items_def intro!: bexI [of _ "buckets lh ! b"])
    then have "lh_map key lh (key d) = Some (item_data (buckets lh ! b ! n))"
      using found [OF less] map_Some_iff [OF inv] by blast
    then show ?thesis using False by (simp add: link_data_def)
  qed
  moreover have "get_next_ptr_and_hash hash cmp lh d = (hash d, b, n)"
    unfolding get_next_ptr_and_hash_def Let_def b_def [symmetric] n_def [symmetric] ..
  ultimately show ?thesis using that b n found b_def by blast
qed

lemma retrieve_correct: "lh_inv key hash lh \<Longrightarrow> lh_retrieve hash cmp lh d = lh_map key lh (key d)"
  using find_link [of lh d] by (metis (no_types, lifting) lh_retrieve_def prod.case)


text \<open>
  Every change is a splice of one chain: the \<open>m\<close> items from position \<open>n\<close> on become \<open>new\<close>.
\<close>

lemma concat_splice:
  assumes "b < length bs" "n \<le> length (bs ! b)"
  shows "concat (bs[b := take n (bs ! b) @ new @ drop m (bs ! b)]) =
      (concat (take b bs) @ take n (bs ! b)) @ new @ (drop m (bs ! b) @ concat (drop (Suc b) bs))"
    and "concat bs = (concat (take b bs) @ take n (bs ! b)) @ (drop n (bs ! b) @ concat (drop (Suc b) bs))"
proof -
  show "concat (bs[b := take n (bs ! b) @ new @ drop m (bs ! b)]) =
      (concat (take b bs) @ take n (bs ! b)) @ new @ (drop m (bs ! b) @ concat (drop (Suc b) bs))"
    using assms by (simp add: upd_conv_take_nth_drop)
  have "concat bs = concat (take b bs @ bs ! b # drop (Suc b) bs)"
    using assms by (simp add: id_take_nth_drop [symmetric])
  also have "\<dots> = concat (take b bs) @ (take n (bs ! b) @ drop n (bs ! b)) @ concat (drop (Suc b) bs)"
    by simp
  finally show "concat bs = (concat (take b bs) @ take n (bs ! b)) @ (drop n (bs ! b) @ concat (drop (Suc b) bs))"
    by (simp only: append_assoc)
qed

lemma splice_inv:
  assumes inv: "lh_inv key hash lh" and b: "b < length (buckets lh)" "n \<le> length (buckets lh ! b)"
    and new: "\<forall>i \<in> set new. in_place hash (num_buckets lh) b i"
    and dist: "distinct (map (key \<circ> item_data)
      (concat ((buckets lh)[b := take n (buckets lh ! b) @ new @ drop m (buckets lh ! b)])))"
    and k: "k = length (concat ((buckets lh)[b := take n (buckets lh ! b) @ new @ drop m (buckets lh ! b)]))"
  shows "lh_inv key hash
    (lh\<lparr>buckets := (buckets lh)[b := take n (buckets lh ! b) @ new @ drop m (buckets lh ! b)], num_items := k\<rparr>)"
proof -
  have placed: "\<forall>i \<in> set (buckets lh ! b). in_place hash (num_buckets lh) b i"
    using inv b(1) by (simp add: lh_inv_def)
  have "\<forall>i \<in> set (take n (buckets lh ! b) @ new @ drop m (buckets lh ! b)). in_place hash (num_buckets lh) b i"
    using placed new by (auto dest: in_set_takeD in_set_dropD)
  then have "\<forall>a < num_buckets lh. \<forall>i \<in> set ((buckets lh)[b := take n (buckets lh ! b) @ new @ drop m (buckets lh ! b)] ! a).
      in_place hash (num_buckets lh) a i"
    using inv b(1) by (simp add: lh_inv_def nth_list_update del: set_append)
  then show ?thesis
    using inv dist k unfolding lh_inv_def all_items_def by simp
qed

abbreviation pairs :: "'d lhash_item list \<Rightarrow> ('k \<times> 'd) list" where
  "pairs \<equiv> map (\<lambda>i. (key (item_data i), item_data i))"

lemma map_of_insert_mid:
  "k \<notin> fst ` set xs \<Longrightarrow> map_of (xs @ (k, v) # ys) = (map_of (xs @ ys))(k \<mapsto> v)"
  by (induction xs) auto

lemma map_of_delete_mid:
  "distinct (map fst (xs @ (k, v) # ys)) \<Longrightarrow> map_of (xs @ ys) = (map_of (xs @ (k, v) # ys))(k := None)"
  by (induction xs) (auto simp: fun_eq_iff map_of_eq_None_iff)

lemma insert_correct:
  assumes inv: "lh_inv key hash lh"
  shows "\<exists>stored lh'. lh_insert hash cmp item_ok buckets_ok lh d = Some (stored, lh_map key lh (key d), lh') \<and>
    lh_inv key hash lh' \<and>
    lh_map key lh' = (if stored then (lh_map key lh)(key d \<mapsto> d) else lh_map key lh) \<and>
    (stored \<longleftrightarrow> lh_map key lh (key d) \<noteq> None \<or> item_ok)"
proof -
  obtain b n where get: "get_next_ptr_and_hash hash cmp lh d = (hash d, b, n)"
      and b: "b < length (buckets lh)" "b = unat (hash d) mod num_buckets lh" "n \<le> length (buckets lh ! b)"
      and link: "link_data lh b n = lh_map key lh (key d)"
      and found: "n < length (buckets lh ! b) \<longrightarrow> key (item_data (buckets lh ! b ! n)) = key d"
    using find_link [OF inv] by blast
  let ?c = "buckets lh ! b"
  define P where "P = concat (take b (buckets lh)) @ take n ?c"
  have dist: "distinct (map (key \<circ> item_data) (concat (buckets lh)))" and num: "num_items lh = length (concat (buckets lh))"
    using inv by (simp_all add: lh_inv_def all_items_def)
  show ?thesis
  proof (cases "n = length ?c")
    case True
    then have none: "lh_map key lh (key d) = None" using link by (simp add: link_data_def)
    show ?thesis
    proof (cases item_ok)
      case item: True
      define i where "i = \<lparr> item_data = d, item_hash = hash d \<rparr>"
      define lh1 where "lh1 = lh\<lparr>buckets := (buckets lh)[b := take n ?c @ [i] @ drop n ?c], num_items := num_items lh + 1\<rparr>"
      define Q where "Q = drop n ?c @ concat (drop (Suc b) (buckets lh))"
      note cs = concat_splice(1) [OF b(1,3), of "[i]" n, folded P_def Q_def]
        concat_splice(2) [OF b(1,3), folded P_def Q_def]
      have items: "all_items lh1 = P @ [i] @ Q" "all_items lh = P @ Q"
        unfolding lh1_def all_items_def lhash.simps lhash.update_convs using cs by simp_all
      have no_key: "key d \<notin> (key \<circ> item_data) ` set (P @ Q)"
        using none unfolding map_None_iff items by auto
      have "distinct (map (key \<circ> item_data) (P @ [i] @ Q))"
        using dist no_key unfolding cs(2) by (auto simp: i_def)
      moreover have "num_items lh + 1 = length (P @ [i] @ Q)"
        using num unfolding cs(2) by simp
      ultimately have inv1: "lh_inv key hash lh1"
        unfolding lh1_def
        by (intro splice_inv [OF inv b(1,3)]) (simp_all only: cs, simp add: in_place_def i_def b(2))
      have "key d \<notin> fst ` set (pairs P)" using no_key by (auto simp: image_image)
      from map_of_insert_mid [OF this, of d "pairs Q"]
      have "lh_map key lh1 = (lh_map key lh)(key d \<mapsto> d)"
        unfolding lh_map_def items by (simp add: i_def)
      moreover have "lh_insert hash cmp item_ok buckets_ok lh d =
          map_option (\<lambda>lh. (True, None, lh)) (lh_maybe_resize buckets_ok lh1)"
        using True item by (simp add: lh_insert_def get Let_def lh1_def i_def)
      ultimately show ?thesis
        using maybe_resize_inv [OF inv1, of buckets_ok] none item by auto
    next
      case False
      then show ?thesis
        using True inv none by (intro exI [of _ False]) (simp add: lh_insert_def get Let_def)
    qed
  next
    case False
    then have n: "n < length ?c" using b(3) by simp
    define i where "i = (?c ! n)\<lparr>item_data := d\<rparr>"
    define lh1 where "lh1 = lh\<lparr>buckets := (buckets lh)[b := take n ?c @ [i] @ drop (Suc n) ?c]\<rparr>"
    define Q where "Q = drop (Suc n) ?c @ concat (drop (Suc b) (buckets lh))"
    note cs = concat_splice(1) [OF b(1,3), of "[i]" "Suc n", folded P_def Q_def]
    have whole: "concat (buckets lh) = P @ [?c ! n] @ Q"
      using concat_splice(2) [OF b(1,3), folded P_def] n
      by (simp add: Q_def Cons_nth_drop_Suc [symmetric])
    have items: "all_items lh1 = P @ [i] @ Q" "all_items lh = P @ [?c ! n] @ Q"
      unfolding lh1_def all_items_def using cs whole by simp_all
    have key: "key (item_data (?c ! n)) = key d" using found n by simp
    have "distinct (map (key \<circ> item_data) (P @ [i] @ Q))"
      using dist key unfolding whole by (simp add: i_def)
    moreover have "num_items lh = length (P @ [i] @ Q)" using num unfolding whole by simp
    moreover have "in_place hash (num_buckets lh) b i"
    proof -
      have "in_place hash (num_buckets lh) b (?c ! n)" using inv b(1) n by (simp add: lh_inv_def)
      then show ?thesis using hash_key [OF key] unfolding in_place_def i_def by (simp, metis)
    qed
    ultimately have "lh_inv key hash (lh\<lparr>buckets := (buckets lh)[b := take n ?c @ [i] @ drop (Suc n) ?c],
        num_items := num_items lh\<rparr>)"
      by (intro splice_inv [OF inv b(1,3)]) (simp_all only: cs, simp)
    then have inv1: "lh_inv key hash lh1" by (simp add: lh1_def)
    have "key d \<notin> fst ` set (pairs P)" using dist key unfolding whole by (auto simp: image_image)
    from map_of_insert_mid [OF this, of d "pairs Q"] map_of_insert_mid [OF this, of "item_data (?c ! n)" "pairs Q"]
    have "lh_map key lh1 = (lh_map key lh)(key d \<mapsto> d)"
      unfolding lh_map_def items by (simp add: i_def key)
    moreover have "lh_insert hash cmp item_ok buckets_ok lh d = Some (True, lh_map key lh (key d), lh1)"
      using False link n by (simp add: lh_insert_def get Let_def lh1_def i_def upd_conv_take_nth_drop)
    moreover have "lh_map key lh (key d) \<noteq> None" using link [symmetric] False by (simp add: link_data_def)
    ultimately show ?thesis using inv1 by auto
  qed
qed


lemma delete_correct:
  assumes inv: "lh_inv key hash lh"
  shows "\<exists>lh'. lh_delete hash cmp buckets_ok lh d = Some (lh_map key lh (key d), lh') \<and>
    lh_inv key hash lh' \<and> lh_map key lh' = (lh_map key lh)(key d := None)"
proof -
  obtain b n where get: "get_next_ptr_and_hash hash cmp lh d = (hash d, b, n)"
      and b: "b < length (buckets lh)" "n \<le> length (buckets lh ! b)"
      and link: "link_data lh b n = lh_map key lh (key d)"
      and found: "n < length (buckets lh ! b) \<longrightarrow> key (item_data (buckets lh ! b ! n)) = key d"
    using find_link [OF inv] by blast
  let ?c = "buckets lh ! b"
  show ?thesis
  proof (cases "n = length ?c")
    case True
    then have none: "lh_map key lh (key d) = None" using link by (simp add: link_data_def)
    then show ?thesis using True inv by (simp add: lh_delete_def get Let_def fun_upd_idem)
  next
    case False
    then have n: "n < length ?c" using b(2) by simp
    define P where "P = concat (take b (buckets lh)) @ take n ?c"
    define Q where "Q = drop (Suc n) ?c @ concat (drop (Suc b) (buckets lh))"
    define lh1 where "lh1 = lh\<lparr>buckets := (buckets lh)[b := take n ?c @ [] @ drop (Suc n) ?c], num_items := num_items lh - 1\<rparr>"
    note cs = concat_splice(1) [OF b, of "[]" "Suc n", folded P_def Q_def]
    have whole: "concat (buckets lh) = P @ [?c ! n] @ Q"
      using concat_splice(2) [OF b, folded P_def] n by (simp add: Q_def Cons_nth_drop_Suc [symmetric])
    have items: "all_items lh1 = P @ [] @ Q" "all_items lh = P @ [?c ! n] @ Q"
      unfolding lh1_def all_items_def using cs whole by simp_all
    have dist: "distinct (map (key \<circ> item_data) (concat (buckets lh)))"
        and num: "num_items lh = length (concat (buckets lh))"
      using inv by (simp_all add: lh_inv_def all_items_def)
    have key: "key (item_data (?c ! n)) = key d" using found n by simp
    have "distinct (map (key \<circ> item_data) (P @ [] @ Q))" using dist unfolding whole by simp
    moreover have "num_items lh - 1 = length (P @ [] @ Q)" using num unfolding whole by simp
    ultimately have inv1: "lh_inv key hash lh1"
      unfolding lh1_def by (intro splice_inv [OF inv b]) (simp_all only: cs, simp)
    have "distinct (map fst (pairs (P @ [?c ! n] @ Q)))"
      using dist unfolding whole by (simp add: o_def)
    then have "distinct (map fst (pairs P @ (key d, item_data (?c ! n)) # pairs Q))"
      by (simp only: map_append list.map key append.simps)
    from map_of_delete_mid [OF this]
    have "lh_map key lh1 = (lh_map key lh)(key d := None)"
      unfolding lh_map_def items by (simp add: key)
    moreover have "lh_delete hash cmp buckets_ok lh d =
        map_option (\<lambda>lh. (lh_map key lh0 (key d), lh)) (lh_maybe_resize buckets_ok lh1)" if "lh0 = lh" for lh0
      using False link n that by (simp add: lh_delete_def get Let_def lh1_def link_data_def)
    ultimately show ?thesis
      using maybe_resize_inv [OF inv1, of buckets_ok] by auto
  qed
qed

text \<open>So the table, for any outcomes of the allocations, is a map.\<close>

lemma table_is_map:
  "keyed_map key (lh_inv key hash) (lh_map key) (lh_retrieve hash cmp)
    (lh_insert hash cmp item_ok buckets_ok) (lh_delete hash cmp buckets_ok)"
proof
  fix t d
  assume inv: "lh_inv key hash t"
  show "lh_retrieve hash cmp t d = lh_map key t (key d)" by (rule retrieve_correct [OF inv])
  show "\<exists>stored t'. lh_insert hash cmp item_ok buckets_ok t d = Some (stored, lh_map key t (key d), t') \<and>
      lh_inv key hash t' \<and> lh_map key t' = (if stored then (lh_map key t)(key d \<mapsto> d) else lh_map key t) \<and>
      (stored \<or> lh_map key t (key d) = None)"
    using insert_correct [OF inv, of item_ok buckets_ok d] by blast
  show "\<exists>t'. lh_delete hash cmp buckets_ok t d = Some (lh_map key t (key d), t') \<and> lh_inv key hash t' \<and>
      lh_map key t' = (lh_map key t)(key d := None)"
    using delete_correct [OF inv, of buckets_ok d] by blast
qed

end

lemma new_inv:
  assumes "lh_new table_ok buckets_ok = Some lh"
  shows "lh_inv key hash lh \<and> lh_map key lh = Map.empty"
  using assms
  by (auto simp: lh_new_def lh_inv_def lh_map_def all_items_def kMinNumBuckets_def split: if_splits)

text \<open>The tables a program can reach, with the map each stands for.\<close>

inductive reachable_table :: "('d \<Rightarrow> u32) \<Rightarrow> ('d \<Rightarrow> 'd \<Rightarrow> int) \<Rightarrow> ('d \<Rightarrow> 'k) \<Rightarrow> 'd lhash \<Rightarrow> ('k \<Rightarrow> 'd option) \<Rightarrow> bool"
  for hash cmp key where
  table_new: "lh_new t b = Some lh \<Longrightarrow> reachable_table hash cmp key lh Map.empty"
| table_insert: "reachable_table hash cmp key lh m \<Longrightarrow>
    lh_insert hash cmp i b lh d = Some (stored, old, lh') \<Longrightarrow>
    reachable_table hash cmp key lh' (if stored then m(key d \<mapsto> d) else m)"
| table_delete: "reachable_table hash cmp key lh m \<Longrightarrow>
    lh_delete hash cmp b lh d = Some (old, lh') \<Longrightarrow> reachable_table hash cmp key lh' (m(key d := None))"
| table_doall: "reachable_table hash cmp key lh m \<Longrightarrow>
    lh_doall_arg b lh f (s :: 'd list) = Some (s', lh') \<Longrightarrow> reachable_table hash cmp key lh' m"

lemma callback_depth_inv [simp]:
  "lh_inv key hash (lh\<lparr>callback_depth := n\<rparr>) = lh_inv key hash lh"
  "lh_map key (lh\<lparr>callback_depth := n\<rparr>) = lh_map key lh"
  by (simp_all add: lh_inv_def lh_map_def all_items_def)

lemma foldl_foldl_concat: "foldl (foldl f) s xss = foldl f s (concat xss)"
  by (induction xss arbitrary: s) simp_all

lemma doall_inv:
  assumes inv: "lh_inv key hash lh"
  shows "\<exists>lh'. lh_doall_arg b lh f s = Some (foldl (\<lambda>s i. f (item_data i) s) s (all_items lh), lh') \<and>
    lh_inv key hash lh' \<and> lh_map key lh' = lh_map key lh"
proof -
  define lh1 where "lh1 = (if callback_depth lh < UINT_MAX then lh\<lparr>callback_depth := callback_depth lh + 1\<rparr> else lh)"
  define lh2 where "lh2 = (if callback_depth lh1 < UINT_MAX then lh1\<lparr>callback_depth := callback_depth lh1 - 1\<rparr> else lh1)"
  have "lh_inv key hash lh2" "lh_map key lh2 = lh_map key lh"
    using inv by (simp_all add: lh2_def lh1_def)
  then obtain lh3 where "lh_maybe_resize b lh2 = Some lh3" "lh_inv key hash lh3" "lh_map key lh3 = lh_map key lh"
    using maybe_resize_inv by metis
  moreover have "foldl (foldl (\<lambda>s i. f (item_data i) s)) s (buckets lh1) =
      foldl (\<lambda>s i. f (item_data i) s) s (all_items lh)"
    by (simp add: lh1_def all_items_def foldl_foldl_concat)
  ultimately show ?thesis
    by (simp add: lh_doall_arg_def Let_def flip: lh1_def lh2_def)
qed


subsection \<open>The tables of crypto/obj/obj.c\<close>

text \<open>
  The registry of added objects keeps its objects in such tables: one by number, one by encoding.
  An object's \<open>data\<close> is the list of its \<open>length\<close> bytes; numbers are small, so that their
  difference does not overflow an \<open>int\<close>.
\<close>

record asn1_object =
  obj_nid :: int
  obj_data :: bytes
  obj_sn :: "bytes option"
  obj_ln :: "bytes option"

definition hash_nid :: "asn1_object \<Rightarrow> u32" where
  "hash_nid obj = word_of_int (obj_nid obj)"

definition cmp_nid :: "asn1_object \<Rightarrow> asn1_object \<Rightarrow> int" where
  "cmp_nid a b = obj_nid a - obj_nid b"

definition hash_data :: "asn1_object \<Rightarrow> u32" where
  "hash_data obj = OPENSSL_hash32 (obj_data obj) (length (obj_data obj))"

text \<open>The C library's \<open>memcmp\<close>: the difference of the first two bytes that differ.\<close>

fun memcmp :: "bytes \<Rightarrow> bytes \<Rightarrow> int" where
  "memcmp (a # as) (b # bs) = (if a = b then memcmp as bs else uint a - uint b)"
| "memcmp as bs = 0"

definition cmp_data :: "asn1_object \<Rightarrow> asn1_object \<Rightarrow> int" where
  "cmp_data a b =
     (let i = int (length (obj_data a)) - int (length (obj_data b)) in
      if i \<noteq> 0 then i else memcmp (obj_data a) (obj_data b))"

lemma memcmp_zero: "length as = length bs \<Longrightarrow> memcmp as bs = 0 \<longleftrightarrow> as = bs"
  by (induction as bs rule: memcmp.induct) (auto simp: word_uint_eq_iff)

interpretation by_nid: lhash_functions obj_nid hash_nid cmp_nid
  by unfold_locales (simp_all add: cmp_nid_def hash_nid_def)

interpretation by_data: lhash_functions obj_data hash_data cmp_data
  by unfold_locales (auto simp: cmp_data_def hash_data_def Let_def memcmp_zero)

interpretation nid_table: keyed_map obj_nid "lh_inv obj_nid hash_nid" "lh_map obj_nid"
  "lh_retrieve hash_nid cmp_nid" "lh_insert hash_nid cmp_nid item_ok buckets_ok"
  "lh_delete hash_nid cmp_nid buckets_ok" for item_ok buckets_ok
  by (rule by_nid.table_is_map)

interpretation data_table: keyed_map obj_data "lh_inv obj_data hash_data" "lh_map obj_data"
  "lh_retrieve hash_data cmp_data" "lh_insert hash_data cmp_data item_ok buckets_ok"
  "lh_delete hash_data cmp_data buckets_ok" for item_ok buckets_ok
  by (rule by_data.table_is_map)

lemma reachable_inv:
  assumes "reachable_table hash cmp key lh m" "lhash_functions key hash cmp"
  shows "lh_inv key hash lh \<and> lh_map key lh = m"
  using assms(1)
proof (induction rule: reachable_table.induct)
  case (table_new t b lh)
  then show ?case by (rule new_inv)
next
  case (table_insert lh m i b d stored old lh')
  then show ?case
    using lhash_functions.insert_correct [OF assms(2), of lh i b d] by (auto split: if_splits)
next
  case (table_delete lh m b d old lh')
  then show ?case
    using lhash_functions.delete_correct [OF assms(2), of lh b d] by auto
next
  case (table_doall lh m b f s s' lh')
  then show ?case using doall_inv [of key hash lh b f s] by auto
qed

text \<open>C27. The hash table is a finite map. Whatever operations built it, through every doubling and
  halving of the buckets and every failed allocation: looking an object up finds the one last
  inserted with its key, insertion returns the object it replaces, deletion returns the object it
  removes, the count is the number of keys, and no operation fails its assertion.\<close>

theorem lhash_is_finite_map:
  assumes "reachable_table hash cmp key lh m"
    and "\<forall>a b. cmp a b = 0 \<longleftrightarrow> key a = key b" and "\<forall>a b. key a = key b \<longrightarrow> hash a = hash b"
  shows "lh_retrieve hash cmp lh d = m (key d) \<and> lh_num_items lh = card (dom m) \<and>
    (\<exists>stored lh'. lh_insert hash cmp item_ok buckets_ok lh d = Some (stored, m (key d), lh') \<and>
       (stored \<longleftrightarrow> m (key d) \<noteq> None \<or> item_ok)) \<and>
    (\<exists>lh'. lh_delete hash cmp buckets_ok lh d = Some (m (key d), lh'))"
proof -
  have fns: "lhash_functions key hash cmp" using assms(2,3) by unfold_locales blast+
  have inv: "lh_inv key hash lh" "lh_map key lh = m" using reachable_inv [OF assms(1) fns] by auto
  have "dom m = set (map (key \<circ> item_data) (all_items lh))"
    unfolding inv(2) [symmetric] lh_map_def by (simp add: dom_map_of_conv_image_fst image_image)
  then have "card (dom m) = length (all_items lh)"
    using inv(1) distinct_card [of "map (key \<circ> item_data) (all_items lh)"] by (simp add: lh_inv_def)
  then have "lh_num_items lh = card (dom m)" using inv(1) by (simp add: lh_num_items_def lh_inv_def)
  then show ?thesis
    using lhash_functions.retrieve_correct [OF fns inv(1), of d]
      lhash_functions.insert_correct [OF fns inv(1), of item_ok buckets_ok d]
      lhash_functions.delete_correct [OF fns inv(1), of buckets_ok d] inv(2) by auto
qed

definition example_object :: asn1_object where
  "example_object = \<lparr> obj_nid = 5, obj_data = [1, 2], obj_sn = None, obj_ln = None \<rparr>"

theorem lhash_is_finite_map_witness:
  "\<exists>lh. lh_new True True = Some lh \<and> lh_retrieve hash_nid cmp_nid lh example_object = None"
proof -
  obtain lh :: "asn1_object lhash" where new: "lh_new True True = Some lh" by (simp add: lh_new_def)
  from lhash_is_finite_map [OF table_new [OF new], where key = obj_nid and hash = hash_nid and cmp = cmp_nid
      and d = example_object] new
  show ?thesis by (auto simp: cmp_nid_def hash_nid_def)
qed

text \<open>In the registry's table by encoding, an object added with room to store it is found
  again under its encoding, and no other lookup changes.\<close>

theorem added_object_found:
  assumes "lh_inv obj_data hash_data lh"
    and "lh_insert hash_data cmp_data item_ok buckets_ok lh obj = Some (True, old, lh')"
  shows "lh_retrieve hash_data cmp_data lh' e =
    (if obj_data e = obj_data obj then Some obj else lh_retrieve hash_data cmp_data lh e)"
  by (rule data_table.lookup_after_insert [OF assms])

theorem added_object_found_witness:
  "\<exists>lh lh'. lh_new True True = Some lh \<and>
    lh_insert hash_data cmp_data True True lh example_object = Some (True, None, lh') \<and>
    lh_retrieve hash_data cmp_data lh' example_object = Some example_object"
proof -
  obtain lh :: "asn1_object lhash" where new: "lh_new True True = Some lh" by (simp add: lh_new_def)
  have inv: "lh_inv obj_data hash_data lh" "lh_map obj_data lh = Map.empty" using new_inv [OF new] by auto
  then obtain lh' where "lh_insert hash_data cmp_data True True lh example_object = Some (True, None, lh')"
    using by_data.insert_correct [OF inv(1), of True True example_object] by auto
  then show ?thesis using added_object_found [OF inv(1)] new by auto
qed

end
