(* ===== verification/Stack.thy ===== *)
theory Stack
  imports Prelude "HOL-Library.Multiset"
begin

section \<open>Stacks of pointers (crypto/stack/stack.c)\<close>

text \<open>
  The growable array of pointers, with its cached \<open>sorted\<close> flag and its binary search. A pointer is
  a value of type \<open>'p option\<close>, \<open>NULL\<close> being \<open>None\<close>; a function pointer is a number, and what it
  computes is the parameter \<open>call_cmp\<close>. Allocation (in units of pointers) and the C library's
  \<open>qsort\<close> are parameters. An outer \<open>None\<close> is a failed assertion.
\<close>

subsection \<open>Operations\<close>

record 'p stack =
  sk_len :: nat
  sk_data :: "'p option list"
  sk_sorted :: bool
  sk_alloc :: nat
  sk_comp :: "nat option"

definition kMinSize :: nat where "kMinSize = 4"

definition sk_new :: "bool \<Rightarrow> bool \<Rightarrow> nat option \<Rightarrow> 'p stack option" where
  "sk_new struct_ok data_ok cmp =
     (if \<not> struct_ok \<or> \<not> data_ok then None
      else Some \<lparr> sk_len = 0, sk_data = replicate kMinSize None, sk_sorted = False,
                  sk_alloc = kMinSize, sk_comp = cmp \<rparr>)"

definition sk_new_null :: "bool \<Rightarrow> bool \<Rightarrow> 'p stack option" where
  "sk_new_null struct_ok data_ok = sk_new struct_ok data_ok None"

definition sk_num :: "'p stack option \<Rightarrow> nat" where
  "sk_num sk = (case sk of None \<Rightarrow> 0 | Some s \<Rightarrow> sk_len s)"

definition sk_zero :: "'p stack \<Rightarrow> 'p stack" where
  "sk_zero sk =
     (if sk_len sk = 0 then sk
      else sk\<lparr>sk_data := replicate (sk_len sk) None @ drop (sk_len sk) (sk_data sk),
              sk_len := 0, sk_sorted := False\<rparr>)"

definition sk_value :: "'p stack option \<Rightarrow> nat \<Rightarrow> 'p option" where
  "sk_value sk i =
     (case sk of None \<Rightarrow> None | Some s \<Rightarrow> if i \<ge> sk_len s then None else sk_data s ! i)"

definition sk_set :: "'p stack \<Rightarrow> nat \<Rightarrow> 'p option \<Rightarrow> 'p option \<times> 'p stack" where
  "sk_set sk i v =
     (if i \<ge> sk_len sk then (None, sk) else (v, sk\<lparr>sk_data := (sk_data sk)[i := v]\<rparr>))"

text \<open>The pointers passed to the freeing function, in order.\<close>

definition sk_pop_free_ex :: "'p stack \<Rightarrow> 'p list" where
  "sk_pop_free_ex sk = map the (filter (\<lambda>p. p \<noteq> None) (take (sk_len sk) (sk_data sk)))"

text \<open>\<open>OPENSSL_realloc\<close> on an array of pointers: a fresh block with the old contents copied.\<close>

definition OPENSSL_realloc :: "(nat \<Rightarrow> 'p option list option) \<Rightarrow> 'p option list \<Rightarrow> nat \<Rightarrow> 'p option list option" where
  "OPENSSL_realloc malloc orig new_size =
     (case malloc new_size of None \<Rightarrow> None
      | Some ret \<Rightarrow>
          let to_copy = (if length orig < new_size then length orig else new_size)
          in Some (take to_copy orig @ drop to_copy ret))"

text \<open>The new capacity, if growing does not overflow.\<close>

definition grow :: "nat \<Rightarrow> nat option" where
  "grow num_alloc =
     (let new_alloc = num_alloc * 2 mod SIZE_LIMIT; alloc_size = new_alloc * 8 mod SIZE_LIMIT;
          new_alloc = (if new_alloc < num_alloc \<or> alloc_size div 8 \<noteq> new_alloc
                       then (num_alloc + 1) mod SIZE_LIMIT else new_alloc);
          alloc_size = new_alloc * 8 mod SIZE_LIMIT
      in if new_alloc < num_alloc \<or> alloc_size div 8 \<noteq> new_alloc then None else Some new_alloc)"

text \<open>Making room for one more element.\<close>

definition make_room :: "(nat \<Rightarrow> 'p option list option) \<Rightarrow> 'p stack \<Rightarrow> 'p stack option" where
  "make_room malloc sk =
     (if sk_alloc sk \<le> sk_len sk + 1 then
        (case grow (sk_alloc sk) of None \<Rightarrow> None
         | Some new_alloc \<Rightarrow>
             map_option (\<lambda>d. sk\<lparr>sk_data := d, sk_alloc := new_alloc\<rparr>)
               (OPENSSL_realloc malloc (sk_data sk) new_alloc))
      else Some sk)"

text \<open>Storing the new element; the elements behind it move up by one.\<close>

definition insert_cell :: "'p option list \<Rightarrow> nat \<Rightarrow> 'p option \<Rightarrow> nat \<Rightarrow> 'p option list" where
  "insert_cell d n p pos =
     (if pos \<ge> n then d[n := p]
      else (take (pos + 1) d @ take (n - pos) (drop pos d) @ drop (n + 1) d)[pos := p])"

definition sk_insert :: "(nat \<Rightarrow> 'p option list option) \<Rightarrow> 'p stack \<Rightarrow> 'p option \<Rightarrow> nat \<Rightarrow> nat \<times> 'p stack" where
  "sk_insert malloc sk p pos =
     (case make_room malloc sk of None \<Rightarrow> (0, sk)
      | Some sk \<Rightarrow>
          (sk_len sk + 1,
           sk\<lparr>sk_data := insert_cell (sk_data sk) (sk_len sk) p pos, sk_len := sk_len sk + 1,
              sk_sorted := False\<rparr>))"

definition sk_delete :: "'p stack \<Rightarrow> nat \<Rightarrow> 'p option \<times> 'p stack" where
  "sk_delete sk pos =
     (if pos \<ge> sk_len sk then (None, sk)
      else
        let d = sk_data sk; n = sk_len sk; ret = d ! pos;
            d = (if pos \<noteq> n - 1
                 then take pos d @ take (n - pos - 1) (drop (pos + 1) d) @ drop (n - 1) d else d)
        in (ret, sk\<lparr>sk_data := d, sk_len := n - 1\<rparr>))"

text \<open>The linear searches: the first index from \<open>i\<close> on at which the test holds.\<close>

fun find_from :: "('p option \<Rightarrow> bool) \<Rightarrow> 'p option list \<Rightarrow> nat \<Rightarrow> nat option" where
  "find_from p [] i = None"
| "find_from p (x # xs) i = (if p x then Some i else find_from p xs (i + 1))"

definition sk_delete_ptr :: "'p stack \<Rightarrow> 'p option \<Rightarrow> 'p option \<times> 'p stack" where
  "sk_delete_ptr sk p =
     (case find_from (\<lambda>x. x = p) (take (sk_len sk) (sk_data sk)) 0 of
        None \<Rightarrow> (None, sk) | Some i \<Rightarrow> sk_delete sk i)"

definition sk_is_sorted :: "'p stack option \<Rightarrow> bool" where
  "sk_is_sorted sk = (case sk of None \<Rightarrow> True | Some s \<Rightarrow> sk_sorted s)"

text \<open>The binary search, as the outcome of its loop: an index, not found, or a failed assertion.\<close>

function bsearch :: "(nat \<Rightarrow> int) \<Rightarrow> nat \<Rightarrow> nat \<Rightarrow> nat option option" where
  "bsearch r lo hi =
     (if lo < hi then
        let mid = lo + (hi - lo - 1) div 2 in
        if \<not> (lo \<le> mid \<and> mid < hi) then None
        else if r mid > 0 then bsearch r (mid + 1) hi
        else if r mid < 0 then bsearch r lo mid
        else if hi - lo = 1 then Some (Some mid)
        else if \<not> mid + 1 < hi then None
        else bsearch r lo (mid + 1)
      else if lo \<noteq> hi then None else Some None)"
  by pat_completeness auto
termination by (relation "measure (\<lambda>(r, lo, hi). hi - lo)") auto

declare bsearch.simps [simp del]

definition sk_find :: "(nat \<Rightarrow> 'p option \<Rightarrow> 'p option \<Rightarrow> int) \<Rightarrow> 'p stack \<Rightarrow> 'p option \<Rightarrow> nat option option" where
  "sk_find call_cmp sk p =
     (case sk_comp sk of
        None \<Rightarrow> Some (find_from (\<lambda>x. x = p) (take (sk_len sk) (sk_data sk)) 0)
      | Some cmp \<Rightarrow>
          if p = None then Some None
          else if \<not> sk_is_sorted (Some sk) then
            Some (find_from (\<lambda>x. call_cmp cmp p x = 0) (take (sk_len sk) (sk_data sk)) 0)
          else bsearch (\<lambda>i. call_cmp cmp p (sk_data sk ! i)) 0 (sk_len sk))"

definition sk_shift :: "'p stack \<Rightarrow> 'p option \<times> 'p stack" where
  "sk_shift sk = (if sk_len sk = 0 then (None, sk) else sk_delete sk 0)"

definition sk_push :: "(nat \<Rightarrow> 'p option list option) \<Rightarrow> 'p stack \<Rightarrow> 'p option \<Rightarrow> nat \<times> 'p stack" where
  "sk_push malloc sk p = sk_insert malloc sk p (sk_len sk)"

definition sk_pop :: "'p stack \<Rightarrow> 'p option \<times> 'p stack" where
  "sk_pop sk = (if sk_len sk = 0 then (None, sk) else sk_delete sk (sk_len sk - 1))"

definition sk_dup :: "bool \<Rightarrow> bool \<Rightarrow> (nat \<Rightarrow> 'p option list option) \<Rightarrow> 'p stack \<Rightarrow> 'p stack option" where
  "sk_dup struct_ok data_ok malloc sk =
     (case sk_new struct_ok data_ok (sk_comp sk) of None \<Rightarrow> None
      | Some ret \<Rightarrow>
        (case OPENSSL_realloc malloc (sk_data ret) (sk_alloc sk) of None \<Rightarrow> None
         | Some s \<Rightarrow>
             Some (ret\<lparr>sk_data := take (sk_len sk) (sk_data sk) @ drop (sk_len sk) s, sk_len := sk_len sk,
                       sk_sorted := sk_sorted sk, sk_alloc := sk_alloc sk, sk_comp := sk_comp sk\<rparr>)))"

definition sk_sort ::
  "(('p option \<Rightarrow> 'p option \<Rightarrow> int) \<Rightarrow> 'p option list \<Rightarrow> 'p option list) \<Rightarrow>
   (nat \<Rightarrow> 'p option \<Rightarrow> 'p option \<Rightarrow> int) \<Rightarrow> 'p stack \<Rightarrow> 'p stack" where
  "sk_sort qsort call_cmp sk =
     (case sk_comp sk of None \<Rightarrow> sk
      | Some cmp \<Rightarrow>
          if sk_sorted sk then sk
          else
            let sk = (if sk_len sk \<ge> 2
                      then sk\<lparr>sk_data := qsort (call_cmp cmp) (take (sk_len sk) (sk_data sk)) @ drop (sk_len sk) (sk_data sk)\<rparr>
                      else sk)
            in sk\<lparr>sk_sorted := True\<rparr>)"

definition sk_set_cmp_func :: "'p stack \<Rightarrow> nat option \<Rightarrow> nat option \<times> 'p stack" where
  "sk_set_cmp_func sk cmp =
     (sk_comp sk, (if sk_comp sk \<noteq> cmp then sk\<lparr>sk_sorted := False\<rparr> else sk)\<lparr>sk_comp := cmp\<rparr>)"

text \<open>The copying loop from index \<open>i\<close> on; on failure, the pointers that are freed.\<close>

fun deep_copy_from :: "('p \<Rightarrow> 'p option) \<Rightarrow> 'p option list \<Rightarrow> 'p option list \<Rightarrow> 'p list + 'p option list" where
  "deep_copy_from copy copied [] = Inr copied"
| "deep_copy_from copy copied (None # rest) = deep_copy_from copy (copied @ [None]) rest"
| "deep_copy_from copy copied (Some p # rest) =
     (case copy p of
        None \<Rightarrow> Inl (map the (filter (\<lambda>x. x \<noteq> None) copied))
      | Some q \<Rightarrow> deep_copy_from copy (copied @ [Some q]) rest)"

text \<open>\<open>Inl\<close> is a \<open>NULL\<close> result, with the pointers freed on the way.\<close>

definition sk_deep_copy ::
  "bool \<Rightarrow> bool \<Rightarrow> (nat \<Rightarrow> 'p option list option) \<Rightarrow> ('p \<Rightarrow> 'p option) \<Rightarrow> 'p stack \<Rightarrow> 'p list + 'p stack" where
  "sk_deep_copy struct_ok data_ok malloc copy sk =
     (case sk_dup struct_ok data_ok malloc sk of None \<Rightarrow> Inl []
      | Some ret \<Rightarrow>
        (case deep_copy_from copy [] (take (sk_len ret) (sk_data ret)) of
           Inl freed \<Rightarrow> Inl freed
         | Inr d \<Rightarrow> Inr (ret\<lparr>sk_data := d @ drop (sk_len ret) (sk_data ret)\<rparr>)))"

subsection \<open>The array behind a stack\<close>

text \<open>
  The live elements, and what every operation keeps: there is always room for one more element,
  the array has the recorded capacity and its size in bytes is representable.
\<close>

definition contents :: "'p stack \<Rightarrow> 'p option list" where
  "contents sk = take (sk_len sk) (sk_data sk)"

definition well_formed :: "'p stack \<Rightarrow> bool" where
  "well_formed sk \<longleftrightarrow>
     sk_len sk < sk_alloc sk \<and> length (sk_data sk) = sk_alloc sk \<and> sk_alloc sk * 8 < SIZE_LIMIT"

definition exact_alloc :: "(nat \<Rightarrow> 'p option list option) \<Rightarrow> bool" where
  "exact_alloc malloc \<longleftrightarrow> (\<forall>n d. malloc n = Some d \<longrightarrow> length d = n)"

lemma length_stack_contents [simp]: "well_formed sk \<Longrightarrow> length (contents sk) = sk_len sk"
  by (simp add: contents_def well_formed_def)

lemma contents_flags [simp]:
  "contents (sk\<lparr>sk_comp := c\<rparr>) = contents sk" "contents (sk\<lparr>sk_sorted := f\<rparr>) = contents sk"
  by (simp_all add: contents_def)

lemma sk_new_ok:
  "sk_new a b cmp = Some sk \<Longrightarrow>
     well_formed sk \<and> contents sk = [] \<and> \<not> sk_sorted sk \<and> sk_comp sk = cmp"
  by (auto simp: sk_new_def well_formed_def contents_def kMinSize_def SIZE_LIMIT_def split: if_splits)

lemma sk_zero_ok: "well_formed sk \<Longrightarrow> well_formed (sk_zero sk) \<and> contents (sk_zero sk) = []"
  by (auto simp: sk_zero_def well_formed_def contents_def)

lemma sk_zero_unsorted: "well_formed sk \<Longrightarrow> sk_sorted (sk_zero sk) \<Longrightarrow> sk_zero sk = sk"
  by (auto simp: sk_zero_def split: if_splits)

lemma sk_value_contents:
  "well_formed sk \<Longrightarrow> sk_value (Some sk) i = (if i < length (contents sk) then contents sk ! i else None)"
  by (simp add: sk_value_def contents_def well_formed_def)

lemma sk_set_ok:
  "well_formed sk \<Longrightarrow> well_formed (snd (sk_set sk i v)) \<and>
     contents (snd (sk_set sk i v)) = (contents sk)[i := v]"
  by (auto simp: sk_set_def well_formed_def contents_def take_update_swap list_update_beyond)

lemma grow_ok:
  assumes "grow n = Some m" and "0 < n" and "n * 8 < SIZE_LIMIT"
  shows "n < m \<and> m * 8 < SIZE_LIMIT"
proof -
  have fits: "k * 8 < SIZE_LIMIT" if "k * 8 mod SIZE_LIMIT div 8 = k" for k
  proof -
    have "k * 8 mod SIZE_LIMIT < SIZE_LIMIT" by (simp add: SIZE_LIMIT_def)
    then show ?thesis using that by (metis div_times_less_eq_dividend order_le_less_trans)
  qed
  have n2: "n * 2 mod SIZE_LIMIT = n * 2" and n1: "(n + 1) mod SIZE_LIMIT = n + 1"
    using assms(2,3) by (simp_all add: SIZE_LIMIT_def)
  define q where "q = (if n * 2 < n \<or> n * 2 * 8 mod SIZE_LIMIT div 8 \<noteq> n * 2 then n + 1 else n * 2)"
  have r: "grow n = (if q < n \<or> q * 8 mod SIZE_LIMIT div 8 \<noteq> q then None else Some q)"
    unfolding grow_def Let_def n2 n1 q_def ..
  have q: "q = n + 1 \<or> q = n * 2" unfolding q_def by (rule if_split [THEN iffD2]) blast
  have c: "\<not> (q < n \<or> q * 8 mod SIZE_LIMIT div 8 \<noteq> q)" and m: "q = m"
    using assms(1) unfolding r by (metis option.distinct(1), metis option.distinct(1) option.inject)
  have "m * 8 < SIZE_LIMIT" using c m by (intro fits) blast
  then show ?thesis using q m assms(2) by auto
qed

lemma length_realloc:
  "exact_alloc malloc \<Longrightarrow> OPENSSL_realloc malloc d n = Some d' \<Longrightarrow> length d \<le> n \<Longrightarrow>
     length d' = n \<and> take (length d) d' = d"
  by (auto simp: OPENSSL_realloc_def exact_alloc_def Let_def split: option.splits if_splits)

lemma make_room_ok:
  assumes wf: "well_formed sk" and ex: "exact_alloc malloc" and room: "make_room malloc sk = Some sk'"
  shows "well_formed sk' \<and> contents sk' = contents sk \<and> sk_len sk' = sk_len sk \<and>
         sk_comp sk' = sk_comp sk \<and> sk_len sk + 1 < sk_alloc sk'"
proof (cases "sk_alloc sk \<le> sk_len sk + 1")
  case True
  then obtain m d where m: "grow (sk_alloc sk) = Some m"
    and d: "OPENSSL_realloc malloc (sk_data sk) m = Some d"
    and sk': "sk' = sk\<lparr>sk_data := d, sk_alloc := m\<rparr>"
    using room by (auto simp: make_room_def split: option.splits)
  have gm: "sk_alloc sk < m \<and> m * 8 < SIZE_LIMIT"
    by (rule grow_ok [OF m]) (use wf in \<open>auto simp: well_formed_def\<close>)
  have len: "length d = m \<and> take (sk_alloc sk) d = sk_data sk"
    using length_realloc [OF ex d] gm wf by (simp add: well_formed_def)
  then have "take (sk_len sk) d = take (sk_len sk) (sk_data sk)"
    using wf by (metis min.absorb3 min.commute take_take well_formed_def)
  then show ?thesis using sk' gm len wf by (auto simp: contents_def well_formed_def)
next
  case False
  then show ?thesis using room wf by (simp add: make_room_def)
qed

lemma insert_cell:
  assumes n: "n + 1 < length d"
  shows "take (n + 1) (insert_cell d n p pos) = take pos (take n d) @ p # drop pos (take n d) \<and>
         length (insert_cell d n p pos) = length d"
proof (cases "n \<le> pos")
  case True
  then show ?thesis
    using n by (simp add: insert_cell_def take_Suc_conv_app_nth)
next
  case False
  define e xs where "e = drop (n + 1) d" and "xs = take pos d @ p # take (n - pos) (drop pos d)"
  have "take (pos + 1) d = take pos d @ [d ! pos]"
    using False n by (simp add: take_Suc_conv_app_nth)
  then have cells: "insert_cell d n p pos = xs @ e"
    using False n by (simp add: insert_cell_def e_def xs_def list_update_append)
  have len: "length xs = n + 1" "length e = length d - (n + 1)"
    using False n by (simp_all add: e_def xs_def)
  have "xs = take pos (take n d) @ p # drop pos (take n d)"
    using False by (simp add: xs_def take_drop min_absorb1)
  then show ?thesis unfolding cells using len n by (metis append_take_drop_id append_eq_conv_conj length_append length_drop le_add_diff_inverse add_leE less_imp_le)
qed

lemma sk_insert_ok:
  assumes wf: "well_formed sk" and ex: "exact_alloc malloc" and r: "sk_insert malloc sk p pos = (n, sk')"
  shows "n = 0 \<and> sk' = sk \<or>
         n = length (contents sk) + 1 \<and> well_formed sk' \<and> \<not> sk_sorted sk' \<and> sk_comp sk' = sk_comp sk \<and>
         contents sk' = take pos (contents sk) @ p # drop pos (contents sk)"
proof (cases "make_room malloc sk")
  case None
  then show ?thesis using r by (simp add: sk_insert_def)
next
  case (Some s)
  note ok = make_room_ok [OF wf ex Some]
  then have len: "sk_len s + 1 < length (sk_data s)" by (simp add: well_formed_def)
  note cells = insert_cell [OF len, of p pos]
  have sk': "sk' = s\<lparr>sk_data := insert_cell (sk_data s) (sk_len s) p pos,
                     sk_len := sk_len s + 1, sk_sorted := False\<rparr>" and n: "n = sk_len s + 1"
    using r by (auto simp add: sk_insert_def Some)
  have "contents sk' = take pos (contents s) @ p # drop pos (contents s)"
    using cells by (simp add: sk' contents_def)
  moreover have "well_formed sk'"
    using ok cells by (simp add: sk' well_formed_def)
  ultimately show ?thesis using ok n wf by (simp add: sk')
qed

lemma delete_cell:
  assumes i: "i < n" and n: "n \<le> length d"
  shows "take (n - 1) (if i \<noteq> n - 1
           then take i d @ take (n - i - 1) (drop (i + 1) d) @ drop (n - 1) d else d) =
         take i (take n d) @ drop (i + 1) (take n d)"
proof (cases "i = n - 1")
  case True
  then show ?thesis using i by (simp add: min_absorb1)
next
  case False
  have "length (take i d @ take (n - i - 1) (drop (i + 1) d)) = n - 1" using i n by simp
  then have "take (n - 1) ((take i d @ take (n - i - 1) (drop (i + 1) d)) @ drop (n - 1) d) =
             take i d @ take (n - i - 1) (drop (i + 1) d)"
    by (metis append_eq_conv_conj)
  then show ?thesis using False i n by (simp add: drop_take min_absorb1)
qed

lemma sk_delete_ok:
  assumes wf: "well_formed sk" and r: "sk_delete sk i = (x, sk')"
  shows "(if i < length (contents sk)
          then x = contents sk ! i \<and> contents sk' = take i (contents sk) @ drop (i + 1) (contents sk)
          else x = None \<and> sk' = sk) \<and>
         well_formed sk' \<and> sk_sorted sk' = sk_sorted sk \<and> sk_comp sk' = sk_comp sk"
proof (cases "i < sk_len sk")
  case True
  define d where "d = (if i \<noteq> sk_len sk - 1
    then take i (sk_data sk) @ take (sk_len sk - i - 1) (drop (i + 1) (sk_data sk)) @
         drop (sk_len sk - 1) (sk_data sk) else sk_data sk)"
  have r': "x = sk_data sk ! i" "sk' = sk\<lparr>sk_data := d, sk_len := sk_len sk - 1\<rparr>"
    using r True by (simp_all add: sk_delete_def Let_def d_def)
  have "take (sk_len sk - 1) d = take i (contents sk) @ drop (i + 1) (contents sk)"
    unfolding d_def contents_def
    by (rule delete_cell) (use True wf in \<open>auto simp: well_formed_def\<close>)
  moreover have "length d = sk_alloc sk"
    using True wf by (auto simp: d_def well_formed_def)
  ultimately show ?thesis
    using True wf by (simp add: r') (auto simp: contents_def well_formed_def)
next
  case False
  then show ?thesis using r wf by (simp add: sk_delete_def)
qed

lemma find_from_shift: "find_from p xs i = map_option (\<lambda>k. k + i) (find_from p xs 0)"
proof (induction xs arbitrary: i)
  case (Cons x xs)
  show ?case
    using Cons [of "i + 1"] Cons [of "1"] by (simp add: option.map_comp comp_def)
qed simp

lemma find_from_Cons:
  "find_from p (x # xs) 0 = (if p x then Some 0 else map_option Suc (find_from p xs 0))"
  using find_from_shift [of p xs 1] by (simp add: fun_eq_iff cong: map_option_cong)

lemma find_from_Some:
  "find_from p xs 0 = Some i \<longleftrightarrow> i < length xs \<and> p (xs ! i) \<and> (\<forall>j < i. \<not> p (xs ! j))"
proof (induction xs arbitrary: i)
  case (Cons x xs)
  show ?case
    using Cons by (cases i) (auto simp: find_from_Cons All_less_Suc2 simp del: find_from.simps)
qed simp

lemma find_from_None: "find_from p xs i = None \<longleftrightarrow> (\<forall>x \<in> set xs. \<not> p x)"
  by (induction xs arbitrary: i) auto

lemma sk_delete_ptr_ok:
  assumes wf: "well_formed sk" and r: "sk_delete_ptr sk p = (x, sk')"
  shows "(if p \<in> set (contents sk) then x = p \<and> contents sk' = remove1 p (contents sk)
          else x = None \<and> sk' = sk) \<and>
         well_formed sk' \<and> sk_sorted sk' = sk_sorted sk \<and> sk_comp sk' = sk_comp sk"
proof (cases "find_from (\<lambda>x. x = p) (contents sk) 0")
  case None
  then show ?thesis
    using r wf find_from_None [of "\<lambda>x. x = p" "contents sk"] by (auto simp: sk_delete_ptr_def simp flip: contents_def)
next
  case (Some i)
  then have i: "i < length (contents sk)" "contents sk ! i = p" "\<forall>j < i. contents sk ! j \<noteq> p"
    by (simp_all add: find_from_Some)
  then have "p \<notin> set (take i (contents sk))" by (auto simp: in_set_conv_nth)
  moreover have "contents sk = take i (contents sk) @ p # drop (Suc i) (contents sk)"
    using i by (metis id_take_nth_drop)
  ultimately have "remove1 p (contents sk) = take i (contents sk) @ drop (Suc i) (contents sk)"
    by (metis remove1_append remove1.simps(2))
  moreover have "p \<in> set (contents sk)" using i by (metis nth_mem)
  moreover have "sk_delete sk i = (x, sk')" using r Some by (simp add: sk_delete_ptr_def flip: contents_def)
  ultimately show ?thesis using sk_delete_ok [OF wf, of i x sk'] i by simp
qed

lemma sk_shift_ok:
  assumes wf: "well_formed sk" and r: "sk_shift sk = (x, sk')"
  shows "(case contents sk of [] \<Rightarrow> x = None \<and> sk' = sk | y # ys \<Rightarrow> x = y \<and> contents sk' = ys) \<and>
         well_formed sk' \<and> sk_sorted sk' = sk_sorted sk \<and> sk_comp sk' = sk_comp sk"
proof (cases "contents sk")
  case Nil
  then have "sk_len sk = 0" using length_stack_contents [OF wf] by simp
  then show ?thesis using r wf Nil by (simp add: sk_shift_def)
next
  case (Cons y ys)
  then have "sk_len sk \<noteq> 0" using length_stack_contents [OF wf] by simp
  then show ?thesis using r sk_delete_ok [OF wf, of 0 x sk'] Cons by (simp add: sk_shift_def)
qed

lemma sk_pop_ok:
  assumes wf: "well_formed sk" and r: "sk_pop sk = (x, sk')"
  shows "(if contents sk = [] then x = None \<and> sk' = sk
          else x = last (contents sk) \<and> contents sk' = butlast (contents sk)) \<and>
         well_formed sk' \<and> sk_sorted sk' = sk_sorted sk \<and> sk_comp sk' = sk_comp sk"
proof (cases "contents sk = []")
  case True
  then have "sk_len sk = 0" using length_stack_contents [OF wf] by simp
  then show ?thesis using r wf True by (simp add: sk_pop_def)
next
  case False
  then have "sk_len sk \<noteq> 0" "sk_len sk = length (contents sk)"
    using length_stack_contents [OF wf] by (metis length_0_conv)+
  then show ?thesis
    using r sk_delete_ok [OF wf, of "sk_len sk - 1" x sk'] False
    by (simp add: sk_pop_def last_conv_nth butlast_conv_take)
qed

lemma sk_dup_ok:
  assumes wf: "well_formed sk" and ex: "exact_alloc malloc" and r: "sk_dup a b malloc sk = Some sk'"
  shows "well_formed sk' \<and> contents sk' = contents sk \<and> sk_sorted sk' = sk_sorted sk \<and>
         sk_comp sk' = sk_comp sk"
proof -
  obtain r0 s where r0: "sk_new a b (sk_comp sk) = Some r0"
    and s: "OPENSSL_realloc malloc (sk_data r0) (sk_alloc sk) = Some s"
    and sk': "sk' = r0\<lparr>sk_data := take (sk_len sk) (sk_data sk) @ drop (sk_len sk) s,
      sk_len := sk_len sk, sk_sorted := sk_sorted sk, sk_alloc := sk_alloc sk, sk_comp := sk_comp sk\<rparr>"
    using r by (auto simp: sk_dup_def split: option.splits)
  have "length s = sk_alloc sk"
    using s ex by (auto simp: OPENSSL_realloc_def exact_alloc_def Let_def split: option.splits if_splits)
  then show ?thesis using wf by (auto simp: sk' well_formed_def contents_def)
qed

subsection \<open>Sorting and searching\<close>

text \<open>
  What the code relies on: a comparison function is a total preorder, and \<open>qsort\<close> sorts by it.
\<close>

definition comparator :: "('a \<Rightarrow> 'a \<Rightarrow> int) \<Rightarrow> bool" where
  "comparator c \<longleftrightarrow>
     (\<forall>x y. c x y < 0 \<longleftrightarrow> 0 < c y x) \<and> (\<forall>x y z. c x y \<le> 0 \<and> c y z \<le> 0 \<longrightarrow> c x z \<le> 0)"

definition sorts :: "(('a \<Rightarrow> 'a \<Rightarrow> int) \<Rightarrow> 'a list \<Rightarrow> 'a list) \<Rightarrow> bool" where
  "sorts qsort \<longleftrightarrow>
     (\<forall>c xs. comparator c \<longrightarrow>
        mset (qsort c xs) = mset xs \<and> sorted_wrt (\<lambda>x y. c x y \<le> 0) (qsort c xs))"

lemma comparator_trans: "comparator c \<Longrightarrow> c x y \<le> 0 \<Longrightarrow> c y z \<le> 0 \<Longrightarrow> c x z \<le> 0"
  unfolding comparator_def by blast

lemma comparator_less: "comparator c \<Longrightarrow> c x y < 0 \<longleftrightarrow> 0 < c y x"
  unfolding comparator_def by blast

lemma comparator_refl: "comparator c \<Longrightarrow> c x x = 0"
  using comparator_less [of c x x] by linarith

lemma find_upt_split: "lo \<le> m \<Longrightarrow> m \<le> hi \<Longrightarrow>
    find P [lo..<hi] = (case find P [lo..<m] of None \<Rightarrow> find P [m..<hi] | Some i \<Rightarrow> Some i)"
proof -
  assume "lo \<le> m" "m \<le> hi"
  then have "[lo..<hi] = [lo..<m] @ [m..<hi]" using upt_add_eq_append [of lo m "hi - m"] by simp
  moreover have "find P (xs @ ys) = (case find P xs of None \<Rightarrow> find P ys | Some i \<Rightarrow> Some i)" for xs ys
    by (induction xs) auto
  ultimately show ?thesis by simp
qed

lemma bsearch_exact:
  assumes low: "\<And>i j. lo \<le> i \<Longrightarrow> i \<le> j \<Longrightarrow> j < hi \<Longrightarrow> 0 < r j \<Longrightarrow> 0 < r i"
    and high: "\<And>i j. lo \<le> i \<Longrightarrow> i \<le> j \<Longrightarrow> j < hi \<Longrightarrow> r i < 0 \<Longrightarrow> r j < 0"
    and le: "lo \<le> hi"
  shows "bsearch r lo hi = Some (find (\<lambda>i. r i = 0) [lo..<hi])"
  using assms
proof (induction r lo hi rule: bsearch.induct)
  case (1 r lo hi)
  show ?case
  proof (cases "lo < hi")
    case False
    then show ?thesis using 1(6) by (subst bsearch.simps) simp
  next
    case True
    define mid where "mid = lo + (hi - lo - 1) div 2"
    have mid: "lo \<le> mid" "mid < hi" using True by (auto simp: mid_def)
    have unfold: "bsearch r lo hi =
        (if r mid > 0 then bsearch r (mid + 1) hi
         else if r mid < 0 then bsearch r lo mid
         else if hi - lo = 1 then Some (Some mid)
         else if \<not> mid + 1 < hi then None
         else bsearch r lo (mid + 1))"
      unfolding bsearch.simps [of r lo hi] Let_def mid_def [symmetric] using True mid by simp
    consider (above) "r mid > 0" | (below) "r mid < 0" | (hit) "r mid = 0" by linarith
    then show ?thesis
    proof cases
      case above
      have "bsearch r (mid + 1) hi = Some (find (\<lambda>i. r i = 0) [mid + 1..<hi])"
      proof (rule 1(1) [OF True mid_def])
        show "\<not> \<not> (lo \<le> mid \<and> mid < hi)" using mid by simp
        show "r mid > 0" by (rule above)
        show "0 < r i" if "mid + 1 \<le> i" "i \<le> j" "j < hi" "0 < r j" for i j
          using that 1(4) [of i j] mid by simp
        show "r j < 0" if "mid + 1 \<le> i" "i \<le> j" "j < hi" "r i < 0" for i j
          using that 1(5) [of i j] mid by simp
        show "mid + 1 \<le> hi" using mid by simp
      qed
      moreover have "find (\<lambda>i. r i = 0) [lo..<mid + 1] = None"
        unfolding find_None_iff using 1(4) [of _ mid] above mid by fastforce
      ultimately show ?thesis
        using above mid find_upt_split [of lo "mid + 1" hi "\<lambda>i. r i = 0"] unfold by simp
    next
      case below
      have "bsearch r lo mid = Some (find (\<lambda>i. r i = 0) [lo..<mid])"
      proof (rule 1(2) [OF True mid_def])
        show "\<not> \<not> (lo \<le> mid \<and> mid < hi)" using mid by simp
        show "\<not> 0 < r mid" "r mid < 0" using below by simp_all
        show "0 < r i" if "lo \<le> i" "i \<le> j" "j < mid" "0 < r j" for i j
          using that 1(4) [of i j] mid by simp
        show "r j < 0" if "lo \<le> i" "i \<le> j" "j < mid" "r i < 0" for i j
          using that 1(5) [of i j] mid by simp
        show "lo \<le> mid" using mid by simp
      qed
      moreover have "find (\<lambda>i. r i = 0) [mid..<hi] = None"
        unfolding find_None_iff using 1(5) [of mid] below mid by fastforce
      ultimately show ?thesis
        using below mid find_upt_split [of lo mid hi "\<lambda>i. r i = 0"] unfold by (simp split: option.split)
    next
      case hit
      show ?thesis
      proof (cases "hi - lo = 1")
        case one: True
        then have "hi = Suc lo" "mid = lo" by (simp_all add: mid_def)
        then show ?thesis using unfold hit by simp
      next
        case False
        then have mid1: "mid + 1 < hi" using True by (auto simp: mid_def)
        have "bsearch r lo (mid + 1) = Some (find (\<lambda>i. r i = 0) [lo..<mid + 1])"
      proof (rule 1(3) [OF True mid_def])
        show "\<not> \<not> (lo \<le> mid \<and> mid < hi)" using mid by simp
        show "\<not> 0 < r mid" "\<not> r mid < 0" "hi - lo \<noteq> 1" "\<not> \<not> mid + 1 < hi" using hit False mid1 by simp_all
        show "0 < r i" if "lo \<le> i" "i \<le> j" "j < mid + 1" "0 < r j" for i j
          using that 1(4) [of i j] mid by simp
        show "r j < 0" if "lo \<le> i" "i \<le> j" "j < mid + 1" "r i < 0" for i j
          using that 1(5) [of i j] mid by simp
        show "lo \<le> mid + 1" using mid by simp
      qed
        moreover have "find (\<lambda>i. r i = 0) [lo..<mid + 1] \<noteq> None"
          unfolding find_None_iff using hit mid by auto
        ultimately show ?thesis
          using hit mid mid1 False find_upt_split [of lo "mid + 1" hi "\<lambda>i. r i = 0"] unfold
          by (auto split: option.split)
      qed
    qed
  qed
qed

lemma find_from_upt: "find_from p xs 0 = find (\<lambda>i. p (xs ! i)) [0..<length xs]"
proof (cases "find_from p xs 0")
  case None
  then have "find (\<lambda>i. p (xs ! i)) [0..<length xs] = None"
    unfolding find_None_iff find_from_None by auto
  then show ?thesis using None by simp
next
  case (Some i)
  then have "i < length xs \<and> p (xs ! i) \<and> (\<forall>j < i. \<not> p (xs ! j))" by (simp add: find_from_Some)
  then have "find (\<lambda>i. p (xs ! i)) [0..<length xs] = Some i"
    unfolding find_Some_iff by (intro exI [of _ i]) auto
  then show ?thesis using Some by simp
qed

lemma bsearch_cong: "(\<And>i. i < hi \<Longrightarrow> r i = r' i) \<Longrightarrow> bsearch r lo hi = bsearch r' lo hi"
proof (induction r lo hi rule: bsearch.induct)
  case (1 r lo hi)
  define mid where "mid = lo + (hi - lo - 1) div 2"
  show ?case
  proof (cases "lo < hi")
    case True
    then have mid: "lo \<le> mid" "mid < hi" by (auto simp: mid_def)
    then have "r' mid = r mid" using 1(4) by simp
    moreover have "r mid > 0 \<Longrightarrow> bsearch r (mid + 1) hi = bsearch r' (mid + 1) hi"
      using 1(1) [OF True mid_def] mid 1(4) by blast
    moreover have "\<not> r mid > 0 \<Longrightarrow> r mid < 0 \<Longrightarrow> bsearch r lo mid = bsearch r' lo mid"
      by (rule 1(2) [OF True mid_def]) (use mid 1(4) in simp_all)
    moreover have "\<not> r mid > 0 \<Longrightarrow> \<not> r mid < 0 \<Longrightarrow> hi - lo \<noteq> 1 \<Longrightarrow> mid + 1 < hi \<Longrightarrow>
        bsearch r lo (mid + 1) = bsearch r' lo (mid + 1)"
      by (rule 1(3) [OF True mid_def]) (use mid 1(4) in simp_all)
    ultimately show ?thesis
      unfolding bsearch.simps [of r lo hi] bsearch.simps [of r' lo hi] Let_def mid_def [symmetric]
      by presburger
  next
    case False
    then show ?thesis by (simp add: bsearch.simps)
  qed
qed

text \<open>On a sorted array the binary search is the linear search, and its assertions hold.\<close>

lemma bsearch_sorted:
  assumes c: "comparator c" and s: "sorted_wrt (\<lambda>x y. c x y \<le> 0) xs"
  shows "bsearch (\<lambda>i. c p (xs ! i)) 0 (length xs) = Some (find_from (\<lambda>x. c p x = 0) xs 0)"
proof -
  have le: "c (xs ! i) (xs ! j) \<le> 0" if "i \<le> j" "j < length xs" for i j
    using that s comparator_refl [OF c] by (cases "i = j") (auto simp: sorted_wrt_iff_nth_less)
  show ?thesis
    unfolding find_from_upt
  proof (rule bsearch_exact)
    show "0 < c p (xs ! i)" if "i \<le> j" "j < length xs" "0 < c p (xs ! j)" for i j
      using comparator_trans [OF c, of p "xs ! i" "xs ! j"] le that by fastforce
    show "c p (xs ! j) < 0" if "i \<le> j" "j < length xs" "c p (xs ! i) < 0" for i j
      using comparator_trans [OF c, of "xs ! i" "xs ! j" p] le that
        comparator_less [OF c, of p] by (meson not_less)
  qed simp
qed

subsection \<open>Copying the elements\<close>

lemma deep_copy_from_ok:
  "deep_copy_from copy acc xs = Inr ys \<longleftrightarrow>
     (\<forall>p. Some p \<in> set xs \<longrightarrow> copy p \<noteq> None) \<and> ys = acc @ map (\<lambda>x. Option.bind x copy) xs"
  by (induction copy acc xs rule: deep_copy_from.induct) (auto split: option.split)

lemma deep_copy_from_error:
  assumes "deep_copy_from copy acc xs = Inl freed"
  shows "\<exists>ys p zs. xs = ys @ Some p # zs \<and> copy p = None \<and> (\<forall>q. Some q \<in> set ys \<longrightarrow> copy q \<noteq> None) \<and>
           freed = map the (filter (\<lambda>x. x \<noteq> None) (acc @ map (\<lambda>x. Option.bind x copy) ys))"
  using assms
proof (induction copy acc xs rule: deep_copy_from.induct)
  case (2 copy acc xs)
  then obtain ys p zs where "xs = ys @ Some p # zs" "copy p = None"
    "\<forall>q. Some q \<in> set ys \<longrightarrow> copy q \<noteq> None"
    "freed = map the (filter (\<lambda>x. x \<noteq> None) ((acc @ [None]) @ map (\<lambda>x. Option.bind x copy) ys))"
    by auto
  then show ?case by (intro exI [of _ "None # ys"] exI [of _ p] exI [of _ zs]) auto
next
  case (3 copy acc p xs)
  show ?case
  proof (cases "copy p")
    case None
    then show ?thesis using 3(2) by (intro exI [of _ "[]"] exI [of _ p] exI [of _ xs]) auto
  next
    case (Some q)
    then have "deep_copy_from copy (acc @ [Some q]) xs = Inl freed" using 3(2) by simp
    then obtain ys p' zs where "xs = ys @ Some p' # zs" "copy p' = None"
      "\<forall>q. Some q \<in> set ys \<longrightarrow> copy q \<noteq> None"
      "freed = map the (filter (\<lambda>x. x \<noteq> None) ((acc @ [Some q]) @ map (\<lambda>x. Option.bind x copy) ys))"
      using 3(1) [OF Some] by auto
    then show ?thesis using Some by (intro exI [of _ "Some p # ys"] exI [of _ p'] exI [of _ zs]) auto
  qed
qed simp

lemma sk_deep_copy_ok:
  assumes wf: "well_formed sk" and ex: "exact_alloc malloc"
    and r: "sk_deep_copy a b malloc copy sk = Inr sk'"
  shows "well_formed sk' \<and> contents sk' = map (\<lambda>x. Option.bind x copy) (contents sk) \<and>
         sk_sorted sk' = sk_sorted sk \<and> sk_comp sk' = sk_comp sk"
proof -
  obtain s d where s: "sk_dup a b malloc sk = Some s"
    and d: "deep_copy_from copy [] (contents s) = Inr d"
    and sk': "sk' = s\<lparr>sk_data := d @ drop (sk_len s) (sk_data s)\<rparr>"
    using r by (auto simp: sk_deep_copy_def contents_def split: option.splits sum.splits)
  note ok = sk_dup_ok [OF wf ex s]
  have "d = map (\<lambda>x. Option.bind x copy) (contents s)" using d by (simp add: deep_copy_from_ok)
  then show ?thesis
    using ok length_stack_contents [of s] by (auto simp: sk' well_formed_def contents_def)
qed

subsection \<open>Reachable stacks\<close>

text \<open>
  Every stack the operations build. With \<open>disciplined\<close> the client respects the \<open>sorted\<close> flag: it
  overwrites no element of a stack flagged as sorted, and its deep copies compare as what they were
  copied from.
\<close>

inductive reachable_stack ::
  "bool \<Rightarrow> (nat \<Rightarrow> 'p option list option) \<Rightarrow> (('p option \<Rightarrow> 'p option \<Rightarrow> int) \<Rightarrow> 'p option list \<Rightarrow> 'p option list) \<Rightarrow>
   (nat \<Rightarrow> 'p option \<Rightarrow> 'p option \<Rightarrow> int) \<Rightarrow> 'p stack \<Rightarrow> bool"
  for disciplined malloc qsort call_cmp where
  new: "sk_new a b cmp = Some sk \<Longrightarrow> reachable_stack disciplined malloc qsort call_cmp sk"
| zero: "reachable_stack disciplined malloc qsort call_cmp sk \<Longrightarrow> reachable_stack disciplined malloc qsort call_cmp (sk_zero sk)"
| set: "reachable_stack disciplined malloc qsort call_cmp sk \<Longrightarrow> (disciplined \<longrightarrow> \<not> sk_sorted sk) \<Longrightarrow>
    reachable_stack disciplined malloc qsort call_cmp (snd (sk_set sk i v))"
| insert: "reachable_stack disciplined malloc qsort call_cmp sk \<Longrightarrow>
    reachable_stack disciplined malloc qsort call_cmp (snd (sk_insert malloc sk p i))"
| delete: "reachable_stack disciplined malloc qsort call_cmp sk \<Longrightarrow>
    reachable_stack disciplined malloc qsort call_cmp (snd (sk_delete sk i))"
| delete_ptr: "reachable_stack disciplined malloc qsort call_cmp sk \<Longrightarrow>
    reachable_stack disciplined malloc qsort call_cmp (snd (sk_delete_ptr sk p))"
| shift: "reachable_stack disciplined malloc qsort call_cmp sk \<Longrightarrow>
    reachable_stack disciplined malloc qsort call_cmp (snd (sk_shift sk))"
| push: "reachable_stack disciplined malloc qsort call_cmp sk \<Longrightarrow>
    reachable_stack disciplined malloc qsort call_cmp (snd (sk_push malloc sk p))"
| pop: "reachable_stack disciplined malloc qsort call_cmp sk \<Longrightarrow>
    reachable_stack disciplined malloc qsort call_cmp (snd (sk_pop sk))"
| dup: "reachable_stack disciplined malloc qsort call_cmp sk \<Longrightarrow> sk_dup a b malloc sk = Some sk' \<Longrightarrow>
    reachable_stack disciplined malloc qsort call_cmp sk'"
| sort: "reachable_stack disciplined malloc qsort call_cmp sk \<Longrightarrow>
    reachable_stack disciplined malloc qsort call_cmp (sk_sort qsort call_cmp sk)"
| set_cmp: "reachable_stack disciplined malloc qsort call_cmp sk \<Longrightarrow>
    reachable_stack disciplined malloc qsort call_cmp (snd (sk_set_cmp_func sk cmp))"
| deep_copy: "reachable_stack disciplined malloc qsort call_cmp sk \<Longrightarrow>
    sk_deep_copy a b malloc copy sk = Inr sk' \<Longrightarrow>
    \<forall>c. disciplined \<and> sk_comp sk = Some c \<longrightarrow> (\<forall>x \<in> set (contents sk). \<forall>y \<in> set (contents sk).
      call_cmp c (Option.bind x copy) (Option.bind y copy) = call_cmp c x y) \<Longrightarrow>
    reachable_stack disciplined malloc qsort call_cmp sk'"

text \<open>The invariant: the array is well formed and the \<open>sorted\<close> flag does not lie.\<close>

definition flag_ok :: "(nat \<Rightarrow> 'p option \<Rightarrow> 'p option \<Rightarrow> int) \<Rightarrow> 'p stack \<Rightarrow> bool" where
  "flag_ok call_cmp sk \<longleftrightarrow>
     (sk_sorted sk \<longrightarrow>
        (case sk_comp sk of None \<Rightarrow> False
         | Some c \<Rightarrow> sorted_wrt (\<lambda>x y. call_cmp c x y \<le> 0) (contents sk)))"

lemma sorted_wrt_parts:
  "sorted_wrt P xs \<Longrightarrow> sorted_wrt P (take i xs @ drop (i + 1) xs)"
  "sorted_wrt P xs \<Longrightarrow> sorted_wrt P (remove1 x xs)"
  "sorted_wrt P xs \<Longrightarrow> sorted_wrt P (butlast xs)"
proof -
  assume s: "sorted_wrt P xs"
  have "sorted_wrt P (take i xs @ drop i xs)" using s by simp
  then show "sorted_wrt P (take i xs @ drop (i + 1) xs)"
    unfolding sorted_wrt_append
    by (metis sorted_wrt_drop drop_drop add.commute in_set_dropD plus_1_eq_Suc)
  show "sorted_wrt P (remove1 x xs)"
    using s by (induction xs) (auto dest: set_remove1_subset [THEN subsetD])
  show "sorted_wrt P (butlast xs)" using s by (simp add: butlast_conv_take sorted_wrt_take)
qed

lemma sk_sort_ok:
  assumes wf: "well_formed sk" and q: "sorts qsort" and c: "\<forall>k. comparator (call_cmp k)"
  shows "well_formed (sk_sort qsort call_cmp sk) \<and>
         mset (contents (sk_sort qsort call_cmp sk)) = mset (contents sk) \<and>
         sk_comp (sk_sort qsort call_cmp sk) = sk_comp sk \<and>
         (flag_ok call_cmp sk \<longrightarrow> flag_ok call_cmp (sk_sort qsort call_cmp sk)) \<and>
         (\<forall>k. sk_comp sk = Some k \<longrightarrow> \<not> sk_sorted sk \<longrightarrow>
            sorted_wrt (\<lambda>x y. call_cmp k x y \<le> 0) (contents (sk_sort qsort call_cmp sk))) \<and>
         sk_sorted (sk_sort qsort call_cmp sk) = (sk_sorted sk \<or> sk_comp sk \<noteq> None)"
proof (cases "sk_sorted sk \<or> sk_comp sk = None")
  case True
  then show ?thesis using wf by (auto simp: sk_sort_def split: option.split)
next
  case False
  then obtain k where k: "sk_comp sk = Some k" "\<not> sk_sorted sk" by blast
  define ys where "ys = qsort (call_cmp k) (contents sk)"
  have ys: "mset ys = mset (contents sk)" "sorted_wrt (\<lambda>x y. call_cmp k x y \<le> 0) ys"
    using q c unfolding sorts_def ys_def by blast+
  then have len: "length ys = sk_len sk" by (metis length_stack_contents mset_eq_length wf)
  show ?thesis
  proof (cases "sk_len sk \<ge> 2")
    case True
    then have "sk_sort qsort call_cmp sk =
        sk\<lparr>sk_data := ys @ drop (sk_len sk) (sk_data sk), sk_sorted := True\<rparr>"
      using k by (simp add: sk_sort_def ys_def contents_def)
    then show ?thesis
      using ys len wf k by (simp add: well_formed_def flag_ok_def) (simp add: contents_def)
  next
    case False
    then have r: "sk_sort qsort call_cmp sk = sk\<lparr>sk_sorted := True\<rparr>"
      using k by (simp add: sk_sort_def)
    have "length (contents sk) \<le> 1" using False wf by simp
    then have "sorted_wrt (\<lambda>x y. call_cmp k x y \<le> 0) (contents sk)"
      by (cases "contents sk") auto
    then show ?thesis
      unfolding r using wf k by (simp add: well_formed_def flag_ok_def)
  qed
qed

lemma flag_ok_kept:
  "flag_ok call_cmp sk \<Longrightarrow> sk_sorted sk' = sk_sorted sk \<Longrightarrow> sk_comp sk' = sk_comp sk \<Longrightarrow>
   (\<And>P. sorted_wrt P (contents sk) \<Longrightarrow> sorted_wrt P (contents sk')) \<Longrightarrow> flag_ok call_cmp sk'"
  by (auto simp: flag_ok_def split: option.splits)

lemma reachable_ok:
  assumes "reachable_stack disciplined malloc qsort call_cmp sk"
    and ex: "exact_alloc malloc" and c: "\<forall>k. comparator (call_cmp k)" and q: "sorts qsort"
  shows "well_formed sk \<and> (disciplined \<longrightarrow> flag_ok call_cmp sk)"
  using assms(1)
proof induction
  case (new a b cmp sk)
  then show ?case using sk_new_ok [of a b cmp sk] by (simp add: flag_ok_def)
next
  case (zero sk)
  then show ?case
    using sk_zero_ok [of sk] sk_zero_unsorted [of sk] by (metis flag_ok_def)
next
  case (set sk i v)
  then show ?case using sk_set_ok [of sk i v] by (auto simp: sk_set_def flag_ok_def)
next
  case (insert sk p i)
  then show ?case
    using sk_insert_ok [OF _ ex prod.collapse [symmetric], of sk p i] by (metis flag_ok_def)
next
  case (delete sk i)
  note ok = sk_delete_ok [OF conjunct1 [OF delete.IH] prod.collapse [symmetric], of i]
  have "flag_ok call_cmp (snd (sk_delete sk i))" if disciplined
    by (rule flag_ok_kept [OF mp [OF conjunct2 [OF delete.IH] that]])
      (use ok in \<open>auto simp: sorted_wrt_parts(1) [simplified] split: if_splits\<close>)
  then show ?case using ok by simp
next
  case (delete_ptr sk p)
  note ok = sk_delete_ptr_ok [OF conjunct1 [OF delete_ptr.IH] prod.collapse [symmetric], of p]
  have "flag_ok call_cmp (snd (sk_delete_ptr sk p))" if disciplined
    by (rule flag_ok_kept [OF mp [OF conjunct2 [OF delete_ptr.IH] that]])
      (use ok in \<open>auto simp: sorted_wrt_parts(2) split: if_splits\<close>)
  then show ?case using ok by simp
next
  case (shift sk)
  note ok = sk_shift_ok [OF conjunct1 [OF shift.IH] prod.collapse [symmetric]]
  have "flag_ok call_cmp (snd (sk_shift sk))" if disciplined
    by (rule flag_ok_kept [OF mp [OF conjunct2 [OF shift.IH] that]]) (use ok in \<open>auto split: list.splits\<close>)
  then show ?case using ok by simp
next
  case (push sk p)
  then show ?case
    using sk_insert_ok [OF _ ex prod.collapse [symmetric], of sk p "sk_len sk"]
    by (metis flag_ok_def sk_push_def)
next
  case (pop sk)
  note ok = sk_pop_ok [OF conjunct1 [OF pop.IH] prod.collapse [symmetric]]
  have "flag_ok call_cmp (snd (sk_pop sk))" if disciplined
    by (rule flag_ok_kept [OF mp [OF conjunct2 [OF pop.IH] that]])
      (use ok in \<open>auto simp: sorted_wrt_parts(3) split: if_splits\<close>)
  then show ?case using ok by simp
next
  case (dup sk a b sk')
  then show ?case using sk_dup_ok [OF _ ex dup.hyps(2)] by (auto intro: flag_ok_kept)
next
  case (sort sk)
  then show ?case using sk_sort_ok [OF _ q c, of sk] by simp
next
  case (set_cmp sk cmp)
  then show ?case by (auto simp: sk_set_cmp_func_def well_formed_def flag_ok_def split: option.splits)
next
  case (deep_copy sk a b copy sk')
  note ok = sk_deep_copy_ok [OF conjunct1 [OF deep_copy.IH] ex deep_copy.hyps(2)]
  have "flag_ok call_cmp sk'" if disciplined
    using ok deep_copy.IH deep_copy.hyps(3) that
    by (auto simp: flag_ok_def sorted_wrt_map split: option.splits elim!: sorted_wrt_mono_rel [rotated])
  then show ?case using ok by simp
qed

subsection \<open>The contract of a stack\<close>

text \<open>What the searches compare an element with: the comparison function, or the pointer itself.\<close>

definition matches :: "(nat \<Rightarrow> 'p option \<Rightarrow> 'p option \<Rightarrow> int) \<Rightarrow> 'p stack \<Rightarrow> 'p option \<Rightarrow> 'p option \<Rightarrow> bool" where
  "matches call_cmp sk p x = (case sk_comp sk of None \<Rightarrow> x = p | Some c \<Rightarrow> call_cmp c p x = 0)"

lemma sk_find_linear:
  assumes "well_formed sk" and "flag_ok call_cmp sk" and "\<forall>k. comparator (call_cmp k)"
    and "sk_comp sk = None \<or> p \<noteq> None"
  shows "sk_find call_cmp sk p = Some (find_from (matches call_cmp sk p) (contents sk) 0)"
proof (cases "sk_comp sk")
  case None
  then have "matches call_cmp sk p = (\<lambda>x. x = p)" by (simp add: matches_def fun_eq_iff)
  then show ?thesis using None by (simp add: sk_find_def contents_def)
next
  case (Some c)
  have m: "matches call_cmp sk p = (\<lambda>x. call_cmp c p x = 0)"
    using Some by (simp add: matches_def fun_eq_iff)
  show ?thesis
  proof (cases "sk_sorted sk")
    case True
    then have "sorted_wrt (\<lambda>x y. call_cmp c x y \<le> 0) (contents sk)"
      using assms(2) Some by (simp add: flag_ok_def)
    moreover have "comparator (call_cmp c)" using assms(3) by blast
    ultimately have "bsearch (\<lambda>i. call_cmp c p (contents sk ! i)) 0 (length (contents sk)) =
        Some (find_from (\<lambda>x. call_cmp c p x = 0) (contents sk) 0)"
      by (intro bsearch_sorted)
    moreover have "bsearch (\<lambda>i. call_cmp c p (sk_data sk ! i)) 0 (sk_len sk) =
        bsearch (\<lambda>i. call_cmp c p (contents sk ! i)) 0 (sk_len sk)"
      by (rule bsearch_cong) (simp add: contents_def)
    ultimately show ?thesis
      using assms(1,4) Some True by (auto simp: sk_find_def sk_is_sorted_def m)
  next
    case False
    then show ?thesis
      using assms(4) Some by (auto simp: sk_find_def sk_is_sorted_def m contents_def)
  qed
qed

text \<open>The clauses of the contract that need more than one of the lemmas above.\<close>

lemma sk_set_cmp_func_ok:
  "sk_set_cmp_func sk cmp = (old, sk') \<Longrightarrow>
     old = sk_comp sk \<and> sk_comp sk' = cmp \<and> contents sk' = contents sk \<and>
     sk_sorted sk' = (sk_sorted sk \<and> sk_comp sk = cmp)"
  by (auto simp: sk_set_cmp_func_def split: if_splits)

lemma sk_set_result:
  "well_formed sk \<Longrightarrow> sk_set sk i v = (x, sk') \<Longrightarrow>
     (if i < length (contents sk) then x = v \<and> contents sk' = (contents sk)[i := v] else x = None \<and> sk' = sk)"
  using sk_set_ok [of sk i v] by (auto simp: sk_set_def split: if_splits)

lemma sk_sort_result:
  assumes "well_formed sk" and "sorts qsort" and "\<forall>k. comparator (call_cmp k)"
  shows "case sk_comp sk of None \<Rightarrow> sk_sort qsort call_cmp sk = sk
    | Some c \<Rightarrow>
        if sk_sorted sk then sk_sort qsort call_cmp sk = sk
        else mset (contents (sk_sort qsort call_cmp sk)) = mset (contents sk) \<and>
          sorted_wrt (\<lambda>x y. call_cmp c x y \<le> 0) (contents (sk_sort qsort call_cmp sk)) \<and>
          sk_is_sorted (Some (sk_sort qsort call_cmp sk))"
  using sk_sort_ok [OF assms] by (auto simp: sk_is_sorted_def split: option.split) (simp_all add: sk_sort_def)

text \<open>C28. Every stack the operations build, whatever a client does with them, is a list, and each
  operation is the list operation: \<open>sk_num\<close>, \<open>sk_value\<close> and \<open>sk_pop_free_ex\<close> read the list, \<open>sk_set\<close>,
  \<open>sk_insert\<close>, \<open>sk_push\<close>, \<open>sk_delete\<close>, \<open>sk_delete_ptr\<close>, \<open>sk_shift\<close>, \<open>sk_pop\<close> and \<open>sk_zero\<close> change it at
  the place they are given, or return \<open>NULL\<close> or 0 and leave the stack alone; \<open>sk_dup\<close> and \<open>sk_deep_copy\<close>
  copy it; \<open>sk_sort\<close> puts a stack that is not flagged as sorted in the order of its comparison
  function, keeping the elements, and changes no other; \<open>sk_set_cmp_func\<close> replaces the function and
  drops the flag when it differs.\<close>

theorem stack_is_list:
  assumes "reachable_stack False malloc qsort call_cmp sk"
    and "exact_alloc malloc" and "\<forall>k. comparator (call_cmp k)" and "sorts qsort"
  defines "xs \<equiv> contents sk"
  shows "sk_num (Some sk) = length xs \<and>
         (\<forall>i. sk_value (Some sk) i = (if i < length xs then xs ! i else None)) \<and>
         (\<forall>i v x sk'. sk_set sk i v = (x, sk') \<longrightarrow>
            (if i < length xs then x = v \<and> contents sk' = xs[i := v] else x = None \<and> sk' = sk)) \<and>
         (\<forall>p i n sk'. sk_insert malloc sk p i = (n, sk') \<longrightarrow>
            n = 0 \<and> sk' = sk \<or> n = length xs + 1 \<and> contents sk' = take i xs @ p # drop i xs) \<and>
         (\<forall>p n sk'. sk_push malloc sk p = (n, sk') \<longrightarrow>
            n = 0 \<and> sk' = sk \<or> n = length xs + 1 \<and> contents sk' = xs @ [p]) \<and>
         (\<forall>i x sk'. sk_delete sk i = (x, sk') \<longrightarrow>
            (if i < length xs then x = xs ! i \<and> contents sk' = take i xs @ drop (i + 1) xs
             else x = None \<and> sk' = sk)) \<and>
         (\<forall>p x sk'. sk_delete_ptr sk p = (x, sk') \<longrightarrow>
            (if p \<in> set xs then x = p \<and> contents sk' = remove1 p xs else x = None \<and> sk' = sk)) \<and>
         (\<forall>x sk'. sk_shift sk = (x, sk') \<longrightarrow>
            (case xs of [] \<Rightarrow> x = None \<and> sk' = sk | y # ys \<Rightarrow> x = y \<and> contents sk' = ys)) \<and>
         (\<forall>x sk'. sk_pop sk = (x, sk') \<longrightarrow>
            (if xs = [] then x = None \<and> sk' = sk else x = last xs \<and> contents sk' = butlast xs)) \<and>
         contents (sk_zero sk) = [] \<and>
         sk_pop_free_ex sk = map the (filter (\<lambda>p. p \<noteq> None) xs) \<and>
         (\<forall>a b sk'. sk_dup a b malloc sk = Some sk' \<longrightarrow>
            contents sk' = xs \<and> sk_sorted sk' = sk_sorted sk \<and> sk_comp sk' = sk_comp sk) \<and>
         (\<forall>a b copy sk'. sk_deep_copy a b malloc copy sk = Inr sk' \<longrightarrow>
            contents sk' = map (\<lambda>x. Option.bind x copy) xs \<and> sk_sorted sk' = sk_sorted sk \<and> sk_comp sk' = sk_comp sk) \<and>
         (\<forall>cmp old sk'. sk_set_cmp_func sk cmp = (old, sk') \<longrightarrow>
            old = sk_comp sk \<and> sk_comp sk' = cmp \<and> contents sk' = xs \<and>
            sk_sorted sk' = (sk_sorted sk \<and> sk_comp sk = cmp)) \<and>
         (case sk_comp sk of None \<Rightarrow> sk_sort qsort call_cmp sk = sk
          | Some c \<Rightarrow>
              if sk_sorted sk then sk_sort qsort call_cmp sk = sk
              else mset (contents (sk_sort qsort call_cmp sk)) = mset xs \<and>
                sorted_wrt (\<lambda>x y. call_cmp c x y \<le> 0) (contents (sk_sort qsort call_cmp sk)) \<and>
                sk_is_sorted (Some (sk_sort qsort call_cmp sk)))"
proof -
  have wf: "well_formed sk" using reachable_ok [OF assms(1-4)] by blast
  have len: "sk_len sk = length xs" using length_stack_contents [OF wf] by (simp add: xs_def)
  have push: "n = 0 \<and> sk' = sk \<or> n = length xs + 1 \<and> contents sk' = xs @ [p]"
    if "sk_push malloc sk p = (n, sk')" for p n sk'
    using sk_insert_ok [OF wf assms(2) that [unfolded sk_push_def]] len by (auto simp flip: xs_def)
  have ins: "n = 0 \<and> sk' = sk \<or> n = length xs + 1 \<and> contents sk' = take i xs @ p # drop i xs"
    if "sk_insert malloc sk p i = (n, sk')" for p i n sk'
    using sk_insert_ok [OF wf assms(2) that] unfolding xs_def by blast
  have frees: "sk_pop_free_ex sk = map the (filter (\<lambda>p. p \<noteq> None) xs)"
    by (simp add: sk_pop_free_ex_def xs_def contents_def)
  have num: "sk_num (Some sk) = length xs" by (simp add: sk_num_def len)
  note set_cmp = sk_set_cmp_func_ok [of sk]
  show ?thesis
    unfolding xs_def
    by (intro conjI allI impI num [unfolded xs_def] frees [unfolded xs_def] sk_value_contents [OF wf]
        sk_set_result [OF wf] ins [unfolded xs_def] push [unfolded xs_def]
        sk_delete_ok [OF wf, THEN conjunct1] sk_delete_ptr_ok [OF wf, THEN conjunct1]
        sk_shift_ok [OF wf, THEN conjunct1] sk_pop_ok [OF wf, THEN conjunct1]
        sk_zero_ok [OF wf, THEN conjunct2] sk_dup_ok [OF wf assms(2), THEN conjunct2, THEN conjunct1]
        sk_dup_ok [OF wf assms(2), THEN conjunct2, THEN conjunct2, THEN conjunct1]
        sk_dup_ok [OF wf assms(2), THEN conjunct2, THEN conjunct2, THEN conjunct2]
        sk_deep_copy_ok [OF wf assms(2), THEN conjunct2, THEN conjunct1]
        sk_deep_copy_ok [OF wf assms(2), THEN conjunct2, THEN conjunct2, THEN conjunct1]
        sk_deep_copy_ok [OF wf assms(2), THEN conjunct2, THEN conjunct2, THEN conjunct2]
        set_cmp [THEN conjunct1] set_cmp [THEN conjunct2, THEN conjunct1]
        set_cmp [THEN conjunct2, THEN conjunct2, THEN conjunct1]
        set_cmp [THEN conjunct2, THEN conjunct2, THEN conjunct2]
        sk_sort_result [OF wf assms(4,3)])
qed

text \<open>C29. The search, on a stack that was built without overwriting an element while the \<open>sorted\<close> flag
  was set (and whose deep copies compare like their originals): in a stack with a comparison function
  a search for \<open>NULL\<close> finds nothing; any other search finds the first element that matches, exactly
  when there is one. The search is binary when the stack is flagged as sorted, and its
  assertions do not fail. Without the first condition the claim is false: see
  \<open>sk_set_keeps_sorted_flag\<close> below.\<close>

theorem sk_find_first:
  assumes "reachable_stack True malloc qsort call_cmp sk"
    and "exact_alloc malloc" and "\<forall>k. comparator (call_cmp k)" and "sorts qsort"
  shows "\<exists>r. sk_find call_cmp sk p = Some r \<and>
           (if sk_comp sk \<noteq> None \<and> p = None then r = None
            else \<forall>i. r = Some i \<longleftrightarrow>
              i < length (contents sk) \<and> matches call_cmp sk p (contents sk ! i) \<and>
              (\<forall>j < i. \<not> matches call_cmp sk p (contents sk ! j)))"
proof (cases "sk_comp sk \<noteq> None \<and> p = None")
  case True
  then show ?thesis by (auto simp: sk_find_def split: option.split)
next
  case False
  note ok = reachable_ok [OF assms]
  show ?thesis
    using sk_find_linear [OF conjunct1 [OF ok] mp [OF conjunct2 [OF ok] TrueI] assms(3), of p] False
    by (auto simp: find_from_Some)
qed

text \<open>C30. When copying an element fails, \<open>sk_deep_copy\<close> frees the copies it made, all of them and
  nothing else; when none fails, it returns the copies in order.\<close>

theorem sk_deep_copy_exact:
  assumes "well_formed sk" and "exact_alloc malloc" and "sk_dup a b malloc sk \<noteq> None"
  shows "case sk_deep_copy a b malloc copy sk of
           Inr sk' \<Rightarrow> (\<forall>p. Some p \<in> set (contents sk) \<longrightarrow> copy p \<noteq> None) \<and>
             contents sk' = map (\<lambda>x. Option.bind x copy) (contents sk)
         | Inl freed \<Rightarrow> \<exists>ys p zs. contents sk = ys @ Some p # zs \<and> copy p = None \<and>
             freed = map (the \<circ> copy \<circ> the) (filter (\<lambda>x. x \<noteq> None) ys)"
proof -
  obtain s where s: "sk_dup a b malloc sk = Some s" using assms(3) by blast
  have c: "contents s = contents sk" using sk_dup_ok [OF assms(1,2) s] by blast
  show ?thesis
  proof (cases "sk_deep_copy a b malloc copy sk")
    case (Inr sk')
    then have "deep_copy_from copy [] (contents sk) \<noteq> Inl f" for f
      using s c by (auto simp: sk_deep_copy_def contents_def split: sum.splits)
    then obtain d where "deep_copy_from copy [] (contents sk) = Inr d"
      by (meson obj_sumE)
    then show ?thesis
      using Inr sk_deep_copy_ok [OF assms(1,2) Inr] deep_copy_from_ok [of copy "[]" "contents sk" d] by simp
  next
    case (Inl freed)
    then have "deep_copy_from copy [] (contents sk) = Inl freed"
      using s c by (auto simp: sk_deep_copy_def contents_def split: sum.splits)
    from deep_copy_from_error [OF this] obtain ys p zs where split:
      "contents sk = ys @ Some p # zs" "copy p = None" "\<forall>q. Some q \<in> set ys \<longrightarrow> copy q \<noteq> None"
      "freed = map the (filter (\<lambda>x. x \<noteq> None) (map (\<lambda>x. Option.bind x copy) ys))"
      by auto
    have "map the (filter (\<lambda>x. x \<noteq> None) (map (\<lambda>x. Option.bind x copy) ys)) =
          map (the \<circ> copy \<circ> the) (filter (\<lambda>x. x \<noteq> None) ys)"
      using split(3)
    proof (induction ys)
      case (Cons y ys)
      then show ?case by (cases y) auto
    qed simp
    then show ?thesis using split(1,2,4) Inl by auto
  qed
qed

subsection \<open>Concrete stacks\<close>

text \<open>Numbers in their order, an insertion sort and an allocator that zeroes its blocks.\<close>

definition num_cmp :: "nat \<Rightarrow> nat option \<Rightarrow> nat option \<Rightarrow> int" where
  "num_cmp k x y = (case x of None \<Rightarrow> - 1 | Some n \<Rightarrow> int n) - (case y of None \<Rightarrow> - 1 | Some n \<Rightarrow> int n)"

fun insert_by :: "('a \<Rightarrow> 'a \<Rightarrow> int) \<Rightarrow> 'a \<Rightarrow> 'a list \<Rightarrow> 'a list" where
  "insert_by c x [] = [x]"
| "insert_by c x (y # ys) = (if c x y \<le> 0 then x # y # ys else y # insert_by c x ys)"

definition insertion_sort :: "('a \<Rightarrow> 'a \<Rightarrow> int) \<Rightarrow> 'a list \<Rightarrow> 'a list" where
  "insertion_sort c xs = foldr (insert_by c) xs []"

definition zero_alloc :: "nat \<Rightarrow> nat option list option" where
  "zero_alloc n = Some (replicate n None)"

lemma mset_insert_by: "mset (insert_by c x ys) = add_mset x (mset ys)"
  by (induction ys) auto

lemma set_insert_by: "set (insert_by c x ys) = insert x (set ys)"
  by (induction ys) auto

lemma sorts_insertion_sort: "sorts insertion_sort"
  unfolding sorts_def
proof (intro allI impI conjI)
  fix c :: "'a \<Rightarrow> 'a \<Rightarrow> int" and xs :: "'a list"
  assume c: "comparator c"
  have step: "sorted_wrt (\<lambda>x y. c x y \<le> 0) (insert_by c x ys)" if "sorted_wrt (\<lambda>x y. c x y \<le> 0) ys" for x ys
    using that
  proof (induction ys)
    case (Cons y ys)
    show ?case
    proof (cases "c x y \<le> 0")
      case True
      then show ?thesis using Cons.prems comparator_trans [OF c True] by auto
    next
      case False
      then have "c y x \<le> 0" using comparator_less [OF c, of y x] by linarith
      then show ?thesis using Cons False by (auto simp: set_insert_by)
    qed
  qed simp
  show "sorted_wrt (\<lambda>x y. c x y \<le> 0) (insertion_sort c xs)"
    by (induction xs) (simp_all add: insertion_sort_def step)
  show "mset (insertion_sort c xs) = mset xs"
    by (induction xs) (simp_all add: insertion_sort_def mset_insert_by)
qed

lemma num_cmp_comparator: "\<forall>k. comparator (num_cmp k)"
  by (auto simp: comparator_def num_cmp_def)

lemma exact_zero_alloc: "exact_alloc zero_alloc"
  by (simp add: exact_alloc_def zero_alloc_def)

definition three :: "nat stack" where
  "three =
     (let s = the (sk_new True True (Some 0));
          s = snd (sk_push zero_alloc s (Some 30)); s = snd (sk_push zero_alloc s (Some 10));
          s = snd (sk_push zero_alloc s (Some 20))
      in sk_sort insertion_sort num_cmp s)"

lemma three_reachable: "reachable_stack disciplined zero_alloc insertion_sort num_cmp three"
proof -
  have "sk_new True True (Some 0) = Some (the (sk_new True True (Some 0) :: nat stack option))"
    by (simp add: sk_new_def)
  then show ?thesis
    unfolding three_def Let_def
    by (intro reachable_stack.sort reachable_stack.push) (rule reachable_stack.new)
qed

lemma three_value: "contents three = [Some 10, Some 20, Some 30] \<and> sk_comp three = Some 0"
  by code_simp

theorem stack_is_list_witness:
  "sk_num (Some three) = 3 \<and> contents (snd (sk_push zero_alloc three (Some 5))) = [Some 10, Some 20, Some 30, Some 5] \<and>
   contents (snd (sk_set three 1 None)) = [Some 10, None, Some 30]"
proof -
  note L = stack_is_list [OF three_reachable exact_zero_alloc num_cmp_comparator sorts_insertion_sort]
  note num = L [THEN conjunct1] and rest = L [THEN conjunct2, THEN conjunct2]
  note set = rest [THEN conjunct1, rule_format, OF prod.collapse [symmetric]]
  note push = rest [THEN conjunct2, THEN conjunct2, THEN conjunct1, rule_format, OF prod.collapse [symmetric]]
  have "fst (sk_push zero_alloc three (Some 5)) = 4" by code_simp
  then show ?thesis using num push [of "Some 5"] set [of 1 None] three_value by simp
qed

theorem sk_find_first_witness: "sk_find num_cmp three (Some 20) = Some (Some 1)"
proof -
  obtain r where r: "sk_find num_cmp three (Some 20) = Some r"
    and first: "\<forall>i. r = Some i \<longleftrightarrow> i < length (contents three) \<and>
      matches num_cmp three (Some 20) (contents three ! i) \<and>
      (\<forall>j < i. \<not> matches num_cmp three (Some 20) (contents three ! j))"
    using sk_find_first [OF three_reachable exact_zero_alloc num_cmp_comparator sorts_insertion_sort,
        of "Some 20"] by auto
  have "r = Some 1"
    using first [rule_format, of 1] three_value by (simp add: matches_def num_cmp_def)
  then show ?thesis using r by simp
qed

theorem sk_deep_copy_exact_witness:
  "sk_dup True True zero_alloc three \<noteq> None \<and>
   sk_deep_copy True True zero_alloc (\<lambda>n. if n < 30 then Some (n + 1) else None) three = Inl [11, 21]"
proof -
  have wf: "well_formed three"
    using reachable_ok [OF three_reachable exact_zero_alloc num_cmp_comparator sorts_insertion_sort] by blast
  have d: "sk_dup True True zero_alloc three \<noteq> None" by code_simp
  show ?thesis
    using sk_deep_copy_exact [OF wf exact_zero_alloc d, of "\<lambda>n. if n < 30 then Some (n + 1) else None"]
      three_value d
    by (auto simp: append_eq_Cons_conv Cons_eq_append_conv split: sum.splits if_splits)
qed

text \<open>\<open>sk_set\<close> does not clear the \<open>sorted\<close> flag: after it a search can miss an element the stack
  holds.\<close>

theorem sk_set_keeps_sorted_flag:
  "fst (sk_set three 0 (Some 99)) = Some 99 \<and>
   Some 99 \<in> set (contents (snd (sk_set three 0 (Some 99)))) \<and>
   sk_sorted (snd (sk_set three 0 (Some 99))) \<and>
   sk_find num_cmp (snd (sk_set three 0 (Some 99))) (Some 99) = Some None"
  by code_simp

end
