(* ===== verification/Cbs.thy ===== *)
theory Cbs
  imports Prelude
begin

section \<open>Parsing byte strings (crypto/bytestring/cbs.c)\<close>

text \<open>
  A \<open>CBS\<close> is a pointer and a length into memory the routines never write, so its value is the
  string of bytes it spans; the out-parameters that are themselves \<open>CBS\<close>s are values too.
  The routines advance the cursor they are given. Some of them have advanced it before they
  fail (a length prefix is consumed even when the body is short), and the model returns the
  cursor they leave in every case.
\<close>

subsection \<open>Cursor operations\<close>

type_synonym cbs = bytes

definition CBS_init :: "bytes \<Rightarrow> nat \<Rightarrow> cbs" where
  "CBS_init data len = take len data"

definition CBS_len :: "cbs \<Rightarrow> nat" where
  "CBS_len cbs = length cbs"

definition cbs_get :: "nat \<Rightarrow> (cbs, bytes) crun" where
  "cbs_get n cbs = (if length cbs < n then (None, cbs) else (Some (take n cbs), drop n cbs))"

definition CBS_skip :: "nat \<Rightarrow> (cbs, unit) crun" where
  "CBS_skip len cbs = (case cbs_get len cbs of (None, c) \<Rightarrow> (None, c) | (Some _, c) \<Rightarrow> (Some (), c))"

definition CBS_contains_zero_byte :: "cbs \<Rightarrow> bool" where
  "CBS_contains_zero_byte cbs = (0 \<in> set cbs)"

text \<open>\<open>CRYPTO_memcmp\<close> on equal lengths is zero exactly when the strings agree.\<close>

definition CBS_mem_equal :: "cbs \<Rightarrow> bytes \<Rightarrow> bool" where
  "CBS_mem_equal cbs data = (if length data \<noteq> length cbs then False else cbs = data)"

text \<open>The loop of \<open>cbs_get_u\<close>, on its 64-bit accumulator.\<close>

fun cbs_get_u_loop :: "u64 \<Rightarrow> bytes \<Rightarrow> u64" where
  "cbs_get_u_loop result [] = result"
| "cbs_get_u_loop result (d # ds) = cbs_get_u_loop (push_bit 8 result OR ucast d) ds"

definition cbs_get_u :: "nat \<Rightarrow> (cbs, u64) crun" where
  "cbs_get_u len cbs =
     (case cbs_get len cbs of
        (None, c) \<Rightarrow> (None, c)
      | (Some data, c) \<Rightarrow> (Some (cbs_get_u_loop 0 data), c))"

definition CBS_get_u8 :: "(cbs, byte) crun" where
  "CBS_get_u8 cbs =
     (case cbs_get 1 cbs of (None, c) \<Rightarrow> (None, c) | (Some v, c) \<Rightarrow> (Some (v ! 0), c))"

definition CBS_get_u16 :: "(cbs, u16) crun" where
  "CBS_get_u16 cbs =
     (case cbs_get_u 2 cbs of (None, c) \<Rightarrow> (None, c) | (Some v, c) \<Rightarrow> (Some (ucast v), c))"

definition CBS_get_u24 :: "(cbs, u32) crun" where
  "CBS_get_u24 cbs =
     (case cbs_get_u 3 cbs of (None, c) \<Rightarrow> (None, c) | (Some v, c) \<Rightarrow> (Some (ucast v), c))"

definition CBS_get_u32 :: "(cbs, u32) crun" where
  "CBS_get_u32 cbs =
     (case cbs_get_u 4 cbs of (None, c) \<Rightarrow> (None, c) | (Some v, c) \<Rightarrow> (Some (ucast v), c))"

definition CBS_get_u64 :: "(cbs, u64) crun" where
  "CBS_get_u64 cbs = cbs_get_u 8 cbs"

definition CBS_get_last_u8 :: "(cbs, byte) crun" where
  "CBS_get_last_u8 cbs =
     (if length cbs = 0 then (None, cbs)
      else (Some (cbs ! (length cbs - 1)), take (length cbs - 1) cbs))"

definition CBS_get_bytes :: "nat \<Rightarrow> (cbs, cbs) crun" where
  "CBS_get_bytes len cbs =
     (case cbs_get len cbs of (None, c) \<Rightarrow> (None, c) | (Some v, c) \<Rightarrow> (Some (CBS_init v len), c))"

definition CBS_copy_bytes :: "nat \<Rightarrow> (cbs, bytes) crun" where
  "CBS_copy_bytes len cbs = cbs_get len cbs"

text \<open>The length prefix is consumed even when the body turns out to be too short.\<close>

definition cbs_get_length_prefixed :: "nat \<Rightarrow> (cbs, cbs) crun" where
  "cbs_get_length_prefixed len_len cbs =
     (case cbs_get_u len_len cbs of
        (None, c) \<Rightarrow> (None, c)
      | (Some len, c) \<Rightarrow> CBS_get_bytes (unat len) c)"

definition CBS_get_u8_length_prefixed :: "(cbs, cbs) crun" where
  "CBS_get_u8_length_prefixed = cbs_get_length_prefixed 1"

definition CBS_get_u16_length_prefixed :: "(cbs, cbs) crun" where
  "CBS_get_u16_length_prefixed = cbs_get_length_prefixed 2"

definition CBS_get_u24_length_prefixed :: "(cbs, cbs) crun" where
  "CBS_get_u24_length_prefixed = cbs_get_length_prefixed 3"

subsection \<open>ASN.1 tags and elements\<close>

definition CBS_ASN1_TAG_SHIFT :: nat where "CBS_ASN1_TAG_SHIFT = 24"
definition CBS_ASN1_CONSTRUCTED :: u32 where "CBS_ASN1_CONSTRUCTED = push_bit CBS_ASN1_TAG_SHIFT 0x20"
definition CBS_ASN1_TAG_NUMBER_MASK :: u32 where
  "CBS_ASN1_TAG_NUMBER_MASK = push_bit (5 + CBS_ASN1_TAG_SHIFT) 1 - 1"
definition CBS_ASN1_BOOLEAN :: u32 where "CBS_ASN1_BOOLEAN = 1"
definition CBS_ASN1_INTEGER :: u32 where "CBS_ASN1_INTEGER = 2"
definition CBS_ASN1_OCTETSTRING :: u32 where "CBS_ASN1_OCTETSTRING = 4"

lemmas asn1_consts = CBS_ASN1_TAG_SHIFT_def CBS_ASN1_CONSTRUCTED_def CBS_ASN1_TAG_NUMBER_MASK_def
  CBS_ASN1_BOOLEAN_def CBS_ASN1_INTEGER_def CBS_ASN1_OCTETSTRING_def

text \<open>
  The do-while loop of \<open>parse_base128_integer\<close>: every byte is read, checked against the
  accumulated value, and added; a byte with a clear high bit ends the value.
\<close>

fun parse_base128_loop :: "u64 \<Rightarrow> (cbs, u64) crun" where
  "parse_base128_loop v [] = (None, [])"
| "parse_base128_loop v (b # cbs) =
     (if drop_bit (64 - 7) v \<noteq> 0 then (None, cbs)
      else if v = 0 \<and> b = 0x80 then (None, cbs)
      else
        let v = push_bit 7 v OR ucast (b AND 0x7f) in
        if b AND 0x80 \<noteq> 0 then parse_base128_loop v cbs else (Some v, cbs))"

definition parse_base128_integer :: "(cbs, u64) crun" where
  "parse_base128_integer = parse_base128_loop 0"

definition parse_asn1_tag :: "(cbs, u32) crun" where
  "parse_asn1_tag cbs =
     (case CBS_get_u8 cbs of
        (None, c) \<Rightarrow> (None, c)
      | (Some tag_byte, c) \<Rightarrow>
          let tag = push_bit CBS_ASN1_TAG_SHIFT (ucast tag_byte AND 0xe0) :: u32;
              tag_number = ucast (tag_byte AND 0x1f) :: u32 in
          if tag_number = 0x1f then
            (case parse_base128_integer c of
               (None, c) \<Rightarrow> (None, c)
             | (Some v, c) \<Rightarrow>
                 if v > ucast CBS_ASN1_TAG_NUMBER_MASK \<or> v < 0x1f then (None, c)
                 else (Some (tag OR ucast v), c))
          else (Some (tag OR tag_number), c))"

text \<open>
  On success: the element with its header, its tag and the length of the header. The cursor
  moves only on success; the header is parsed on a copy.
\<close>

definition cbs_get_any_asn1_element :: "bool \<Rightarrow> (cbs, cbs \<times> u32 \<times> nat) crun" where
  "cbs_get_any_asn1_element ber_ok cbs =
     (case parse_asn1_tag cbs of
        (None, _) \<Rightarrow> (None, cbs)
      | (Some tag, header) \<Rightarrow>
     (case CBS_get_u8 header of
        (None, _) \<Rightarrow> (None, cbs)
      | (Some length_byte, header) \<Rightarrow>
          let header_len = CBS_len cbs - CBS_len header in
          let finish = (\<lambda>hlen len. case CBS_get_bytes len cbs of
                            (None, c) \<Rightarrow> (None, c)
                          | (Some out, c) \<Rightarrow> (Some (out, tag, hlen), c)) in
          if length_byte AND 0x80 = 0 then
            finish header_len (unat length_byte + header_len)
          else
            let num_bytes = unat (length_byte AND 0x7f) in
            if ber_ok \<and> tag AND CBS_ASN1_CONSTRUCTED \<noteq> 0 \<and> num_bytes = 0 then
              finish header_len header_len
            else if num_bytes = 0 \<or> num_bytes > 4 then (None, cbs)
            else
              (case cbs_get_u num_bytes header of
                 (None, _) \<Rightarrow> (None, cbs)
               | (Some len64, _) \<Rightarrow>
                   if len64 < 128 then (None, cbs)
                   else if drop_bit ((num_bytes - 1) * 8) len64 = 0 then (None, cbs)
                   else if (unat len64 + header_len + num_bytes) mod SIZE_LIMIT < unat len64
                   then (None, cbs)
                   else finish (header_len + num_bytes)
                          ((unat len64 + header_len + num_bytes) mod SIZE_LIMIT))))"

definition CBS_get_any_asn1_element :: "(cbs, cbs \<times> u32 \<times> nat) crun" where
  "CBS_get_any_asn1_element = cbs_get_any_asn1_element False"

definition CBS_get_any_ber_asn1_element :: "(cbs, cbs \<times> u32 \<times> nat) crun" where
  "CBS_get_any_ber_asn1_element = cbs_get_any_asn1_element True"

definition CBS_get_any_asn1 :: "(cbs, cbs \<times> u32) crun" where
  "CBS_get_any_asn1 cbs =
     (case CBS_get_any_asn1_element cbs of
        (None, c) \<Rightarrow> (None, c)
      | (Some (out, tag, header_len), c) \<Rightarrow>
          (case CBS_skip header_len out of
             (None, _) \<Rightarrow> (None, c)
           | (Some _, out) \<Rightarrow> (Some (out, tag), c)))"

definition cbs_get_asn1 :: "u32 \<Rightarrow> bool \<Rightarrow> (cbs, cbs) crun" where
  "cbs_get_asn1 tag_value skip_header cbs =
     (case CBS_get_any_asn1_element cbs of
        (None, c) \<Rightarrow> (None, c)
      | (Some (out, tag, header_len), c) \<Rightarrow>
          if tag \<noteq> tag_value then (None, c)
          else if skip_header then
            (case CBS_skip header_len out of
               (None, _) \<Rightarrow> (None, c)
             | (Some _, out) \<Rightarrow> (Some out, c))
          else (Some out, c))"

definition CBS_get_asn1 :: "u32 \<Rightarrow> (cbs, cbs) crun" where
  "CBS_get_asn1 tag_value = cbs_get_asn1 tag_value True"

definition CBS_get_asn1_element :: "u32 \<Rightarrow> (cbs, cbs) crun" where
  "CBS_get_asn1_element tag_value = cbs_get_asn1 tag_value False"

definition CBS_peek_asn1_tag :: "cbs \<Rightarrow> u32 \<Rightarrow> bool" where
  "CBS_peek_asn1_tag cbs tag_value =
     (if CBS_len cbs < 1 then False
      else case parse_asn1_tag cbs of
             (None, _) \<Rightarrow> False
           | (Some actual_tag, _) \<Rightarrow> tag_value = actual_tag)"

subsection \<open>Typed values\<close>

fun asn1_uint64_loop :: "u64 \<Rightarrow> bytes \<Rightarrow> u64 option" where
  "asn1_uint64_loop out [] = Some out"
| "asn1_uint64_loop out (d # ds) =
     (if drop_bit 56 out \<noteq> 0 then None
      else asn1_uint64_loop (push_bit 8 out OR ucast d) ds)"

definition CBS_get_asn1_uint64 :: "(cbs, u64) crun" where
  "CBS_get_asn1_uint64 cbs =
     (case CBS_get_asn1 CBS_ASN1_INTEGER cbs of
        (None, c) \<Rightarrow> (None, c)
      | (Some data, c) \<Rightarrow>
          if CBS_len data = 0 then (None, c)
          else if data ! 0 AND 0x80 \<noteq> 0 then (None, c)
          else if data ! 0 = 0 \<and> CBS_len data > 1 \<and> data ! 1 AND 0x80 = 0 then (None, c)
          else (asn1_uint64_loop 0 data, c))"

definition CBS_get_asn1_bool :: "(cbs, bool) crun" where
  "CBS_get_asn1_bool cbs =
     (case CBS_get_asn1 CBS_ASN1_BOOLEAN cbs of
        (None, c) \<Rightarrow> (None, c)
      | (Some data, c) \<Rightarrow>
          if CBS_len data \<noteq> 1 then (None, c)
          else let value = data ! 0 in
            if value \<noteq> 0 \<and> value \<noteq> 0xff then (None, c) else (Some (value \<noteq> 0), c))"

text \<open>\<open>Some None\<close> is a successful call that found no such element.\<close>

definition CBS_get_optional_asn1 :: "u32 \<Rightarrow> (cbs, cbs option) crun" where
  "CBS_get_optional_asn1 tag cbs =
     (if CBS_peek_asn1_tag cbs tag then
        (case CBS_get_asn1 tag cbs of
           (None, c) \<Rightarrow> (None, c)
         | (Some out, c) \<Rightarrow> (Some (Some out), c))
      else (Some None, cbs))"

definition CBS_get_optional_asn1_octet_string :: "u32 \<Rightarrow> (cbs, cbs \<times> bool) crun" where
  "CBS_get_optional_asn1_octet_string tag cbs =
     (case CBS_get_optional_asn1 tag cbs of
        (None, c) \<Rightarrow> (None, c)
      | (Some None, c) \<Rightarrow> (Some ([], False), c)
      | (Some (Some child), c) \<Rightarrow>
          (case CBS_get_asn1 CBS_ASN1_OCTETSTRING child of
             (None, _) \<Rightarrow> (None, c)
           | (Some out, child) \<Rightarrow>
               if CBS_len child \<noteq> 0 then (None, c) else (Some (out, True), c)))"

definition CBS_get_optional_asn1_uint64 :: "u32 \<Rightarrow> u64 \<Rightarrow> (cbs, u64) crun" where
  "CBS_get_optional_asn1_uint64 tag default_value cbs =
     (case CBS_get_optional_asn1 tag cbs of
        (None, c) \<Rightarrow> (None, c)
      | (Some None, c) \<Rightarrow> (Some default_value, c)
      | (Some (Some child), c) \<Rightarrow>
          (case CBS_get_asn1_uint64 child of
             (None, _) \<Rightarrow> (None, c)
           | (Some out, child) \<Rightarrow>
               if CBS_len child \<noteq> 0 then (None, c) else (Some out, c)))"

text \<open>The default is a C \<open>int\<close> the routine copies unchanged.\<close>

definition CBS_get_optional_asn1_bool :: "u32 \<Rightarrow> int \<Rightarrow> (cbs, int) crun" where
  "CBS_get_optional_asn1_bool tag default_value cbs =
     (case CBS_get_optional_asn1 tag cbs of
        (None, c) \<Rightarrow> (None, c)
      | (Some None, c) \<Rightarrow> (Some default_value, c)
      | (Some (Some child), c) \<Rightarrow>
          (case CBS_get_asn1 CBS_ASN1_BOOLEAN child of
             (None, _) \<Rightarrow> (None, c)
           | (Some child2, child) \<Rightarrow>
               if CBS_len child2 \<noteq> 1 \<or> CBS_len child \<noteq> 0 then (None, c)
               else let boolean = child2 ! 0 in
                 if boolean = 0 then (Some 0, c)
                 else if boolean = 0xff then (Some 1, c)
                 else (None, c)))"

definition CBS_is_valid_asn1_bitstring :: "cbs \<Rightarrow> bool" where
  "CBS_is_valid_asn1_bitstring cbs =
     (case CBS_get_u8 cbs of
        (None, _) \<Rightarrow> False
      | (Some num_unused_bits, c) \<Rightarrow>
          if num_unused_bits > 7 then False
          else if num_unused_bits = 0 then True
          else case CBS_get_last_u8 c of
                 (None, _) \<Rightarrow> False
               | (Some lst, _) \<Rightarrow> lst AND (push_bit (unat num_unused_bits) 1 - 1) = 0)"

definition CBS_asn1_bitstring_has_bit :: "cbs \<Rightarrow> u32 \<Rightarrow> bool" where
  "CBS_asn1_bitstring_has_bit cbs bitno =
     (if \<not> CBS_is_valid_asn1_bitstring cbs then False
      else let byte_num = drop_bit 3 bitno + 1;
               bit_num = 7 - (bitno AND 7) in
        unat byte_num < CBS_len cbs \<and> (cbs ! unat byte_num) AND push_bit (unat bit_num) 1 \<noteq> 0)"

subsection \<open>Arithmetic of the loops\<close>

lemma get_u_loop_general:
  "unat r * 256 ^ length ds + 256 ^ length ds \<le> 2 ^ 64 \<Longrightarrow>
   unat (cbs_get_u_loop r ds) = unat r * 256 ^ length ds + be_nat ds"
proof (induction ds arbitrary: r)
  case (Cons d ds)
  have le: "unat r * 256 + 256 \<le> 2 ^ 64"
  proof -
    have "(1::nat) \<le> 256 ^ length ds" by simp
    then have "unat r * 256 + 256 \<le> (unat r * 256 + 256) * 256 ^ length ds" by simp
    with Cons.prems show ?thesis by (simp add: algebra_simps)
  qed
  have step: "unat (push_bit 8 r OR (ucast d :: u64)) = unat r * 256 + unat d"
    using or_shift_unat [of "ucast d :: u64" 8 r] le by (simp add: unat_ucast_up)
  have "unat (cbs_get_u_loop (push_bit 8 r OR ucast d) ds)
      = (unat r * 256 + unat d) * 256 ^ length ds + be_nat ds"
  proof (subst Cons.IH)
    let ?P = "256 ^ length ds :: nat"
    have "(unat r * 256 + unat d) * ?P + ?P = (unat r * 256 + (unat d + 1)) * ?P"
      by (simp add: algebra_simps)
    also have "\<dots> \<le> (unat r * 256 + 256) * ?P"
      using unat_byte_less [of d] by (intro mult_le_mono1) linarith
    also have "\<dots> \<le> 2 ^ 64" using Cons.prems by (simp add: algebra_simps)
    finally show "unat (push_bit 8 r OR (ucast d :: u64)) * ?P + ?P \<le> 2 ^ 64"
      by (simp only: step)
  qed (simp add: step)
  then show ?case by (simp add: be_nat_Cons algebra_simps)
qed simp

lemma get_u_loop_be: "length ds \<le> 8 \<Longrightarrow> unat (cbs_get_u_loop 0 ds) = be_nat ds"
proof -
  assume "length ds \<le> 8"
  then have "(256 :: nat) ^ length ds \<le> 256 ^ 8" by (intro power_increasing) auto
  then show ?thesis using get_u_loop_general [of 0 ds] by simp
qed

text \<open>What \<open>CBS_get_u8\<close> to \<open>CBS_get_u64\<close> return: the big-endian number of the bytes.\<close>

lemma cbs_get_u_iff:
  "n \<le> 8 \<Longrightarrow> cbs_get_u n cbs = (Some v, rest) \<longleftrightarrow>
     (\<exists>ds. length ds = n \<and> cbs = ds @ rest \<and> unat v = be_nat ds)"
proof
  assume n: "n \<le> 8" and "cbs_get_u n cbs = (Some v, rest)"
  then have "length cbs \<ge> n" and "v = cbs_get_u_loop 0 (take n cbs)" and "rest = drop n cbs"
    by (auto simp: cbs_get_u_def cbs_get_def split: if_splits)
  then show "\<exists>ds. length ds = n \<and> cbs = ds @ rest \<and> unat v = be_nat ds"
    using n by (intro exI [of _ "take n cbs"]) (simp add: get_u_loop_be)
next
  assume n: "n \<le> 8" and "\<exists>ds. length ds = n \<and> cbs = ds @ rest \<and> unat v = be_nat ds"
  then obtain ds where "length ds = n" "cbs = ds @ rest" "unat v = be_nat ds" by blast
  moreover from this have "v = cbs_get_u_loop 0 ds"
    using n get_u_loop_be [of ds] by (metis word_unat_eq_iff)
  ultimately show "cbs_get_u n cbs = (Some v, rest)"
    by (simp add: cbs_get_u_def cbs_get_def)
qed

lemma cbs_get_u_None: "cbs_get_u n cbs = (None, c) \<longleftrightarrow> length cbs < n \<and> c = cbs"
  by (auto simp: cbs_get_u_def cbs_get_def split: prod.splits option.splits if_splits)

lemma CBS_get_u8_simps [simp]:
  "CBS_get_u8 [] = (None, [])"
  "CBS_get_u8 (b # cbs) = (Some b, cbs)"
  by (simp_all add: CBS_get_u8_def cbs_get_def)

lemma CBS_get_u8_iff: "CBS_get_u8 cbs = (Some b, rest) \<longleftrightarrow> cbs = b # rest"
  by (cases cbs) auto

lemma CBS_get_bytes_iff:
  "CBS_get_bytes n cbs = (Some out, rest) \<longleftrightarrow> length out = n \<and> cbs = out @ rest"
  by (auto simp: CBS_get_bytes_def cbs_get_def CBS_init_def split: if_splits)

lemma CBS_skip_iff: "CBS_skip n cbs = (Some u, rest) \<longleftrightarrow> n \<le> length cbs \<and> rest = drop n cbs"
  by (auto simp: CBS_skip_def cbs_get_def)

subsection \<open>Base-128 integers\<close>

text \<open>
  The specification: a number in base 128, most significant digit first, the high bit set on
  all digits but the last, with no leading zero digit.
\<close>

fun b128_high :: "nat \<Rightarrow> bytes" where
  "b128_high v = (if v = 0 then [] else b128_high (v div 128) @ [word_of_nat (128 + v mod 128)])"

declare b128_high.simps [simp del]

definition b128 :: "nat \<Rightarrow> bytes" where
  "b128 v = b128_high (v div 128) @ [word_of_nat (v mod 128)]"

lemma b128_high_0 [simp]: "b128_high 0 = []"
  by (simp add: b128_high.simps)


text \<open>One step of the parser on a digit that fits, and its inverse.\<close>

lemma b128_step:
  assumes "unat v < 2 ^ 57"
  shows "unat (push_bit 7 v OR (ucast (b AND 0x7f) :: u64)) = unat v * 128 + unat (b :: byte) mod 128"
  using or_shift_unat [of "ucast (b AND 0x7f) :: u64" 7 v] assms
  by (simp add: unat_ucast_up unat_and_7f)

lemma drop_57_iff: "drop_bit 57 (v :: u64) = 0 \<longleftrightarrow> unat v < 2 ^ 57"
  by (simp add: unat_drop_bit word_unat_eq_iff [of "drop_bit 57 v"] div_eq_0_iff)

lemma parse_b128_high:
  "w < 2 ^ 64 \<Longrightarrow> parse_base128_loop 0 (b128_high w @ rest) = parse_base128_loop (word_of_nat w) rest"
proof (induction w arbitrary: rest rule: b128_high.induct)
  case (1 w)
  show ?case
  proof (cases "w = 0")
    case False
    define d :: byte where "d = word_of_nat (128 + w mod 128)"
    have lt: "w div 128 < 2 ^ 57" using "1.prems" by (simp add: less_mult_imp_div_less)
    have d: "unat d = 128 + w mod 128"
    proof -
      have "w mod 128 < 128" by simp
      then have "(128 + w mod 128) mod 256 = 128 + w mod 128" by simp
      moreover have "unat d = (128 + w mod 128) mod 2 ^ LENGTH(8)"
        unfolding d_def by (rule unat_of_nat)
      ultimately show ?thesis by simp
    qed
    have v: "unat (word_of_nat (w div 128) :: u64) = w div 128"
      using "1.prems" by (simp add: unat_of_nat)
    have "push_bit 7 (word_of_nat (w div 128)) OR ucast (d AND 0x7f) = (word_of_nat w :: u64)"
      using b128_step [of "word_of_nat (w div 128)" d] lt "1.prems"
      by (simp add: word_unat_eq_iff v d unat_of_nat)
    moreover have "d AND 0x80 \<noteq> 0" using and_80_iff [of d] d by simp
    moreover have "\<not> (word_of_nat (w div 128) = (0 :: u64) \<and> d = 0x80)"
    proof
      assume "word_of_nat (w div 128) = (0 :: u64) \<and> d = 0x80"
      then have "unat (word_of_nat (w div 128) :: u64) = 0" and "unat d = 128" by simp_all
      then have "w div 128 = 0" and "w mod 128 = 0" using v d by simp_all
      then show False using False by (metis div_mult_mod_eq mult_0 add_0)
    qed
    moreover have "drop_bit 57 (word_of_nat (w div 128) :: u64) = 0"
      using lt v by (simp add: drop_57_iff)
    moreover have "parse_base128_loop 0 (b128_high w @ rest)
        = parse_base128_loop (word_of_nat (w div 128)) (d # rest)"
      using "1.IH" [OF False, of "d # rest"] "1.prems" False
      by (simp add: b128_high.simps [of w] d_def)
    ultimately show ?thesis by (auto simp: Let_def)
  qed simp
qed

lemma parse_b128: "v < 2 ^ 64 \<Longrightarrow> parse_base128_integer (b128 v @ rest) = (Some (word_of_nat v), rest)"
proof -
  assume v: "v < 2 ^ 64"
  define d :: byte where "d = word_of_nat (v mod 128)"
  have d: "unat d = v mod 128" unfolding d_def by (simp add: unat_of_nat)
  have hi: "unat (word_of_nat (v div 128) :: u64) = v div 128" and lt: "v div 128 < 2 ^ 57"
    using v by (simp_all add: unat_of_nat less_mult_imp_div_less)
  have "push_bit 7 (word_of_nat (v div 128)) OR ucast (d AND 0x7f) = (word_of_nat v :: u64)"
    using b128_step [of "word_of_nat (v div 128)" d] lt v
    by (simp add: word_unat_eq_iff hi d unat_of_nat)
  moreover have "d AND 0x80 = 0" using and_80_iff [of d] d by simp
  moreover have "d \<noteq> 0x80" using d by (auto dest: arg_cong [of _ _ unat])
  moreover have "drop_bit 57 (word_of_nat (v div 128) :: u64) = 0"
    using lt hi by (simp add: drop_57_iff)
  ultimately show ?thesis
    using parse_b128_high [of "v div 128" "d # rest"] v
    by (simp add: parse_base128_integer_def b128_def Let_def flip: d_def)
qed


lemma b128_inject: "b128 v @ xs = b128 w @ ys \<Longrightarrow> v < 2 ^ 64 \<Longrightarrow> w < 2 ^ 64 \<Longrightarrow> v = w \<and> xs = ys"
proof -
  assume eq: "b128 v @ xs = b128 w @ ys" and v: "v < 2 ^ 64" and w: "w < 2 ^ 64"
  from parse_b128 [OF v, of xs] parse_b128 [OF w, of ys] eq
  have "(word_of_nat v :: u64) = word_of_nat w" and "xs = ys" by simp_all
  then show ?thesis using v w
    by (simp add: word_of_nat_eq_iff take_bit_eq_mod)
qed

lemma parse_b128_inv:
  "parse_base128_loop v cs = (Some u, rest) \<Longrightarrow>
   \<exists>ds. cs = ds @ rest \<and> b128_high (unat v) @ ds = b128 (unat u)"
proof (induction v cs rule: parse_base128_loop.induct)
  case (2 v b cs)
  define v' :: u64 where "v' = push_bit 7 v OR ucast (b AND 0x7f)"
  from "2.prems" have fits0: "drop_bit 57 v = 0" and lead: "\<not> (v = 0 \<and> b = 0x80)"
    by (auto simp: Let_def split: if_splits)
  from fits0 have fits: "unat v < 2 ^ 57" by (simp add: drop_57_iff)
  have v': "unat v' = unat v * 128 + unat b mod 128"
    unfolding v'_def using fits by (rule b128_step)
  have dm: "unat v' div 128 = unat v" "unat v' mod 128 = unat b mod 128"
    using v' by simp_all
  show ?case
  proof (cases "b AND 0x80 = 0")
    case True
    with "2.prems" have "u = v'" and "rest = cs"
      by (auto simp: Let_def v'_def split: if_splits)
    moreover have "word_of_nat (unat v' mod 128) = b"
      using True dm by (simp add: and_80_iff)
    ultimately show ?thesis using dm by (intro exI [of _ "[b]"]) (simp add: b128_def)
  next
    case False
    then have b: "unat b \<ge> 128" by (simp add: and_80_iff not_less)
    then have b': "unat b = 128 + unat b mod 128" by (simp add: unat_mod_128)
    have nz: "unat v' \<noteq> 0"
    proof
      assume "unat v' = 0"
      then have "unat v = 0" "unat b = 128" using v' b' by simp_all
      then have "v = 0" "b = 0x80" by (simp_all add: unat_eq_0 word_unat_eq_iff [of b])
      then show False using lead by blast
    qed
    from "2.prems" False have "parse_base128_loop v' cs = (Some u, rest)"
      by (auto simp: Let_def v'_def split: if_splits)
    with "2.IH" [of v'] False fits0 lead obtain ds
      where ds: "cs = ds @ rest" "b128_high (unat v') @ ds = b128 (unat u)"
      by (auto simp: v'_def)
    have "b128_high (unat v') = b128_high (unat v) @ [b]"
    proof -
      have "word_of_nat (128 + unat v' mod 128) = b"
        using arg_cong [OF b', of "word_of_nat :: nat \<Rightarrow> byte"] by (simp add: dm)
      then show ?thesis using nz dm by (subst b128_high.simps) simp
    qed
    with ds show ?thesis by (intro exI [of _ "b # ds"]) simp
  qed
qed simp

lemma parse_base128_integer_iff:
  "parse_base128_integer cs = (Some u, rest) \<longleftrightarrow> cs = b128 (unat u) @ rest"
proof
  assume "parse_base128_integer cs = (Some u, rest)"
  then show "cs = b128 (unat u) @ rest"
    using parse_b128_inv [of 0 cs u rest] by (auto simp: parse_base128_integer_def)
next
  assume "cs = b128 (unat u) @ rest"
  moreover have "unat u < 2 ^ 64" using unsigned_less [of u] by simp
  ultimately show "parse_base128_integer cs = (Some u, rest)"
    by (simp add: parse_b128)
qed

subsection \<open>DER elements\<close>

text \<open>
  The specification of DER's identifier and length octets (X.690, 8.1.2, 8.1.3 and 10.1). A
  tag value carries the class and the constructed bit in its top three bits and the tag number
  in the other 29.
\<close>

definition der_tag :: "u32 \<Rightarrow> bytes" where
  "der_tag tag =
     (let c = unat tag div 2 ^ 29; n = unat tag mod 2 ^ 29 in
      if n < 31 then [word_of_nat (32 * c + n)] else word_of_nat (32 * c + 31) # b128 n)"

lemma tag_class_bits:
  "push_bit 24 (ucast (tb :: byte) AND 0xe0) = (push_bit 29 (word_of_nat (unat tb div 32)) :: u32)"
proof -
  have e0: "(0xe0 :: u32) = push_bit 5 (mask 3)"
    by (simp add: mask_eq_exp_minus_1 push_bit_eq_mult)
  have div: "word_of_nat (unat tb div 32) = (drop_bit 5 (ucast tb) :: u32)"
    by (simp add: word_unat_eq_iff unat_drop_bit unat_ucast_up unat_of_nat
        order_le_less_trans [OF div_le_dividend] less_trans [OF unat_byte_less])
  show ?thesis unfolding div e0
    by (rule bit_word_eqI) (auto simp: bit_simps dest: bit_imp_le_length)
qed

lemma unat_tag_word:
  assumes "n < 2 ^ 29"
  shows "unat (push_bit 24 (ucast (tb :: byte) AND 0xe0) OR word_of_nat n :: u32)
       = unat tb div 32 * 2 ^ 29 + n"
proof -
  have "unat tb div 32 < 8" using unat_byte_less [of tb] by (simp add: less_mult_imp_div_less)
  then have c: "unat (word_of_nat (unat tb div 32) :: u32) = unat tb div 32"
    by (simp add: unat_of_nat)
  have n: "unat (word_of_nat n :: u32) = n" using assms by (simp add: unat_of_nat)
  show ?thesis
    unfolding tag_class_bits
    using or_shift_unat [of "word_of_nat n :: u32" 29 "word_of_nat (unat tb div 32)"] assms c n
      \<open>unat tb div 32 < 8\<close> by simp
qed


lemma tag_mask: "ucast CBS_ASN1_TAG_NUMBER_MASK = (word_of_nat (2 ^ 29 - 1) :: u64)"
  by (simp add: asn1_consts push_bit_eq_mult)

lemma tag_number_ok_iff:
  "\<not> ((v :: u64) > ucast CBS_ASN1_TAG_NUMBER_MASK \<or> v < 0x1f) \<longleftrightarrow> 31 \<le> unat v \<and> unat v < 2 ^ 29"
  unfolding tag_mask by (auto simp: word_less_nat_alt not_less)

lemma der_tag_eq:
  assumes "unat tag = unat tb div 32 * 2 ^ 29 + n" and "n < 2 ^ 29"
  shows "der_tag tag = (if n < 31 then [word_of_nat (32 * (unat tb div 32) + n)]
                        else word_of_nat (32 * (unat (tb :: byte) div 32) + 31) # b128 n)"
proof -
  have "unat tag div 2 ^ 29 = unat tb div 32" and "unat tag mod 2 ^ 29 = n"
    using assms by simp_all
  then show ?thesis unfolding der_tag_def by (simp add: Let_def)
qed

lemma byte_recompose: "word_of_nat (32 * (unat b div 32) + unat b mod 32) = (b :: byte)"
  by (metis mult_div_mod_eq of_nat_unat ucast_id)

lemma parse_asn1_tag_sound:
  assumes "parse_asn1_tag cbs = (Some tag, rest)"
  shows "cbs = der_tag tag @ rest"
proof -
  from assms obtain tb c where cbs: "cbs = tb # c"
    by (cases cbs) (auto simp: parse_asn1_tag_def)
  have low: "ucast (tb AND 0x1f) = (0x1f :: u32) \<longleftrightarrow> unat tb mod 32 = 31"
    by (simp add: word_unat_eq_iff unat_ucast_up unat_and_1f)
  show ?thesis
  proof (cases "unat tb mod 32 = 31")
    case True
    with assms cbs low obtain v where v: "parse_base128_integer c = (Some v, rest)"
      "\<not> (v > ucast CBS_ASN1_TAG_NUMBER_MASK \<or> v < 0x1f)"
      "tag = push_bit 24 (ucast tb AND 0xe0) OR ucast v"
      by (auto simp: parse_asn1_tag_def Let_def CBS_ASN1_TAG_SHIFT_def split: option.splits prod.splits if_splits)
    then have b: "31 \<le> unat v" "unat v < 2 ^ 29" by (simp_all only: tag_number_ok_iff)
    have "tag = push_bit 24 (ucast tb AND 0xe0) OR word_of_nat (unat v)"
      using v(3) by simp
    with unat_tag_word [OF b(2)] have "unat tag = unat tb div 32 * 2 ^ 29 + unat v" by simp
    from der_tag_eq [OF this b(2)] b have "der_tag tag = tb # b128 (unat v)"
      using byte_recompose [of tb] True by simp
    then show ?thesis using cbs v(1) by (simp add: parse_base128_integer_iff)
  next
    case False
    with assms cbs low have tag: "tag = push_bit 24 (ucast tb AND 0xe0) OR ucast (tb AND 0x1f)"
      and "rest = c"
      by (auto simp: parse_asn1_tag_def Let_def CBS_ASN1_TAG_SHIFT_def split: if_splits)
    have "ucast (tb AND 0x1f) = (word_of_nat (unat tb mod 32) :: u32)"
      by (simp add: unat_and_1f [symmetric])
    with tag unat_tag_word [of "unat tb mod 32" tb]
    have "unat tag = unat tb div 32 * 2 ^ 29 + unat tb mod 32"
      by (simp add: less_trans [OF pos_mod_bound])
    moreover have "unat tb mod 32 < 31" using False by presburger
    ultimately have "der_tag tag = [tb]"
      using der_tag_eq [of tag tb "unat tb mod 32"] byte_recompose [of tb] by simp
    then show ?thesis using cbs \<open>rest = c\<close> by simp
  qed
qed

lemma parse_asn1_tag_complete: "parse_asn1_tag (der_tag tag @ rest) = (Some tag, rest)"
proof -
  define c n where "c = unat tag div 2 ^ 29" and "n = unat tag mod 2 ^ 29"
  have tag: "unat tag = c * 2 ^ 29 + n" and n: "n < 2 ^ 29" unfolding c_def n_def by simp_all
  have c: "c < 8" using unat_u32_less [of tag] unfolding c_def by (simp add: less_mult_imp_div_less)
  define tb :: byte where "tb = word_of_nat (32 * c + (if n < 31 then n else 31))"
  have "32 * c + (if n < 31 then n else 31) < 256" using c by simp
  then have tb: "unat tb = 32 * c + (if n < 31 then n else 31)"
    unfolding tb_def by (simp only: unat_of_nat) simp
  then have tbd: "unat tb div 32 = c" and tbm: "unat tb mod 32 = (if n < 31 then n else 31)"
    by (simp_all split: if_splits)
  have der: "der_tag tag = (if n < 31 then [tb] else tb # b128 n)"
    unfolding der_tag_def c_def [symmetric] n_def [symmetric] tb_def by simp
  have word: "push_bit 24 (ucast tb AND 0xe0) OR word_of_nat n = tag"
    using unat_tag_word [OF n, of tb] tag tbd by (simp add: word_unat_eq_iff)
  have low: "ucast (tb AND 0x1f) = (word_of_nat (unat tb mod 32) :: u32)"
    by (simp add: unat_and_1f [symmetric])
  show ?thesis
  proof (cases "n < 31")
    case True
    then have "word_of_nat n \<noteq> (0x1f :: u32)" using n by (simp add: word_unat_eq_iff unat_of_nat)
    then show ?thesis
      using True der low tbm word by (simp add: parse_asn1_tag_def Let_def CBS_ASN1_TAG_SHIFT_def)
  next
    case False
    have v: "unat (word_of_nat n :: u64) = n" using n by (simp add: unat_of_nat)
    have "parse_base128_integer (b128 n @ rest) = (Some (word_of_nat n), rest)"
      using parse_base128_integer_iff [of "b128 n @ rest" "word_of_nat n" rest] v by simp
    moreover have "\<not> ((word_of_nat n :: u64) > ucast CBS_ASN1_TAG_NUMBER_MASK \<or> word_of_nat n < (0x1f :: u64))"
      unfolding tag_number_ok_iff v using False n by simp
    moreover have "ucast (word_of_nat n :: u64) = (word_of_nat n :: u32)"
      using n by (simp add: word_unat_eq_iff unat_of_nat unat_ucast_down)
    ultimately show ?thesis
      using False der low tbm word by (simp add: parse_asn1_tag_def Let_def CBS_ASN1_TAG_SHIFT_def)
  qed
qed

lemma parse_asn1_tag_iff: "parse_asn1_tag cbs = (Some tag, rest) \<longleftrightarrow> cbs = der_tag tag @ rest"
  using parse_asn1_tag_sound parse_asn1_tag_complete by blast


definition len_octets :: "nat \<Rightarrow> nat" where
  "len_octets n = (if n < 2 ^ 8 then 1 else if n < 2 ^ 16 then 2 else if n < 2 ^ 24 then 3 else 4)"

definition der_length :: "nat \<Rightarrow> bytes" where
  "der_length n = (if n < 128 then [word_of_nat n]
                   else word_of_nat (128 + len_octets n) # be_bytes (len_octets n) n)"

definition der_header :: "u32 \<Rightarrow> nat \<Rightarrow> bytes" where
  "der_header tag n = der_tag tag @ der_length n"

definition der_element :: "u32 \<Rightarrow> bytes \<Rightarrow> bytes" where
  "der_element tag body = der_header tag (length body) @ body"

lemma length_b128_high: "v < 128 ^ k \<Longrightarrow> length (b128_high v) \<le> k"
proof (induction k arbitrary: v)
  case (Suc k)
  then have "v div 128 < 128 ^ k" by (simp add: less_mult_imp_div_less)
  then show ?case using Suc.IH [of "v div 128"] by (subst b128_high.simps) simp
qed simp

lemma length_der_tag: "length (der_tag tag) \<le> 6" "der_tag tag \<noteq> []"
proof -
  define n where "n = unat tag mod 2 ^ 29"
  have "n div 128 < 128 ^ 4" unfolding n_def by (simp add: less_mult_imp_div_less order_less_trans [OF mod_less_divisor])
  then show "length (der_tag tag) \<le> 6" "der_tag tag \<noteq> []"
    using length_b128_high [of "n div 128" 4] by (auto simp: der_tag_def Let_def b128_def n_def)
qed

lemma der_length_short: "n < 128 \<Longrightarrow> der_length n = [word_of_nat n]"
  by (simp add: der_length_def)

lemma len_octets_bounds: "1 \<le> len_octets n" "len_octets n \<le> 4"
  by (simp_all add: len_octets_def)

lemma len_octets_fits: "n < 2 ^ 32 \<Longrightarrow> n < 256 ^ len_octets n"
  by (simp add: len_octets_def)

lemma len_octets_least: "128 \<le> n \<Longrightarrow> 256 ^ (len_octets n - 1) \<le> n"
  by (simp add: len_octets_def)

lemma len_octets_unique: "256 ^ (k - 1) \<le> n \<Longrightarrow> n < 256 ^ k \<Longrightarrow> 1 \<le> k \<Longrightarrow> k \<le> 4 \<Longrightarrow> len_octets n = k"
proof -
  assume a: "256 ^ (k - 1) \<le> n" "n < 256 ^ k" "1 \<le> k" "k \<le> 4"
  then consider "k = 1" | "k = 2" | "k = 3" | "k = 4" by linarith
  then show ?thesis using a by cases (auto simp: len_octets_def)
qed

text \<open>The element parser on a well-formed tag followed by anything.\<close>

lemma element_after_tag:
  "cbs_get_any_asn1_element False (der_tag tag @ lb # t) =
     (let H = length (der_tag tag) + 1; all = der_tag tag @ lb # t;
          finish = (\<lambda>hlen len. case CBS_get_bytes len all of
                      (None, c) \<Rightarrow> (None, c) | (Some out, c) \<Rightarrow> (Some (out, tag, hlen), c)) in
      if unat lb < 128 then finish H (unat lb + H)
      else let k = unat lb - 128 in
        if k = 0 \<or> k > 4 then (None, all)
        else if length t < k then (None, all)
        else let n = be_nat (take k t) in
          if n < 128 \<or> n < 256 ^ (k - 1) then (None, all) else finish (H + k) (n + H + k))"
proof -
  have k: "unat (lb AND 0x7f) = unat lb - 128" if "\<not> unat lb < 128"
  proof -
    have "unat lb mod 128 = unat lb - 128" using that by (simp add: unat_mod_128)
    then show ?thesis by (simp add: unat_and_7f)
  qed
  have hl: "Suc (length (der_tag tag) + length t) - length t = Suc (length (der_tag tag))"
    by arith
  have H: "length (der_tag tag) + 1 \<le> 7" using length_der_tag [of tag] by simp
  show ?thesis
  proof (cases "unat lb < 128")
    case True
    then show ?thesis
      by (simp add: cbs_get_any_asn1_element_def parse_asn1_tag_complete and_80_iff CBS_len_def Let_def hl
          cong: prod.case_cong option.case_cong)
  next
    case False
    define kk where "kk = unat lb - 128"
    show ?thesis
    proof (cases "kk = 0 \<or> kk > 4 \<or> length t < kk")
      case True
      then show ?thesis using False k
        by (auto simp: cbs_get_any_asn1_element_def parse_asn1_tag_complete and_80_iff CBS_len_def Let_def hl

            cbs_get_u_def cbs_get_def kk_def
          cong: prod.case_cong option.case_cong)
    next
      case kk: False
      define v where "v = cbs_get_u_loop 0 (take kk t)"
      have g: "cbs_get_u kk t = (Some v, drop kk t)"
        using kk by (simp add: cbs_get_u_def cbs_get_def v_def)
      have v: "unat v = be_nat (take kk t)"
        using kk by (simp add: v_def get_u_loop_be)
      have "be_nat (take kk t) < 256 ^ kk"
      proof -
        have "length (take kk t) = kk" using kk by simp
        then show ?thesis using be_nat_less [of "take kk t"] by simp
      qed
      also have "(256 :: nat) ^ kk \<le> 256 ^ 4" using kk by (intro power_increasing) auto
      finally have small: "be_nat (take kk t) < 2 ^ 32" by simp
      then have noov: "(be_nat (take kk t) + (length (der_tag tag) + 1) + kk) mod SIZE_LIMIT
                 = be_nat (take kk t) + (length (der_tag tag) + 1) + kk"
        using H kk by (simp add: SIZE_LIMIT_def)
      have lt128: "v < 128 \<longleftrightarrow> be_nat (take kk t) < 128"
        by (simp add: word_less_nat_alt v)
      have top: "drop_bit ((kk - 1) * 8) v = 0 \<longleftrightarrow> be_nat (take kk t) < 256 ^ (kk - 1)"
      proof -
        have "drop_bit ((kk - 1) * 8) v = 0 \<longleftrightarrow> unat (drop_bit ((kk - 1) * 8) v) = 0"
          by (simp only: unat_eq_0)
        then show ?thesis by (simp only: unat_drop_bit v pow256 div_eq_0_iff) simp
      qed
      show ?thesis using False kk k
        by (simp add: cbs_get_any_asn1_element_def parse_asn1_tag_complete and_80_iff CBS_len_def Let_def hl

            g lt128 top [simplified] v noov [simplified]
          cong: prod.case_cong option.case_cong flip: kk_def)
    qed
  qed
qed


lemma any_element_sound:
  assumes "CBS_get_any_asn1_element cbs = (Some (out, tag, h), rest)"
  shows "\<exists>body. length body < 2 ^ 32 \<and> out = der_element tag body \<and>
           h = length (der_header tag (length body)) \<and> cbs = out @ rest"
proof -
  from assms obtain tag' header lb t where "parse_asn1_tag cbs = (Some tag', header)" "header = lb # t"
    by (auto simp: CBS_get_any_asn1_element_def cbs_get_any_asn1_element_def CBS_get_u8_iff
        split: prod.splits option.splits)
  then have cbs: "cbs = der_tag tag' @ lb # t" by (simp add: parse_asn1_tag_iff)
  define H where "H = length (der_tag tag') + 1"
  note res = assms [unfolded CBS_get_any_asn1_element_def cbs element_after_tag Let_def]
  show ?thesis
  proof (cases "unat lb < 128")
    case True
    with res have "CBS_get_bytes (unat lb + H) cbs = (Some out, rest)" and tag: "tag = tag'" and h: "h = H"
      by (auto simp: H_def cbs split: prod.splits option.splits)
    then have o: "length out = unat lb + H" "cbs = out @ rest" by (simp_all add: CBS_get_bytes_iff)
    define body where "body = drop H out"
    have "take H out = der_tag tag @ [lb]"
      using arg_cong [OF o(2), of "take H"] o(1) by (simp add: cbs tag H_def)
    then have out: "out = der_tag tag @ [lb] @ body"
      unfolding body_def by (metis append_assoc append_take_drop_id)
    have len: "length body = unat lb" using o by (simp add: body_def)
    then have "der_length (length body) = [lb]" using True by (simp add: der_length_short)
    then show ?thesis using out len o h tag True
      by (intro exI [of _ body]) (simp add: der_element_def der_header_def H_def)
  next
    case False
    define k ds where "k = unat lb - 128" and "ds = take k t"
    from res False have k: "k \<noteq> 0" "k \<le> 4" "k \<le> length t"
      and n: "128 \<le> be_nat ds" "256 ^ (k - 1) \<le> be_nat ds"
      and "CBS_get_bytes (be_nat ds + H + k) cbs = (Some out, rest)" and tag: "tag = tag'" and h: "h = H + k"
      by (auto simp: H_def cbs k_def ds_def split: prod.splits option.splits if_splits)
    then have o: "length out = be_nat ds + H + k" "cbs = out @ rest" by (simp_all add: CBS_get_bytes_iff)
    define body where "body = drop (H + k) out"
    have "take (H + k) out = der_tag tag @ lb # ds"
      using arg_cong [OF o(2), of "take (H + k)"] o(1) by (simp add: cbs tag H_def ds_def)
    then have out: "out = der_tag tag @ lb # ds @ body"
      unfolding body_def by (metis append_Cons append_assoc append_take_drop_id)
    have len: "length body = be_nat ds" using o by (simp add: body_def)
    have lds: "length ds = k" using k by (simp add: ds_def)
    then have lt: "be_nat ds < 256 ^ k" using be_nat_less [of ds] by simp
    then have oct: "len_octets (be_nat ds) = k" using n k by (intro len_octets_unique) auto
    have "be_bytes k (be_nat ds) = ds" using lds be_bytes_be_nat [of ds] by simp
    moreover have "word_of_nat (128 + k) = lb"
    proof -
      have "128 + k = unat lb" using False by (simp add: k_def)
      then show ?thesis by simp
    qed
    ultimately have "der_length (length body) = lb # ds" using n len oct by (simp add: der_length_def)
    moreover have "(256 :: nat) ^ k \<le> 256 ^ 4" using k by (intro power_increasing) auto
    then have "length body < 2 ^ 32" using lt len by simp
    ultimately show ?thesis using out len o h tag lds
      by (intro exI [of _ body]) (simp add: der_element_def der_header_def H_def)
  qed
qed

lemma any_element_complete:
  assumes "length body < 2 ^ 32"
  shows "CBS_get_any_asn1_element (der_element tag body @ rest)
       = (Some (der_element tag body, tag, length (der_header tag (length body))), rest)"
proof -
  define n where "n = length body"
  have get: "CBS_get_bytes (length (der_element tag body)) (der_element tag body @ rest)
      = (Some (der_element tag body), rest)" by (simp add: CBS_get_bytes_iff)
  show ?thesis
  proof (cases "n < 128")
    case True
    have split: "der_element tag body @ rest = der_tag tag @ word_of_nat n # (body @ rest)"
      using True by (simp add: der_element_def der_header_def der_length_short flip: n_def)
    have "unat (word_of_nat n :: byte) = n" using True by (simp add: unat_of_nat)
    then show ?thesis
      using True get unfolding CBS_get_any_asn1_element_def
      by (simp add: split element_after_tag)
        (simp add: der_element_def der_header_def der_length_short add.commute flip: n_def)
  next
    case False
    define k where "k = len_octets n"
    have split: "der_element tag body @ rest = der_tag tag @ word_of_nat (128 + k) # (be_bytes k n @ body @ rest)"
      using False by (simp add: der_element_def der_header_def der_length_def flip: n_def k_def)
    have k: "1 \<le> k" "k \<le> 4" using len_octets_bounds [of n] by (simp_all add: k_def)
    have lb: "unat (word_of_nat (128 + k) :: byte) = 128 + k"
      using k by (simp only: unat_of_nat) simp
    have be: "be_nat (be_bytes k n) = n"
      using len_octets_fits [of n] assms by (simp add: be_nat_be_bytes k_def n_def)
    have "256 ^ (k - 1) \<le> n" using len_octets_least [of n] False by (simp add: k_def)
    moreover have "length (der_element tag body) = n + (length (der_tag tag) + 1) + k"
      using False by (simp add: der_element_def der_header_def der_length_def flip: n_def k_def)
    moreover have "length (der_header tag n) = (length (der_tag tag) + 1) + k"
      using False by (simp add: der_header_def der_length_def flip: n_def k_def)
    ultimately show ?thesis
      using False get k be lb unfolding CBS_get_any_asn1_element_def
      by (simp add: split element_after_tag Let_def flip: n_def)
  qed
qed

lemma any_element_iff:
  "CBS_get_any_asn1_element cbs = (Some (out, tag, h), rest) \<longleftrightarrow>
   (\<exists>body. length body < 2 ^ 32 \<and> out = der_element tag body \<and>
      h = length (der_header tag (length body)) \<and> cbs = der_element tag body @ rest)"
  by (rule iffI, use any_element_sound [of cbs out tag h rest] in blast)
    (auto simp: any_element_complete)

lemma CBS_get_asn1_iff:
  "CBS_get_asn1 tag cbs = (Some body, rest) \<longleftrightarrow>
   length body < 2 ^ 32 \<and> cbs = der_element tag body @ rest"
proof
  assume "CBS_get_asn1 tag cbs = (Some body, rest)"
  then obtain out h where "CBS_get_any_asn1_element cbs = (Some (out, tag, h), rest)" "body = drop h out"
    by (auto simp: CBS_get_asn1_def cbs_get_asn1_def CBS_skip_iff split: prod.splits option.splits if_splits)
  then show "length body < 2 ^ 32 \<and> cbs = der_element tag body @ rest"
    by (auto simp: any_element_iff der_element_def)
next
  assume "length body < 2 ^ 32 \<and> cbs = der_element tag body @ rest"
  then show "CBS_get_asn1 tag cbs = (Some body, rest)"
    using any_element_complete [of body tag rest]
    by (simp add: CBS_get_asn1_def cbs_get_asn1_def CBS_skip_def cbs_get_def)
      (simp add: der_element_def)
qed


lemma CBS_get_any_asn1_iff:
  "CBS_get_any_asn1 cbs = (Some (body, tag), rest) \<longleftrightarrow>
   length body < 2 ^ 32 \<and> cbs = der_element tag body @ rest"
proof
  assume "CBS_get_any_asn1 cbs = (Some (body, tag), rest)"
  then obtain out h where "CBS_get_any_asn1_element cbs = (Some (out, tag, h), rest)" "body = drop h out"
    by (auto simp: CBS_get_any_asn1_def CBS_skip_iff split: prod.splits option.splits)
  then show "length body < 2 ^ 32 \<and> cbs = der_element tag body @ rest"
    by (auto simp: any_element_iff der_element_def)
next
  assume "length body < 2 ^ 32 \<and> cbs = der_element tag body @ rest"
  then show "CBS_get_any_asn1 cbs = (Some (body, tag), rest)"
    using any_element_complete [of body tag rest]
    by (simp add: CBS_get_any_asn1_def CBS_skip_def cbs_get_def)
      (simp add: der_element_def)
qed

lemma length_prefixed_iff:
  assumes "n \<le> 8"
  shows "cbs_get_length_prefixed n cbs = (Some body, rest) \<longleftrightarrow>
     length body < 256 ^ n \<and> cbs = be_bytes n (length body) @ body @ rest"
proof
  assume "cbs_get_length_prefixed n cbs = (Some body, rest)"
  then obtain v c where v: "cbs_get_u n cbs = (Some v, c)" and b: "CBS_get_bytes (unat v) c = (Some body, rest)"
    by (auto simp: cbs_get_length_prefixed_def split: prod.splits option.splits)
  from v obtain ds where "length ds = n" "cbs = ds @ c" "unat v = be_nat ds"
    by (auto simp: cbs_get_u_iff assms)
  moreover from b have "length body = unat v" "c = body @ rest" by (auto simp: CBS_get_bytes_iff)
  ultimately show "length body < 256 ^ n \<and> cbs = be_bytes n (length body) @ body @ rest"
    using be_bytes_be_nat [of ds] be_nat_less [of ds] by auto
next
  assume a: "length body < 256 ^ n \<and> cbs = be_bytes n (length body) @ body @ rest"
  have "(256 :: nat) ^ n \<le> 256 ^ 8" using assms by (intro power_increasing) auto
  then have "unat (word_of_nat (length body) :: u64) = length body"
    using a by (simp add: unat_of_nat)
  then have "cbs_get_u n cbs = (Some (word_of_nat (length body)), body @ rest)"
    using a by (auto simp: cbs_get_u_iff assms be_nat_be_bytes)
  then show "cbs_get_length_prefixed n cbs = (Some body, rest)"
    using \<open>unat (word_of_nat (length body) :: u64) = length body\<close>
    by (simp add: cbs_get_length_prefixed_def CBS_get_bytes_iff)
qed

subsection \<open>INTEGER\<close>

text \<open>The octets of a non-negative INTEGER: as few as possible, with a clear top bit.\<close>

fun nbytes :: "nat \<Rightarrow> nat" where
  "nbytes v = (if v = 0 then 0 else Suc (nbytes (v div 256)))"

declare nbytes.simps [simp del]

lemma nbytes_0 [simp]: "nbytes 0 = 0"
  by (simp add: nbytes.simps)

lemma nbytes_Suc: "v \<noteq> 0 \<Longrightarrow> nbytes v = Suc (nbytes (v div 256))"
  by (subst nbytes.simps) simp

definition uint_octets :: "nat \<Rightarrow> bytes" where
  "uint_octets v =
     (let bs = be_bytes (nbytes v) v in
      if v = 0 \<or> unat (hd bs) \<ge> 128 then 0 # bs else bs)"

lemma nbytes_upper: "v < 256 ^ nbytes v"
proof (induction v rule: nbytes.induct)
  case (1 v)
  show ?case
  proof (cases "v = 0")
    case False
    then have "v div 256 < 256 ^ nbytes (v div 256)" using "1.IH" by simp
    then have "v < 256 ^ nbytes (v div 256) * 256" by (simp add: div_less_iff_less_mult)
    then show ?thesis using False by (subst nbytes.simps) (simp add: mult.commute)
  qed (simp add: nbytes.simps)
qed

lemma nbytes_lower: "v \<noteq> 0 \<Longrightarrow> 256 ^ (nbytes v - 1) \<le> v"
proof (induction v rule: nbytes.induct)
  case (1 v)
  show ?case
  proof (cases "v div 256 = 0")
    case True
    then show ?thesis using "1.prems" by (subst nbytes.simps, subst nbytes.simps) simp
  next
    case False
    then have "256 ^ (nbytes (v div 256) - 1) * 256 \<le> v div 256 * 256"
      using "1.IH" "1.prems" by (intro mult_le_mono1) simp
    also have "\<dots> \<le> v" by simp
    finally have "256 ^ (nbytes (v div 256) - 1) * 256 \<le> v" .
    moreover have "nbytes (v div 256) = Suc (nbytes (v div 256) - 1)"
      using False by (simp add: nbytes_Suc [of "v div 256"])
    ultimately have "256 ^ nbytes (v div 256) \<le> v" by (metis power_Suc2)
    then show ?thesis using "1.prems" by (subst nbytes.simps) simp
  qed
qed

lemma nbytes_snoc: "bs \<noteq> [] \<Longrightarrow> hd bs \<noteq> 0 \<Longrightarrow> nbytes (be_nat bs) = length bs"
proof (induction bs rule: rev_induct)
  case (snoc b bs)
  show ?case
  proof (cases "bs = []")
    case True
    then show ?thesis using snoc.prems
      by (subst nbytes.simps, subst nbytes.simps) (simp add: be_nat_Cons unat_eq_0)
  next
    case False
    then have IH: "nbytes (be_nat bs) = length bs" using snoc by simp
    obtain c cs where bs: "bs = c # cs" using False by (cases bs) auto
    then have "unat c \<noteq> 0" using snoc.prems by (simp add: unat_eq_0)
    then have "be_nat bs \<noteq> 0" using bs by (simp add: be_nat_Cons)
    then show ?thesis using IH by (subst nbytes.simps) simp
  qed
qed simp

lemma be_nat_zero_Cons [simp]: "be_nat (0 # bs) = be_nat bs"
  by (simp add: be_nat_Cons)

lemma hd_be_bytes_nonzero:
  assumes "v \<noteq> 0"
  shows "hd (be_bytes (nbytes v) v) \<noteq> 0" "be_bytes (nbytes v) v \<noteq> []"
proof -
  show ne: "be_bytes (nbytes v) v \<noteq> []"
    using assms by (metis length_be_bytes list.size(3) nat.distinct(1) nbytes.simps)
  show "hd (be_bytes (nbytes v) v) \<noteq> 0"
  proof
    assume h: "hd (be_bytes (nbytes v) v) = 0"
    obtain k where k: "nbytes v = Suc k" using assms by (subst (asm) nbytes.simps) auto
    obtain cs where cs: "be_bytes (nbytes v) v = 0 # cs" using ne h by (metis list.collapse)
    then have len: "length cs = k" using k by (metis Suc_inject length_Cons length_be_bytes)
    have "be_nat (be_bytes (nbytes v) v) = v" using nbytes_upper [of v] by (simp add: be_nat_be_bytes)
    then have "v < 256 ^ k" using be_nat_less [of cs] cs len by simp
    then show False using k nbytes_lower [OF assms] by simp
  qed
qed


definition minimal_octets :: "bytes \<Rightarrow> bool" where
  "minimal_octets data \<longleftrightarrow>
     data \<noteq> [] \<and> unat (hd data) < 128 \<and> \<not> (hd data = 0 \<and> 1 < length data \<and> unat (data ! 1) < 128)"

lemma minimal_octets_uint: "minimal_octets (uint_octets v)" "be_nat (uint_octets v) = v"
proof -
  show "be_nat (uint_octets v) = v"
    using nbytes_upper [of v] by (simp add: uint_octets_def be_nat_be_bytes Let_def)
  show "minimal_octets (uint_octets v)"
  proof (cases "v = 0")
    case True
    then show ?thesis by (simp add: minimal_octets_def uint_octets_def nbytes.simps)
  next
    case False
    obtain c cs where "be_bytes (nbytes v) v = c # cs" "c \<noteq> 0"
      using hd_be_bytes_nonzero [OF False] by (metis list.collapse)
    then show ?thesis using False by (simp add: minimal_octets_def uint_octets_def Let_def)
  qed
qed

lemma minimal_octets_unique:
  assumes "minimal_octets data"
  shows "data = uint_octets (be_nat data)"
proof -
  obtain d ds where data: "data = d # ds" using assms by (cases data) (auto simp: minimal_octets_def)
  show ?thesis
  proof (cases "d = 0")
    case False
    then have "be_nat data \<noteq> 0" by (simp add: data be_nat_Cons unat_eq_0)
    moreover have "be_bytes (nbytes (be_nat data)) (be_nat data) = data"
      using nbytes_snoc [of data] False by (simp add: data be_bytes_be_nat [of "d # ds", simplified])
    ultimately show ?thesis using assms by (simp add: uint_octets_def data minimal_octets_def Let_def)
  next
    case zero: True
    show ?thesis
    proof (cases ds)
      case Nil
      then show ?thesis using zero data by (simp add: uint_octets_def nbytes.simps)
    next
      case (Cons e es)
      then have e: "unat e \<ge> 128" using assms zero by (auto simp: minimal_octets_def data)
      then have "e \<noteq> 0" by auto
      then have "be_nat ds \<noteq> 0" using Cons by (simp add: be_nat_Cons unat_eq_0)
      moreover have "be_bytes (nbytes (be_nat ds)) (be_nat ds) = ds"
        using nbytes_snoc [of ds] Cons \<open>e \<noteq> 0\<close> be_bytes_be_nat [of ds] by simp
      ultimately show ?thesis using zero data e Cons by (simp add: uint_octets_def Let_def)
    qed
  qed
qed

lemma asn1_uint64_loop_iff:
  "asn1_uint64_loop out ds = Some v \<longleftrightarrow>
   (ds = [] \<longrightarrow> v = out) \<and> unat out * 256 ^ length ds + be_nat ds < 2 ^ 64 \<and>
   unat v = unat out * 256 ^ length ds + be_nat ds"
proof (induction ds arbitrary: out)
  case Nil
  then show ?case using unat_u64_less [of out] by auto
next
  case (Cons d ds)
  let ?n = "unat out * 256 ^ length (d # ds) + be_nat (d # ds)"
  have n: "?n = (unat out * 256 + unat d) * 256 ^ length ds + be_nat ds"
    by (simp add: be_nat_Cons algebra_simps)
  show ?case
  proof (cases "unat out < 2 ^ 56")
    case True
    then have "drop_bit 56 out = 0"
      by (simp add: word_unat_eq_iff [of "drop_bit 56 out"] unat_drop_bit div_eq_0_iff)
    moreover have "unat (push_bit 8 out OR (ucast d :: u64)) = unat out * 256 + unat d"
      using or_shift_unat [of "ucast d :: u64" 8 out] True by (simp add: unat_ucast_up)
    moreover have "ds = [] \<Longrightarrow> unat v = unat out * 256 + unat d \<Longrightarrow> v = push_bit 8 out OR ucast d"
      using calculation(2) by (simp add: word_unat_eq_iff)
    ultimately show ?thesis unfolding n by (auto simp: Cons)
  next
    case False
    have "2 ^ 56 * 256 \<le> unat out * 256" using False by simp
    also have "\<dots> \<le> unat out * 256 ^ length (d # ds)" by simp
    finally have "\<not> ?n < 2 ^ 64" by simp
    moreover have "drop_bit 56 out \<noteq> 0"
      using False by (simp add: word_unat_eq_iff [of "drop_bit 56 out"] unat_drop_bit div_eq_0_iff)
    ultimately show ?thesis by simp
  qed
qed

lemma CBS_get_asn1_uint64_iff:
  "CBS_get_asn1_uint64 cbs = (Some v, rest) \<longleftrightarrow>
   cbs = der_element CBS_ASN1_INTEGER (uint_octets (unat v)) @ rest"
proof
  assume "CBS_get_asn1_uint64 cbs = (Some v, rest)"
  then obtain data where get: "CBS_get_asn1 CBS_ASN1_INTEGER cbs = (Some data, rest)"
    and min: "minimal_octets data" and loop: "asn1_uint64_loop 0 data = Some v"
    by (auto simp: CBS_get_asn1_uint64_def minimal_octets_def CBS_len_def and_80_iff hd_conv_nth not_less
        split: prod.splits option.splits if_splits)
  from loop have "unat v = be_nat data" by (simp add: asn1_uint64_loop_iff)
  with minimal_octets_unique [OF min] get
  show "cbs = der_element CBS_ASN1_INTEGER (uint_octets (unat v)) @ rest"
    by (simp add: CBS_get_asn1_iff)
next
  define data where "data = uint_octets (unat v)"
  assume cbs: "cbs = der_element CBS_ASN1_INTEGER (uint_octets (unat v)) @ rest"
  have min: "minimal_octets data" and be: "be_nat data = unat v"
    by (simp_all add: data_def minimal_octets_uint)
  have "nbytes (unat v) \<le> 8"
  proof (rule ccontr)
    assume "\<not> nbytes (unat v) \<le> 8"
    then have nz: "unat v \<noteq> 0" by (metis nbytes_0 zero_le)
    have "(256 :: nat) ^ 8 \<le> 256 ^ (nbytes (unat v) - 1)"
      using \<open>\<not> nbytes (unat v) \<le> 8\<close> by (intro power_increasing) auto
    also have "\<dots> \<le> unat v" by (rule nbytes_lower [OF nz])
    finally show False using unat_u64_less [of v] by simp
  qed
  then have "length data < 2 ^ 32" by (simp add: data_def uint_octets_def Let_def)
  then have "CBS_get_asn1 CBS_ASN1_INTEGER cbs = (Some data, rest)"
    by (simp add: cbs CBS_get_asn1_iff data_def)
  moreover have "asn1_uint64_loop 0 data = Some v"
    using min be unat_u64_less [of v] by (auto simp: asn1_uint64_loop_iff minimal_octets_def)
  ultimately show "CBS_get_asn1_uint64 cbs = (Some v, rest)"
    using min by (auto simp: CBS_get_asn1_uint64_def minimal_octets_def CBS_len_def and_80_iff hd_conv_nth)
qed


subsection \<open>The readers as codecs\<close>

text \<open>
  What the iff-lemmas say, put as the contract of the interface: every reader is the inverse
  of its encoding, and refuses anything else.
\<close>

interpretation tag_codec: nonempty_codec der_tag parse_asn1_tag "\<lambda>_. True"
  by unfold_locales (simp_all add: parse_asn1_tag_iff length_der_tag)

interpretation element_codec: nonempty_codec
  "\<lambda>(tag, body). der_element tag body" "\<lambda>s. case CBS_get_any_asn1 s of
     (None, c) \<Rightarrow> (None, c) | (Some (body, tag), c) \<Rightarrow> (Some (tag, body), c)"
  "\<lambda>(tag, body). length body < 2 ^ 32"
proof unfold_locales
  fix s r and x :: "u32 \<times> bytes"
  show "(case CBS_get_any_asn1 s of (None, c) \<Rightarrow> (None, c) | (Some (body, tag), c) \<Rightarrow> (Some (tag, body), c))
      = (Some x, r) \<longleftrightarrow>
    (case x of (tag, body) \<Rightarrow> length body < 2 ^ 32) \<and> s = (case x of (tag, body) \<Rightarrow> der_element tag body) @ r"
    using CBS_get_any_asn1_iff [of s "snd x" "fst x" r]
    by (cases x; cases "CBS_get_any_asn1 s"; cases "fst (CBS_get_any_asn1 s)") auto
next
  fix x :: "u32 \<times> bytes"
  show "(case x of (tag, body) \<Rightarrow> der_element tag body) \<noteq> []"
    by (cases x) (simp add: der_element_def der_header_def length_der_tag)
qed

interpretation uint64_codec: nonempty_codec
  "\<lambda>v. der_element CBS_ASN1_INTEGER (uint_octets (unat v))" CBS_get_asn1_uint64 "\<lambda>_. True"
  by unfold_locales (simp_all add: CBS_get_asn1_uint64_iff der_element_def der_header_def length_der_tag)

subsection \<open>Properties\<close>

text \<open>C13. The DER parser is exact: \<open>CBS_get_any_asn1_element\<close> returns an element, its tag, its
  header length and the rest of the input if and only if the input is the canonical DER
  encoding of that tag and of a body shorter than 2^32 bytes, followed by the rest. So every
  well-formed element is accepted and every non-minimal tag or length is refused.\<close>

theorem asn1_element_exact:
  "CBS_get_any_asn1_element cbs = (Some (out, tag, h), rest) \<longleftrightarrow>
   (\<exists>body. length body < 2 ^ 32 \<and> out = der_element tag body \<and>
      h = length (der_header tag (length body)) \<and> cbs = der_element tag body @ rest)"
  by (rule any_element_iff)

text \<open>\<open>CBS_get_asn1\<close> with an expected tag returns the body exactly when the input starts with
  the DER encoding of that body under that tag.\<close>

theorem get_asn1_exact:
  "CBS_get_asn1 tag cbs = (Some body, rest) \<longleftrightarrow> length body < 2 ^ 32 \<and> cbs = der_element tag body @ rest"
  by (rule CBS_get_asn1_iff)

text \<open>C15. \<open>CBS_get_asn1_uint64\<close> reads a value exactly when the input starts with the INTEGER
  element of its shortest two's-complement octets: negative numbers, numbers above 64 bits and
  padded numbers are all refused.\<close>

theorem get_asn1_uint64_exact:
  "CBS_get_asn1_uint64 cbs = (Some v, rest) \<longleftrightarrow>
   cbs = der_element CBS_ASN1_INTEGER (uint_octets (unat v)) @ rest"
  by (rule CBS_get_asn1_uint64_iff)

text \<open>The identifier octets are read canonically: \<open>parse_asn1_tag\<close> accepts exactly the DER
  identifier of the tag it returns, in low or high tag number form.\<close>

theorem parse_asn1_tag_exact: "parse_asn1_tag cbs = (Some tag, rest) \<longleftrightarrow> cbs = der_tag tag @ rest"
  by (rule parse_asn1_tag_iff)

text \<open>The TLS-style readers: each of the three length-prefixed readers returns a body exactly
  when the input is the big-endian length of the body in 1, 2 or 3 octets, the body and the
  rest.\<close>

theorem length_prefixed_exact:
  "(CBS_get_u8_length_prefixed cbs = (Some body, rest) \<longleftrightarrow>
      length body < 256 \<and> cbs = be_bytes 1 (length body) @ body @ rest) \<and>
   (CBS_get_u16_length_prefixed cbs = (Some body, rest) \<longleftrightarrow>
      length body < 256 ^ 2 \<and> cbs = be_bytes 2 (length body) @ body @ rest) \<and>
   (CBS_get_u24_length_prefixed cbs = (Some body, rest) \<longleftrightarrow>
      length body < 256 ^ 3 \<and> cbs = be_bytes 3 (length body) @ body @ rest)"
  by (simp add: CBS_get_u8_length_prefixed_def CBS_get_u16_length_prefixed_def
      CBS_get_u24_length_prefixed_def length_prefixed_iff)

text \<open>A sequence of DER elements has one reading: two lists of tagged bodies with the same
  concatenated encoding are the same list.\<close>

theorem element_sequence_unique:
  assumes "\<forall>(tag, body) \<in> set xs. length body < 2 ^ 32" and "\<forall>(tag, body) \<in> set ys. length body < 2 ^ 32"
    and "concat (map (\<lambda>(tag, body). der_element tag body) xs) = concat (map (\<lambda>(tag, body). der_element tag body) ys)"
  shows "xs = ys"
  using element_codec.sequence_unique [of xs ys] assms by simp

theorem element_sequence_unique_witness:
  "[(CBS_ASN1_INTEGER, [5 :: byte]), (CBS_ASN1_BOOLEAN, [])] = [(CBS_ASN1_INTEGER, [5]), (CBS_ASN1_BOOLEAN, [])]"
  by (rule element_sequence_unique) simp_all

end
