(* ===== verification/Cbb.thy ===== *)
theory Cbb
  imports Cbs
begin

section \<open>Building byte strings (crypto/bytestring/cbb.c)\<close>

text \<open>
  A \<open>CBB\<close> is a growable (or fixed) buffer shared by a chain of \<open>CBB\<close> structures: the root
  and its child, the child's child, and so on. A child stands for a length-prefixed element
  that is still being written; its length is written when an ancestor is flushed, and the
  child is detached (its \<open>base\<close> becomes NULL).

  The state holds the buffer and the chain of live children. An operation names the structure
  it is called on by its depth in the chain: 0 is the root, \<open>d\<close> the \<open>d\<close>-th live child. A depth
  beyond the chain is a detached structure, on which every operation fails.
\<close>

subsection \<open>State\<close>

text \<open>
  The allocator is not under the program's control: \<open>alloc_ok k n\<close> says whether the \<open>k\<close>-th
  request, for \<open>n\<close> bytes, succeeds, and \<open>fresh\<close> is what an uninitialised byte holds.
\<close>

record heap_env =
  alloc_ok :: "nat \<Rightarrow> nat \<Rightarrow> bool"
  fresh :: "nat \<Rightarrow> byte"

text \<open>\<open>buf\<close> is the whole allocation, so the C field \<open>cap\<close> is its length.\<close>

record cbb_buffer_st =
  buf :: bytes
  buf_len :: nat
  can_resize :: bool
  error :: bool
  allocs :: nat

record cbb_child =
  offset :: nat
  pending_len_len :: nat
  pending_is_asn1 :: bool

record cbb =
  base :: "cbb_buffer_st option"
  children :: "cbb_child list"

definition CBB_zero :: cbb where
  "CBB_zero = \<lparr>base = None, children = []\<rparr>"

definition cbb_init :: "heap_env \<Rightarrow> nat \<Rightarrow> cbb \<Rightarrow> bytes \<Rightarrow> bool \<times> cbb" where
  "cbb_init h k cbb b =
     (if \<not> alloc_ok h k 32 then (False, cbb)
      else (True, cbb\<lparr>base := Some \<lparr>buf = b, buf_len = 0, can_resize = True, error = False,
                                   allocs = Suc k\<rparr>\<rparr>))"

definition CBB_init :: "heap_env \<Rightarrow> nat \<Rightarrow> bool \<times> cbb" where
  "CBB_init h initial_capacity =
     (if initial_capacity > 0 \<and> \<not> alloc_ok h 0 initial_capacity then (False, CBB_zero)
      else cbb_init h 1 CBB_zero (map (fresh h) [0..<initial_capacity]))"

definition CBB_init_fixed :: "heap_env \<Rightarrow> bytes \<Rightarrow> bool \<times> cbb" where
  "CBB_init_fixed h b =
     (case cbb_init h 0 CBB_zero b of
        (False, cbb) \<Rightarrow> (False, cbb)
      | (True, cbb) \<Rightarrow> (True, cbb\<lparr>base := map_option (\<lambda>b. b\<lparr>can_resize := False\<rparr>) (base cbb)\<rparr>))"

definition CBB_cleanup :: "cbb \<Rightarrow> cbb" where
  "CBB_cleanup cbb = cbb\<lparr>base := None\<rparr>"

subsection \<open>The buffer\<close>

definition buffer_error :: "cbb_buffer_st \<Rightarrow> bool \<times> cbb_buffer_st" where
  "buffer_error b = (False, b\<lparr>error := True\<rparr>)"

definition cbb_buffer_reserve :: "heap_env \<Rightarrow> cbb_buffer_st \<Rightarrow> nat \<Rightarrow> bool \<times> cbb_buffer_st" where
  "cbb_buffer_reserve h b n =
     (let newlen = (buf_len b + n) mod SIZE_LIMIT; cap = length (buf b) in
      if newlen < buf_len b then buffer_error b
      else if newlen > cap then
        (let newcap = (cap * 2) mod SIZE_LIMIT in
         if \<not> can_resize b then buffer_error b
         else
           let newcap = (if newcap < cap \<or> newcap < newlen then newlen else newcap);
               b' = b\<lparr>allocs := Suc (allocs b)\<rparr> in
           if \<not> alloc_ok h (allocs b) newcap then buffer_error b'
           else (True, b'\<lparr>buf := buf b @ map (fresh h) [cap..<newcap]\<rparr>))
      else (True, b))"

definition cbb_buffer_add :: "heap_env \<Rightarrow> cbb_buffer_st \<Rightarrow> nat \<Rightarrow> bool \<times> cbb_buffer_st" where
  "cbb_buffer_add h b n =
     (case cbb_buffer_reserve h b n of
        (False, b) \<Rightarrow> (False, b)
      | (True, b) \<Rightarrow> (True, b\<lparr>buf_len := buf_len b + n\<rparr>))"

text \<open>The loops that store an integer at \<open>pos\<close>, last byte first, shifting it down.\<close>

fun store_be :: "bytes \<Rightarrow> nat \<Rightarrow> nat \<Rightarrow> u64 \<Rightarrow> bytes \<times> u64" where
  "store_be b pos 0 v = (b, v)"
| "store_be b pos (Suc i) v = store_be (b[pos + i := ucast v]) pos i (drop_bit 8 v)"

definition cbb_buffer_add_u :: "heap_env \<Rightarrow> cbb_buffer_st \<Rightarrow> u64 \<Rightarrow> nat \<Rightarrow> bool \<times> cbb_buffer_st" where
  "cbb_buffer_add_u h b v len_len =
     (if len_len = 0 then (True, b)
      else
        let pos = buf_len b in
        case cbb_buffer_add h b len_len of
          (False, b) \<Rightarrow> (False, b)
        | (True, b) \<Rightarrow>
            let (bs, v) = store_be (buf b) pos len_len v; b = b\<lparr>buf := bs\<rparr> in
            if v \<noteq> 0 then buffer_error b else (True, b))"

subsection \<open>Flushing\<close>

text \<open>The length octets \<open>CBB_flush\<close> picks: how many, the first one, and what is left to write.\<close>

definition asn1_length_form :: "nat \<Rightarrow> (nat \<times> byte \<times> nat) option" where
  "asn1_length_form n =
     (if n > 0xfffffffe then None
      else if n > 0xffffff then Some (5, 0x80 OR 4, n)
      else if n > 0xffff then Some (4, 0x80 OR 3, n)
      else if n > 0xff then Some (3, 0x80 OR 2, n)
      else if n > 0x7f then Some (2, 0x80 OR 1, n)
      else Some (1, word_of_nat n, 0))"

text \<open>
  The end of \<open>CBB_flush\<close> for one child, once its own children are flushed: \<open>start\<close> is where
  its contents begin. The result carries the child, whose fields the ASN.1 case changes.
\<close>

definition flush_prefix ::
    "heap_env \<Rightarrow> cbb_buffer_st \<Rightarrow> cbb_child \<Rightarrow> nat \<Rightarrow> bool \<times> cbb_buffer_st \<times> cbb_child" where
  "flush_prefix h b c start =
     (let n = buf_len b - start;
          finish = (\<lambda>b c n.
            let (bs, left) = store_be (buf b) (offset c) (pending_len_len c) (word_of_nat n);
                b = b\<lparr>buf := bs\<rparr> in
            if left \<noteq> 0 then (False, b\<lparr>error := True\<rparr>, c) else (True, b, c)) in
      if pending_is_asn1 c then
        (case asn1_length_form n of
           None \<Rightarrow> (False, b\<lparr>error := True\<rparr>, c)
         | Some (len_len, initial_length_byte, n) \<Rightarrow>
             let c' = c\<lparr>offset := offset c + 1, pending_len_len := len_len - 1\<rparr> in
             if len_len \<noteq> 1 then
               (case cbb_buffer_add h b (len_len - 1) of
                  (False, b) \<Rightarrow> (False, b\<lparr>error := True\<rparr>, c)
                | (True, b) \<Rightarrow>
                    let bs = write_at (buf b) (start + (len_len - 1)) (take n (drop start (buf b)));
                        bs = bs[offset c := initial_length_byte] in
                    finish (b\<lparr>buf := bs\<rparr>) c' n)
             else finish (b\<lparr>buf := (buf b)[offset c := initial_length_byte]\<rparr>) c' n)
      else finish b c n)"

fun flush_children ::
    "heap_env \<Rightarrow> cbb_buffer_st \<Rightarrow> cbb_child list \<Rightarrow> bool \<times> cbb_buffer_st \<times> cbb_child list" where
  "flush_children h b [] = (\<not> error b, b, [])"
| "flush_children h b (c # cs) =
     (if error b then (False, b, c # cs)
      else if pending_len_len c = 0 then (True, b, c # cs)
      else
        let child_start = (offset c + pending_len_len c) mod SIZE_LIMIT in
        case flush_children h b cs of
          (ok, b, cs') \<Rightarrow>
            if \<not> ok \<or> child_start < offset c \<or> buf_len b < child_start
            then (False, b\<lparr>error := True\<rparr>, c # cs')
            else
              case flush_prefix h b c child_start of
                (False, b, c) \<Rightarrow> (False, b, c # cs')
              | (True, b, c) \<Rightarrow> (True, b, []))"

definition CBB_flush :: "heap_env \<Rightarrow> nat \<Rightarrow> cbb \<Rightarrow> bool \<times> cbb" where
  "CBB_flush h d st =
     (case base st of
        None \<Rightarrow> (False, st)
      | Some b \<Rightarrow>
          if d > length (children st) then (False, st)
          else case flush_children h b (drop d (children st)) of
                 (ok, b, cs) \<Rightarrow> (ok, st\<lparr>base := Some b, children := take d (children st) @ cs\<rparr>))"

text \<open>On success, the bytes handed over; a resizable buffer must be asked for them.\<close>

definition CBB_finish :: "heap_env \<Rightarrow> nat \<Rightarrow> bool \<Rightarrow> cbb \<Rightarrow> bytes option \<times> cbb" where
  "CBB_finish h d outs_given st =
     (if d \<noteq> 0 then (None, st)
      else case CBB_flush h 0 st of
        (False, st) \<Rightarrow> (None, st)
      | (True, st) \<Rightarrow>
          (case base st of
             None \<Rightarrow> (None, st)
           | Some b \<Rightarrow>
               if can_resize b \<and> \<not> outs_given then (None, st)
               else (Some (take (buf_len b) (buf b)), CBB_cleanup st)))"

definition CBB_len :: "nat \<Rightarrow> cbb \<Rightarrow> nat option" where
  "CBB_len d st =
     (case base st of
        None \<Rightarrow> None
      | Some b \<Rightarrow>
          if d \<noteq> length (children st) then None
          else if d = 0 then Some (buf_len b)
          else let c = children st ! (d - 1) in Some (buf_len b - offset c - pending_len_len c))"

definition CBB_data :: "nat \<Rightarrow> cbb \<Rightarrow> bytes option" where
  "CBB_data d st =
     (case base st of
        None \<Rightarrow> None
      | Some b \<Rightarrow>
          if d \<noteq> length (children st) then None
          else if d = 0 then Some (take (buf_len b) (buf b))
          else let c = children st ! (d - 1) in
            Some (drop (offset c + pending_len_len c) (take (buf_len b) (buf b))))"

subsection \<open>Adding\<close>

text \<open>The common shape: flush the structure, then change the buffer.\<close>

definition flush_then ::
    "heap_env \<Rightarrow> nat \<Rightarrow> (cbb_buffer_st \<Rightarrow> bool \<times> cbb_buffer_st) \<Rightarrow> cbb \<Rightarrow> bool \<times> cbb" where
  "flush_then h d f st =
     (case CBB_flush h d st of
        (False, st) \<Rightarrow> (False, st)
      | (True, st) \<Rightarrow>
          (case base st of
             None \<Rightarrow> (False, st)
           | Some b \<Rightarrow> (case f b of (ok, b) \<Rightarrow> (ok, st\<lparr>base := Some b\<rparr>))))"

definition add_zeros :: "heap_env \<Rightarrow> nat \<Rightarrow> cbb_buffer_st \<Rightarrow> bool \<times> cbb_buffer_st" where
  "add_zeros h n b =
     (case cbb_buffer_add h b n of
        (False, b') \<Rightarrow> (False, b')
      | (True, b') \<Rightarrow> (True, b'\<lparr>buf := write_at (buf b') (buf_len b) (replicate n 0)\<rparr>))"

definition cbb_add_length_prefixed :: "heap_env \<Rightarrow> nat \<Rightarrow> nat \<Rightarrow> cbb \<Rightarrow> bool \<times> cbb" where
  "cbb_add_length_prefixed h d len_len st =
     (case CBB_flush h d st of
        (False, st) \<Rightarrow> (False, st)
      | (True, st) \<Rightarrow>
          (case base st of
             None \<Rightarrow> (False, st)
           | Some b \<Rightarrow>
               (case add_zeros h len_len b of
                  (False, b') \<Rightarrow> (False, st\<lparr>base := Some b'\<rparr>)
                | (True, b') \<Rightarrow>
                    (True, st\<lparr>base := Some b',
                              children := take d (children st) @
                                [\<lparr>offset = buf_len b, pending_len_len = len_len, pending_is_asn1 = False\<rparr>]\<rparr>))))"

definition CBB_add_u8_length_prefixed :: "heap_env \<Rightarrow> nat \<Rightarrow> cbb \<Rightarrow> bool \<times> cbb" where
  "CBB_add_u8_length_prefixed h d = cbb_add_length_prefixed h d 1"

definition CBB_add_u16_length_prefixed :: "heap_env \<Rightarrow> nat \<Rightarrow> cbb \<Rightarrow> bool \<times> cbb" where
  "CBB_add_u16_length_prefixed h d = cbb_add_length_prefixed h d 2"

definition CBB_add_u24_length_prefixed :: "heap_env \<Rightarrow> nat \<Rightarrow> cbb \<Rightarrow> bool \<times> cbb" where
  "CBB_add_u24_length_prefixed h d = cbb_add_length_prefixed h d 3"

definition CBB_add_u8 :: "heap_env \<Rightarrow> nat \<Rightarrow> byte \<Rightarrow> cbb \<Rightarrow> bool \<times> cbb" where
  "CBB_add_u8 h d value = flush_then h d (\<lambda>b. cbb_buffer_add_u h b (ucast value) 1)"

definition CBB_add_u16 :: "heap_env \<Rightarrow> nat \<Rightarrow> u16 \<Rightarrow> cbb \<Rightarrow> bool \<times> cbb" where
  "CBB_add_u16 h d value = flush_then h d (\<lambda>b. cbb_buffer_add_u h b (ucast value) 2)"

definition CBB_add_u24 :: "heap_env \<Rightarrow> nat \<Rightarrow> u32 \<Rightarrow> cbb \<Rightarrow> bool \<times> cbb" where
  "CBB_add_u24 h d value = flush_then h d (\<lambda>b. cbb_buffer_add_u h b (ucast value) 3)"

definition CBB_add_u32 :: "heap_env \<Rightarrow> nat \<Rightarrow> u32 \<Rightarrow> cbb \<Rightarrow> bool \<times> cbb" where
  "CBB_add_u32 h d value = flush_then h d (\<lambda>b. cbb_buffer_add_u h b (ucast value) 4)"

definition CBB_add_u64 :: "heap_env \<Rightarrow> nat \<Rightarrow> u64 \<Rightarrow> cbb \<Rightarrow> bool \<times> cbb" where
  "CBB_add_u64 h d value = flush_then h d (\<lambda>b. cbb_buffer_add_u h b value 8)"

definition buffer_append :: "heap_env \<Rightarrow> bytes \<Rightarrow> cbb_buffer_st \<Rightarrow> bool \<times> cbb_buffer_st" where
  "buffer_append h data b =
     (case cbb_buffer_add h b (length data) of
        (False, b') \<Rightarrow> (False, b')
      | (True, b') \<Rightarrow> (True, b'\<lparr>buf := write_at (buf b') (buf_len b) data\<rparr>))"

definition CBB_add_bytes :: "heap_env \<Rightarrow> nat \<Rightarrow> bytes \<Rightarrow> cbb \<Rightarrow> bool \<times> cbb" where
  "CBB_add_bytes h d data = flush_then h d (buffer_append h data)"

text \<open>The caller fills the space; until then it holds whatever the allocation held.\<close>

definition CBB_add_space :: "heap_env \<Rightarrow> nat \<Rightarrow> nat \<Rightarrow> cbb \<Rightarrow> bool \<times> cbb" where
  "CBB_add_space h d n = flush_then h d (\<lambda>b. cbb_buffer_add h b n)"

definition CBB_reserve :: "heap_env \<Rightarrow> nat \<Rightarrow> nat \<Rightarrow> cbb \<Rightarrow> bool \<times> cbb" where
  "CBB_reserve h d n = flush_then h d (\<lambda>b. cbb_buffer_reserve h b n)"

definition CBB_did_write :: "nat \<Rightarrow> nat \<Rightarrow> cbb \<Rightarrow> bool \<times> cbb" where
  "CBB_did_write d n st =
     (case base st of
        None \<Rightarrow> (False, st)
      | Some b \<Rightarrow>
          let newlen = (buf_len b + n) mod SIZE_LIMIT in
          if d \<noteq> length (children st) \<or> newlen < buf_len b \<or> newlen > length (buf b)
          then (False, st)
          else (True, st\<lparr>base := Some (b\<lparr>buf_len := newlen\<rparr>)\<rparr>))"

definition CBB_discard_child :: "nat \<Rightarrow> cbb \<Rightarrow> cbb" where
  "CBB_discard_child d st =
     (if d \<ge> length (children st) then st
      else case base st of
             None \<Rightarrow> st
           | Some b \<Rightarrow> st\<lparr>base := Some (b\<lparr>buf_len := offset (children st ! d)\<rparr>),
                          children := take d (children st)\<rparr>)"

subsection \<open>ASN.1\<close>

text \<open>The number of base-128 digits, counted by shifting a copy of the value to zero.\<close>

function b128_len :: "u64 \<Rightarrow> nat" where
  "b128_len copy = (if copy > 0 then Suc (b128_len (drop_bit 7 copy)) else 0)"
  by pat_completeness auto
termination
  by (relation "measure unat") (auto simp: unat_drop_bit word_greater_zero_iff unat_gt_0)

declare b128_len.simps [simp del]

text \<open>The loop from \<open>i = len_len - 1\<close> down to 0; the argument is the number of digits left.\<close>

fun add_base128_loop :: "heap_env \<Rightarrow> nat \<Rightarrow> u64 \<Rightarrow> nat \<Rightarrow> cbb \<Rightarrow> bool \<times> cbb" where
  "add_base128_loop h d v 0 st = (True, st)"
| "add_base128_loop h d v (Suc i) st =
     (let byte = ucast (drop_bit (7 * i) v) AND 0x7f; byte = (if i \<noteq> 0 then byte OR 0x80 else byte) in
      case CBB_add_u8 h d byte st of
        (False, st) \<Rightarrow> (False, st)
      | (True, st) \<Rightarrow> add_base128_loop h d v i st)"

definition add_base128_integer :: "heap_env \<Rightarrow> nat \<Rightarrow> u64 \<Rightarrow> cbb \<Rightarrow> bool \<times> cbb" where
  "add_base128_integer h d v st =
     (let len_len = b128_len v; len_len = (if len_len = 0 then 1 else len_len) in
      add_base128_loop h d v len_len st)"

definition add_asn1_tag :: "heap_env \<Rightarrow> nat \<Rightarrow> u32 \<Rightarrow> cbb \<Rightarrow> bool \<times> cbb" where
  "add_asn1_tag h d tag st =
     (let tag_bits = ucast (drop_bit CBS_ASN1_TAG_SHIFT tag) AND 0xe0 :: byte;
          tag_number = tag AND CBS_ASN1_TAG_NUMBER_MASK in
      if tag_number \<ge> 0x1f then
        (case CBB_add_u8 h d (tag_bits OR 0x1f) st of
           (False, st) \<Rightarrow> (False, st)
         | (True, st) \<Rightarrow> add_base128_integer h d (ucast tag_number) st)
      else CBB_add_u8 h d (tag_bits OR ucast tag_number) st)"

definition CBB_add_asn1 :: "heap_env \<Rightarrow> nat \<Rightarrow> u32 \<Rightarrow> cbb \<Rightarrow> bool \<times> cbb" where
  "CBB_add_asn1 h d tag st =
     (case CBB_flush h d st of
        (False, st) \<Rightarrow> (False, st)
      | (True, st) \<Rightarrow>
     (case add_asn1_tag h d tag st of
        (False, st) \<Rightarrow> (False, st)
      | (True, st) \<Rightarrow>
          let offset = (case base st of None \<Rightarrow> 0 | Some b \<Rightarrow> buf_len b) in
     (case CBB_add_u8 h d 0 st of
        (False, st) \<Rightarrow> (False, st)
      | (True, st) \<Rightarrow>
          (True, st\<lparr>children := take d (children st) @
                     [\<lparr>offset = offset, pending_len_len = 1, pending_is_asn1 = True\<rparr>]\<rparr>))))"

text \<open>The loop over the eight bytes of the value, most significant first; the flag is \<open>started\<close>.\<close>

fun add_uint64_loop :: "heap_env \<Rightarrow> nat \<Rightarrow> byte list \<Rightarrow> bool \<Rightarrow> cbb \<Rightarrow> bool option \<times> cbb" where
  "add_uint64_loop h d [] started st = (Some started, st)"
| "add_uint64_loop h d (byte # bs) started st =
     (if \<not> started \<and> byte = 0 then add_uint64_loop h d bs started st
      else
        case (if \<not> started \<and> byte AND 0x80 \<noteq> 0 then CBB_add_u8 h d 0 st else (True, st)) of
          (False, st) \<Rightarrow> (None, st)
        | (True, st) \<Rightarrow>
            (case CBB_add_u8 h d byte st of
               (False, st) \<Rightarrow> (None, st)
             | (True, st) \<Rightarrow> add_uint64_loop h d bs True st))"

definition uint64_bytes :: "u64 \<Rightarrow> bytes" where
  "uint64_bytes value = map (\<lambda>i. ucast (drop_bit (8 * (7 - i)) value AND 0xff)) [0..<8]"

definition CBB_add_asn1_uint64 :: "heap_env \<Rightarrow> nat \<Rightarrow> u64 \<Rightarrow> cbb \<Rightarrow> bool \<times> cbb" where
  "CBB_add_asn1_uint64 h d value st =
     (case CBB_add_asn1 h d CBS_ASN1_INTEGER st of
        (False, st) \<Rightarrow> (False, st)
      | (True, st) \<Rightarrow>
     (case add_uint64_loop h (Suc d) (uint64_bytes value) False st of
        (None, st) \<Rightarrow> (False, st)
      | (Some started, st) \<Rightarrow>
     (case (if \<not> started then CBB_add_u8 h (Suc d) 0 st else (True, st)) of
        (False, st) \<Rightarrow> (False, st)
      | (True, st) \<Rightarrow> CBB_flush h d st)))"

definition CBB_add_asn1_octet_string :: "heap_env \<Rightarrow> nat \<Rightarrow> bytes \<Rightarrow> cbb \<Rightarrow> bool \<times> cbb" where
  "CBB_add_asn1_octet_string h d data st =
     (case CBB_add_asn1 h d CBS_ASN1_OCTETSTRING st of
        (False, st) \<Rightarrow> (False, st)
      | (True, st) \<Rightarrow>
     (case CBB_add_bytes h (Suc d) data st of
        (False, st) \<Rightarrow> (False, st)
      | (True, st) \<Rightarrow> CBB_flush h d st))"

definition CBB_add_asn1_bool :: "heap_env \<Rightarrow> nat \<Rightarrow> int \<Rightarrow> cbb \<Rightarrow> bool \<times> cbb" where
  "CBB_add_asn1_bool h d value st =
     (case CBB_add_asn1 h d CBS_ASN1_BOOLEAN st of
        (False, st) \<Rightarrow> (False, st)
      | (True, st) \<Rightarrow>
     (case CBB_add_u8 h (Suc d) (if value \<noteq> 0 then 0xff else 0) st of
        (False, st) \<Rightarrow> (False, st)
      | (True, st) \<Rightarrow> CBB_flush h d st))"


subsection \<open>The buffer operations\<close>

text \<open>
  A buffer is sound when its length is within its capacity and the capacity within
  \<open>size_t\<close>; what has been written is the first \<open>buf_len\<close> bytes.
\<close>

definition buffer_ok :: "cbb_buffer_st \<Rightarrow> bool" where
  "buffer_ok b \<longleftrightarrow> buf_len b \<le> length (buf b) \<and> length (buf b) < SIZE_LIMIT"

definition written :: "cbb_buffer_st \<Rightarrow> bytes" where
  "written b = take (buf_len b) (buf b)"

lemma length_written [simp]: "buffer_ok b \<Longrightarrow> length (written b) = buf_len b"
  by (simp add: buffer_ok_def written_def)

lemma reserve_success:
  assumes "cbb_buffer_reserve h b n = (True, b')" and ok: "buffer_ok b" and n: "n < SIZE_LIMIT"
  shows "buf_len b' = buf_len b" "error b' = error b" "can_resize b' = can_resize b"
    "buf_len b + n \<le> length (buf b')" "length (buf b') < SIZE_LIMIT"
    "take (length (buf b)) (buf b') = buf b" "length (buf b) \<le> length (buf b')"
proof -
  let ?new = "(buf_len b + n) mod SIZE_LIMIT"
  have lt: "buf_len b < SIZE_LIMIT" using ok by (simp add: buffer_ok_def)
  have fits: "?new = buf_len b + n \<and> buf_len b + n < SIZE_LIMIT" if "\<not> ?new < buf_len b"
    using that lt n mod_add_wrap [of "buf_len b" SIZE_LIMIT n] by auto
  have "?new < SIZE_LIMIT" and "length (buf b) * 2 mod SIZE_LIMIT < SIZE_LIMIT"
    by (simp_all add: SIZE_LIMIT_def)
  then show "buf_len b' = buf_len b" "error b' = error b" "can_resize b' = can_resize b"
    "buf_len b + n \<le> length (buf b')" "length (buf b') < SIZE_LIMIT"
    "take (length (buf b)) (buf b') = buf b" "length (buf b) \<le> length (buf b')"
    using assms fits
    by (auto simp: cbb_buffer_reserve_def buffer_error_def Let_def buffer_ok_def split: if_splits)
qed


lemma reserve_total:
  assumes ok: "buffer_ok b" and fits: "buf_len b + n < SIZE_LIMIT"
    and room: "buf_len b + n \<le> length (buf b) \<or> (can_resize b \<and> (\<forall>k m. alloc_ok h k m))"
  shows "fst (cbb_buffer_reserve h b n)"
  using assms by (auto simp: cbb_buffer_reserve_def Let_def)

lemma add_success:
  assumes "cbb_buffer_add h b n = (True, b')" and "buffer_ok b" and "n < SIZE_LIMIT"
  shows "buffer_ok b'" "buf_len b' = buf_len b + n" "error b' = error b" "can_resize b' = can_resize b"
    "take (buf_len b) (buf b') = written b"
proof -
  from assms(1) obtain r where r: "cbb_buffer_reserve h b n = (True, r)"
    and b': "b' = r\<lparr>buf_len := buf_len r + n\<rparr>"
    by (auto simp: cbb_buffer_add_def split: prod.splits bool.splits)
  note s = reserve_success [OF r assms(2,3)]
  show "buffer_ok b'" "buf_len b' = buf_len b + n" "error b' = error b" "can_resize b' = can_resize b"
    using s by (simp_all add: b' buffer_ok_def)
  have "take (buf_len b) (buf r) = take (buf_len b) (take (length (buf b)) (buf r))"
    using assms(2) by (simp add: buffer_ok_def min_absorb1)
  then show "take (buf_len b) (buf b') = written b" using s by (simp add: b' written_def)
qed

lemma add_total:
  assumes "buffer_ok b" and "buf_len b + n < SIZE_LIMIT"
    and "buf_len b + n \<le> length (buf b) \<or> (can_resize b \<and> (\<forall>k m. alloc_ok h k m))"
  shows "fst (cbb_buffer_add h b n)"
  using reserve_total [OF assms] by (auto simp: cbb_buffer_add_def split: prod.splits bool.splits)

text \<open>Writing over the space just added appends to what is written.\<close>

lemma written_fill:
  assumes "take l (buf b') = w" and "length w = l" and "buf_len b' = l + length d" and "buffer_ok b'"
  shows "written (b'\<lparr>buf := write_at (buf b') l d\<rparr>) = w @ d"
    and "buffer_ok (b'\<lparr>buf := write_at (buf b') l d\<rparr>)"
  using assms by (simp_all add: written_def write_at_def buffer_ok_def)

lemma append_success:
  assumes "buffer_append h data b = (True, b')" and "buffer_ok b" and "length data < SIZE_LIMIT"
  shows "buffer_ok b'" "written b' = written b @ data" "error b' = error b"
    "can_resize b' = can_resize b" "buf_len b' = buf_len b + length data"
proof -
  from assms(1) obtain r where r: "cbb_buffer_add h b (length data) = (True, r)"
    and b': "b' = r\<lparr>buf := write_at (buf r) (buf_len b) data\<rparr>"
    by (auto simp: buffer_append_def split: prod.splits bool.splits)
  note s = add_success [OF r assms(2,3)]
  show "buffer_ok b'" "written b' = written b @ data"
    using written_fill [OF s(5) _ s(2) s(1)] assms(2) by (simp_all add: b')
  show "error b' = error b" "can_resize b' = can_resize b" "buf_len b' = buf_len b + length data"
    using s by (simp_all add: b')
qed

lemma add_zeros_append: "add_zeros h n = buffer_append h (replicate n 0)"
  by (rule ext) (simp add: add_zeros_def buffer_append_def)

lemma store_be_eq:
  "pos + n \<le> length b \<Longrightarrow>
   store_be b pos n v = (write_at b pos (be_bytes n (unat v)), drop_bit (8 * n) v)"
proof (induction n arbitrary: b v)
  case 0
  then show ?case by (simp add: write_at_def)
next
  case (Suc n)
  have cast: "ucast v = (word_of_nat (unat v) :: byte)" by simp
  have "store_be b pos (Suc n) v
      = (write_at (b[pos + n := ucast v]) pos (be_bytes n (unat v div 256)), drop_bit (8 * n) (drop_bit 8 v))"
    using Suc by (simp add: unat_drop_bit)
  moreover have "write_at (b[pos + n := ucast v]) pos (be_bytes n (unat v div 256))
      = write_at b pos (be_bytes (Suc n) (unat v))"
    using Suc.prems
    by (simp add: write_at_def cast take_update_cancel drop_update_cancel upd_conv_take_nth_drop
        min_absorb2 Cons_nth_drop_Suc [symmetric] flip: cast)
  ultimately show ?case by (simp add: add.commute)
qed


lemma add_u_success:
  assumes "cbb_buffer_add_u h b v n = (True, b')" and ok: "buffer_ok b" and n: "n \<le> 8"
  shows "buffer_ok b'" "written b' = written b @ be_bytes n (unat v)" "error b' = error b"
    "can_resize b' = can_resize b" "n \<noteq> 0 \<Longrightarrow> unat v < 256 ^ n"
proof -
  have "buffer_ok b' \<and> written b' = written b @ be_bytes n (unat v) \<and> error b' = error b \<and>
    can_resize b' = can_resize b \<and> (n \<noteq> 0 \<longrightarrow> unat v < 256 ^ n)"
  proof (cases "n = 0")
    case True
    then show ?thesis using assms by (simp add: cbb_buffer_add_u_def)
  next
    case False
    have nl: "n < SIZE_LIMIT" using n by (simp add: SIZE_LIMIT_def)
    from assms(1) False obtain r where r: "cbb_buffer_add h b n = (True, r)"
      by (auto simp: cbb_buffer_add_u_def Let_def split: prod.splits bool.splits)
    note s = add_success [OF r ok nl]
    have room: "buf_len b + n \<le> length (buf r)" using s(1,2) by (simp add: buffer_ok_def)
    have left: "drop_bit (8 * n) v = 0" and b': "b' = r\<lparr>buf := write_at (buf r) (buf_len b) (be_bytes n (unat v))\<rparr>"
      using assms(1) False r
      by (auto simp: cbb_buffer_add_u_def Let_def store_be_eq [OF room] buffer_error_def
          split: prod.splits bool.splits if_splits)
    have "unat v div 2 ^ (8 * n) = 0" using arg_cong [OF left, of unat] by (simp add: unat_drop_bit)
    then have "unat v < 256 ^ n" by (simp add: pow256 div_eq_0_iff mult.commute)
    then show ?thesis
      using written_fill [OF s(5) _ _ s(1), of "be_bytes n (unat v)"] ok s by (simp add: b')
  qed
  then show "buffer_ok b'" "written b' = written b @ be_bytes n (unat v)" "error b' = error b"
    "can_resize b' = can_resize b" "n \<noteq> 0 \<Longrightarrow> unat v < 256 ^ n" by blast+
qed

lemma add_u_total:
  assumes ok: "buffer_ok b" and fits: "buf_len b + n < SIZE_LIMIT" and v: "unat v < 256 ^ n"
    and room: "buf_len b + n \<le> length (buf b) \<or> (can_resize b \<and> (\<forall>k m. alloc_ok h k m))"
  shows "fst (cbb_buffer_add_u h b v n)"
proof -
  obtain r where r: "cbb_buffer_add h b n = (True, r)"
    using add_total [OF ok fits room] by (cases "cbb_buffer_add h b n") auto
  have nl: "n < SIZE_LIMIT" using fits by simp
  have "buf_len b + n \<le> length (buf r)"
    using add_success [OF r ok nl] by (simp add: buffer_ok_def)
  moreover have "drop_bit (8 * n) v = 0"
  proof -
    have "unat (drop_bit (8 * n) v) = 0" using v by (simp add: unat_drop_bit pow256 mult.commute)
    then show ?thesis by (simp add: unat_eq_0)
  qed
  ultimately show ?thesis using r by (simp add: cbb_buffer_add_u_def Let_def store_be_eq)
qed

subsection \<open>Flushing: the length prefixes\<close>

text \<open>A kind of element: its length in \<open>n\<close> fixed octets, or in DER form.\<close>

datatype kind = Fixed nat | Der

fun kind_prefix :: "kind \<Rightarrow> nat \<Rightarrow> bytes" where
  "kind_prefix (Fixed k) n = be_bytes k n"
| "kind_prefix Der n = der_length n"

fun kind_fits :: "kind \<Rightarrow> nat \<Rightarrow> bool" where
  "kind_fits (Fixed k) n \<longleftrightarrow> n < 256 ^ k"
| "kind_fits Der n \<longleftrightarrow> n \<le> 0xfffffffe"

definition kind_of :: "cbb_child \<Rightarrow> kind" where
  "kind_of c = (if pending_is_asn1 c then Der else Fixed (pending_len_len c))"

definition child_ok :: "cbb_child \<Rightarrow> bool" where
  "child_ok c \<longleftrightarrow> 1 \<le> pending_len_len c \<and> pending_len_len c \<le> 3 \<and>
                (pending_is_asn1 c \<longrightarrow> pending_len_len c = 1)"

lemma asn1_length_form_eq:
  "n \<le> 0xfffffffe \<Longrightarrow> asn1_length_form n =
     Some (length (der_length n), hd (der_length n), if n < 128 then 0 else n)"
  "\<not> n \<le> 0xfffffffe \<Longrightarrow> asn1_length_form n = None"
  by (simp_all add: asn1_length_form_def der_length_def len_octets_def)

lemma tl_der_length: "tl (der_length n) = be_bytes (length (der_length n) - 1) (if n < 128 then 0 else n)"
  by (simp add: der_length_def)

lemma der_length_Cons: "der_length n = hd (der_length n) # tl (der_length n)"
  by (simp add: der_length_def)

lemma length_der_length: "length (der_length n) \<le> 5" "1 \<le> length (der_length n)"
  using len_octets_bounds [of n] by (simp_all add: der_length_def)


lemma write_at_mid: "length m = length d \<Longrightarrow> pos = length a \<Longrightarrow> write_at (a @ m @ z) pos d = a @ d @ z"
  by (simp add: write_at_def)

text \<open>Moving the contents up and writing the DER length in the room this leaves.\<close>

lemma move_and_prefix:
  assumes B: "B = wo @ x # body @ t1 @ t2" and lens: "length t1 = k" "length lb = k"
    and pos: "pos = length wo" "n = length body"
  shows "write_at ((write_at B (pos + 1 + k) (take n (drop (pos + 1) B)))[pos := y]) (pos + 1) lb
       = wo @ y # lb @ body @ t2"
proof -
  define m where "m = take k (body @ t1)"
  have m: "length m = k" using lens by (simp add: m_def)
  have "write_at B (pos + 1 + k) (take n (drop (pos + 1) B)) = (wo @ x # m) @ body @ t2"
    using lens unfolding B pos m_def by (simp add: write_at_def)
  then have "(write_at B (pos + 1 + k) (take n (drop (pos + 1) B)))[pos := y] = (wo @ [y]) @ m @ body @ t2"
    by (simp add: pos list_update_append)
  then show ?thesis
    using m lens pos write_at_mid [of m lb "length wo + 1" "wo @ [y]" "body @ t2"] by simp
qed

lemma flush_prefix_fixed:
  assumes ok: "buffer_ok b" and c: "child_ok c" "\<not> pending_is_asn1 c"
    and start: "start = offset c + pending_len_len c" "start \<le> buf_len b"
  shows "flush_prefix h b c start =
     (if kind_fits (kind_of c) (buf_len b - start)
      then (True, b\<lparr>buf := write_at (buf b) (offset c) (be_bytes (pending_len_len c) (buf_len b - start))\<rparr>, c)
      else (False, b\<lparr>buf := write_at (buf b) (offset c) (be_bytes (pending_len_len c) (buf_len b - start)),
                     error := True\<rparr>, c))"
proof -
  let ?n = "buf_len b - start"
  have "?n < SIZE_LIMIT" using ok unfolding buffer_ok_def by linarith
  then have n: "unat (word_of_nat ?n :: u64) = ?n" by (simp add: unat_of_nat SIZE_LIMIT_def)
  have "drop_bit (8 * pending_len_len c) (word_of_nat ?n :: u64) = 0 \<longleftrightarrow> ?n < 256 ^ pending_len_len c"
  proof -
    have "drop_bit (8 * pending_len_len c) (word_of_nat ?n :: u64) = 0
        \<longleftrightarrow> unat (drop_bit (8 * pending_len_len c) (word_of_nat ?n :: u64)) = 0" by (simp only: unat_eq_0)
    then show ?thesis by (simp only: unat_drop_bit n pow256 div_eq_0_iff) (simp add: mult.commute)
  qed
  moreover have "offset c + pending_len_len c \<le> length (buf b)"
    using ok start by (simp add: buffer_ok_def)
  ultimately show ?thesis using c n
    by (simp add: flush_prefix_def store_be_eq Let_def kind_of_def)
qed

lemma flush_prefix_success:
  assumes run: "flush_prefix h b c start = (True, b', c')" and ok: "buffer_ok b" and c: "child_ok c"
    and start: "start = offset c + pending_len_len c" "start \<le> buf_len b"
  shows "buffer_ok b' \<and> error b' = error b \<and> can_resize b' = can_resize b \<and>
    written b' = take (offset c) (written b) @ kind_prefix (kind_of c) (buf_len b - start) @ drop start (written b)
    \<and> kind_fits (kind_of c) (buf_len b - start)"
proof (cases "pending_is_asn1 c")
  case False
  note r = run [unfolded flush_prefix_fixed [OF ok c False start]]
  define n wo m body t where "n = buf_len b - start" and "wo = take (offset c) (written b)"
    and "m = take (pending_len_len c) (drop (offset c) (written b))" and "body = drop start (written b)"
    and "t = drop (buf_len b) (buf b)"
  have lw: "length (written b) = buf_len b" using ok by simp
  have lens: "length wo = offset c" "length m = pending_len_len c" "length body = n"
    using lw start by (simp_all add: wo_def m_def body_def n_def)
  have "written b = wo @ m @ body"
    unfolding wo_def m_def body_def by (metis append_take_drop_id start(1) drop_drop add.commute)
  then have B: "buf b = wo @ m @ body @ t"
    unfolding t_def written_def by (metis append_assoc append_take_drop_id)
  have mid: "write_at (buf b) (offset c) (be_bytes (pending_len_len c) n)
      = wo @ be_bytes (pending_len_len c) n @ body @ t"
    unfolding B using lens by (simp add: write_at_mid)
  have len: "buf_len b = offset c + pending_len_len c + n" using start by (simp add: n_def)
  from r [folded n_def, unfolded mid]
  have b': "b' = b\<lparr>buf := wo @ be_bytes (pending_len_len c) n @ body @ t\<rparr>"
    and fits: "kind_fits (kind_of c) n"
    by (auto split: if_splits)
  have "length (buf b') = length (buf b)" using b' B lens by simp
  moreover have "kind_prefix (kind_of c) n = be_bytes (pending_len_len c) n"
    using False by (simp add: kind_of_def)
  ultimately have "buffer_ok b' \<and> error b' = error b \<and> can_resize b' = can_resize b \<and>
      written b' = wo @ kind_prefix (kind_of c) n @ body \<and> kind_fits (kind_of c) n"
    using b' fits lens len ok by (simp add: buffer_ok_def written_def)
  then show ?thesis by (simp only: n_def wo_def body_def)
next
  case True
  then have p: "pending_len_len c = 1" using c by (simp add: child_ok_def)
  define n wo body where "n = buf_len b - start" and "wo = take (offset c) (written b)"
    and "body = drop start (written b)"
  let ?k = "length (der_length n)"
  have lw: "length (written b) = buf_len b" using ok by simp
  have lens: "length wo = offset c" "length body = n"
    using lw start p by (simp_all add: wo_def body_def n_def)
  obtain x where w: "written b = wo @ x # body"
    using start p lw unfolding wo_def body_def
    by (metis Suc_eq_plus1 Suc_le_lessD id_take_nth_drop)
  have fits: "n \<le> 0xfffffffe"
    using run True by (rule_tac ccontr) (simp add: flush_prefix_def Let_def asn1_length_form_eq flip: n_def)
  have nw: "unat (word_of_nat n :: u64) = n" using fits by (simp add: unat_of_nat)
  show ?thesis
  proof (cases "n < 128")
    case small: True
    then have k: "?k = 1" by (simp add: der_length_def)
    then have "b' = b\<lparr>buf := (buf b)[offset c := hd (der_length n)]\<rparr>"
      using run True fits small
      by (simp add: flush_prefix_def Let_def asn1_length_form_eq flip: n_def)
    moreover have "take (buf_len b) ((buf b)[offset c := hd (der_length n)]) = (written b)[offset c := hd (der_length n)]"
      by (simp add: written_def take_update_swap)
    ultimately have "buffer_ok b' \<and> error b' = error b \<and> can_resize b' = can_resize b \<and>
        written b' = wo @ kind_prefix (kind_of c) n @ body \<and> kind_fits (kind_of c) n"
      using ok w lens True fits small
      by (simp add: buffer_ok_def written_def kind_of_def der_length_def list_update_append)
    then show ?thesis by (simp only: n_def wo_def body_def)
  next
    case False
    then have k: "?k \<noteq> 1" "1 \<le> ?k" "?k - 1 < SIZE_LIMIT"
      using length_der_length [of n] len_octets_bounds [of n] by (auto simp: der_length_def SIZE_LIMIT_def)
    obtain r where r: "cbb_buffer_add h b (?k - 1) = (True, r)"
      using run True fits k
      by (auto simp: flush_prefix_def Let_def asn1_length_form_eq simp flip: n_def split: prod.splits bool.splits)
    note s = add_success [OF r ok k(3)]
    obtain t where t: "buf r = wo @ x # body @ t"
      using s(5) w by (metis append_Cons append_assoc append_take_drop_id)
    have "?k - 1 \<le> length t"
      using s(1,2) lens t start p by (simp add: buffer_ok_def n_def)
    then obtain t1 t2 where t12: "t = t1 @ t2" "length t1 = ?k - 1"
      by (metis append_take_drop_id length_take min_absorb2)
    let ?B = "(write_at (buf r) (start + (?k - 1)) (take n (drop start (buf r))))[offset c := hd (der_length n)]"
    have lB: "length ?B = length (buf r)"
      using t t12 lens start p by (simp add: write_at_def)
    have room: "offset c + 1 + (?k - 1) \<le> length ?B"
      unfolding lB using t t12 lens by simp
    have mv: "write_at ?B (offset c + 1) (be_bytes (?k - 1) n) = wo @ hd (der_length n) # be_bytes (?k - 1) n @ body @ t2"
      unfolding start(1) p
    proof (rule move_and_prefix)
      show "buf r = wo @ x # body @ t1 @ t2" using t t12(1) by simp
      show "length t1 = ?k - 1" by (rule t12(2))
    qed (simp_all add: lens)
    have "?k - 1 = len_octets n" using False by (simp add: der_length_def)
    then have "n < 256 ^ (?k - 1)" using len_octets_fits [of n] fits by simp
    then have zero: "drop_bit (8 * (?k - 1)) (word_of_nat n :: u64) = 0"
      by (simp only: word_unat_eq_iff unat_drop_bit nw unat_0 pow256 mult.commute) simp
    have b': "b' = r\<lparr>buf := wo @ hd (der_length n) # be_bytes (?k - 1) n @ body @ t2\<rparr>"
      using run True fits k r False store_be_eq [OF room, of "word_of_nat n"] mv zero nw
      by (auto simp: flush_prefix_def Let_def asn1_length_form_eq simp flip: n_def split: prod.splits)
    have hc: "hd (der_length n) # be_bytes (?k - 1) n = der_length n"
      using der_length_Cons [of n] tl_der_length [of n] False by simp
    have "buf b' = wo @ (hd (der_length n) # be_bytes (?k - 1) n) @ body @ t2"
      using b' by simp
    then have bufb: "buf b' = wo @ der_length n @ body @ t2" unfolding hc .
    moreover have "buf_len b' = buf_len b + (?k - 1)" "error b' = error b" "can_resize b' = can_resize b"
      using s b' by simp_all
    moreover have "buf_len b = offset c + 1 + n" using start p by (simp add: n_def)
    moreover have "length (buf b') = length (buf r)"
      using t t12 lens k(2) bufb by simp
    ultimately have "buffer_ok b' \<and> error b' = error b \<and> can_resize b' = can_resize b \<and>
        written b' = wo @ kind_prefix (kind_of c) n @ body \<and> kind_fits (kind_of c) n"
      using s(1,2) lens k(2) True fits by (simp add: buffer_ok_def written_def kind_of_def)
    then show ?thesis by (simp only: n_def wo_def body_def)
  qed
qed


subsection \<open>The abstract builder\<close>

text \<open>
  What the client is writing: the bytes of the outermost element and, for each live child,
  its kind and the bytes it has so far. Flushing folds the inner elements into the outer one,
  each behind its length; this is the contract \<open>CBB\<close> promises, free of offsets, capacities
  and moves.
\<close>

type_synonym frames = "bytes \<times> (kind \<times> bytes) list"

fun collapse :: "bytes \<Rightarrow> (kind \<times> bytes) list \<Rightarrow> bytes" where
  "collapse f [] = f"
| "collapse f ((k, g) # gs) = f @ kind_prefix k (length (collapse g gs)) @ collapse g gs"

fun frames_fit :: "bytes \<Rightarrow> (kind \<times> bytes) list \<Rightarrow> bool" where
  "frames_fit f [] = True"
| "frames_fit f ((k, g) # gs) = (kind_fits k (length (collapse g gs)) \<and> frames_fit g gs)"

fun spec_flush :: "nat \<Rightarrow> bytes \<Rightarrow> (kind \<times> bytes) list \<Rightarrow> frames" where
  "spec_flush 0 f gs = (collapse f gs, [])"
| "spec_flush (Suc d) f [] = (f, [])"
| "spec_flush (Suc d) f ((k, g) # gs) = (let (g', gs') = spec_flush d g gs in (f, (k, g') # gs'))"

fun spec_append :: "bytes \<Rightarrow> bytes \<Rightarrow> (kind \<times> bytes) list \<Rightarrow> frames" where
  "spec_append data f [] = (f @ data, [])"
| "spec_append data f ((k, g) # gs) = (let (g', gs') = spec_append data g gs in (f, (k, g') # gs'))"

definition spec_add :: "nat \<Rightarrow> bytes \<Rightarrow> frames \<Rightarrow> frames" where
  "spec_add d data fr = (let (g, gs) = spec_flush d (fst fr) (snd fr) in spec_append data g gs)"

definition spec_open :: "nat \<Rightarrow> bytes \<Rightarrow> kind \<Rightarrow> frames \<Rightarrow> frames" where
  "spec_open d header k fr = (let (g, gs) = spec_add d header fr in (g, gs @ [(k, [])]))"

text \<open>The elements a buffer and its chain of children stand for.\<close>

fun frames_of :: "nat \<Rightarrow> bytes \<Rightarrow> cbb_child list \<Rightarrow> frames" where
  "frames_of lo w [] = (drop lo w, [])"
| "frames_of lo w (c # cs) =
     (let (g, gs) = frames_of (offset c + pending_len_len c) w cs in
      (drop lo (take (offset c) w), (kind_of c, g) # gs))"

fun chain_ok :: "nat \<Rightarrow> cbb_child list \<Rightarrow> nat \<Rightarrow> bool" where
  "chain_ok lo [] n = (lo \<le> n)"
| "chain_ok lo (c # cs) n =
     (lo \<le> offset c \<and> child_ok c \<and> chain_ok (offset c + pending_len_len c) cs n)"

definition cbb_ok :: "cbb \<Rightarrow> bool" where
  "cbb_ok st \<longleftrightarrow> (case base st of None \<Rightarrow> False
     | Some b \<Rightarrow> buffer_ok b \<and> \<not> error b \<and> chain_ok 0 (children st) (buf_len b))"

definition abs_cbb :: "cbb \<Rightarrow> frames" where
  "abs_cbb st = (case base st of None \<Rightarrow> ([], []) | Some b \<Rightarrow> frames_of 0 (written b) (children st))"

lemma chain_ok_le: "chain_ok lo cs n \<Longrightarrow> lo \<le> n"
  by (induction cs arbitrary: lo) fastforce+

lemma frames_of_cong:
  "take m w = take m w' \<Longrightarrow> chain_ok lo cs m \<Longrightarrow> length w = m \<Longrightarrow> length w' = m \<Longrightarrow> frames_of lo w cs = frames_of lo w' cs"
  by simp

lemma flush_children_success:
  assumes "flush_children h b cs = (True, b', cs')" and "buffer_ok b" and "chain_ok lo cs (buf_len b)"
  shows "cs' = [] \<and> buffer_ok b' \<and> \<not> error b' \<and> can_resize b' = can_resize b \<and> lo \<le> buf_len b' \<and>
    take lo (written b') = take lo (written b) \<and>
    drop lo (written b') = collapse (fst (frames_of lo (written b) cs)) (snd (frames_of lo (written b) cs)) \<and>
    frames_fit (fst (frames_of lo (written b) cs)) (snd (frames_of lo (written b) cs))"
  using assms
proof (induction cs arbitrary: b' cs' lo)
  case Nil
  then show ?case by auto
next
  case (Cons c cs)
  let ?start = "offset c + pending_len_len c"
  from Cons.prems(3) have c: "lo \<le> offset c" "child_ok c" "chain_ok ?start cs (buf_len b)" by simp_all
  then have p: "1 \<le> pending_len_len c" "pending_len_len c \<le> 3" by (simp_all add: child_ok_def)
  have "?start \<le> buf_len b" using chain_ok_le [OF c(3)] .
  then have nowrap: "?start mod SIZE_LIMIT = ?start"
    using Cons.prems(2) by (simp add: buffer_ok_def)
  from Cons.prems(1) p nowrap obtain b1 cs1 c' where
    inner: "flush_children h b cs = (True, b1, cs1)" and st: "?start \<le> buf_len b1"
    and fp: "flush_prefix h b1 c ?start = (True, b', c')" and cs': "cs' = []"
    by (auto simp: Let_def split: prod.splits bool.splits if_splits)
  note IH = Cons.IH [OF inner Cons.prems(2) c(3)]
  define g gs where "g = fst (frames_of ?start (written b) cs)" and "gs = snd (frames_of ?start (written b) cs)"
  from IH have b1: "buffer_ok b1" "\<not> error b1" "can_resize b1 = can_resize b"
    "take ?start (written b1) = take ?start (written b)" "drop ?start (written b1) = collapse g gs"
    "frames_fit g gs" by (simp_all add: g_def gs_def)
  from flush_prefix_success [OF fp b1(1) c(2) refl st]
  have b': "buffer_ok b'" "error b' = error b1" "can_resize b' = can_resize b1"
    "written b' = take (offset c) (written b1) @ kind_prefix (kind_of c) (buf_len b1 - ?start) @ collapse g gs"
    "kind_fits (kind_of c) (buf_len b1 - ?start)"
    by (simp_all add: b1(5))
  have n: "buf_len b1 - ?start = length (collapse g gs)"
    using arg_cong [OF b1(5), of length] b1(1) by simp
  have o: "take (offset c) (written b1) = take (offset c) (written b)"
    using arg_cong [OF b1(4), of "take (offset c)"] by (simp add: min_absorb1)
  have lo: "length (take (offset c) (written b)) = offset c"
    using st o b1(1) by (metis length_take length_written min_absorb2 add_leE)
  have "frames_of lo (written b) (c # cs) = (drop lo (take (offset c) (written b)), (kind_of c, g) # gs)"
    by (simp add: g_def gs_def split: prod.splits)
  moreover have "lo \<le> buf_len b'"
    using arg_cong [OF b'(4), of length] b'(1) lo o c(1) by simp
  ultimately show ?case
    using b' b1 cs' n o lo c(1) by simp
qed


fun chain_end :: "nat \<Rightarrow> cbb_child list \<Rightarrow> nat" where
  "chain_end lo [] = lo"
| "chain_end lo (c # cs) = chain_end (offset c + pending_len_len c) cs"

lemma chain_ok_append:
  "chain_ok lo (xs @ ys) n \<longleftrightarrow>
     chain_ok lo xs (chain_end lo xs) \<and> chain_ok (chain_end lo xs) ys n"
  by (induction xs arbitrary: lo) auto

lemma chain_ok_mono: "chain_ok lo xs m \<Longrightarrow> chain_end lo xs \<le> n \<Longrightarrow> chain_ok lo xs n"
  by (induction xs arbitrary: lo) auto

lemma chain_end_ge: "chain_ok lo xs m \<Longrightarrow> lo \<le> chain_end lo xs \<and> chain_end lo xs \<le> m"
  by (induction xs arbitrary: lo) fastforce+

lemma spec_flush_frames:
  assumes "chain_ok lo (xs @ ys) n" and "chain_end lo xs = e"
    and "take e w' = take e w" and "drop e w' = collapse (fst (frames_of e w ys)) (snd (frames_of e w ys))"
  shows "frames_of lo w' xs
       = spec_flush (length xs) (fst (frames_of lo w (xs @ ys))) (snd (frames_of lo w (xs @ ys)))"
  using assms
proof (induction xs arbitrary: lo)
  case (Cons c xs)
  let ?s = "offset c + pending_len_len c"
  from Cons.prems have ch: "chain_ok ?s (xs @ ys) n" "chain_end ?s xs = e" by simp_all
  have "offset c \<le> e"
    using chain_end_ge [of ?s xs "chain_end ?s xs"] ch by (auto simp: chain_ok_append)
  then have "take (offset c) w' = take (offset c) w"
    using arg_cong [OF Cons.prems(3), of "take (offset c)"] by (simp add: min_absorb1)
  moreover have "frames_of ?s w' xs
      = spec_flush (length xs) (fst (frames_of ?s w (xs @ ys))) (snd (frames_of ?s w (xs @ ys)))"
    using Cons.IH [OF ch Cons.prems(3,4)] .
  ultimately show ?case by (simp split: prod.splits)
qed simp

text \<open>A flush refines the abstract flush, and leaves no child below.\<close>

lemma flush_success:
  assumes run: "CBB_flush h d st = (True, st')" and ok: "cbb_ok st"
  shows "cbb_ok st' \<and> length (children st') = d \<and> d \<le> length (children st) \<and>
    abs_cbb st' = spec_flush d (fst (abs_cbb st)) (snd (abs_cbb st)) \<and> children st' = take d (children st)"
proof -
  obtain b where b: "base st = Some b" "buffer_ok b" "\<not> error b" "chain_ok 0 (children st) (buf_len b)"
    using ok by (auto simp: cbb_ok_def split: option.splits)
  from run b(1) obtain b' cs' where fl: "flush_children h b (drop d (children st)) = (True, b', cs')"
    and d: "d \<le> length (children st)"
    and st': "st' = st\<lparr>base := Some b', children := take d (children st) @ cs'\<rparr>"
    by (auto simp: CBB_flush_def split: prod.splits if_splits)
  define e where "e = chain_end 0 (take d (children st))"
  have ch: "chain_ok 0 (take d (children st) @ drop d (children st)) (buf_len b)"
    using b(4) by simp
  then have tl: "chain_ok e (drop d (children st)) (buf_len b)"
    unfolding chain_ok_append e_def by simp
  note f = flush_children_success [OF fl b(2) tl]
  have "chain_ok 0 (take d (children st)) (buf_len b')"
  proof -
    have "chain_ok 0 (take d (children st)) e" using ch unfolding chain_ok_append e_def by simp
    then show ?thesis using f by (auto intro: chain_ok_mono simp: e_def)
  qed
  moreover have "abs_cbb st' = spec_flush d (fst (abs_cbb st)) (snd (abs_cbb st))"
    using spec_flush_frames [OF ch e_def [symmetric], of "written b'" "written b"] f d
    by (simp add: abs_cbb_def st' b(1))
  ultimately show ?thesis using f d by (simp add: cbb_ok_def st')
qed

lemma frames_of_append_data:
  "chain_ok lo cs (length w) \<Longrightarrow>
   frames_of lo (w @ data) cs = spec_append data (fst (frames_of lo w cs)) (snd (frames_of lo w cs))"
proof (induction cs arbitrary: lo)
  case (Cons c cs)
  then have "offset c \<le> length w" using chain_ok_le by fastforce
  then show ?case using Cons by (simp split: prod.splits)
qed simp

text \<open>Flushing and then appending to the buffer refines the abstract append.\<close>

lemma flush_then_success:
  assumes run: "flush_then h d f st = (True, st')" and ok: "cbb_ok st"
    and f: "\<And>b b'. f b = (True, b') \<Longrightarrow> buffer_ok b \<Longrightarrow>
               buffer_ok b' \<and> written b' = written b @ data \<and> error b' = error b"
  shows "cbb_ok st' \<and> length (children st') = d \<and> children st' = take d (children st) \<and>
    abs_cbb st' = spec_add d data (abs_cbb st)"
proof -
  from run obtain st1 b b' where fl: "CBB_flush h d st = (True, st1)" and b: "base st1 = Some b"
    and fb: "f b = (True, b')" and st': "st' = st1\<lparr>base := Some b'\<rparr>"
    by (auto simp: flush_then_def split: prod.splits bool.splits option.splits)
  note s = flush_success [OF fl ok]
  from s b have b1: "buffer_ok b" "\<not> error b" "chain_ok 0 (children st1) (buf_len b)"
    unfolding cbb_ok_def by (auto simp del: chain_ok.simps)
  from f [OF fb b1(1)] have b': "buffer_ok b'" "written b' = written b @ data" "error b' = error b" by auto
  have len: "buf_len b' = buf_len b + length data"
    using arg_cong [OF b'(2), of length] b'(1) b1(1) by simp
  have "chain_ok 0 (children st1) (buf_len b')"
    by (rule chain_ok_mono [OF b1(3)]) (use chain_end_ge [OF b1(3)] len in simp)
  moreover have "abs_cbb st' = spec_append data (fst (abs_cbb st1)) (snd (abs_cbb st1))"
    using frames_of_append_data [of 0 "children st1" "written b" data] b1 b'
    by (simp add: abs_cbb_def st' b)
  ultimately show ?thesis using s b1 b' by (simp add: cbb_ok_def st' spec_add_def split: prod.splits)
qed


subsection \<open>Every operation refines its abstract counterpart\<close>

definition adds :: "nat \<Rightarrow> bytes \<Rightarrow> cbb \<Rightarrow> cbb \<Rightarrow> bool" where
  "adds d data st st' \<longleftrightarrow> cbb_ok st' \<and> length (children st') = d \<and> children st' = take d (children st) \<and>
     abs_cbb st' = spec_add d data (abs_cbb st)"

lemma addsD:
  assumes "adds d data st st'"
  shows "cbb_ok st'" "length (children st') = d" "d \<le> length (children st)"
    "take d (children st') = take d (children st)" "abs_cbb st' = spec_add d data (abs_cbb st)"
  using assms unfolding adds_def by (metis, metis, metis length_take min.cobounded1, simp, metis)

lemma spec_append_append:
  "spec_append y (fst (spec_append x f gs)) (snd (spec_append x f gs)) = spec_append (x @ y) f gs"
  by (induction x f gs rule: spec_append.induct) (auto split: prod.splits)

lemma spec_append_Nil [simp]: "spec_append [] f gs = (f, gs)"
  by (induction "[] :: bytes" f gs rule: spec_append.induct) auto

lemma length_snd_spec_append [simp]: "length (snd (spec_append x f gs)) = length gs"
  by (induction x f gs rule: spec_append.induct) (auto split: prod.splits)

lemma spec_flush_id: "length gs = d \<Longrightarrow> spec_flush d f gs = (f, gs)"
  by (induction d f gs rule: spec_flush.induct) auto

lemma length_spec_flush: "d \<le> length gs \<Longrightarrow> length (snd (spec_flush d f gs)) = d"
  by (induction d f gs rule: spec_flush.induct) (auto split: prod.splits)

lemma length_frames_of [simp]: "length (snd (frames_of lo w cs)) = length cs"
  by (induction cs arbitrary: lo) (simp_all add: split_def Let_def)

lemma length_abs_cbb: "cbb_ok st \<Longrightarrow> length (snd (abs_cbb st)) = length (children st)"
  by (auto simp: cbb_ok_def abs_cbb_def split: option.splits)

lemma adds_trans: "adds d x st st1 \<Longrightarrow> adds d y st1 st2 \<Longrightarrow> adds d (x @ y) st st2"
proof -
  assume a: "adds d x st st1" and b: "adds d y st1 st2"
  have "length (snd (abs_cbb st1)) = length (children st1)"
    using a by (intro length_abs_cbb) (simp add: adds_def)
  then have "length (snd (abs_cbb st1)) = d" using a unfolding adds_def by metis
  then have "abs_cbb st2 = spec_append y (fst (abs_cbb st1)) (snd (abs_cbb st1))"
    using b by (simp add: adds_def spec_add_def spec_flush_id split_def Let_def)
  moreover have "abs_cbb st1 = spec_add d x (abs_cbb st)" using a by (simp add: adds_def)
  ultimately have "abs_cbb st2 = spec_add d (x @ y) (abs_cbb st)"
    by (simp add: spec_add_def spec_append_append split_def Let_def)
  moreover have "children st2 = take d (children st)"
    using a b unfolding adds_def by (metis min.idem take_take)
  ultimately show ?thesis using addsD [OF b] unfolding adds_def by metis
qed

lemma flush_adds: "CBB_flush h d st = (True, st') \<Longrightarrow> cbb_ok st \<Longrightarrow> adds d [] st st'"
  using flush_success [of h d st st'] by (auto simp: adds_def spec_add_def split: prod.splits)

lemma add_u_adds:
  "flush_then h d (\<lambda>b. cbb_buffer_add_u h b v n) st = (True, st') \<Longrightarrow> cbb_ok st \<Longrightarrow> n \<le> 8 \<Longrightarrow>
   adds d (be_bytes n (unat v)) st st'"
  unfolding adds_def by (rule flush_then_success) (auto dest: add_u_success)

lemma add_u8_adds: "CBB_add_u8 h d v st = (True, st') \<Longrightarrow> cbb_ok st \<Longrightarrow> adds d [v] st st'"
  using add_u_adds [of h d "ucast v" 1 st st'] by (simp add: CBB_add_u8_def unat_ucast_up)

lemma add_bytes_adds:
  "CBB_add_bytes h d data st = (True, st') \<Longrightarrow> cbb_ok st \<Longrightarrow> length data < SIZE_LIMIT \<Longrightarrow>
   adds d data st st'"
  unfolding adds_def CBB_add_bytes_def by (rule flush_then_success) (auto dest: append_success)

lemma frames_of_open:
  "chain_ok lo cs (length w) \<Longrightarrow> offset c = length w \<Longrightarrow> pending_len_len c = length z \<Longrightarrow>
   frames_of lo (w @ z) (cs @ [c])
     = (fst (frames_of lo w cs), snd (frames_of lo w cs) @ [(kind_of c, [])])"
proof (induction cs arbitrary: lo)
  case (Cons a cs)
  then have "offset a \<le> length w" using chain_ok_le by fastforce
  then show ?case using Cons by (simp split: prod.splits)
qed simp

lemma chain_ok_open:
  "chain_ok lo cs n \<Longrightarrow> child_ok c \<Longrightarrow> offset c = n \<Longrightarrow> chain_ok lo (cs @ [c]) (n + pending_len_len c)"
proof -
  assume a: "chain_ok lo cs n" "child_ok c" "offset c = n"
  have "chain_ok lo cs (chain_end lo cs)" by (rule chain_ok_mono [OF a(1)]) simp
  then show ?thesis using a chain_end_ge [OF a(1)] by (simp add: chain_ok_append)
qed


text \<open>The base-128 writer emits exactly the specified digits.\<close>

fun high_digits :: "nat \<Rightarrow> nat \<Rightarrow> bytes" where
  "high_digits 0 v = []"
| "high_digits (Suc m) v = high_digits m (v div 128) @ [word_of_nat (128 + v mod 128)]"

fun b128_size :: "nat \<Rightarrow> nat" where
  "b128_size v = (if v = 0 then 0 else Suc (b128_size (v div 128)))"

declare b128_size.simps [simp del]

lemma b128_size_0 [simp]: "b128_size 0 = 0"
  by (simp add: b128_size.simps)

lemma b128_len_0 [simp]: "b128_len 0 = 0"
  by (simp add: b128_len.simps)

lemma b128_high_digits: "b128_high v = high_digits (b128_size v) v"
proof (induction v rule: b128_high.induct)
  case (1 v)
  then show ?case by (cases "v = 0") (simp_all add: b128_high.simps [of v] b128_size.simps [of v])
qed

lemma b128_len_size: "b128_len v = b128_size (unat v)"
proof (induction v rule: b128_len.induct)
  case (1 v)
  show ?case
  proof (cases "v > 0")
    case True
    then have "unat v \<noteq> 0" by (simp add: word_greater_zero_iff unat_eq_0)
    then show ?thesis using "1.IH" [OF True] True
      by (simp add: b128_len.simps [of v] b128_size.simps [of "unat v"] unat_drop_bit)
  next
    case False
    then show ?thesis by (simp add: b128_len.simps [of v] b128_size.simps [of "unat v"] word_greater_zero_iff)
  qed
qed

definition digit_byte :: "u64 \<Rightarrow> nat \<Rightarrow> byte" where
  "digit_byte v i = (let byte = ucast (drop_bit (7 * i) v) AND 0x7f in if i \<noteq> 0 then byte OR 0x80 else byte)"

lemma byte_or_80: "unat b < 128 \<Longrightarrow> b OR 0x80 = (word_of_nat (128 + unat b) :: byte)"
proof -
  assume b: "unat (b :: byte) < 128"
  have "unat (push_bit 7 1 OR b) = 128 + unat b"
    using or_shift_unat [of b 7 1] b by simp
  then have "unat (b OR 0x80) = 128 + unat b" by (simp add: or.commute)
  then show ?thesis using b by (metis of_nat_unat ucast_id)
qed

lemma unat_digit: "unat (ucast (drop_bit (7 * i) v) AND 0x7f :: byte) = unat (v :: u64) div 128 ^ i mod 128"
proof -
  have "unat (ucast (drop_bit (7 * i) v) :: byte) mod 128 = unat v div 2 ^ (7 * i) mod 256 mod 128"
    by (simp add: unat_ucast_down unat_drop_bit)
  also have "\<dots> = unat v div 2 ^ (7 * i) mod 128"
    using mod_mod_cancel [of 128 256 "unat v div 2 ^ (7 * i)"] by simp
  finally show ?thesis by (simp add: unat_and_7f power_mult)
qed

lemma digit_byte_eq:
  "digit_byte v i = word_of_nat ((if i = 0 then 0 else 128) + unat v div 128 ^ i mod 128)"
proof -
  define d :: byte where "d = ucast (drop_bit (7 * i) v) AND 0x7f"
  have d: "unat d = unat v div 128 ^ i mod 128" unfolding d_def by (rule unat_digit)
  have "digit_byte v i = (if i \<noteq> 0 then d OR 0x80 else d)" by (simp add: digit_byte_def d_def Let_def)
  also have "\<dots> = word_of_nat ((if i = 0 then 0 else 128) + unat d)"
  proof -
    have "unat d < 128" using d by simp
    then show ?thesis by (simp only: byte_or_80) simp
  qed
  finally show ?thesis by (simp only: d)
qed

fun digit_bytes :: "u64 \<Rightarrow> nat \<Rightarrow> bytes" where
  "digit_bytes v 0 = []"
| "digit_bytes v (Suc i) = digit_byte v i # digit_bytes v i"

lemma add_base128_loop_adds:
  "add_base128_loop h d v n st = (True, st') \<Longrightarrow> cbb_ok st \<Longrightarrow> d = length (children st) \<Longrightarrow>
   adds d (digit_bytes v n) st st'"
proof (induction n arbitrary: st)
  case 0
  then show ?case by (simp add: adds_def spec_add_def spec_flush_id length_abs_cbb split: prod.splits)
next
  case (Suc n)
  from Suc.prems(1) obtain st1 where s1: "CBB_add_u8 h d (digit_byte v n) st = (True, st1)"
    and s2: "add_base128_loop h d v n st1 = (True, st')"
    by (auto simp: digit_byte_def Let_def split: prod.splits bool.splits)
  have a: "adds d [digit_byte v n] st st1" using s1 Suc.prems(2) by (rule add_u8_adds)
  moreover have "adds d (digit_bytes v n) st1 st'"
    using Suc.IH [OF s2] a unfolding adds_def by metis
  ultimately show ?case using adds_trans [of d "[digit_byte v n]" st st1] by simp
qed

lemma high_digits_Cons: "high_digits (Suc m) v = word_of_nat (128 + v div 128 ^ m mod 128) # high_digits m v"
  by (induction m arbitrary: v) (simp_all add: div_mult2_eq)

lemma digit_bytes_eq: "digit_bytes v (Suc m) = high_digits m (unat v div 128) @ [word_of_nat (unat v mod 128)]"
proof (induction m)
  case 0
  then show ?case by (simp add: digit_byte_eq)
next
  case (Suc m)
  then show ?case by (simp add: digit_byte_eq [of v "Suc m"] high_digits_Cons [of m] div_mult2_eq
      del: high_digits.simps(2) digit_bytes.simps(2) add: digit_bytes.simps(2) [of v "Suc m"])
qed

lemma add_base128_adds:
  assumes "add_base128_integer h d v st = (True, st')" and "cbb_ok st" and "d = length (children st)"
  shows "adds d (b128 (unat v)) st st'"
proof -
  define n where "n = (if b128_len v = 0 then 1 else b128_len v)"
  have "n = Suc (b128_size (unat v div 128))"
    by (cases "unat v = 0") (simp_all add: n_def b128_len_size b128_size.simps [of "unat v"])
  then have "digit_bytes v n = b128 (unat v)"
    by (simp add: digit_bytes_eq b128_def b128_high_digits del: digit_bytes.simps)
  moreover have "add_base128_loop h d v n st = (True, st')"
    using assms(1) by (simp add: add_base128_integer_def n_def Let_def)
  ultimately show ?thesis using add_base128_loop_adds assms(2,3) by metis
qed


lemma tag_bits_eq:
  "ucast (drop_bit 24 tag) AND 0xe0 = (word_of_nat (32 * (unat (tag :: u32) div 2 ^ 29)) :: byte)"
proof -
  have e0: "(0xe0 :: byte) = push_bit 5 (mask 3)"
    by (simp add: mask_eq_exp_minus_1 push_bit_eq_mult)
  have "word_of_nat (32 * (unat tag div 2 ^ 29)) = push_bit 5 (ucast (drop_bit 29 tag) :: byte)"
    by (simp add: push_bit_eq_mult word_unat_eq_iff unat_of_nat unat_ucast_down unat_drop_bit
        unat_word_ariths mod_mult_left_eq mult.commute)
  moreover have "ucast (drop_bit 24 tag) AND 0xe0 = push_bit 5 (ucast (drop_bit 29 tag) :: byte)"
    unfolding e0 by (rule bit_word_eqI) (auto simp: bit_simps dest: bit_imp_le_length)
  ultimately show ?thesis by simp
qed

lemma tag_number_eq: "unat (tag AND CBS_ASN1_TAG_NUMBER_MASK) = unat (tag :: u32) mod 2 ^ 29"
proof -
  have "CBS_ASN1_TAG_NUMBER_MASK = mask 29"
    by (simp add: asn1_consts push_bit_eq_mult mask_eq_exp_minus_1)
  then show ?thesis using unat_and_mask [of tag 29] by simp
qed

lemma add_asn1_tag_adds:
  assumes run: "add_asn1_tag h d tag st = (True, st')" and ok: "cbb_ok st" and d: "d = length (children st)"
  shows "adds d (der_tag tag) st st'"
proof -
  define c n where "c = unat tag div 2 ^ 29" and "n = unat tag mod 2 ^ 29"
  have c: "c < 8" using unat_u32_less [of tag] by (simp add: c_def less_mult_imp_div_less)
  have bits: "ucast (drop_bit CBS_ASN1_TAG_SHIFT tag) AND 0xe0 = (word_of_nat (32 * c) :: byte)"
    using tag_bits_eq [of tag] by (simp add: c_def CBS_ASN1_TAG_SHIFT_def)
  have or5: "word_of_nat (32 * c) OR b = (word_of_nat (32 * c + unat b) :: byte)" if "unat b < 32" for b :: byte
  proof -
    have "unat (word_of_nat c :: byte) = c" using c by (simp add: unat_of_nat)
    then have "unat (push_bit 5 (word_of_nat c) OR b) = c * 32 + unat b"
      using or_shift_unat [of b 5 "word_of_nat c"] that c by simp
    moreover have "push_bit 5 (word_of_nat c) = (word_of_nat (32 * c) :: byte)"
      by (simp add: push_bit_eq_mult mult.commute)
    ultimately have "unat (word_of_nat (32 * c) OR b) = 32 * c + unat b" by (simp add: mult.commute)
    then show ?thesis by (metis of_nat_unat ucast_id)
  qed
  define nw where "nw = tag AND CBS_ASN1_TAG_NUMBER_MASK"
  have num: "unat nw = n" unfolding nw_def n_def by (rule tag_number_eq)
  have ge: "0x1f \<le> nw \<longleftrightarrow> 31 \<le> n"
    by (simp add: word_le_nat_alt num)
  show ?thesis
  proof (cases "31 \<le> n")
    case False
    then have "unat (ucast nw :: byte) = n"
      by (simp add: unat_ucast_down num)
    then have "word_of_nat (32 * c) OR ucast nw = (word_of_nat (32 * c + n) :: byte)"
      using or5 [of "ucast nw"] False by simp
    moreover have "CBB_add_u8 h d (word_of_nat (32 * c) OR ucast nw) st = (True, st')"
      using run False ge unfolding add_asn1_tag_def bits nw_def [symmetric] by (simp add: Let_def)
    ultimately have "adds d [word_of_nat (32 * c + n)] st st'"
      using add_u8_adds ok by metis
    then show ?thesis using False unfolding der_tag_def c_def [symmetric] n_def [symmetric] by simp
  next
    case True
    have hi: "word_of_nat (32 * c) OR 0x1f = (word_of_nat (32 * c + 31) :: byte)"
      using or5 [of 31] by simp
    from run True ge obtain st1 where s1: "CBB_add_u8 h d (word_of_nat (32 * c) OR 0x1f) st = (True, st1)"
      and s2: "add_base128_integer h d (ucast nw) st1 = (True, st')"
      unfolding add_asn1_tag_def bits nw_def [symmetric] by (auto simp: Let_def split: prod.splits bool.splits)
    have a: "adds d [word_of_nat (32 * c + 31)] st st1" using add_u8_adds [OF s1 ok] by (simp only: hi)
    then have "cbb_ok st1" "d = length (children st1)" by (simp_all add: addsD)
    from add_base128_adds [OF s2 this] have "adds d (b128 n) st1 st'"
      by (simp add: unat_ucast_up num)
    from adds_trans [OF a this] show ?thesis
      using True unfolding der_tag_def c_def [symmetric] n_def [symmetric] by simp
  qed
qed

text \<open>Opening a child.\<close>

definition opens :: "nat \<Rightarrow> bytes \<Rightarrow> kind \<Rightarrow> cbb \<Rightarrow> cbb \<Rightarrow> bool" where
  "opens d header k st st' \<longleftrightarrow> cbb_ok st' \<and> length (children st') = Suc d \<and> d \<le> length (children st) \<and>
     take d (children st') = take d (children st) \<and> abs_cbb st' = spec_open d header k (abs_cbb st)"

lemma open_child:
  assumes a: "adds d header st st1" and b: "base st1 = Some b"
    and b': "buffer_ok b'" "error b' = error b" "written b' = written b @ z"
    and c: "child_ok c" "offset c = buf_len b" "pending_len_len c = length z" "kind_of c = k"
    and st': "st' = st1\<lparr>base := Some b', children := children st1 @ [c]\<rparr>"
  shows "opens d header k st st'"
proof -
  from a b have ok: "buffer_ok b" "\<not> error b" "chain_ok 0 (children st1) (buf_len b)"
    unfolding adds_def cbb_ok_def by (auto simp del: chain_ok.simps)
  have len: "buf_len b' = buf_len b + length z"
    using arg_cong [OF b'(3), of length] b'(1) ok(1) by simp
  have "chain_ok 0 (children st1 @ [c]) (buf_len b')"
    using chain_ok_open [OF ok(3) c(1,2)] c(3) len by simp
  moreover have "abs_cbb st' = (fst (abs_cbb st1), snd (abs_cbb st1) @ [(k, [])])"
    using frames_of_open [of 0 "children st1" "written b" c z] ok c b'(3)
    by (simp add: abs_cbb_def st' b)
  moreover note addsD [OF a]
  ultimately show ?thesis using ok b'
    by (simp add: opens_def spec_open_def cbb_ok_def st' split_def Let_def)
qed

lemma add_length_prefixed_opens:
  assumes run: "cbb_add_length_prefixed h d n st = (True, st')" and ok: "cbb_ok st" and n: "1 \<le> n" "n \<le> 3"
  shows "opens d [] (Fixed n) st st'"
proof -
  from run obtain st1 b b' where fl: "CBB_flush h d st = (True, st1)" and b: "base st1 = Some b"
    and z: "add_zeros h n b = (True, b')"
    and st': "st' = st1\<lparr>base := Some b', children := take d (children st1) @
               [\<lparr>offset = buf_len b, pending_len_len = n, pending_is_asn1 = False\<rparr>]\<rparr>"
    by (auto simp: cbb_add_length_prefixed_def split: prod.splits bool.splits option.splits)
  have a: "adds d [] st st1" using flush_adds [OF fl ok] .
  then have "buffer_ok b" "length (children st1) = d"
    using b addsD [OF a] by (simp_all add: cbb_ok_def)
  moreover have "buffer_append h (replicate n 0) b = (True, b')" using z by (simp add: add_zeros_append)
  ultimately show ?thesis
    using n append_success [of h "replicate n 0" b b'] st'
    by (intro open_child [OF a b, where z = "replicate n 0" and b' = b'
          and c = "\<lparr>offset = buf_len b, pending_len_len = n, pending_is_asn1 = False\<rparr>"])
      (simp_all add: child_ok_def kind_of_def SIZE_LIMIT_def)
qed

lemma add_asn1_opens:
  assumes run: "CBB_add_asn1 h d tag st = (True, st')" and ok: "cbb_ok st"
  shows "opens d (der_tag tag) Der st st'"
proof -
  from run obtain st1 st2 st3 where fl: "CBB_flush h d st = (True, st1)"
    and tg: "add_asn1_tag h d tag st1 = (True, st2)" and u8: "CBB_add_u8 h d 0 st2 = (True, st3)"
    and st': "st' = st3\<lparr>children := take d (children st3) @
       [\<lparr>offset = (case base st2 of None \<Rightarrow> 0 | Some b \<Rightarrow> buf_len b), pending_len_len = 1, pending_is_asn1 = True\<rparr>]\<rparr>"
    by (auto simp: CBB_add_asn1_def Let_def split: prod.splits bool.splits)
  have a1: "adds d [] st st1" using flush_adds [OF fl ok] .
  then have "adds d (der_tag tag) st1 st2"
    using add_asn1_tag_adds [OF tg] addsD [OF a1] by simp
  from adds_trans [OF a1 this] have a2: "adds d (der_tag tag) st st2" by simp
  then obtain b where b: "base st2 = Some b" "buffer_ok b" "\<not> error b"
    using addsD(1) [OF a2] by (auto simp: cbb_ok_def split: option.splits)
  have d2: "length (children st2) = d" using a2 by (rule addsD)
  have "flush_children h b [] = (True, b, [])" using b by simp
  then have fl2: "CBB_flush h d st2 = (True, st2)" using b d2 by (simp add: CBB_flush_def)
  from u8 obtain b' where b': "cbb_buffer_add_u h b (ucast (0::byte)) 1 = (True, b')" "st3 = st2\<lparr>base := Some b'\<rparr>"
    by (auto simp: CBB_add_u8_def flush_then_def fl2 b split: prod.splits)
  note s = add_u_success [OF b'(1) b(2)]
  show ?thesis
    by (rule open_child [OF a2 b(1), where b' = b' and z = "[0]"
          and c = "\<lparr>offset = buf_len b, pending_len_len = 1, pending_is_asn1 = True\<rparr>"])
      (use s d2 b in \<open>simp_all add: child_ok_def kind_of_def st' b'(2)\<close>)
qed


subsection \<open>Success\<close>

text \<open>
  A resizable buffer over an allocator that grants every request: what then remains to go
  wrong is a length that its prefix cannot hold, or a size beyond \<open>size_t\<close>.
\<close>

definition growable :: "heap_env \<Rightarrow> cbb_buffer_st \<Rightarrow> bool" where
  "growable h b \<longleftrightarrow> buffer_ok b \<and> \<not> error b \<and> can_resize b \<and> (\<forall>k m. alloc_ok h k m)"

lemma flush_prefix_total:
  assumes g: "growable h b" and c: "child_ok c"
    and start: "start = offset c + pending_len_len c" "start \<le> buf_len b"
    and fits: "kind_fits (kind_of c) (buf_len b - start)"
    and size: "offset c + length (kind_prefix (kind_of c) (buf_len b - start)) + (buf_len b - start) < SIZE_LIMIT"
  shows "fst (flush_prefix h b c start)"
proof (cases "pending_is_asn1 c")
  case False
  then show ?thesis using flush_prefix_fixed [of b c start h] g c start fits by (simp add: growable_def)
next
  case True
  define n where "n = buf_len b - start"
  let ?k = "length (der_length n)"
  have p: "pending_len_len c = 1" using True c by (simp add: child_ok_def)
  have n: "n \<le> 0xfffffffe" using fits True by (simp add: kind_of_def n_def)
  show ?thesis
  proof (cases "n < 128")
    case small: True
    then have "?k = 1" by (simp add: der_length_def)
    then show ?thesis using True n small
      by (simp add: flush_prefix_def Let_def asn1_length_form_eq flip: n_def)
  next
    case False
    then have k: "?k = 1 + len_octets n" by (simp add: der_length_def)
    have "buf_len b + (?k - 1) < SIZE_LIMIT"
      using size start True p k by (simp add: kind_of_def flip: n_def) (simp add: n_def)
    then obtain r where r: "cbb_buffer_add h b (?k - 1) = (True, r)"
      using add_total [of b "?k - 1" h] g by (cases "cbb_buffer_add h b (?k - 1)") (auto simp: growable_def)
    have kS: "?k - 1 < SIZE_LIMIT" using \<open>buf_len b + (?k - 1) < SIZE_LIMIT\<close> by simp
    note s = add_success [OF r _ kS]
    let ?B = "(write_at (buf r) (start + (?k - 1)) (take n (drop start (buf r))))[offset c := hd (der_length n)]"
    have rl: "start + n + (?k - 1) \<le> length (buf r)"
      using s g start by (simp add: growable_def buffer_ok_def n_def)
    then have "length ?B = length (buf r)" by (simp only: length_list_update, subst length_write_at) auto
    then have room: "offset c + 1 + (?k - 1) \<le> length ?B" using rl start p by simp
    have nw: "unat (word_of_nat n :: u64) = n" using n by (simp add: unat_of_nat)
    have "n < 256 ^ (?k - 1)" using len_octets_fits [of n] n k by simp
    then have zero: "drop_bit (8 * (?k - 1)) (word_of_nat n :: u64) = 0"
      by (simp only: word_unat_eq_iff unat_drop_bit nw unat_0 pow256 mult.commute) simp
    have "len_octets n \<noteq> 0" using len_octets_bounds [of n] by simp
    then show ?thesis
      using True n k r False store_be_eq [OF room, of "word_of_nat n"] zero
      by (simp add: flush_prefix_def Let_def asn1_length_form_eq flip: n_def)
  qed
qed

lemma kind_prefix_length: "child_ok c \<Longrightarrow> pending_len_len c \<le> length (kind_prefix (kind_of c) n)"
  using length_der_length [of n] by (auto simp: kind_of_def child_ok_def)

lemma flush_children_total:
  assumes "growable h b" and "chain_ok lo cs (buf_len b)"
    and "frames_fit (fst (frames_of lo (written b) cs)) (snd (frames_of lo (written b) cs))"
    and "lo + length (collapse (fst (frames_of lo (written b) cs)) (snd (frames_of lo (written b) cs))) < SIZE_LIMIT"
  shows "fst (flush_children h b cs)"
  using assms
proof (induction cs arbitrary: lo)
  case Nil
  then show ?case by (simp add: growable_def)
next
  case (Cons c cs)
  let ?start = "offset c + pending_len_len c"
  define g gs where "g = fst (frames_of ?start (written b) cs)" and "gs = snd (frames_of ?start (written b) cs)"
  from Cons.prems(2) have c: "lo \<le> offset c" "child_ok c" "chain_ok ?start cs (buf_len b)" by simp_all
  have ok: "buffer_ok b" using Cons.prems(1) by (simp add: growable_def)
  have sb: "?start \<le> buf_len b" using chain_ok_le [OF c(3)] .
  have fr: "frames_of lo (written b) (c # cs) = (drop lo (take (offset c) (written b)), (kind_of c, g) # gs)"
    by (simp add: g_def gs_def split_def Let_def)
  have lf: "length (drop lo (take (offset c) (written b))) = offset c - lo"
    using sb ok by simp
  let ?n = "length (collapse g gs)"
  have fits: "kind_fits (kind_of c) ?n" "frames_fit g gs"
    using Cons.prems(3) fr by simp_all
  have size: "offset c + length (kind_prefix (kind_of c) ?n) + ?n < SIZE_LIMIT"
    using Cons.prems(4) c(1) lf unfolding fr by simp
  have "?start + ?n < SIZE_LIMIT" using size kind_prefix_length [OF c(2), of ?n] by simp
  then have "fst (flush_children h b cs)"
    using Cons.IH [OF Cons.prems(1) c(3)] fits by (simp flip: g_def gs_def)
  then obtain b1 cs1 where inner: "flush_children h b cs = (True, b1, cs1)"
    by (cases "flush_children h b cs") auto
  note s = flush_children_success [OF inner ok c(3), folded g_def gs_def]
  have n: "buf_len b1 - ?start = ?n"
  proof -
    have "length (written b1) = buf_len b1" using s by simp
    then have "length (drop ?start (written b1)) = buf_len b1 - ?start" by (simp only: length_drop)
    moreover have "drop ?start (written b1) = collapse g gs" using s by blast
    ultimately show ?thesis by (metis)
  qed
  have g1: "growable h b1" using s Cons.prems(1) by (simp add: growable_def)
  have "fst (flush_prefix h b1 c ?start)"
    using flush_prefix_total [OF g1 c(2) refl] s fits size n by simp
  moreover have "?start mod SIZE_LIMIT = ?start" using sb ok by (simp add: buffer_ok_def)
  moreover have "pending_len_len c \<noteq> 0" using c(2) by (simp add: child_ok_def)
  ultimately show ?case
    using inner s Cons.prems(1) by (auto simp: growable_def Let_def split: prod.splits bool.splits)
qed


lemma flush_exact:
  assumes ok: "cbb_ok st" and b: "base st = Some b" and g: "growable h b"
    and size: "length (collapse (fst (abs_cbb st)) (snd (abs_cbb st))) < SIZE_LIMIT"
  shows "fst (CBB_flush h 0 st) \<longleftrightarrow> frames_fit (fst (abs_cbb st)) (snd (abs_cbb st))"
proof -
  have ch: "chain_ok 0 (children st) (buf_len b)" using ok b by (simp add: cbb_ok_def)
  have eq: "fst (CBB_flush h 0 st) = fst (flush_children h b (children st))"
    by (simp add: CBB_flush_def b split: prod.splits)
  show ?thesis unfolding eq
  proof
    assume "fst (flush_children h b (children st))"
    then obtain b' cs' where "flush_children h b (children st) = (True, b', cs')"
      by (cases "flush_children h b (children st)") auto
    from flush_children_success [OF this _ ch] g
    show "frames_fit (fst (abs_cbb st)) (snd (abs_cbb st))"
      by (simp add: growable_def abs_cbb_def b)
  next
    assume "frames_fit (fst (abs_cbb st)) (snd (abs_cbb st))"
    then show "fst (flush_children h b (children st))"
      using flush_children_total [OF g ch] size by (simp add: abs_cbb_def b)
  qed
qed

lemma abs_cbb_no_children: "cbb_ok st \<Longrightarrow> children st = [] \<Longrightarrow> base st = Some b \<Longrightarrow> abs_cbb st = (written b, [])"
  by (simp add: abs_cbb_def)

lemma CBB_finish_success:
  assumes run: "CBB_finish h 0 True st = (Some out, st')" and ok: "cbb_ok st"
  shows "out = collapse (fst (abs_cbb st)) (snd (abs_cbb st))"
proof -
  from run obtain st1 b where fl: "CBB_flush h 0 st = (True, st1)" and b: "base st1 = Some b"
    and out: "out = written b"
    by (auto simp: CBB_finish_def written_def split: prod.splits bool.splits option.splits)
  from flush_success [OF fl ok] b have "abs_cbb st1 = (written b, [])"
    by (intro abs_cbb_no_children) auto
  then show ?thesis using flush_success [OF fl ok] out by simp
qed

lemma CBB_finish_total:
  assumes ok: "cbb_ok st" and b: "base st = Some b" and g: "growable h b"
    and size: "length (collapse (fst (abs_cbb st)) (snd (abs_cbb st))) < SIZE_LIMIT"
  shows "fst (CBB_finish h 0 True st) =
    (if frames_fit (fst (abs_cbb st)) (snd (abs_cbb st))
     then Some (collapse (fst (abs_cbb st)) (snd (abs_cbb st))) else None)"
proof (cases "frames_fit (fst (abs_cbb st)) (snd (abs_cbb st))")
  case True
  then obtain st1 where fl: "CBB_flush h 0 st = (True, st1)"
    using flush_exact [OF ok b g size] by (cases "CBB_flush h 0 st") auto
  from flush_success [OF fl ok] obtain b1 where "base st1 = Some b1"
    by (auto simp: cbb_ok_def split: option.splits)
  then obtain out st2 where "CBB_finish h 0 True st = (Some out, st2)"
    using fl by (simp add: CBB_finish_def)
  then show ?thesis using CBB_finish_success [OF _ ok] True by simp
next
  case False
  then obtain st1 where "CBB_flush h 0 st = (False, st1)"
    using flush_exact [OF ok b g size] by (cases "CBB_flush h 0 st") auto
  then show ?thesis using False by (simp add: CBB_finish_def)
qed

lemma CBB_init_ok: "CBB_init h n = (True, st) \<Longrightarrow> n < SIZE_LIMIT \<Longrightarrow> cbb_ok st \<and> abs_cbb st = ([], []) \<and> children st = []"
  by (auto simp: CBB_init_def cbb_init_def CBB_zero_def cbb_ok_def abs_cbb_def buffer_ok_def written_def split: if_splits)

subsection \<open>Complete elements\<close>

lemma spec_append_snoc: "spec_append x g (gs @ [(k, y)]) = (g, gs @ [(k, y @ x)])"
  by (induction x g gs rule: spec_append.induct) auto

lemma spec_flush_snoc:
  "spec_flush (length gs) g (gs @ [(k, y)]) = spec_append (kind_prefix k (length y) @ y) g gs"
proof (induction gs arbitrary: g)
  case (Cons x gs)
  then show ?case by (cases x) simp
qed simp

lemma adds_refl: "cbb_ok st \<Longrightarrow> d = length (children st) \<Longrightarrow> adds d [] st st"
  by (simp add: adds_def spec_add_def spec_flush_id length_abs_cbb)

lemma adds_close:
  assumes op: "opens d header k st st1" and body: "adds (Suc d) body st1 st2" and fl: "adds d [] st2 st3"
    and ok: "cbb_ok st"
  shows "adds d (header @ kind_prefix k (length body) @ body) st st3"
proof -
  obtain g gs where gg: "spec_add d header (abs_cbb st) = (g, gs)" by (cases "spec_add d header (abs_cbb st)")
  have "d \<le> length (snd (abs_cbb st))" using op length_abs_cbb [OF ok] by (simp add: opens_def)
  then have d: "length gs = d"
    using gg length_spec_flush [of d "snd (abs_cbb st)" "fst (abs_cbb st)"]
      length_snd_spec_append [of header "fst (spec_flush d (fst (abs_cbb st)) (snd (abs_cbb st)))"
        "snd (spec_flush d (fst (abs_cbb st)) (snd (abs_cbb st)))"]
    by (simp add: spec_add_def split_def Let_def)
  have "abs_cbb st1 = (g, gs @ [(k, [])])" using op gg by (simp add: opens_def spec_open_def)
  then have "abs_cbb st2 = (g, gs @ [(k, body)])"
    using addsD(5) [OF body] d by (simp add: spec_add_def spec_flush_id spec_append_snoc)
  then have "abs_cbb st3 = spec_append (kind_prefix k (length body) @ body) g gs"
    using addsD(5) [OF fl] d spec_flush_snoc [of gs g k body]
    by (simp add: spec_add_def split_def Let_def)
  also have "\<dots> = spec_add d (header @ kind_prefix k (length body) @ body) (abs_cbb st)"
  proof -
    have "spec_append header (fst (spec_flush d (fst (abs_cbb st)) (snd (abs_cbb st))))
        (snd (spec_flush d (fst (abs_cbb st)) (snd (abs_cbb st)))) = (g, gs)"
      using gg by (simp add: spec_add_def split_def Let_def)
    then show ?thesis
      by (simp add: spec_add_def split_def Let_def)
        (metis append_assoc fst_conv snd_conv spec_append_append)
  qed
  finally have "abs_cbb st3 = spec_add d (header @ kind_prefix k (length body) @ body) (abs_cbb st)" .
  moreover have "children st3 = take d (children st)"
    using fl addsD(4) [OF body] op unfolding adds_def opens_def
    by (metis Suc_n_not_le_n min.absorb1 nat_le_linear take_take take_all)
  ultimately show ?thesis using addsD [OF fl] unfolding adds_def by metis
qed


text \<open>The three values of \<open>CBB\<close> that are written in one call.\<close>

lemma uint64_bytes_eq: "uint64_bytes v = be_bytes 8 (unat v)"
proof -
  have "uint64_bytes v = map (\<lambda>i. word_of_nat (unat v div 2 ^ (8 * (7 - i)))) [0..<8]"
  proof -
    have "ucast (drop_bit (8 * (7 - i)) v AND 0xff) = (word_of_nat (unat v div 2 ^ (8 * (7 - i))) :: byte)" for i
      by (simp flip: unat_drop_bit add: and_ff_mask) (rule bit_word_eqI, simp add: bit_simps)
    then show ?thesis by (simp add: uint64_bytes_def)
  qed
  then show ?thesis
    by (simp add: be_bytes_map pow256 mult.commute cong: map_cong)
qed


definition significant :: "bytes \<Rightarrow> bytes" where
  "significant bs = dropWhile (\<lambda>b. b = 0) bs"

definition with_sign :: "bytes \<Rightarrow> bytes" where
  "with_sign bs = (if bs \<noteq> [] \<and> unat (hd bs) \<ge> 128 then 0 # bs else bs)"

lemma be_nat_significant: "be_nat (significant bs) = be_nat bs"
  by (induction bs) (simp_all add: significant_def be_nat_Cons)

lemma uint_octets_significant:
  "uint_octets (be_nat bs) = (if significant bs = [] then [0] else with_sign (significant bs))"
proof (cases "significant bs = []")
  case True
  then show ?thesis using be_nat_significant [of bs] by (simp add: uint_octets_def)
next
  case False
  then have nz: "hd (significant bs) \<noteq> 0" using hd_dropWhile [of "\<lambda>b. b = 0" bs] by (simp add: significant_def)
  have n: "nbytes (be_nat (significant bs)) = length (significant bs)"
    using nbytes_snoc [OF False nz] .
  then have "be_nat (significant bs) \<noteq> 0" using False by (metis length_0_conv nbytes_0)
  moreover have "be_bytes (nbytes (be_nat (significant bs))) (be_nat (significant bs)) = significant bs"
    by (simp only: n be_bytes_be_nat)
  ultimately show ?thesis
    using False by (simp add: uint_octets_def with_sign_def Let_def flip: be_nat_significant [of bs])
qed

lemma uint64_loop_started:
  "add_uint64_loop h d bs True st = (Some s, st') \<Longrightarrow> cbb_ok st \<Longrightarrow> d = length (children st) \<Longrightarrow>
   s \<and> adds d bs st st'"
proof (induction bs arbitrary: st)
  case (Cons b bs)
  from Cons.prems(1) obtain st1 where 1: "CBB_add_u8 h d b st = (True, st1)"
    and 2: "add_uint64_loop h d bs True st1 = (Some s, st')"
    by (auto split: prod.splits bool.splits)
  note a = add_u8_adds [OF 1 Cons.prems(2)]
  have "s \<and> adds d bs st1 st'"
    by (rule Cons.IH [OF 2 addsD(1) [OF a]]) (simp add: addsD(2) [OF a])
  then show ?case using adds_trans [OF a] by auto
qed (simp add: adds_refl)

lemma uint64_loop_first:
  "add_uint64_loop h d bs False st = (Some s, st') \<Longrightarrow> cbb_ok st \<Longrightarrow> d = length (children st) \<Longrightarrow>
   s = (significant bs \<noteq> []) \<and> adds d (with_sign (significant bs)) st st'"
proof (induction bs arbitrary: st)
  case (Cons b bs)
  show ?case
  proof (cases "b = 0")
    case True
    then show ?thesis using Cons by (simp add: significant_def)
  next
    case False
    have z: "significant (b # bs) = b # bs" using False by (simp add: significant_def)
    from Cons.prems(1) False obtain st1 where
      1: "(if b AND 0x80 \<noteq> 0 then CBB_add_u8 h d 0 st else (True, st)) = (True, st1)"
      and 2: "add_uint64_loop h d (b # bs) True st1 = (Some s, st')"
      by (auto split: prod.splits bool.splits if_splits)
    have a: "adds d (if unat b \<ge> 128 then [0] else []) st st1"
      using 1 Cons.prems(2,3) add_u8_adds [of h d 0 st st1] adds_refl [of st d]
      by (simp add: and_80_iff split: if_splits)
    have "s \<and> adds d (b # bs) st1 st'"
      by (rule uint64_loop_started [OF 2 addsD(1) [OF a]]) (simp add: addsD(2) [OF a])
    then show ?thesis
      using adds_trans [OF a, of "b # bs" st'] by (cases "unat b \<ge> 128") (auto simp: z with_sign_def)
  qed
qed (simp add: significant_def with_sign_def adds_refl)

lemma close_der:
  assumes "CBB_add_asn1 h d tag st = (True, st1)" and "adds (Suc d) body st1 st2"
    and "CBB_flush h d st2 = (True, st')" and "cbb_ok st"
  shows "adds d (der_element tag body) st st'"
  using adds_close [OF add_asn1_opens [OF assms(1,4)] assms(2) flush_adds [OF assms(3) addsD(1) [OF assms(2)]] assms(4)]
  by (simp add: der_element_def der_header_def)

lemma add_asn1_uint64_adds:
  assumes run: "CBB_add_asn1_uint64 h d v st = (True, st')" and ok: "cbb_ok st"
  shows "adds d (der_element CBS_ASN1_INTEGER (uint_octets (unat v))) st st'"
proof -
  from run obtain st1 s st2 st3 where 1: "CBB_add_asn1 h d CBS_ASN1_INTEGER st = (True, st1)"
    and 2: "add_uint64_loop h (Suc d) (uint64_bytes v) False st1 = (Some s, st2)"
    and 3: "(if \<not> s then CBB_add_u8 h (Suc d) 0 st2 else (True, st2)) = (True, st3)"
    and 4: "CBB_flush h d st3 = (True, st')"
    by (auto simp: CBB_add_asn1_uint64_def split: prod.splits bool.splits option.splits if_splits)
  have o: "cbb_ok st1" "Suc d = length (children st1)"
    using add_asn1_opens [OF 1 ok] by (simp_all add: opens_def)
  note l = uint64_loop_first [OF 2 o]
  let ?z = "significant (uint64_bytes v)"
  have l2: "cbb_ok st2" "Suc d = length (children st2)" using l addsD(1,2) [of "Suc d" _ st1 st2] by auto
  have b: "adds (Suc d) (if ?z = [] then [0] else []) st2 st3"
    using 3 l add_u8_adds [of h "Suc d" 0 st2 st3] adds_refl [OF l2] l2(1) by (auto split: if_splits)
  have "adds (Suc d) (with_sign ?z @ (if ?z = [] then [0] else [])) st1 st3"
    using l b adds_trans by blast
  moreover have "with_sign ?z @ (if ?z = [] then [0] else []) = uint_octets (unat v)"
    using uint_octets_significant [of "uint64_bytes v"] unat_u64_less [of v]
    by (simp add: uint64_bytes_eq be_nat_be_bytes with_sign_def split: if_splits)
  ultimately show ?thesis using close_der [OF 1 _ 4 ok] by simp
qed

lemma add_asn1_octet_string_adds:
  assumes run: "CBB_add_asn1_octet_string h d data st = (True, st')" and ok: "cbb_ok st"
    and len: "length data < SIZE_LIMIT"
  shows "adds d (der_element CBS_ASN1_OCTETSTRING data) st st'"
proof -
  from run obtain st1 st2 where 1: "CBB_add_asn1 h d CBS_ASN1_OCTETSTRING st = (True, st1)"
    and 2: "CBB_add_bytes h (Suc d) data st1 = (True, st2)" and 3: "CBB_flush h d st2 = (True, st')"
    by (auto simp: CBB_add_asn1_octet_string_def split: prod.splits bool.splits)
  have "cbb_ok st1" using add_asn1_opens [OF 1 ok] by (simp add: opens_def)
  then show ?thesis using close_der [OF 1 add_bytes_adds [OF 2 _ len] 3 ok] by simp
qed

lemma add_asn1_bool_adds:
  assumes run: "CBB_add_asn1_bool h d value st = (True, st')" and ok: "cbb_ok st"
  shows "adds d (der_element CBS_ASN1_BOOLEAN [if value \<noteq> 0 then 0xff else 0]) st st'"
proof -
  from run obtain st1 st2 where 1: "CBB_add_asn1 h d CBS_ASN1_BOOLEAN st = (True, st1)"
    and 2: "CBB_add_u8 h (Suc d) (if value \<noteq> 0 then 0xff else 0) st1 = (True, st2)"
    and 3: "CBB_flush h d st2 = (True, st')"
    by (auto simp: CBB_add_asn1_bool_def split: prod.splits bool.splits)
  have "cbb_ok st1" using add_asn1_opens [OF 1 ok] by (simp add: opens_def)
  then show ?thesis using close_der [OF 1 add_u8_adds [OF 2] 3 ok] by simp
qed


subsection \<open>Nested elements\<close>

text \<open>
  What a client writes is a forest: raw bytes, elements behind a length of \<open>n\<close> octets and DER
  elements. A client builds it by calling the operations in order; the elements it opens are
  flushed by the calls that follow.
\<close>

datatype item = Raw bytes | Prefixed nat "item list" | Asn1 u32 "item list"

fun encode :: "item \<Rightarrow> bytes" where
  "encode (Raw data) = data"
| "encode (Prefixed n its) = (let body = concat (map encode its) in be_bytes n (length body) @ body)"
| "encode (Asn1 tag its) = der_element tag (concat (map encode its))"

fun item_ok :: "item \<Rightarrow> bool" where
  "item_ok (Raw data) \<longleftrightarrow> length data < SIZE_LIMIT"
| "item_ok (Prefixed n its) \<longleftrightarrow> 1 \<le> n \<and> n \<le> 3 \<and> (\<forall>i \<in> set its. item_ok i)"
| "item_ok (Asn1 tag its) \<longleftrightarrow> (\<forall>i \<in> set its. item_ok i)"

fun build_item :: "heap_env \<Rightarrow> nat \<Rightarrow> item \<Rightarrow> cbb \<Rightarrow> bool \<times> cbb"
  and build_items :: "heap_env \<Rightarrow> nat \<Rightarrow> item list \<Rightarrow> cbb \<Rightarrow> bool \<times> cbb" where
  "build_item h d (Raw data) st = CBB_add_bytes h d data st"
| "build_item h d (Prefixed n its) st =
     (case cbb_add_length_prefixed h d n st of
        (False, st) \<Rightarrow> (False, st) | (True, st) \<Rightarrow> build_items h (Suc d) its st)"
| "build_item h d (Asn1 tag its) st =
     (case CBB_add_asn1 h d tag st of
        (False, st) \<Rightarrow> (False, st) | (True, st) \<Rightarrow> build_items h (Suc d) its st)"
| "build_items h d [] st = (True, st)"
| "build_items h d (i # its) st =
     (case build_item h d i st of
        (False, st) \<Rightarrow> (False, st) | (True, st) \<Rightarrow> build_items h d its st)"

text \<open>Like \<open>adds\<close>, but elements may still be open below depth \<open>d\<close>.\<close>

definition wrote :: "nat \<Rightarrow> bytes \<Rightarrow> cbb \<Rightarrow> cbb \<Rightarrow> bool" where
  "wrote d data st st' \<longleftrightarrow> cbb_ok st' \<and> d \<le> length (children st') \<and>
     spec_flush d (fst (abs_cbb st')) (snd (abs_cbb st')) = spec_add d data (abs_cbb st)"

lemma collapse_spec_flush: "collapse (fst (spec_flush e f gs)) (snd (spec_flush e f gs)) = collapse f gs"
  by (induction e f gs rule: spec_flush.induct) (auto simp: split_def Let_def)

lemma spec_flush_flush:
  "d \<le> e \<Longrightarrow> spec_flush d (fst (spec_flush e f gs)) (snd (spec_flush e f gs)) = spec_flush d f gs"
proof (induction e f gs arbitrary: d rule: spec_flush.induct)
  case (1 f gs)
  then show ?case by simp
next
  case (2 e f)
  then show ?case by (cases d) simp_all
next
  case (3 e f k g gs)
  then show ?case
    by (cases d) (simp_all add: split_def Let_def collapse_spec_flush)
qed

lemma adds_wrote: "adds d data st st' \<Longrightarrow> wrote d data st st'"
proof -
  assume a: "adds d data st st'"
  have "length (snd (abs_cbb st')) = d" using length_abs_cbb addsD(1,2) [OF a] by simp
  then have "spec_flush d (fst (abs_cbb st')) (snd (abs_cbb st')) = abs_cbb st'"
    by (simp add: spec_flush_id)
  then show ?thesis using addsD(1,2,5) [OF a] by (simp only: wrote_def) simp
qed

lemma wrote_refl: "cbb_ok st \<Longrightarrow> d \<le> length (children st) \<Longrightarrow> wrote d [] st st"
  by (simp add: wrote_def spec_add_def split: prod.splits)

lemma wrote_trans: "wrote d x st st1 \<Longrightarrow> wrote d y st1 st2 \<Longrightarrow> wrote d (x @ y) st st2"
  by (simp add: wrote_def) (simp add: spec_add_def split_def Let_def spec_append_append)

lemma wrote_close:
  assumes op: "opens d header k st st1" and body: "wrote (Suc d) body st1 st2" and ok: "cbb_ok st"
  shows "wrote d (header @ kind_prefix k (length body) @ body) st st2"
proof -
  obtain g gs where gg: "spec_add d header (abs_cbb st) = (g, gs)" by (cases "spec_add d header (abs_cbb st)")
  have "d \<le> length (snd (abs_cbb st))" using op length_abs_cbb [OF ok] by (simp add: opens_def)
  then have d: "length gs = d"
    using gg length_spec_flush [of d "snd (abs_cbb st)" "fst (abs_cbb st)"]
      length_snd_spec_append [of header "fst (spec_flush d (fst (abs_cbb st)) (snd (abs_cbb st)))"
        "snd (spec_flush d (fst (abs_cbb st)) (snd (abs_cbb st)))"]
    by (simp add: spec_add_def split_def Let_def)
  have "abs_cbb st1 = (g, gs @ [(k, [])])" using op gg by (simp add: opens_def spec_open_def)
  then have "spec_flush (Suc d) (fst (abs_cbb st2)) (snd (abs_cbb st2)) = (g, gs @ [(k, body)])"
    using body d by (simp add: wrote_def spec_add_def spec_flush_id spec_append_snoc)
  then have "spec_flush d (fst (abs_cbb st2)) (snd (abs_cbb st2))
      = spec_append (kind_prefix k (length body) @ body) g gs"
    using spec_flush_flush [of d "Suc d" "fst (abs_cbb st2)" "snd (abs_cbb st2)"] d
      spec_flush_snoc [of gs g k body] by simp
  also have "\<dots> = spec_add d (header @ kind_prefix k (length body) @ body) (abs_cbb st)"
    using gg spec_append_append [of "kind_prefix k (length body) @ body" header
        "fst (spec_flush d (fst (abs_cbb st)) (snd (abs_cbb st)))"
        "snd (spec_flush d (fst (abs_cbb st)) (snd (abs_cbb st)))"]
    by (simp add: spec_add_def split_def Let_def)
  finally show ?thesis using body by (simp add: wrote_def)
qed

lemma build_wrote:
  "build_item h d i st = (True, st') \<Longrightarrow> cbb_ok st \<Longrightarrow> item_ok i \<Longrightarrow> wrote d (encode i) st st'"
  "build_items h d its st = (True, st') \<Longrightarrow> cbb_ok st \<Longrightarrow> d \<le> length (children st) \<Longrightarrow>
     (\<forall>i \<in> set its. item_ok i) \<Longrightarrow> wrote d (concat (map encode its)) st st'"
proof (induction h d i st and h d its st arbitrary: st' and st' rule: build_item_build_items.induct)
  case (1 h d data st)
  then show ?case by (auto intro: adds_wrote add_bytes_adds)
next
  case (2 h d n its st)
  then obtain st1 where 1: "cbb_add_length_prefixed h d n st = (True, st1)"
    and b: "build_items h (Suc d) its st1 = (True, st')"
    by (auto split: prod.splits bool.splits)
  have op: "opens d [] (Fixed n) st st1" using 1 2 by (auto intro: add_length_prefixed_opens)
  have "wrote (Suc d) (concat (map encode its)) st1 st'"
    by (rule 2(1) [OF 1 [symmetric] refl b]) (use op 2 in \<open>auto simp: opens_def\<close>)
  from wrote_close [OF op this] 2 show ?case by (simp add: Let_def)
next
  case (3 h d tag its st)
  then obtain st1 where 1: "CBB_add_asn1 h d tag st = (True, st1)"
    and b: "build_items h (Suc d) its st1 = (True, st')"
    by (auto split: prod.splits bool.splits)
  have op: "opens d (der_tag tag) Der st st1" using 1 3 by (auto intro: add_asn1_opens)
  have "wrote (Suc d) (concat (map encode its)) st1 st'"
    by (rule 3(1) [OF 1 [symmetric] refl b]) (use op 3 in \<open>auto simp: opens_def\<close>)
  from wrote_close [OF op this] 3 show ?case by (simp add: der_element_def der_header_def)
next
  case (4 h d st)
  then show ?case by (simp add: wrote_refl)
next
  case (5 h d i its st)
  then obtain st1 where 1: "build_item h d i st = (True, st1)" and b: "build_items h d its st1 = (True, st')"
    by (auto split: prod.splits bool.splits)
  have a: "wrote d (encode i) st st1" using 5 1 by simp
  have "wrote d (concat (map encode its)) st1 st'"
    by (rule 5(2) [OF 1 [symmetric] refl b]) (use a 5 in \<open>auto simp: wrote_def\<close>)
  with a show ?case by (auto intro: wrote_trans)
qed

lemma build_finish:
  assumes "CBB_init h n = (True, st0)" and "n < SIZE_LIMIT" and "build_items h 0 its st0 = (True, st1)"
    and "\<forall>i \<in> set its. item_ok i" and "CBB_finish h 0 True st1 = (Some out, st2)"
  shows "out = concat (map encode its)"
proof -
  note i = CBB_init_ok [OF assms(1,2)]
  have "wrote 0 (concat (map encode its)) st0 st1"
    using build_wrote(2) [OF assms(3)] i assms(4) by simp
  then show ?thesis
    using CBB_finish_success [OF assms(5)] i by (simp add: wrote_def spec_add_def)
qed


subsection \<open>Abandoned elements\<close>

lemma chain_nth_ge: "chain_ok lo cs n \<Longrightarrow> d < length cs \<Longrightarrow> lo \<le> offset (cs ! d)"
proof (induction cs arbitrary: lo d)
  case (Cons c cs)
  then show ?case by (cases d) fastforce+
qed simp

lemma chain_nth_le: "chain_ok lo cs n \<Longrightarrow> d < length cs \<Longrightarrow> offset (cs ! d) \<le> n"
proof (induction cs arbitrary: lo d)
  case (Cons c cs)
  then show ?case using chain_ok_le [of "offset c + pending_len_len c" cs n] by (cases d) auto
qed simp

lemma frames_of_discard:
  "chain_ok lo cs (length w) \<Longrightarrow> d < length cs \<Longrightarrow>
   frames_of lo (take (offset (cs ! d)) w) (take d cs)
     = (fst (frames_of lo w cs), take d (snd (frames_of lo w cs)))"
proof (induction cs arbitrary: lo d)
  case (Cons c cs)
  show ?case
  proof (cases d)
    case 0
    then show ?thesis by (simp add: split_def Let_def)
  next
    case (Suc e)
    then have e: "e < length cs" using Cons.prems(2) by simp
    have ch: "chain_ok (offset c + pending_len_len c) cs (length w)" using Cons.prems(1) by simp
    have le: "offset c \<le> offset (cs ! e)" using chain_nth_ge [OF ch e] by simp
    have IH: "frames_of (offset c + pending_len_len c) (take (offset (cs ! e)) w) (take e cs)
        = (fst (frames_of (offset c + pending_len_len c) w cs),
           take e (snd (frames_of (offset c + pending_len_len c) w cs)))"
      by (rule Cons.IH [OF ch e])
    show ?thesis using Suc le by (simp add: split_def Let_def IH min_absorb1)
  qed
qed simp

lemma chain_ok_take: "chain_ok lo cs n \<Longrightarrow> d < length cs \<Longrightarrow> chain_ok lo (take d cs) (offset (cs ! d))"
proof (induction cs arbitrary: lo d)
  case (Cons c cs)
  then show ?case by (cases d) auto
qed simp

lemma discard_frames:
  assumes ok: "cbb_ok st" and d: "d < length (children st)"
  shows "cbb_ok (CBB_discard_child d st) \<and> length (children (CBB_discard_child d st)) = d \<and>
    abs_cbb (CBB_discard_child d st) = (fst (abs_cbb st), take d (snd (abs_cbb st)))"
proof -
  obtain b where b: "base st = Some b" "buffer_ok b" "\<not> error b" "chain_ok 0 (children st) (buf_len b)"
    using ok by (auto simp: cbb_ok_def split: option.splits)
  have le: "offset (children st ! d) \<le> buf_len b" using chain_nth_le [OF b(4) d] by simp
  have w: "take (offset (children st ! d)) (buf b) = take (offset (children st ! d)) (written b)"
    using le by (simp add: written_def min_absorb1)
  have ch: "chain_ok 0 (children st) (length (written b))" using b by simp
  show ?thesis
    using b d le frames_of_discard [OF ch d] chain_ok_take [OF b(4) d]
    by (simp add: CBB_discard_child_def cbb_ok_def abs_cbb_def buffer_ok_def)
      (simp add: written_def min_absorb1)
qed

lemma flush_error: "base st = Some b \<Longrightarrow> error b \<Longrightarrow> fst (CBB_flush h d st) = False"
  by (cases "drop d (children st)") (auto simp: CBB_flush_def split: prod.splits)


subsection \<open>Properties\<close>

text \<open>An allocator that never fails, for the concrete runs.\<close>

definition good_heap :: heap_env where
  "good_heap = \<lparr>alloc_ok = \<lambda>_ _. True, fresh = \<lambda>_. 0\<rparr>"

text \<open>C16. \<open>CBB_flush\<close> refines the abstract builder: when it succeeds, the buffer and the chain of
  children stand for the frames in which every element below the flushed structure is folded
  into its parent behind its length, the invariant is kept and no child is left below it. The
  moves, the length forms and the offsets of the code are invisible in this view.\<close>

theorem CBB_flush_refines:
  assumes "CBB_flush h d st = (True, st')" and "cbb_ok st"
  shows "cbb_ok st' \<and> children st' = take d (children st) \<and>
    abs_cbb st' = spec_flush d (fst (abs_cbb st)) (snd (abs_cbb st))"
  using flush_success [OF assms] by simp

definition example_open :: cbb where
  "example_open = snd (build_items good_heap 0 [Asn1 CBS_ASN1_OCTETSTRING [Raw [7, 8]]] (snd (CBB_init good_heap 0)))"

theorem CBB_flush_refines_witness:
  "abs_cbb (snd (CBB_flush good_heap 0 example_open)) = ([4, 2, 7, 8], [])"
proof -
  have run: "CBB_flush good_heap 0 example_open = (True, snd (CBB_flush good_heap 0 example_open))" by (rule fst_True) code_simp
  have ok: "cbb_ok example_open" by code_simp
  have "collapse (fst (abs_cbb example_open)) (snd (abs_cbb example_open)) = [4, 2, 7, 8]"
    by code_simp
  then show ?thesis using CBB_flush_refines [OF run ok] by simp
qed

text \<open>C40. Success of \<open>CBB_flush\<close> on a growable buffer is exact: with memory available and a result
  below 2^64 bytes it succeeds if and only if every open element fits its length prefix, so
  it never truncates a length and never fails for another reason.\<close>

theorem CBB_flush_succeeds_iff:
  assumes "cbb_ok st" and "base st = Some b" and "growable h b"
    and "length (collapse (fst (abs_cbb st)) (snd (abs_cbb st))) < SIZE_LIMIT"
  shows "fst (CBB_flush h 0 st) \<longleftrightarrow> frames_fit (fst (abs_cbb st)) (snd (abs_cbb st))"
  by (rule flush_exact [OF assms])

theorem CBB_flush_succeeds_iff_witness: "fst (CBB_flush good_heap 0 example_open)"
proof -
  have ok: "cbb_ok example_open" by code_simp
  have b: "base example_open = Some (the (base example_open))" by code_simp
  have "buffer_ok (the (base example_open))" "\<not> error (the (base example_open))" "can_resize (the (base example_open))"
    by code_simp+
  then have g: "growable good_heap (the (base example_open))" by (simp add: growable_def good_heap_def)
  have size: "length (collapse (fst (abs_cbb example_open)) (snd (abs_cbb example_open))) < SIZE_LIMIT" by code_simp
  have "frames_fit (fst (abs_cbb example_open)) (snd (abs_cbb example_open))" by code_simp
  then show ?thesis using CBB_flush_succeeds_iff [OF ok b g size] by simp
qed

text \<open>C14. What a client gets: a forest of raw bytes, length-prefixed and DER elements, written to a
  fresh \<open>CBB\<close> in order and finished, comes out as the concatenation of the elements'
  encodings, whatever the initial capacity and however the buffer was moved and grown.\<close>

theorem CBB_finish_encodes:
  assumes "CBB_init h n = (True, st0)" and "n < SIZE_LIMIT" and "build_items h 0 its st0 = (True, st1)"
    and "\<forall>i \<in> set its. item_ok i" and "CBB_finish h 0 True st1 = (Some out, st2)"
  shows "out = concat (map encode its)"
  by (rule build_finish [OF assms])

theorem CBB_finish_encodes_witness:
  "the (fst (CBB_finish good_heap 0 True (snd (build_items good_heap 0
     [Asn1 CBS_ASN1_OCTETSTRING [Prefixed 2 [Raw [7, 8]]], Raw [1]] (snd (CBB_init good_heap 1)))))) = [4, 4, 0, 2, 7, 8, 1]"
proof -
  let ?its = "[Asn1 CBS_ASN1_OCTETSTRING [Prefixed 2 [Raw [7, 8]]], Raw [1]]"
  let ?s0 = "snd (CBB_init good_heap 1)" let ?s1 = "snd (build_items good_heap 0 ?its ?s0)"
  let ?f = "CBB_finish good_heap 0 True ?s1"
  have 0: "CBB_init good_heap 1 = (True, ?s0)" by (rule fst_True) code_simp
  have n: "1 < SIZE_LIMIT" by code_simp
  have 1: "build_items good_heap 0 ?its ?s0 = (True, ?s1)" by (rule fst_True) code_simp
  have ok: "\<forall>i \<in> set ?its. item_ok i" by code_simp
  have 2: "?f = (Some (the (fst ?f)), snd ?f)" by (rule fst_Some) code_simp
  have "concat (map encode ?its) = [4, 4, 0, 2, 7, 8, 1]" by code_simp
  then show ?thesis using CBB_finish_encodes [OF 0 n 1 ok 2] by simp
qed

text \<open>\<open>CBB_finish\<close> on a growable buffer hands over exactly the collapsed frames, or nothing
  when some element is too long for its length prefix.\<close>

theorem CBB_finish_exact:
  assumes "cbb_ok st" and "base st = Some b" and "growable h b"
    and "length (collapse (fst (abs_cbb st)) (snd (abs_cbb st))) < SIZE_LIMIT"
  shows "fst (CBB_finish h 0 True st) =
    (if frames_fit (fst (abs_cbb st)) (snd (abs_cbb st))
     then Some (collapse (fst (abs_cbb st)) (snd (abs_cbb st))) else None)"
  by (rule CBB_finish_total [OF assms])

theorem CBB_finish_exact_witness: "fst (CBB_finish good_heap 0 True example_open) = Some [4, 2, 7, 8]"
proof -
  have ok: "cbb_ok example_open" by code_simp
  have b: "base example_open = Some (the (base example_open))" by code_simp
  have "buffer_ok (the (base example_open))" "\<not> error (the (base example_open))" "can_resize (the (base example_open))"
    by code_simp+
  then have g: "growable good_heap (the (base example_open))" by (simp add: growable_def good_heap_def)
  have size: "length (collapse (fst (abs_cbb example_open)) (snd (abs_cbb example_open))) < SIZE_LIMIT" by code_simp
  have "frames_fit (fst (abs_cbb example_open)) (snd (abs_cbb example_open))"
    "collapse (fst (abs_cbb example_open)) (snd (abs_cbb example_open)) = [4, 2, 7, 8]" by code_simp+
  then show ?thesis using CBB_finish_exact [OF ok b g size] by simp
qed

text \<open>C17. Builder and parser agree: an INTEGER written with \<open>CBB_add_asn1_uint64\<close> into a fresh
  \<open>CBB\<close> and finished is read back by \<open>CBS_get_asn1_uint64\<close> as the same value, with whatever
  follows it left over.\<close>

theorem asn1_uint64_roundtrip:
  assumes "CBB_init h n = (True, st0)" and "n < SIZE_LIMIT" and "CBB_add_asn1_uint64 h 0 v st0 = (True, st1)"
    and "CBB_finish h 0 True st1 = (Some out, st2)"
  shows "CBS_get_asn1_uint64 (out @ rest) = (Some v, rest)"
proof -
  note i = CBB_init_ok [OF assms(1,2)]
  note w = adds_wrote [OF add_asn1_uint64_adds [OF assms(3)]]
  have "out = der_element CBS_ASN1_INTEGER (uint_octets (unat v))"
    using CBB_finish_success [OF assms(4)] i w by (simp add: wrote_def spec_add_def)
  then show ?thesis by (simp add: uint64_codec.round_trip)
qed

theorem asn1_uint64_roundtrip_witness:
  "CBS_get_asn1_uint64 (the (fst (CBB_finish good_heap 0 True (snd (CBB_add_asn1_uint64 good_heap 0 200
     (snd (CBB_init good_heap 0)))))) @ [9]) = (Some 200, [9])"
proof -
  let ?s0 = "snd (CBB_init good_heap 0)" let ?s1 = "snd (CBB_add_asn1_uint64 good_heap 0 200 ?s0)"
  let ?f = "CBB_finish good_heap 0 True ?s1"
  have 0: "CBB_init good_heap 0 = (True, ?s0)" by (rule fst_True) code_simp
  have n: "0 < SIZE_LIMIT" by code_simp
  have 1: "CBB_add_asn1_uint64 good_heap 0 200 ?s0 = (True, ?s1)" by (rule fst_True) code_simp
  have 2: "?f = (Some (the (fst ?f)), snd ?f)" by (rule fst_Some) code_simp
  show ?thesis by (rule asn1_uint64_roundtrip [OF 0 n 1 2])
qed

text \<open>\<open>CBB_discard_child\<close> forgets exactly the open elements from depth \<open>d\<close> on: the enclosing
  ones keep their contents, and the invariant holds.\<close>

theorem CBB_discard_child_exact:
  assumes "cbb_ok st" and "d < length (children st)"
  shows "cbb_ok (CBB_discard_child d st) \<and>
    abs_cbb (CBB_discard_child d st) = (fst (abs_cbb st), take d (snd (abs_cbb st)))"
  using discard_frames [OF assms] by simp

theorem CBB_discard_child_exact_witness: "abs_cbb (CBB_discard_child 0 example_open) = ([4], [])"
proof -
  have ok: "cbb_ok example_open" by code_simp
  have "0 < length (children example_open)" by code_simp
  moreover have "fst (abs_cbb example_open) = [4]" by code_simp
  ultimately show ?thesis using CBB_discard_child_exact [OF ok] by simp
qed

end
