(* ===== verification/Unicode.thy ===== *)
theory Unicode
  imports Cbb
begin

section \<open>Unicode encodings (crypto/bytestring/unicode.c)\<close>

text \<open>
  Reading and writing one code point in UTF-8, Latin-1, UCS-2 and UTF-32 over the cursors and
  builders of \<open>Cbs\<close> and \<open>Cbb\<close>, against the encoding forms of the Unicode standard. Each pair is
  an instance of the codec interface.
\<close>

subsection \<open>Operations\<close>

definition is_valid_code_point :: "u32 \<Rightarrow> bool" where
  "is_valid_code_point v =
     (\<not> (v > 0x10ffff \<or> v AND 0xfffe = 0xfffe \<or> (v \<ge> 0xfdd0 \<and> v \<le> 0xfdef) \<or>
         (v \<ge> 0xd800 \<and> v \<le> 0xdfff)))"

definition BOTTOM_BITS :: "nat \<Rightarrow> byte" where
  "BOTTOM_BITS n = ucast ((push_bit n 1 :: u32) - 1)"

definition TOP_BITS :: "nat \<Rightarrow> byte" where
  "TOP_BITS n = NOT (BOTTOM_BITS (8 - n))"

text \<open>The loop over the continuation bytes.\<close>

fun get_continuation :: "nat \<Rightarrow> u32 \<Rightarrow> (cbs, u32) crun" where
  "get_continuation 0 v cbs = (Some v, cbs)"
| "get_continuation (Suc n) v cbs =
     (case CBS_get_u8 cbs of
        (None, cbs) \<Rightarrow> (None, cbs)
      | (Some c, cbs) \<Rightarrow>
          if c AND TOP_BITS 2 \<noteq> TOP_BITS 1 then (None, cbs)
          else get_continuation n (push_bit 6 v OR ucast (c AND BOTTOM_BITS 6)) cbs)"

text \<open>The first byte: the bits it holds, how many bytes follow and the smallest value allowed.\<close>

definition utf8_first :: "byte \<Rightarrow> (byte \<times> nat \<times> u32) option" where
  "utf8_first c =
     (if c AND TOP_BITS 3 = TOP_BITS 2 then Some (c AND BOTTOM_BITS 5, 1, 0x80)
      else if c AND TOP_BITS 4 = TOP_BITS 3 then Some (c AND BOTTOM_BITS 4, 2, 0x800)
      else if c AND TOP_BITS 5 = TOP_BITS 4 then Some (c AND BOTTOM_BITS 3, 3, 0x10000)
      else None)"

definition cbs_get_utf8 :: "(cbs, u32) crun" where
  "cbs_get_utf8 cbs =
     (case CBS_get_u8 cbs of
        (None, cbs) \<Rightarrow> (None, cbs)
      | (Some c, cbs) \<Rightarrow>
          if c \<le> 0x7f then (Some (ucast c), cbs)
          else
            (case utf8_first c of
               None \<Rightarrow> (None, cbs)
             | Some (v, len, lower_bound) \<Rightarrow>
                 (case get_continuation len (ucast v) cbs of
                    (None, cbs) \<Rightarrow> (None, cbs)
                  | (Some v, cbs) \<Rightarrow>
                      if \<not> is_valid_code_point v \<or> v < lower_bound then (None, cbs) else (Some v, cbs))))"

definition cbs_get_latin1 :: "(cbs, u32) crun" where
  "cbs_get_latin1 cbs =
     (case CBS_get_u8 cbs of (None, cbs) \<Rightarrow> (None, cbs) | (Some c, cbs) \<Rightarrow> (Some (ucast c), cbs))"

definition cbs_get_ucs2_be :: "(cbs, u32) crun" where
  "cbs_get_ucs2_be cbs =
     (case CBS_get_u16 cbs of
        (None, cbs) \<Rightarrow> (None, cbs)
      | (Some c, cbs) \<Rightarrow> if \<not> is_valid_code_point (ucast c) then (None, cbs) else (Some (ucast c), cbs))"

definition cbs_get_utf32_be :: "(cbs, u32) crun" where
  "cbs_get_utf32_be cbs =
     (case CBS_get_u32 cbs of
        (None, cbs) \<Rightarrow> (None, cbs)
      | (Some c, cbs) \<Rightarrow> if is_valid_code_point c then (Some c, cbs) else (None, cbs))"

definition cbb_get_utf8_len :: "u32 \<Rightarrow> nat" where
  "cbb_get_utf8_len u = (if u \<le> 0x7f then 1 else if u \<le> 0x7ff then 2 else if u \<le> 0xffff then 3 else 4)"

text \<open>Adding bytes one by one, up to the first failure; the bytes of a multi-byte sequence.\<close>

fun add_u8s :: "heap_env \<Rightarrow> nat \<Rightarrow> bytes \<Rightarrow> cbb \<Rightarrow> bool \<times> cbb" where
  "add_u8s h d [] st = (True, st)"
| "add_u8s h d (b # bs) st =
     (case CBB_add_u8 h d b st of (False, st) \<Rightarrow> (False, st) | (True, st) \<Rightarrow> add_u8s h d bs st)"

definition first_byte :: "nat \<Rightarrow> u32 \<Rightarrow> byte" where
  "first_byte n x = ucast (ucast (TOP_BITS n) OR x :: u32)"

definition next_byte :: "u32 \<Rightarrow> byte" where
  "next_byte x = ucast (ucast (TOP_BITS 1) OR (x AND ucast (BOTTOM_BITS 6)) :: u32)"

definition cbb_add_utf8 :: "heap_env \<Rightarrow> nat \<Rightarrow> u32 \<Rightarrow> cbb \<Rightarrow> bool \<times> cbb" where
  "cbb_add_utf8 h d u st =
     (if \<not> is_valid_code_point u then (False, st)
      else if u \<le> 0x7f then add_u8s h d [ucast u] st
      else if u \<le> 0x7ff then add_u8s h d [first_byte 2 (drop_bit 6 u), next_byte u] st
      else if u \<le> 0xffff then
        add_u8s h d [first_byte 3 (drop_bit 12 u), next_byte (drop_bit 6 u), next_byte u] st
      else if u \<le> 0x10ffff then
        add_u8s h d [first_byte 4 (drop_bit 18 u), next_byte (drop_bit 12 u), next_byte (drop_bit 6 u), next_byte u] st
      else (False, st))"

definition cbb_add_latin1 :: "heap_env \<Rightarrow> nat \<Rightarrow> u32 \<Rightarrow> cbb \<Rightarrow> bool \<times> cbb" where
  "cbb_add_latin1 h d u st = (if u \<le> 0xff then CBB_add_u8 h d (ucast u) st else (False, st))"

definition cbb_add_ucs2_be :: "heap_env \<Rightarrow> nat \<Rightarrow> u32 \<Rightarrow> cbb \<Rightarrow> bool \<times> cbb" where
  "cbb_add_ucs2_be h d u st =
     (if u \<le> 0xffff \<and> is_valid_code_point u then CBB_add_u16 h d (ucast u) st else (False, st))"

definition cbb_add_utf32_be :: "heap_env \<Rightarrow> nat \<Rightarrow> u32 \<Rightarrow> cbb \<Rightarrow> bool \<times> cbb" where
  "cbb_add_utf32_be h d u st = (if is_valid_code_point u then CBB_add_u32 h d u st else (False, st))"

subsection \<open>The encoding forms\<close>

text \<open>Scalar values that are not reserved (Unicode 3.4, D9, D14; 3.2, C1), and UTF-8 (table 3-6).\<close>

definition code_point :: "nat \<Rightarrow> bool" where
  "code_point v \<longleftrightarrow> v \<le> 0x10ffff \<and> v mod 0x10000 \<noteq> 0xfffe \<and> v mod 0x10000 \<noteq> 0xffff \<and>
     \<not> (0xfdd0 \<le> v \<and> v \<le> 0xfdef) \<and> \<not> (0xd800 \<le> v \<and> v \<le> 0xdfff)"

definition utf8 :: "nat \<Rightarrow> bytes" where
  "utf8 v =
     map word_of_nat
       (if v < 0x80 then [v]
        else if v < 0x800 then [0xc0 + v div 64, 0x80 + v mod 64]
        else if v < 0x10000 then [0xe0 + v div 4096, 0x80 + v div 64 mod 64, 0x80 + v mod 64]
        else [0xf0 + v div 262144, 0x80 + v div 4096 mod 64, 0x80 + v div 64 mod 64, 0x80 + v mod 64])"

lemma unat_push: "unat w * 2 ^ n < 2 ^ LENGTH('a) \<Longrightarrow> unat (push_bit n w) = unat w * 2 ^ n"
  for w :: "'a::len word"
  unfolding unsigned_push_bit_eq by (simp add: push_bit_eq_mult take_bit_nat_eq_self)

lemma and_push: "v AND push_bit n m = push_bit n (drop_bit n v AND m)" for v m :: "'a::len word"
  by (rule bit_word_eqI) (auto simp: bit_simps)

lemma unat_and_not_mask: "unat (w AND NOT (mask m)) = unat w div 2 ^ m * 2 ^ m" for w :: "'a::len word"
proof -
  have "w AND NOT (mask m) = push_bit m (drop_bit m w)"
    by (rule bit_word_eqI) (auto simp: bit_simps)
  moreover have "unat w div 2 ^ m * 2 ^ m < 2 ^ LENGTH('a)"
    using unsigned_less [of w] div_times_less_eq_dividend [of "unat w" "2 ^ m"] by (rule order_le_less_trans [rotated])
  ultimately show ?thesis using unat_push [of "drop_bit m w" m] by (simp only: unat_drop_bit)
qed

lemma BOTTOM_BITS_mask: "n \<le> 8 \<Longrightarrow> BOTTOM_BITS n = mask n"
  by (rule bit_word_eqI)
    (auto simp: BOTTOM_BITS_def bit_ucast_iff bit_mask_iff simp flip: mask_eq_exp_minus_1)

lemma unat_bottom: "n \<le> 8 \<Longrightarrow> unat (c AND BOTTOM_BITS n) = unat c mod 2 ^ n"
  by (simp add: BOTTOM_BITS_mask unat_and_mask)

lemma unat_top: "n \<le> 8 \<Longrightarrow> unat (c AND TOP_BITS n) = unat c div 2 ^ (8 - n) * 2 ^ (8 - n)"
  by (simp add: TOP_BITS_def BOTTOM_BITS_mask unat_and_not_mask)

lemma div_times_iff: "0 < k \<Longrightarrow> x div k * k = q * k \<longleftrightarrow> q * k \<le> x \<and> x < q * k + k" for x k q :: nat
  by (metis add.commute div_nat_eqI div_times_less_eq_dividend dividend_less_div_times mult.commute
      mult_Suc mult_right_cancel not_less0 neq0_conv)

lemma top_eq: "n \<le> 8 \<Longrightarrow> c AND TOP_BITS n = t \<longleftrightarrow> unat c div 2 ^ (8 - n) * 2 ^ (8 - n) = unat t"
  by (simp add: word_unat_eq_iff unat_top)

lemma unat_TOP_BITS: "unat (TOP_BITS 1) = 128" "unat (TOP_BITS 2) = 192" "unat (TOP_BITS 3) = 224" "unat (TOP_BITS 4) = 240"
  by (simp_all add: TOP_BITS_def BOTTOM_BITS_def)

lemma top_bits_iff:
  "c AND TOP_BITS 2 = TOP_BITS 1 \<longleftrightarrow> 128 \<le> unat c \<and> unat c < 192"
  "c AND TOP_BITS 3 = TOP_BITS 2 \<longleftrightarrow> 192 \<le> unat c \<and> unat c < 224"
  "c AND TOP_BITS 4 = TOP_BITS 3 \<longleftrightarrow> 224 \<le> unat c \<and> unat c < 240"
  "c AND TOP_BITS 5 = TOP_BITS 4 \<longleftrightarrow> 240 \<le> unat c \<and> unat c < 248"
  using div_times_iff [of 64 "unat c" 2] div_times_iff [of 32 "unat c" 6] div_times_iff [of 16 "unat c" 14]
    div_times_iff [of 8 "unat c" 30]
  by (simp_all add: top_eq unat_TOP_BITS unat_TOP_BITS [unfolded One_nat_def])

lemmas continuation_iff = top_bits_iff(1) [unfolded One_nat_def]

lemma is_valid_code_point_iff: "is_valid_code_point v \<longleftrightarrow> code_point (unat v)"
proof -
  have m: "(0xfffe :: u32) = push_bit 1 (mask 15)" by (simp add: mask_eq_exp_minus_1)
  have "unat (drop_bit 1 v AND mask 15) = unat v div 2 mod 32768" by (simp add: unat_and_mask unat_drop_bit)
  moreover have "unat v div 2 mod 32768 < 32768" by simp
  ultimately have "unat (v AND 0xfffe) = unat v div 2 mod 32768 * 2"
    unfolding m and_push using unat_push [of "drop_bit 1 v AND mask 15" 1] by simp
  then have "(v AND 0xfffe = 0xfffe) \<longleftrightarrow> unat v div 2 mod 32768 = 32767" by (simp add: word_unat_eq_iff)
  moreover have "unat v div 2 mod 32768 = 32767 \<longleftrightarrow> unat v mod 0x10000 = 0xfffe \<or> unat v mod 0x10000 = 0xffff"
  proof -
    define q where "q = unat v div 2 mod 32768"
    have gen: "q = 32767 \<longleftrightarrow> r = 65534 \<or> r = 65535" if "r = 2 * q + m" "m = 0 \<or> m = 1" for r q m :: nat
      using that by presburger
    have "unat v mod 65536 = 2 * q + unat v mod 2"
      using mod_mult2_eq [of "unat v" 2 32768] by (simp add: q_def)
    moreover have "unat v mod 2 = 0 \<or> unat v mod 2 = 1" by presburger
    ultimately show ?thesis unfolding q_def [symmetric] by (rule gen)
  qed
  ultimately show ?thesis
    by (auto simp: is_valid_code_point_def code_point_def word_le_nat_alt word_less_nat_alt)
qed

subsection \<open>UTF-8\<close>

definition utf8_val :: "nat \<Rightarrow> bytes \<Rightarrow> nat" where
  "utf8_val a cs = foldl (\<lambda>a c. a * 64 + (unat c - 128)) a cs"

abbreviation continuation :: "byte \<Rightarrow> bool" where
  "continuation c \<equiv> 128 \<le> unat c \<and> unat c < 192"

lemma get_continuation_iff:
  assumes "unat v * 64 ^ n + 64 ^ n \<le> 2 ^ 32"
  shows "get_continuation n v s = (Some w, r) \<longleftrightarrow>
    (\<exists>cs. length cs = n \<and> s = cs @ r \<and> list_all continuation cs \<and>
       unat w = utf8_val (unat v) cs)"
  using assms
proof (induction n arbitrary: v s)
  case 0
  then show ?case by (auto simp: word_unat_eq_iff utf8_val_def)
next
  case (Suc n)
  show ?case
  proof (cases s)
    case Nil
    then show ?thesis by auto
  next
    case (Cons c t)
    show ?thesis
    proof (cases "128 \<le> unat c \<and> unat c < 192")
      case False
      then show ?thesis using Cons by (auto simp: continuation_iff length_Suc_conv)
    next
      case True
      define v' where "v' = push_bit 6 v OR ucast (c AND BOTTOM_BITS 6)"
      have low: "unat (ucast (c AND BOTTOM_BITS 6) :: u32) = unat c - 128"
      proof -
        have "unat c mod 64 = (unat c - 128 + 2 * 64) mod 64" using True by simp
        also have "\<dots> = (unat c - 128) mod 64" by (rule mod_mult_self1)
        also have "\<dots> = unat c - 128" using True by (intro mod_less) linarith
        finally have "unat c mod 64 = unat c - 128" .
        then show ?thesis by (simp add: unat_ucast_up unat_bottom)
      qed
      have big: "unat v * 64 + 64 \<le> 2 ^ 32"
      proof -
        have "(unat v * 64 + 64) * 64 ^ n \<le> 2 ^ 32" using Suc.prems by (simp add: algebra_simps)
        moreover have "unat v * 64 + 64 \<le> (unat v * 64 + 64) * 64 ^ n" by simp
        ultimately show ?thesis by linarith
      qed
      have "unat c - 128 < 64" using True by linarith
      then have v': "unat v' = unat v * 64 + (unat c - 128)"
        using or_shift_unat [of "ucast (c AND BOTTOM_BITS 6) :: u32" 6 v] big low True by (simp add: v'_def)
      have "unat v' * 64 ^ n + 64 ^ n \<le> (unat v * 64 + 64) * 64 ^ n"
      proof -
        have "unat v' + 1 \<le> unat v * 64 + 64" using v' True by linarith
        from mult_le_mono1 [OF this, of "64 ^ n"] show ?thesis by (simp add: algebra_simps)
      qed
      then have bound: "unat v' * 64 ^ n + 64 ^ n \<le> 2 ^ 32" using Suc.prems by (simp add: algebra_simps)
      have "get_continuation (Suc n) v s = get_continuation n v' t"
        using True Cons by (simp add: continuation_iff v'_def)
      then show ?thesis
        using Suc.IH [OF bound, of t] Cons True v' by (auto simp: length_Suc_conv utf8_val_def)
    qed
  qed
qed

text \<open>What follows a first byte of each class.\<close>

lemma utf8_class:
  assumes c: "utf8_first c = Some (c AND BOTTOM_BITS k, n, lb)" and k: "k \<le> 8" "127 < unat c"
    and n: "(unat c mod 2 ^ k) * 64 ^ n + 64 ^ n \<le> 2 ^ 32"
  shows "cbs_get_utf8 (c # t) = (Some v, r) \<longleftrightarrow>
    (\<exists>cs. length cs = n \<and> t = cs @ r \<and> list_all continuation cs \<and>
       unat v = utf8_val (unat c mod 2 ^ k) cs) \<and>
    code_point (unat v) \<and> unat lb \<le> unat v"
proof -
  have u: "unat (ucast (c AND BOTTOM_BITS k) :: u32) = unat c mod 2 ^ k"
    using k by (simp add: unat_ucast_up unat_bottom)
  have "\<not> c \<le> 0x7f" using k by (simp add: word_le_nat_alt)
  then have "cbs_get_utf8 (c # t) = (Some v, r) \<longleftrightarrow>
      get_continuation n (ucast (c AND BOTTOM_BITS k)) t = (Some v, r) \<and> code_point (unat v) \<and> unat lb \<le> unat v"
    by (auto simp: cbs_get_utf8_def c is_valid_code_point_iff word_less_nat_alt split: prod.splits option.splits)
  also have "get_continuation n (ucast (c AND BOTTOM_BITS k)) t = (Some v, r) \<longleftrightarrow>
      (\<exists>cs. length cs = n \<and> t = cs @ r \<and> list_all continuation cs \<and>
       unat v = utf8_val (unat c mod 2 ^ k) cs)"
    using get_continuation_iff [of "ucast (c AND BOTTOM_BITS k)" n t v r] n unfolding u by blast
  finally show ?thesis by blast
qed

lemma mod_of_range: "q * m \<le> x \<Longrightarrow> x < q * m + m \<Longrightarrow> x mod m = x - q * m" for x q m :: nat
proof -
  assume "q * m \<le> x" "x < q * m + m"
  then have "x mod m = (x - q * m + q * m) mod m" "x - q * m < m" by simp_all
  then show ?thesis by simp
qed

lemma utf8_2:
  assumes "192 \<le> unat c" "unat c < 224"
  shows "cbs_get_utf8 (c # t) = (Some v, r) \<longleftrightarrow>
    (\<exists>cs. length cs = 1 \<and> t = cs @ r \<and> list_all continuation cs \<and> unat v = utf8_val (unat c - 192) cs) \<and>
    code_point (unat v) \<and> 0x80 \<le> unat v"
proof -
  have m: "unat c mod 2 ^ 5 = unat c - 192" using mod_of_range [of 6 32 "unat c"] assms by simp
  have "(unat c - 192) * 64 ^ 1 + 64 ^ 1 \<le> 32 * 64 ^ 1" using assms by simp
  then show ?thesis
    using utf8_class [of c 5 1 "0x80" t v r] assms unfolding m by (simp add: utf8_first_def top_bits_iff)
qed

lemma utf8_3:
  assumes "224 \<le> unat c" "unat c < 240"
  shows "cbs_get_utf8 (c # t) = (Some v, r) \<longleftrightarrow>
    (\<exists>cs. length cs = 2 \<and> t = cs @ r \<and> list_all continuation cs \<and> unat v = utf8_val (unat c - 224) cs) \<and>
    code_point (unat v) \<and> 0x800 \<le> unat v"
proof -
  have m: "unat c mod 2 ^ 4 = unat c - 224" using mod_of_range [of 14 16 "unat c"] assms by simp
  have "(unat c - 224) * 64 ^ 2 + 64 ^ 2 \<le> 16 * 64 ^ 2" using assms by simp
  then show ?thesis
    using utf8_class [of c 4 2 "0x800" t v r] assms unfolding m by (simp add: utf8_first_def top_bits_iff)
qed

lemma utf8_4:
  assumes "240 \<le> unat c" "unat c < 248"
  shows "cbs_get_utf8 (c # t) = (Some v, r) \<longleftrightarrow>
    (\<exists>cs. length cs = 3 \<and> t = cs @ r \<and> list_all continuation cs \<and> unat v = utf8_val (unat c - 240) cs) \<and>
    code_point (unat v) \<and> 0x10000 \<le> unat v"
proof -
  have m: "unat c mod 2 ^ 3 = unat c - 240" using mod_of_range [of 30 8 "unat c"] assms by simp
  have "(unat c - 240) * 64 ^ 3 + 64 ^ 3 \<le> 8 * 64 ^ 3" using assms by simp
  then show ?thesis
    using utf8_class [of c 3 3 "0x10000" t v r] assms unfolding m by (simp add: utf8_first_def top_bits_iff)
qed

lemma utf8_other:
  assumes "127 < unat c" "unat c < 192 \<or> 248 \<le> unat c"
  shows "cbs_get_utf8 (c # t) = (None, t)"
  using assms by (auto simp: cbs_get_utf8_def utf8_first_def top_bits_iff word_le_nat_alt)

lemma byte_of_unat: "c = word_of_nat n \<longleftrightarrow> unat c = n" if "n < 256" for c :: byte
  using that by (auto simp: word_unat_eq_iff unat_of_nat)

lemma digits64:
  fixes a b c d :: nat
  assumes "b < 64" "c < 64" "d < 64"
  shows "(a * 64 + b) div 64 = a" "(a * 64 + b) mod 64 = b"
    "((a * 64 + b) * 64 + c) div 4096 = a" "((a * 64 + b) * 64 + c) div 64 mod 64 = b" "((a * 64 + b) * 64 + c) mod 64 = c"
    "(((a * 64 + b) * 64 + c) * 64 + d) div 262144 = a" "(((a * 64 + b) * 64 + c) * 64 + d) div 4096 mod 64 = b"
    "(((a * 64 + b) * 64 + c) * 64 + d) div 64 mod 64 = c" "(((a * 64 + b) * 64 + c) * 64 + d) mod 64 = d"
proof -
  have s: "(x * 64 + y) div 64 = x" "(x * 64 + y) mod 64 = y" if "y < 64" for x y :: nat using that by simp_all
  have e: "n div 4096 = n div 64 div 64" "n div 262144 = n div 64 div 64 div 64" for n :: nat
    by (simp_all flip: div_mult2_eq)
  show "(a * 64 + b) div 64 = a" "(a * 64 + b) mod 64 = b"
    "((a * 64 + b) * 64 + c) div 4096 = a" "((a * 64 + b) * 64 + c) div 64 mod 64 = b" "((a * 64 + b) * 64 + c) mod 64 = c"
    "(((a * 64 + b) * 64 + c) * 64 + d) div 262144 = a" "(((a * 64 + b) * 64 + c) * 64 + d) div 4096 mod 64 = b"
    "(((a * 64 + b) * 64 + c) * 64 + d) div 64 mod 64 = c" "(((a * 64 + b) * 64 + c) * 64 + d) mod 64 = d"
    unfolding e using assms by (simp_all only: s)
qed

lemma digits64_less: "x < 16 \<Longrightarrow> y < 64 \<Longrightarrow> z < 64 \<Longrightarrow> (x * 64 + y) * 64 + z < 0x10000" for x y z :: nat
proof -
  assume a: "x < 16" "y < 64" "z < 64"
  have "x * 64 + y < 1024" using a by linarith
  moreover have "w * 64 + z < 0x10000" if "w < 1024" for w using that a by linarith
  ultimately show ?thesis by blast
qed

lemma utf8_sound:
  assumes "cbs_get_utf8 s = (Some v, r)"
  shows "code_point (unat v) \<and> s = utf8 (unat v) @ r"
proof (cases s)
  case Nil
  then show ?thesis using assms by (simp add: cbs_get_utf8_def)
next
  case (Cons c t)
  have c: "word_of_nat (unat c) = c" by simp
  consider "unat c < 128" | "192 \<le> unat c" "unat c < 224" | "224 \<le> unat c" "unat c < 240"
    | "240 \<le> unat c" "unat c < 248" | "127 < unat c" "unat c < 192 \<or> 248 \<le> unat c"
    by linarith
  then show ?thesis
  proof cases
    case 1
    then have "v = ucast c" "r = t" using assms Cons by (simp_all add: cbs_get_utf8_def word_le_nat_alt)
    then show ?thesis using 1 Cons by (simp add: utf8_def code_point_def unat_ucast_up)
  next
    case 2
    then obtain d where d: "t = d # r" "continuation d" "unat v = (unat c - 192) * 64 + (unat d - 128)"
      and v: "code_point (unat v)" "0x80 \<le> unat v"
      using assms Cons utf8_2 [OF 2, of t v r] by (auto simp: length_Suc_conv utf8_val_def)
    have "unat v < 0x800" using d 2 by linarith
    moreover have "unat v div 64 = unat c - 192" "unat v mod 64 = unat d - 128"
      unfolding d(3) by (intro digits64(1,2) [where c = 0 and d = 0]; use d in linarith)+
    ultimately show ?thesis using v d(1,2) 2 Cons by (simp add: utf8_def)
  next
    case 3
    obtain cs where cs: "length cs = 2" "t = cs @ r" "list_all continuation cs" "unat v = utf8_val (unat c - 224) cs"
      and v: "code_point (unat v)" "0x800 \<le> unat v"
      using assms unfolding Cons utf8_3 [OF 3, of t v r] by blast
    from cs(1) obtain d e where de: "cs = [d, e]" by (auto simp: length_Suc_conv numeral_2_eq_2)
    have d: "t = d # e # r" "continuation d" "continuation e"
      "unat v = ((unat c - 224) * 64 + (unat d - 128)) * 64 + (unat e - 128)"
      using cs(2,3) unfolding cs(4) by (simp_all only: de utf8_val_def foldl.simps list.pred_inject append.simps)
    have "unat c - 224 < 16" "unat d - 128 < 64" "unat e - 128 < 64" using d(2,3) 3 by linarith+
    then have "unat v < 0x10000" unfolding d(4) by (rule digits64_less)
    moreover have "unat v div 4096 = unat c - 224" "unat v div 64 mod 64 = unat d - 128" "unat v mod 64 = unat e - 128"
      unfolding d(4) by (intro digits64(3-5) [where d = 0]; use d in linarith)+
    ultimately show ?thesis using v d(1-3) 3 Cons by (simp add: utf8_def)
  next
    case 4
    obtain cs where cs: "length cs = 3" "t = cs @ r" "list_all continuation cs" "unat v = utf8_val (unat c - 240) cs"
      and v: "code_point (unat v)" "0x10000 \<le> unat v"
      using assms unfolding Cons utf8_4 [OF 4, of t v r] by blast
    from cs(1) obtain d e f where dd: "cs = [d, e, f]" by (auto simp: length_Suc_conv numeral_3_eq_3)
    have d: "t = d # e # f # r" "continuation d" "continuation e" "continuation f"
      "unat v = (((unat c - 240) * 64 + (unat d - 128)) * 64 + (unat e - 128)) * 64 + (unat f - 128)"
      using cs(2,3) unfolding cs(4) by (simp_all only: dd utf8_val_def foldl.simps list.pred_inject append.simps)
    have "unat v div 262144 = unat c - 240" "unat v div 4096 mod 64 = unat d - 128"
      "unat v div 64 mod 64 = unat e - 128" "unat v mod 64 = unat f - 128"
      unfolding d(5) by (intro digits64(6-9); use d in linarith)+
    then show ?thesis using v d(1-4) 4 Cons by (simp add: utf8_def)
  next
    case 5
    then show ?thesis using assms Cons by (simp add: utf8_other)
  qed
qed

lemma unat_byte: "n < 256 \<Longrightarrow> unat (word_of_nat n :: byte) = n"
  by (simp add: unat_of_nat)

lemma recompose64:
  "n div 64 * 64 + n mod 64 = n" "(n div 4096 * 64 + n div 64 mod 64) * 64 + n mod 64 = n"
  "((n div 262144 * 64 + n div 4096 mod 64) * 64 + n div 64 mod 64) * 64 + n mod 64 = n" for n :: nat
proof -
  have e: "n div 4096 = n div 64 div 64" "n div 262144 = n div 64 div 64 div 64"
    by (simp_all flip: div_mult2_eq)
  show "n div 64 * 64 + n mod 64 = n" "(n div 4096 * 64 + n div 64 mod 64) * 64 + n mod 64 = n"
    "((n div 262144 * 64 + n div 4096 mod 64) * 64 + n div 64 mod 64) * 64 + n mod 64 = n"
    unfolding e by (simp_all only: div_mult_mod_eq)
qed

lemma utf8_complete:
  assumes v: "code_point (unat v)"
  shows "cbs_get_utf8 (utf8 (unat v) @ r) = (Some v, r)"
proof -
  define n where "n = unat v"
  define cont where "cont m = (word_of_nat (0x80 + m mod 64) :: byte)" for m
  have u: "unat (cont m) = 0x80 + m mod 64" for m
    unfolding cont_def using mod_less_divisor [of 64 m] by (intro unat_byte) linarith
  have small: "m mod 64 < 64" for m :: nat by simp
  consider "n < 0x80" | "0x80 \<le> n" "n < 0x800" | "0x800 \<le> n" "n < 0x10000" | "0x10000 \<le> n" by linarith
  then show ?thesis
  proof cases
    case 1
    then have "(ucast (word_of_nat n :: byte) :: u32) = v"
      unfolding word_unat_eq_iff by (simp add: unat_ucast_up unat_byte flip: n_def)
    moreover have "(word_of_nat n :: byte) \<le> 0x7f" using 1 by (simp add: word_le_nat_alt unat_of_nat)
    ultimately show ?thesis using 1 by (simp add: utf8_def cbs_get_utf8_def flip: n_def)
  next
    case 2
    define c where "c = (word_of_nat (0xc0 + n div 64) :: byte)"
    have "n div 64 < 32" using 2 by (simp add: less_mult_imp_div_less)
    then have c: "unat c = 0xc0 + n div 64" unfolding c_def by (intro unat_byte) linarith
    define cs where "cs = [cont n]"
    have "utf8_val (unat c - 192) cs = n"
      using recompose64(1) [of n] by (simp add: cs_def utf8_val_def u c)
    moreover have "list_all continuation cs" "length cs = 1" by (simp_all add: cs_def u small)
    moreover have "192 \<le> unat c" "unat c < 224" using c \<open>n div 64 < 32\<close> by simp_all
    ultimately have "cbs_get_utf8 (c # cs @ r) = (Some v, r)"
      using utf8_2 [of c "cs @ r" v r] 2 v by (auto simp flip: n_def)
    moreover have "utf8 n = c # cs" using 2 by (simp add: utf8_def c_def cs_def cont_def)
    ultimately show ?thesis by (simp flip: n_def)
  next
    case 3
    define c where "c = (word_of_nat (0xe0 + n div 4096) :: byte)"
    define cs where "cs = [cont (n div 64), cont n]"
    have lt: "n div 4096 < 16" using 3 by (simp add: less_mult_imp_div_less)
    then have c: "unat c = 0xe0 + n div 4096" unfolding c_def by (intro unat_byte) linarith
    have "utf8_val (unat c - 224) cs = n"
      using recompose64(2) [of n] by (simp add: cs_def utf8_val_def u c)
    moreover have "list_all continuation cs" "length cs = 2" by (simp_all add: cs_def u small)
    moreover have "224 \<le> unat c" "unat c < 240" using c lt by simp_all
    ultimately have "cbs_get_utf8 (c # cs @ r) = (Some v, r)"
      using utf8_3 [of c "cs @ r" v r] 3 v by (auto simp flip: n_def)
    moreover have "utf8 n = c # cs" using 3 by (simp add: utf8_def c_def cs_def cont_def)
    ultimately show ?thesis by (simp flip: n_def)
  next
    case 4
    define c where "c = (word_of_nat (0xf0 + n div 262144) :: byte)"
    define cs where "cs = [cont (n div 4096), cont (n div 64), cont n]"
    have "n \<le> 0x10ffff" using v by (simp add: code_point_def n_def)
    then have lt: "n div 262144 < 8" by (simp add: less_mult_imp_div_less)
    then have c: "unat c = 0xf0 + n div 262144" unfolding c_def by (intro unat_byte) linarith
    have "utf8_val (unat c - 240) cs = n"
      using recompose64(3) [of n] by (simp add: cs_def utf8_val_def u c)
    moreover have "list_all continuation cs" "length cs = 3" by (simp_all add: cs_def u small)
    moreover have "240 \<le> unat c" "unat c < 248" using c lt by simp_all
    ultimately have "cbs_get_utf8 (c # cs @ r) = (Some v, r)"
      using utf8_4 [of c "cs @ r" v r] 4 v by (auto simp flip: n_def)
    moreover have "utf8 n = c # cs" using 4 by (simp add: utf8_def c_def cs_def cont_def)
    ultimately show ?thesis by (simp flip: n_def)
  qed
qed

lemma cbs_get_utf8_iff: "cbs_get_utf8 s = (Some v, r) \<longleftrightarrow> code_point (unat v) \<and> s = utf8 (unat v) @ r"
  using utf8_sound utf8_complete by blast

subsection \<open>The codecs\<close>

interpretation utf8_codec: nonempty_codec "\<lambda>v. utf8 (unat v)" cbs_get_utf8 "\<lambda>v. code_point (unat v)"
  by unfold_locales (auto simp: cbs_get_utf8_iff utf8_def)

interpretation latin1_codec: nonempty_codec "\<lambda>v. [ucast v]" cbs_get_latin1 "\<lambda>v. unat v < 256"
proof
  show "cbs_get_latin1 s = (Some x, r) \<longleftrightarrow> unat x < 256 \<and> s = [ucast x] @ r" for s x r
  proof (cases s)
    case (Cons c t)
    have up: "unat (ucast c :: u32) = unat c" by (simp add: unat_ucast_up)
    have down: "unat (ucast x :: byte) = unat x mod 256" by (simp add: unat_ucast_down)
    have "x = ucast c \<longleftrightarrow> unat x < 256 \<and> c = ucast x"
      using unat_byte_less [of c] by (auto simp: word_unat_eq_iff up down)
    then show ?thesis using Cons by (auto simp: cbs_get_latin1_def)
  qed (simp add: cbs_get_latin1_def)
qed simp

interpretation ucs2_codec: nonempty_codec "\<lambda>v. be_bytes 2 (unat v)" cbs_get_ucs2_be
  "\<lambda>v. code_point (unat v) \<and> unat v < 0x10000"
proof
  show "cbs_get_ucs2_be s = (Some x, r) \<longleftrightarrow> (code_point (unat x) \<and> unat x < 0x10000) \<and> s = be_bytes 2 (unat x) @ r"
    (is "?L \<longleftrightarrow> ?R") for s x r
  proof
    assume ?L
    then obtain w where w: "cbs_get_u 2 s = (Some w, r)" "x = ucast (ucast w :: u16)" "code_point (unat x)"
      by (auto simp: cbs_get_ucs2_be_def CBS_get_u16_def is_valid_code_point_iff split: prod.splits option.splits if_splits)
    then obtain ds where ds: "length ds = 2" "s = ds @ r" "unat w = be_nat ds"
      using cbs_get_u_iff [of 2 s w r] by auto
    have "be_nat ds < 0x10000" using be_nat_less [of ds] ds(1) by simp
    then have "unat x = be_nat ds" using w(2) ds(3) by (simp add: unat_ucast_up unat_ucast_down)
    then show ?R using w(3) ds be_bytes_be_nat [of ds] \<open>be_nat ds < 0x10000\<close> by simp
  next
    assume ?R
    then have "cbs_get_u 2 s = (Some (ucast x), r)"
      by (simp add: cbs_get_u_iff be_nat_be_bytes unat_ucast_up)
    moreover have "(ucast (ucast (ucast x :: u64) :: u16) :: u32) = x"
      using \<open>?R\<close> by (simp add: word_unat_eq_iff unat_ucast_up unat_ucast_down)
    ultimately show ?L using \<open>?R\<close> by (simp add: cbs_get_ucs2_be_def CBS_get_u16_def is_valid_code_point_iff)
  qed
qed (simp add: numeral_2_eq_2)

interpretation utf32_codec: nonempty_codec "\<lambda>v. be_bytes 4 (unat v)" cbs_get_utf32_be "\<lambda>v. code_point (unat v)"
proof
  show "cbs_get_utf32_be s = (Some x, r) \<longleftrightarrow> code_point (unat x) \<and> s = be_bytes 4 (unat x) @ r"
    (is "?L \<longleftrightarrow> ?R") for s x r
  proof
    assume ?L
    then obtain w where w: "cbs_get_u 4 s = (Some w, r)" "x = ucast w" "code_point (unat x)"
      by (auto simp: cbs_get_utf32_be_def CBS_get_u32_def is_valid_code_point_iff split: prod.splits option.splits if_splits)
    then obtain ds where ds: "length ds = 4" "s = ds @ r" "unat w = be_nat ds"
      using cbs_get_u_iff [of 4 s w r] by auto
    have "be_nat ds < 0x100000000" using be_nat_less [of ds] ds(1) by simp
    then have "unat x = be_nat ds" using w(2) ds(3) by (simp add: unat_ucast_down)
    then show ?R using w(3) ds be_bytes_be_nat [of ds] by simp
  next
    assume ?R
    then have "cbs_get_u 4 s = (Some (ucast x), r)"
      using unat_u32_less [of x] by (simp add: cbs_get_u_iff be_nat_be_bytes unat_ucast_up)
    moreover have "(ucast (ucast x :: u64) :: u32) = x"
      using unat_u32_less [of x] by (simp add: word_unat_eq_iff unat_ucast_up unat_ucast_down)
    ultimately show ?L using \<open>?R\<close> by (simp add: cbs_get_utf32_be_def CBS_get_u32_def is_valid_code_point_iff)
  qed
  show "be_bytes 4 (unat x) \<noteq> []" for x by (metis length_be_bytes list.size(3) zero_neq_numeral)
qed

subsection \<open>Writing\<close>

lemma add_u8s_adds:
  "add_u8s h d bs st = (True, st') \<Longrightarrow> cbb_ok st \<Longrightarrow> bs \<noteq> [] \<Longrightarrow> adds d bs st st'"
proof (induction bs arbitrary: st)
  case (Cons b bs)
  from Cons.prems obtain st1 where s1: "CBB_add_u8 h d b st = (True, st1)" "add_u8s h d bs st1 = (True, st')"
    by (auto split: prod.splits bool.splits)
  have a: "adds d [b] st st1" by (rule add_u8_adds [OF s1(1) Cons.prems(2)])
  show ?case
  proof (cases "bs = []")
    case False
    then have "adds d bs st1 st'" using Cons.IH [OF s1(2)] a by (simp add: addsD)
    then show ?thesis using adds_trans [OF a] by simp
  qed (use a s1 in simp)
qed simp

lemma first_byte_eq:
  "unat x < 32 \<Longrightarrow> first_byte 2 x = word_of_nat (0xc0 + unat x)"
  "unat x < 16 \<Longrightarrow> first_byte 3 x = word_of_nat (0xe0 + unat x)"
  "unat x < 8 \<Longrightarrow> first_byte 4 x = word_of_nat (0xf0 + unat x)"
  "next_byte x = word_of_nat (0x80 + unat x mod 64)"
proof -
  have t: "(ucast (TOP_BITS 2) :: u32) = push_bit 5 6" "(ucast (TOP_BITS 3) :: u32) = push_bit 4 14"
    "(ucast (TOP_BITS 4) :: u32) = push_bit 3 30" "(ucast (TOP_BITS 1) :: u32) = push_bit 6 2"
    by (simp_all add: TOP_BITS_def BOTTOM_BITS_def)
  have m: "(ucast (BOTTOM_BITS 6) :: u32) = mask 6"
    by (simp add: BOTTOM_BITS_def mask_eq_exp_minus_1)
  have r: "(ucast w :: byte) = word_of_nat n" if "unat w = n" "n < 256" for w :: u32 and n
    using that by (simp add: word_unat_eq_iff unat_ucast_down unat_of_nat)
  show "unat x < 32 \<Longrightarrow> first_byte 2 x = word_of_nat (0xc0 + unat x)"
    using or_shift_unat [of x 5 6] unfolding first_byte_def t by (intro r) simp_all
  show "unat x < 16 \<Longrightarrow> first_byte 3 x = word_of_nat (0xe0 + unat x)"
    using or_shift_unat [of x 4 14] unfolding first_byte_def t by (intro r) simp_all
  show "unat x < 8 \<Longrightarrow> first_byte 4 x = word_of_nat (0xf0 + unat x)"
    using or_shift_unat [of x 3 30] unfolding first_byte_def t by (intro r) simp_all
  have "unat (x AND mask 6) < 64" by (simp add: unat_and_mask)
  then have "unat (push_bit 6 2 OR (x AND mask 6)) = 0x80 + unat x mod 64"
    using or_shift_unat [of "x AND mask 6" 6 2] by (simp add: unat_and_mask)
  moreover have "0x80 + unat x mod 64 < 256" using mod_less_divisor [of 64 "unat x"] by linarith
  ultimately show "next_byte x = word_of_nat (0x80 + unat x mod 64)"
    unfolding next_byte_def t m by (rule r)
qed

text \<open>Each writer adds the encoding of a valid code point and refuses anything else before touching the builder.\<close>

lemma code_point_le: "code_point n \<Longrightarrow> n \<le> 0x10ffff"
  by (simp add: code_point_def)

lemma add_utf8_eq:
  "cbb_add_utf8 h d u st = (if code_point (unat u) then add_u8s h d (utf8 (unat u)) st else (False, st))"
proof (cases "code_point (unat u)")
  case True
  define n where "n = unat u"
  have le: "n \<le> 0x10ffff" using code_point_le [OF True] by (simp add: n_def)
  have d: "unat (drop_bit 6 u) = n div 64" "unat (drop_bit 12 u) = n div 4096" "unat (drop_bit 18 u) = n div 262144"
    by (simp_all add: unat_drop_bit n_def)
  have b: "n \<le> 0x7ff \<Longrightarrow> n div 64 < 32" "n \<le> 0xffff \<Longrightarrow> n div 4096 < 16" "n div 262144 < 8"
    using le by (simp_all add: less_mult_imp_div_less)
  have one: "(ucast u :: byte) = word_of_nat n" by (simp add: n_def word_unat_eq_iff unat_ucast_down unat_of_nat)
  note f = first_byte_eq [unfolded d]
  consider "n \<le> 0x7f" | "0x7f < n" "n \<le> 0x7ff" | "0x7ff < n" "n \<le> 0xffff" | "0xffff < n" by linarith
  then have "cbb_add_utf8 h d u st = add_u8s h d (utf8 n) st"
  proof cases
    case 1
    then show ?thesis using True
      by (simp add: cbb_add_utf8_def is_valid_code_point_iff word_le_nat_alt utf8_def one flip: n_def)
  next
    case 2
    then show ?thesis using True b(1)
      by (simp add: cbb_add_utf8_def is_valid_code_point_iff word_le_nat_alt utf8_def first_byte_eq d flip: n_def)
  next
    case 3
    then show ?thesis using True b(2)
      by (simp add: cbb_add_utf8_def is_valid_code_point_iff word_le_nat_alt utf8_def first_byte_eq d flip: n_def)
  next
    case 4
    then show ?thesis using True b(3) le
      by (simp add: cbb_add_utf8_def is_valid_code_point_iff word_le_nat_alt utf8_def first_byte_eq d flip: n_def)
  qed
  then show ?thesis using True by (simp add: n_def)
qed (simp add: cbb_add_utf8_def is_valid_code_point_iff)

lemma utf8_not_Nil [simp]: "utf8 v \<noteq> []"
  by (simp add: utf8_def)

lemma add_utf8_adds:
  "cbb_add_utf8 h d u st = (True, st') \<Longrightarrow> cbb_ok st \<Longrightarrow> code_point (unat u) \<and> adds d (utf8 (unat u)) st st'"
  by (auto simp: add_utf8_eq intro: add_u8s_adds split: if_splits)

lemma add_latin1_adds:
  "cbb_add_latin1 h d u st = (True, st') \<Longrightarrow> cbb_ok st \<Longrightarrow> unat u < 256 \<and> adds d [ucast u] st st'"
  using add_u8_adds [of h d "ucast u" st st']
  by (auto simp: cbb_add_latin1_def word_le_nat_alt split: if_splits)

lemma add_ucs2_adds:
  assumes "cbb_add_ucs2_be h d u st = (True, st')" "cbb_ok st"
  shows "(code_point (unat u) \<and> unat u < 0x10000) \<and> adds d (be_bytes 2 (unat u)) st st'"
proof -
  have u: "unat u < 0x10000" "code_point (unat u)" and a: "CBB_add_u16 h d (ucast u) st = (True, st')"
    using assms(1) by (auto simp: cbb_add_ucs2_be_def is_valid_code_point_iff word_le_nat_alt split: if_splits)
  have "unat (ucast (ucast u :: u16) :: u64) = unat u" using u(1) by (simp add: unat_ucast_up unat_ucast_down)
  then show ?thesis using add_u_adds [OF a [unfolded CBB_add_u16_def] assms(2)] u by simp
qed

lemma add_utf32_adds:
  assumes "cbb_add_utf32_be h d u st = (True, st')" "cbb_ok st"
  shows "code_point (unat u) \<and> adds d (be_bytes 4 (unat u)) st st'"
proof -
  have u: "code_point (unat u)" and a: "CBB_add_u32 h d u st = (True, st')"
    using assms(1) by (auto simp: cbb_add_utf32_be_def is_valid_code_point_iff split: if_splits)
  show ?thesis using add_u_adds [OF a [unfolded CBB_add_u32_def] assms(2)] u by (simp add: unat_ucast_up)
qed

lemma utf8_len: "cbb_get_utf8_len u = length (utf8 (unat u))"
  by (simp add: cbb_get_utf8_len_def utf8_def word_le_nat_alt)

subsection \<open>Properties\<close>

text \<open>C18. \<open>cbs_get_utf8\<close> reads exactly UTF-8 (table 3-6 of the Unicode standard): it returns \<open>v\<close> and
  leaves \<open>r\<close> if and only if \<open>v\<close> is a code point that is neither a surrogate nor reserved and
  the input is its encoding followed by \<open>r\<close>. Overlong forms, stray continuation bytes, truncated
  sequences and values beyond U+10FFFF are all refused.\<close>

theorem cbs_get_utf8_exact:
  "cbs_get_utf8 s = (Some v, r) \<longleftrightarrow> code_point (unat v) \<and> s = utf8 (unat v) @ r"
  by (rule cbs_get_utf8_iff)

end
