(* ===== verification/Asn1String.thy ===== *)
theory Asn1String
  imports Unicode
begin

section \<open>ASN.1 strings (crypto/asn1/asn1_lib.c, a_mbstr.c, a_print.c)\<close>

text \<open>
  \<open>ASN1_STRING\<close> with its constructor, setters, copy and comparison, and the conversion
  \<open>ASN1_mbstring_ncopy\<close>: it reads a text in one encoding, works out the smallest type of a mask that
  can hold every character, and writes the text in the encoding of that type. The encodings are
  those of \<open>Unicode\<close>, the writing goes through a \<open>CBB\<close>.
\<close>

subsection \<open>The string object\<close>

text \<open>\<open>str_data\<close> is the whole allocation behind the pointer \<open>data\<close>, None for NULL.\<close>

record asn1_string =
  str_length :: int
  str_type :: int
  str_data :: "bytes option"
  str_flags :: int

definition V_ASN1_OCTET_STRING :: int where "V_ASN1_OCTET_STRING = 4"
definition V_ASN1_UTF8STRING :: int where "V_ASN1_UTF8STRING = 12"
definition V_ASN1_PRINTABLESTRING :: int where "V_ASN1_PRINTABLESTRING = 19"
definition V_ASN1_T61STRING :: int where "V_ASN1_T61STRING = 20"
definition V_ASN1_IA5STRING :: int where "V_ASN1_IA5STRING = 22"
definition V_ASN1_UNIVERSALSTRING :: int where "V_ASN1_UNIVERSALSTRING = 28"
definition V_ASN1_BMPSTRING :: int where "V_ASN1_BMPSTRING = 30"

definition strlen :: "bytes \<Rightarrow> nat" where
  "strlen s = length (takeWhile (\<lambda>c. c \<noteq> 0) s)"

definition ASN1_STRING_type_new :: "heap_env \<Rightarrow> nat \<Rightarrow> int \<Rightarrow> asn1_string option" where
  "ASN1_STRING_type_new h k type =
     (if \<not> alloc_ok h k 24 then None
      else Some \<lparr>str_length = 0, str_type = type, str_data = None, str_flags = 0\<rparr>)"

definition ASN1_STRING_new :: "heap_env \<Rightarrow> nat \<Rightarrow> asn1_string option" where
  "ASN1_STRING_new h k = ASN1_STRING_type_new h k V_ASN1_OCTET_STRING"

text \<open>The block \<open>ASN1_STRING_set\<close> writes to, grown by request \<open>k\<close> when it must; None when that fails.\<close>

definition string_room :: "heap_env \<Rightarrow> nat \<Rightarrow> asn1_string \<Rightarrow> int \<Rightarrow> bytes option" where
  "string_room h k str len =
     (let n = nat len + 1 in
      if str_length str \<le> len \<or> str_data str = None then
        (if \<not> alloc_ok h k n then None
         else case str_data str of
           None \<Rightarrow> Some (map (fresh h) [0..<n])
         | Some c \<Rightarrow> Some (take n c @ map (fresh h) [length c..<n]))
      else str_data str)"

text \<open>\<open>data\<close> is the memory the argument points to, None for NULL.\<close>

definition ASN1_STRING_set ::
    "heap_env \<Rightarrow> nat \<Rightarrow> asn1_string \<Rightarrow> bytes option \<Rightarrow> int \<Rightarrow> bool \<times> asn1_string" where
  "ASN1_STRING_set h k str data len =
     (if len < 0 \<and> data = None then (False, str)
      else
        let len = (if len < 0 then int (strlen (the data)) else len) in
        case string_room h k str len of
          None \<Rightarrow> (False, str)
        | Some blk \<Rightarrow>
            (True, str\<lparr>str_length := len,
                       str_data := Some (case data of
                           None \<Rightarrow> blk
                         | Some d \<Rightarrow> write_at blk 0 (take (nat len) d @ [0]))\<rparr>))"

definition ASN1_STRING_set0 :: "asn1_string \<Rightarrow> bytes option \<Rightarrow> int \<Rightarrow> asn1_string" where
  "ASN1_STRING_set0 str data len = str\<lparr>str_data := data, str_length := len\<rparr>"

definition ASN1_STRING_copy ::
    "heap_env \<Rightarrow> nat \<Rightarrow> asn1_string \<Rightarrow> asn1_string option \<Rightarrow> bool \<times> asn1_string" where
  "ASN1_STRING_copy h k dst str =
     (case str of
        None \<Rightarrow> (False, dst)
      | Some str \<Rightarrow>
          (case ASN1_STRING_set h k (dst\<lparr>str_type := str_type str\<rparr>) (str_data str) (str_length str) of
             (False, dst) \<Rightarrow> (False, dst)
           | (True, dst) \<Rightarrow> (True, dst\<lparr>str_flags := str_flags str\<rparr>)))"

definition ASN1_STRING_dup :: "heap_env \<Rightarrow> asn1_string option \<Rightarrow> asn1_string option" where
  "ASN1_STRING_dup h str =
     (case str of
        None \<Rightarrow> None
      | Some s \<Rightarrow>
          (case ASN1_STRING_new h 0 of
             None \<Rightarrow> None
           | Some ret \<Rightarrow> (case ASN1_STRING_copy h 1 ret (Some s) of (ok, ret) \<Rightarrow> if ok then Some ret else None)))"

text \<open>\<open>memcmp\<close> returns a number of the sign of the first difference of the bytes read as unsigned.\<close>

fun memcmp_sign :: "bytes \<Rightarrow> bytes \<Rightarrow> int" where
  "memcmp_sign (a # as) (b # bs) = (if a < b then - 1 else if b < a then 1 else memcmp_sign as bs)"
| "memcmp_sign _ _ = 0"

definition str_bytes :: "asn1_string \<Rightarrow> bytes" where
  "str_bytes s = (case str_data s of None \<Rightarrow> [] | Some d \<Rightarrow> take (nat (str_length s)) d)"

definition ASN1_STRING_cmp :: "asn1_string \<Rightarrow> asn1_string \<Rightarrow> int" where
  "ASN1_STRING_cmp a b =
     (let i = str_length a - str_length b in
      if i = 0 then
        (let i = memcmp_sign (str_bytes a) (str_bytes b) in
         if i = 0 then str_type a - str_type b else i)
      else i)"

subsection \<open>Choosing the type\<close>

definition B_ASN1_PRINTABLESTRING :: u64 where "B_ASN1_PRINTABLESTRING = 0x0002"
definition B_ASN1_T61STRING :: u64 where "B_ASN1_T61STRING = 0x0004"
definition B_ASN1_IA5STRING :: u64 where "B_ASN1_IA5STRING = 0x0010"
definition B_ASN1_UNIVERSALSTRING :: u64 where "B_ASN1_UNIVERSALSTRING = 0x0100"
definition B_ASN1_BMPSTRING :: u64 where "B_ASN1_BMPSTRING = 0x0800"
definition B_ASN1_UTF8STRING :: u64 where "B_ASN1_UTF8STRING = 0x2000"

definition DIRSTRING_TYPE :: u64 where
  "DIRSTRING_TYPE =
     (B_ASN1_PRINTABLESTRING OR B_ASN1_T61STRING OR B_ASN1_BMPSTRING OR B_ASN1_UTF8STRING)"

definition MBSTRING_FLAG :: int where "MBSTRING_FLAG = 0x1000"
definition MBSTRING_UTF8 :: int where "MBSTRING_UTF8 = MBSTRING_FLAG"
definition MBSTRING_ASC :: int where "MBSTRING_ASC = MBSTRING_FLAG + 1"
definition MBSTRING_BMP :: int where "MBSTRING_BMP = MBSTRING_FLAG + 2"
definition MBSTRING_UNIV :: int where "MBSTRING_UNIV = MBSTRING_FLAG + 4"

definition INT_MAX :: int where "INT_MAX = 0x7fffffff"

datatype mbstring_error =
    Unknown_format | Invalid_bmpstring | Invalid_universalstring | Invalid_utf8string | Internal_error
  | Illegal_characters | String_too_short | String_too_long | Malloc_failure

text \<open>\<open>strchr\<close> also finds the NUL that ends the string it searches.\<close>

definition strchr_found :: "bytes \<Rightarrow> int \<Rightarrow> bool" where
  "strchr_found s ch \<longleftrightarrow> word_of_int ch \<in> set s \<or> (word_of_int ch :: byte) = 0"

definition is_printable :: "u32 \<Rightarrow> bool" where
  "is_printable value =
     (if value > 0x7f then False
      else
        let ch = int (unat value) in
        if ch \<ge> 97 \<and> ch \<le> 122 then True
        else if ch \<ge> 65 \<and> ch \<le> 90 then True
        else if ch \<ge> 48 \<and> ch \<le> 57 then True
        else if ch = 32 \<or> strchr_found [39, 40, 41, 43, 44, 45, 46, 47, 58, 61, 63] ch then True
        else False)"

definition decode_func :: "int \<Rightarrow> ((cbs, u32) crun \<times> mbstring_error) option" where
  "decode_func inform =
     (if inform = MBSTRING_BMP then Some (cbs_get_ucs2_be, Invalid_bmpstring)
      else if inform = MBSTRING_UNIV then Some (cbs_get_utf32_be, Invalid_universalstring)
      else if inform = MBSTRING_UTF8 then Some (cbs_get_utf8, Invalid_utf8string)
      else if inform = MBSTRING_ASC then Some (cbs_get_latin1, Internal_error)
      else None)"

definition clear_if :: "bool \<Rightarrow> u64 \<Rightarrow> u64 \<Rightarrow> u64" where
  "clear_if reject flag types = (if types AND flag \<noteq> 0 \<and> reject then types AND NOT flag else types)"

definition narrow :: "u64 \<Rightarrow> u32 \<Rightarrow> u64" where
  "narrow types c =
     (let types = clear_if (\<not> is_printable c) B_ASN1_PRINTABLESTRING types;
          types = clear_if (c > 127) B_ASN1_IA5STRING types;
          types = clear_if (c > 0xff) B_ASN1_T61STRING types
      in clear_if (c > 0xffff) B_ASN1_BMPSTRING types)"

text \<open>The first pass: the types still possible, the number of characters and their size in UTF-8.\<close>

function check_loop ::
    "int \<Rightarrow> u64 \<Rightarrow> nat \<Rightarrow> nat \<Rightarrow> cbs \<Rightarrow> mbstring_error + (u64 \<times> nat \<times> nat)" where
  "check_loop inform types nchar utf8_len cbs =
     (if cbs = [] then Inr (types, nchar, utf8_len)
      else
        case decode_func inform of
          None \<Rightarrow> Inl Unknown_format
        | Some (decode, err) \<Rightarrow>
            (case decode cbs of
               (None, _) \<Rightarrow> Inl err
             | (Some c, cbs) \<Rightarrow>
                 if nchar = 0 \<and> (inform = MBSTRING_BMP \<or> inform = MBSTRING_UNIV) \<and> c = 0xfeff
                 then Inl Illegal_characters
                 else
                   let types = narrow types c in
                   if types = 0 then Inl Illegal_characters
                   else check_loop inform types (nchar + 1) (utf8_len + cbb_get_utf8_len c) cbs))"
  by pat_completeness auto

lemma decode_shorter:
  "decode_func inform = Some (dec, e) \<Longrightarrow> dec s = (Some c, r) \<Longrightarrow> length r < length s"
  by (auto simp: decode_func_def cbs_get_utf8_iff ucs2_codec.dec_iff utf32_codec.dec_iff latin1_codec.dec_iff
      length_greater_0_conv split: if_splits)

termination check_loop
  by (relation "measure (\<lambda>(i, m, n, u, s). length s)") (auto dest: decode_shorter [OF _ sym])

declare check_loop.simps [simp del]

definition output_form :: "u64 \<Rightarrow> nat \<Rightarrow> nat \<Rightarrow> int \<times> int \<times> nat" where
  "output_form types nchar utf8_len =
     (if types AND B_ASN1_PRINTABLESTRING \<noteq> 0 then (V_ASN1_PRINTABLESTRING, MBSTRING_ASC, nchar)
      else if types AND B_ASN1_IA5STRING \<noteq> 0 then (V_ASN1_IA5STRING, MBSTRING_ASC, nchar)
      else if types AND B_ASN1_T61STRING \<noteq> 0 then (V_ASN1_T61STRING, MBSTRING_ASC, nchar)
      else if types AND B_ASN1_BMPSTRING \<noteq> 0 then (V_ASN1_BMPSTRING, MBSTRING_BMP, 2 * nchar)
      else if types AND B_ASN1_UNIVERSALSTRING \<noteq> 0 then (V_ASN1_UNIVERSALSTRING, MBSTRING_UNIV, 4 * nchar)
      else (V_ASN1_UTF8STRING, MBSTRING_UTF8, utf8_len))"

definition encode_func :: "int \<Rightarrow> heap_env \<Rightarrow> nat \<Rightarrow> u32 \<Rightarrow> cbb \<Rightarrow> bool \<times> cbb" where
  "encode_func outform =
     (if outform = MBSTRING_BMP then cbb_add_ucs2_be
      else if outform = MBSTRING_UNIV then cbb_add_utf32_be
      else if outform = MBSTRING_UTF8 then cbb_add_utf8
      else cbb_add_latin1)"

subsection \<open>Writing the text\<close>

function transcode_loop :: "heap_env \<Rightarrow> int \<Rightarrow> int \<Rightarrow> cbs \<Rightarrow> cbb \<Rightarrow> bool \<times> cbb" where
  "transcode_loop h inform outform cbs st =
     (if cbs = [] then (True, st)
      else
        case decode_func inform of
          None \<Rightarrow> (False, st)
        | Some (decode, err) \<Rightarrow>
            (case decode cbs of
               (None, _) \<Rightarrow> (False, st)
             | (Some c, cbs) \<Rightarrow>
                 (case encode_func outform h 0 c st of
                    (False, st) \<Rightarrow> (False, st)
                  | (True, st) \<Rightarrow> transcode_loop h inform outform cbs st)))"
  by pat_completeness auto

termination transcode_loop
  by (relation "measure (\<lambda>(h, i, out, s, st). length s)") (auto dest: decode_shorter [OF _ sym])

declare transcode_loop.simps [simp del]

text \<open>The allocations of the builder come after the \<open>k\<close> made before it.\<close>

definition after_allocs :: "nat \<Rightarrow> heap_env \<Rightarrow> heap_env" where
  "after_allocs k h = h\<lparr>alloc_ok := \<lambda>j. alloc_ok h (k + j)\<rparr>"

definition transcode :: "heap_env \<Rightarrow> int \<Rightarrow> int \<Rightarrow> nat \<Rightarrow> bytes \<Rightarrow> mbstring_error + bytes" where
  "transcode h inform outform size_estimate inp =
     (case CBB_init h (size_estimate + 1) of
        (False, _) \<Rightarrow> Inl Malloc_failure
      | (True, st) \<Rightarrow>
          (case transcode_loop h inform outform inp st of
             (False, _) \<Rightarrow> Inl Internal_error
           | (True, st) \<Rightarrow>
               (case CBB_add_u8 h 0 0 st of
                  (False, _) \<Rightarrow> Inl Internal_error
                | (True, st) \<Rightarrow>
                    (case CBB_finish h 0 True st of
                       (None, _) \<Rightarrow> Inl Internal_error
                     | (Some data, _) \<Rightarrow>
                         if length data < 1 \<or> int (length data) > INT_MAX then Inl Internal_error
                         else Inr data))))"

text \<open>
  The caller's \<open>out\<close>: NULL, or a pointer that is NULL or points to a string. Afterwards the
  pointer may also be left to memory that was freed.
\<close>

datatype asn1_ptr = Null | Freed | Obj asn1_string

fun ptr_of :: "asn1_string option \<Rightarrow> asn1_ptr" where
  "ptr_of None = Null"
| "ptr_of (Some s) = Obj s"

text \<open>The string to fill: the caller's, emptied, or a new one; whether it is new, and its allocations.\<close>

definition mbstring_dest :: "heap_env \<Rightarrow> asn1_string option \<Rightarrow> int \<Rightarrow> (bool \<times> nat \<times> asn1_string) option" where
  "mbstring_dest h dest type =
     (case dest of
        Some d \<Rightarrow>
          Some (False, 0, (if str_data d \<noteq> None then d\<lparr>str_length := 0, str_data := None\<rparr> else d)\<lparr>str_type := type\<rparr>)
      | None \<Rightarrow> map_option (\<lambda>d. (True, 1, d)) (ASN1_STRING_type_new h 0 type))"

text \<open>\<open>inp\<close> are the bytes of the input and \<open>len\<close> the length as the \<open>int\<close> it was passed in.\<close>

definition mbstring_store ::
    "heap_env \<Rightarrow> asn1_string option \<Rightarrow> bytes \<Rightarrow> int \<Rightarrow> int \<Rightarrow> int \<times> int \<times> nat \<Rightarrow>
     (mbstring_error + int) \<times> asn1_ptr" where
  "mbstring_store h dest inp len inform form =
     (case form of (type, outform, size_estimate) \<Rightarrow>
        case mbstring_dest h dest type of
          None \<Rightarrow> (Inl Malloc_failure, Null)
        | Some (free_out, k, dest) \<Rightarrow>
            if inform = outform then
              (case ASN1_STRING_set h k dest (Some inp) len of
                 (False, dest) \<Rightarrow> (Inl Malloc_failure, Obj dest)
               | (True, dest) \<Rightarrow> (Inr type, Obj dest))
            else
              (case transcode (after_allocs k h) inform outform size_estimate inp of
                 Inl e \<Rightarrow> (Inl e, if free_out then Freed else Obj dest)
               | Inr data \<Rightarrow>
                   (Inr type, Obj (dest\<lparr>str_length := int (length data) - 1, str_data := Some data\<rparr>))))"

text \<open>
  \<open>len\<close> is an \<open>int\<close>. \<open>strlen\<close> is stored into it, and it is converted, with its sign, to the \<open>size_t\<close> of
  a \<open>CBS\<close>: a negative length other than \<open>- 1\<close> becomes a number just below \<open>2 ^ 64\<close>.
\<close>

definition int_len :: "bytes \<Rightarrow> u32 \<Rightarrow> u32" where
  "int_len inp len = (if len = - 1 then word_of_nat (strlen inp) else len)"

definition size_of_int :: "u32 \<Rightarrow> nat" where
  "size_of_int len = unat (scast len :: u64)"

text \<open>
  \<open>inp\<close> is all the memory from \<open>in\<close> on. The outer None is an input that does not fit in it: a
  \<open>strlen\<close> that meets no NUL, or a \<open>CBS\<close> that reaches past its end.
\<close>

definition ASN1_mbstring_ncopy ::
    "heap_env \<Rightarrow> asn1_string option option \<Rightarrow> bytes \<Rightarrow> u32 \<Rightarrow> int \<Rightarrow> u64 \<Rightarrow> int \<Rightarrow> int \<Rightarrow>
     ((mbstring_error + int) \<times> asn1_ptr option) option" where
  "ASN1_mbstring_ncopy h out inp len inform types minsize maxsize =
     (if len = - 1 \<and> 0 \<notin> set inp then None
      else
        let len = int_len inp len;
            types = (if types = 0 then DIRSTRING_TYPE else types);
            unchanged = map_option ptr_of out in
        if decode_func inform = None then Some (Inl Unknown_format, unchanged)
        else if size_of_int len > length inp then None
        else
          let cbs = take (size_of_int len) inp in
          case check_loop inform types 0 0 cbs of
            Inl e \<Rightarrow> Some (Inl e, unchanged)
          | Inr (types, nchar, utf8_len) \<Rightarrow>
              if minsize > 0 \<and> int nchar < minsize then Some (Inl String_too_short, unchanged)
              else if maxsize > 0 \<and> int nchar > maxsize then Some (Inl String_too_long, unchanged)
              else
                let form = output_form types nchar utf8_len in
                case out of
                  None \<Rightarrow> Some (Inr (fst form), None)
                | Some dest \<Rightarrow> Some (apsnd Some (mbstring_store h dest cbs (sint len) inform form)))"

definition ASN1_mbstring_copy ::
    "heap_env \<Rightarrow> asn1_string option option \<Rightarrow> bytes \<Rightarrow> u32 \<Rightarrow> int \<Rightarrow> u64 \<Rightarrow>
     ((mbstring_error + int) \<times> asn1_ptr option) option" where
  "ASN1_mbstring_copy h out inp len inform types = ASN1_mbstring_ncopy h out inp len inform types 0 0"

text \<open>
  The older classifier of \<open>a_print.c\<close>: it stops at a NUL or after \<open>len\<close> bytes. The memory behind
  the pointer is \<open>s\<close>; None is a read past its end.
\<close>

definition printable_byte :: "byte \<Rightarrow> bool" where
  "printable_byte c =
     (let c = uint c in
      c \<ge> 97 \<and> c \<le> 122 \<or> c \<ge> 65 \<and> c \<le> 90 \<or> c = 32 \<or> c \<ge> 48 \<and> c \<le> 57 \<or> c = 32 \<or> c = 39 \<or>
      c = 40 \<or> c = 41 \<or> c = 43 \<or> c = 44 \<or> c = 45 \<or> c = 46 \<or> c = 47 \<or> c = 58 \<or> c = 61 \<or> c = 63)"

fun printable_type_loop :: "bytes \<Rightarrow> int \<Rightarrow> bool \<Rightarrow> bool \<Rightarrow> (bool \<times> bool) option" where
  "printable_type_loop [] len ia5 t61 = None"
| "printable_type_loop (c # s) len ia5 t61 =
     (if c = 0 \<or> len = 0 then Some (ia5, t61)
      else printable_type_loop s (len - 1) (ia5 \<or> \<not> printable_byte c) (t61 \<or> c AND 0x80 \<noteq> 0))"

definition ASN1_PRINTABLE_type :: "bytes option \<Rightarrow> int \<Rightarrow> int option" where
  "ASN1_PRINTABLE_type s len =
     (let len = (if len \<le> 0 then - 1 else len) in
      case s of
        None \<Rightarrow> Some V_ASN1_PRINTABLESTRING
      | Some s \<Rightarrow>
          map_option
            (\<lambda>(ia5, t61).
               if t61 then V_ASN1_T61STRING
               else if ia5 then V_ASN1_IA5STRING
               else V_ASN1_PRINTABLESTRING)
            (printable_type_loop s len False False))"

subsection \<open>Texts\<close>

text \<open>A text in one of the four forms: the code points the form can hold, each in its encoding.\<close>

definition form_enc :: "int \<Rightarrow> u32 \<Rightarrow> bytes" where
  "form_enc form c =
     (if form = MBSTRING_BMP then be_bytes 2 (unat c)
      else if form = MBSTRING_UNIV then be_bytes 4 (unat c)
      else if form = MBSTRING_UTF8 then utf8 (unat c)
      else [ucast c])"

definition form_ok :: "int \<Rightarrow> u32 \<Rightarrow> bool" where
  "form_ok form c \<longleftrightarrow>
     (if form = MBSTRING_BMP then code_point (unat c) \<and> unat c < 0x10000
      else if form = MBSTRING_UNIV \<or> form = MBSTRING_UTF8 then code_point (unat c)
      else unat c < 256)"

definition is_text :: "int \<Rightarrow> bytes \<Rightarrow> u32 list \<Rightarrow> bool" where
  "is_text form s cs \<longleftrightarrow> list_all (form_ok form) cs \<and> s = concat (map (form_enc form) cs)"

lemmas mbstring_consts = MBSTRING_BMP_def MBSTRING_UNIV_def MBSTRING_UTF8_def MBSTRING_ASC_def MBSTRING_FLAG_def

lemma form_codec:
  "decode_func form = Some (dec, e) \<Longrightarrow> nonempty_codec (form_enc form) dec (form_ok form)"
  using ucs2_codec.nonempty_codec_axioms utf32_codec.nonempty_codec_axioms utf8_codec.nonempty_codec_axioms
    latin1_codec.nonempty_codec_axioms
  by (auto simp: decode_func_def form_enc_def [abs_def] form_ok_def [abs_def] mbstring_consts split: if_splits)

lemma decode_iff:
  "decode_func form = Some (dec, e) \<Longrightarrow> dec s = (Some c, r) \<longleftrightarrow> form_ok form c \<and> s = form_enc form c @ r"
  using form_codec [of form dec e] by (simp add: nonempty_codec_def codec_def)

lemma form_enc_not_Nil [simp]: "form_enc form c \<noteq> []"
  using length_be_bytes [of 2 "unat c"] length_be_bytes [of 4 "unat c"]
  by (auto simp: form_enc_def simp del: length_be_bytes)

lemma is_text_Nil [simp]: "is_text form s [] \<longleftrightarrow> s = []"
  by (simp add: is_text_def)

lemma is_text_Cons [simp]:
  "is_text form s (c # cs) \<longleftrightarrow> (\<exists>r. form_ok form c \<and> s = form_enc form c @ r \<and> is_text form r cs)"
  by (auto simp: is_text_def)

lemma is_text_empty [simp]: "is_text form [] cs \<longleftrightarrow> cs = []"
  by (cases cs) simp_all

subsection \<open>The types that remain\<close>

text \<open>The characters of PrintableString (X.680, table 10).\<close>

definition printable_char :: "nat \<Rightarrow> bool" where
  "printable_char n \<longleftrightarrow> 65 \<le> n \<and> n \<le> 90 \<or> 97 \<le> n \<and> n \<le> 122 \<or> 48 \<le> n \<and> n \<le> 57 \<or>
     n \<in> {32, 39, 40, 41, 43, 44, 45, 46, 47, 58, 61, 63}"

text \<open>What the code admits for the type of bit \<open>b\<close> of a mask; U+0000 counts as printable.\<close>

definition admits :: "nat \<Rightarrow> u32 \<Rightarrow> bool" where
  "admits b c \<longleftrightarrow>
     (if b = 1 then printable_char (unat c) \<or> c = 0
      else if b = 4 then unat c < 0x80
      else if b = 2 then unat c < 0x100
      else if b = 11 then unat c < 0x10000
      else True)"

lemma is_printable_iff: "is_printable c \<longleftrightarrow> printable_char (unat c) \<or> c = 0"
proof (cases "c > 0x7f")
  case True
  then have "127 < unat c" by (simp add: word_less_nat_alt)
  then show ?thesis using True by (auto simp: is_printable_def printable_char_def)
next
  case False
  then have le: "unat c \<le> 127" by (simp add: word_less_nat_alt)
  then have eq: "word_of_nat (unat c) = (w :: byte) \<longleftrightarrow> unat c = unat w" for w
    by (auto simp: word_unat_eq_iff unat_of_nat unat_ucast_down)
  have "(word_of_int (int (unat c)) :: byte) = word_of_nat (unat c)" by simp
  then have "strchr_found [39, 40, 41, 43, 44, 45, 46, 47, 58, 61, 63] (int (unat c)) \<longleftrightarrow>
      unat c \<in> {39, 40, 41, 43, 44, 45, 46, 47, 58, 61, 63} \<or> unat c = 0"
    unfolding strchr_found_def by (simp only: list.set insert_iff eq) simp
  moreover have "c = 0 \<longleftrightarrow> unat c = 0" by (simp add: word_unat_eq_iff)
  moreover define n where "n = unat c"
  note n = n_def [symmetric]
  ultimately have strchr: "strchr_found [39, 40, 41, 43, 44, 45, 46, 47, 58, 61, 63] (int n) \<longleftrightarrow>
      n \<in> {39, 40, 41, 43, 44, 45, 46, 47, 58, 61, 63} \<or> n = 0" and zero: "c = 0 \<longleftrightarrow> n = 0"
    unfolding n by blast+
  have "is_printable c \<longleftrightarrow> 97 \<le> n \<and> n \<le> 122 \<or> 65 \<le> n \<and> n \<le> 90 \<or> 48 \<le> n \<and> n \<le> 57 \<or> n = 32 \<or>
      n \<in> {39, 40, 41, 43, 44, 45, 46, 47, 58, 61, 63} \<or> n = 0"
    unfolding is_printable_def Let_def if_not_P [OF False] n_def [symmetric] strchr
    by auto
  then show ?thesis unfolding printable_char_def zero n_def [symmetric] by (simp add: disj_ac)
qed

lemma bit_clear_if:
  "k < 64 \<Longrightarrow> bit (clear_if reject (push_bit k 1) m) i \<longleftrightarrow> bit m i \<and> \<not> (i = k \<and> reject)"
proof -
  assume k: "k < 64"
  have "m AND push_bit k 1 \<noteq> 0 \<longleftrightarrow> bit m k"
    using k by (simp add: and_exp_eq_0_iff_not_bit push_bit_eq_mult)
  then show ?thesis by (auto simp: clear_if_def bit_simps dest: bit_imp_le_length)
qed

lemma flag_bits:
  "B_ASN1_PRINTABLESTRING = push_bit 1 1" "B_ASN1_T61STRING = push_bit 2 1" "B_ASN1_IA5STRING = push_bit 4 1"
  "B_ASN1_UNIVERSALSTRING = push_bit 8 1" "B_ASN1_BMPSTRING = push_bit 11 1" "B_ASN1_UTF8STRING = push_bit 13 1"
  by (simp_all add: B_ASN1_PRINTABLESTRING_def B_ASN1_T61STRING_def B_ASN1_IA5STRING_def
      B_ASN1_UNIVERSALSTRING_def B_ASN1_BMPSTRING_def B_ASN1_UTF8STRING_def)

lemma bit_narrow: "bit (narrow m c) i \<longleftrightarrow> bit m i \<and> admits i c"
  by (auto simp: narrow_def Let_def flag_bits bit_clear_if admits_def is_printable_iff word_less_nat_alt
      simp del: push_bit_of_1 One_nat_def)

lemma test_flag: "k < 64 \<Longrightarrow> m AND push_bit k 1 \<noteq> 0 \<longleftrightarrow> bit m k" for m :: u64
  by (simp add: and_exp_eq_0_iff_not_bit push_bit_eq_mult)

definition remaining :: "u64 \<Rightarrow> u32 list \<Rightarrow> u64" where
  "remaining m cs = foldl narrow m cs"

lemma bit_remaining: "bit (remaining m cs) i \<longleftrightarrow> bit m i \<and> (\<forall>c \<in> set cs. admits i c)"
  by (induction cs arbitrary: m) (auto simp: remaining_def bit_narrow)

lemma remaining_Cons: "remaining m (c # cs) = remaining (narrow m c) cs"
  by (simp add: remaining_def)

lemma remaining_zero: "remaining 0 cs = 0"
  by (rule bit_word_eqI) (simp add: bit_remaining)

lemma word_nonzero_iff: "w \<noteq> 0 \<longleftrightarrow> (\<exists>b < 64. bit w b)" for w :: u64
  using bit_word_eqI [of w 0] by auto

lemma remaining_nonzero_iff:
  "remaining m cs \<noteq> 0 \<longleftrightarrow> (\<exists>b < 64. bit m b \<and> (\<forall>c \<in> set cs. admits b c))"
  by (simp add: word_nonzero_iff bit_remaining)

text \<open>A text that starts with a byte order mark, in the two forms that are checked for it.\<close>

definition starts_with_bom :: "int \<Rightarrow> u32 list \<Rightarrow> bool" where
  "starts_with_bom form cs \<longleftrightarrow>
     (form = MBSTRING_BMP \<or> form = MBSTRING_UNIV) \<and> (\<exists>r. cs = 0xfeff # r)"

lemma check_loop_text:
  assumes "is_text form s cs" and "decode_func form = Some (dec, e)"
  shows "check_loop form m n u s =
    (if n = 0 \<and> starts_with_bom form cs \<or> cs \<noteq> [] \<and> remaining m cs = 0 then Inl Illegal_characters
     else Inr (remaining m cs, n + length cs, u + sum_list (map cbb_get_utf8_len cs)))"
  using assms(1)
proof (induction cs arbitrary: s m n u)
  case Nil
  then show ?case by (simp add: check_loop.simps remaining_def starts_with_bom_def)
next
  case (Cons c cs)
  then obtain r where c: "form_ok form c" and s: "s = form_enc form c @ r" and r: "is_text form r cs" by auto
  have d: "dec s = (Some c, r)" using c s by (simp add: decode_iff [OF assms(2)])
  have "s \<noteq> []" using s by simp
  then have step: "check_loop form m n u s =
      (if n = 0 \<and> (form = MBSTRING_BMP \<or> form = MBSTRING_UNIV) \<and> c = 0xfeff then Inl Illegal_characters
       else if narrow m c = 0 then Inl Illegal_characters
       else check_loop form (narrow m c) (n + 1) (u + cbb_get_utf8_len c) r)"
    using d assms(2) by (simp add: check_loop.simps [of form m n u s] Let_def)
  show ?case
  proof (cases "n = 0 \<and> (form = MBSTRING_BMP \<or> form = MBSTRING_UNIV) \<and> c = 0xfeff")
    case True
    then show ?thesis unfolding step by (simp add: starts_with_bom_def)
  next
    case nb: False
    then have b: "\<not> (n = 0 \<and> starts_with_bom form (c # cs))" by (auto simp: starts_with_bom_def)
    show ?thesis
    proof (cases "narrow m c = 0")
      case True
      then show ?thesis using nb unfolding step by (simp add: remaining_Cons remaining_zero)
    next
      case False
      then have "check_loop form m n u s = check_loop form (narrow m c) (n + 1) (u + cbb_get_utf8_len c) r"
        using False by (simp only: step if_not_P [OF nb] if_False)
      moreover have "cs = [] \<Longrightarrow> remaining (narrow m c) cs \<noteq> 0" using False by (simp add: remaining_def)
      ultimately show ?thesis using b Cons.IH [OF r, of "narrow m c" "n + 1"] by (auto simp: remaining_Cons)
    qed
  qed
qed

lemma check_loop_is_text:
  assumes "check_loop form m n u s = Inr x" and "decode_func form \<noteq> None"
  shows "\<exists>cs. is_text form s cs"
  using assms
proof (induction form m n u s rule: check_loop.induct)
  case (1 form m n u s)
  show ?case
  proof (cases "s = []")
    case True
    then show ?thesis by (intro exI [of _ "[]"]) simp
  next
    case False
    obtain dec e where d: "decode_func form = Some (dec, e)" using 1(3) by auto
    obtain c r where c: "dec s = (Some c, r)"
      using 1(2) False d by (auto simp: check_loop.simps [of form m n u s] split: prod.splits option.splits)
    have k: "\<not> (n = 0 \<and> (form = MBSTRING_BMP \<or> form = MBSTRING_UNIV) \<and> c = 0xfeff)" "narrow m c \<noteq> 0"
      and rest: "check_loop form (narrow m c) (n + 1) (u + cbb_get_utf8_len c) r = Inr x"
      using 1(2) False d c by (simp_all add: check_loop.simps [of form m n u s] Let_def split: if_splits)
    obtain cs where "is_text form r cs"
      using 1(1) [OF False d refl c [symmetric] refl k(1) refl k(2) rest 1(3)] by blast
    then have "is_text form s (c # cs)" using decode_iff [OF d, of s c r] c by auto
    then show ?thesis by blast
  qed
qed

lemma text_unique: "decode_func form = Some (dec, e) \<Longrightarrow> is_text form s cs \<Longrightarrow> is_text form s cs' \<Longrightarrow> cs = cs'"
  using nonempty_codec.sequence_unique [OF form_codec [of form dec e], of cs cs']
  by (simp add: is_text_def list_all_iff)

subsection \<open>The type chosen\<close>

text \<open>A type is allowed when the mask asks for it and it admits every character.\<close>

definition allowed :: "u64 \<Rightarrow> u32 list \<Rightarrow> nat \<Rightarrow> bool" where
  "allowed m cs b \<longleftrightarrow> bit m b \<and> (\<forall>c \<in> set cs. admits b c)"

definition chosen_type :: "u64 \<Rightarrow> u32 list \<Rightarrow> int" where
  "chosen_type m cs =
     (if allowed m cs 1 then V_ASN1_PRINTABLESTRING
      else if allowed m cs 4 then V_ASN1_IA5STRING
      else if allowed m cs 2 then V_ASN1_T61STRING
      else if allowed m cs 11 then V_ASN1_BMPSTRING
      else if allowed m cs 8 then V_ASN1_UNIVERSALSTRING
      else V_ASN1_UTF8STRING)"

definition form_of_type :: "int \<Rightarrow> int" where
  "form_of_type t =
     (if t = V_ASN1_BMPSTRING then MBSTRING_BMP
      else if t = V_ASN1_UNIVERSALSTRING then MBSTRING_UNIV
      else if t = V_ASN1_UTF8STRING then MBSTRING_UTF8
      else MBSTRING_ASC)"

lemmas type_consts = V_ASN1_UTF8STRING_def V_ASN1_PRINTABLESTRING_def V_ASN1_T61STRING_def V_ASN1_IA5STRING_def
  V_ASN1_UNIVERSALSTRING_def V_ASN1_BMPSTRING_def

lemma form_of_type_simps [simp]:
  "form_of_type V_ASN1_BMPSTRING = MBSTRING_BMP" "form_of_type V_ASN1_UNIVERSALSTRING = MBSTRING_UNIV"
  "form_of_type V_ASN1_UTF8STRING = MBSTRING_UTF8" "form_of_type V_ASN1_PRINTABLESTRING = MBSTRING_ASC"
  "form_of_type V_ASN1_IA5STRING = MBSTRING_ASC" "form_of_type V_ASN1_T61STRING = MBSTRING_ASC"
  by (simp_all add: form_of_type_def type_consts)

lemma mbstring_distinct [simp]:
  "MBSTRING_BMP \<noteq> MBSTRING_UNIV" "MBSTRING_BMP \<noteq> MBSTRING_UTF8" "MBSTRING_BMP \<noteq> MBSTRING_ASC"
  "MBSTRING_UNIV \<noteq> MBSTRING_BMP" "MBSTRING_UNIV \<noteq> MBSTRING_UTF8" "MBSTRING_UNIV \<noteq> MBSTRING_ASC"
  "MBSTRING_UTF8 \<noteq> MBSTRING_BMP" "MBSTRING_UTF8 \<noteq> MBSTRING_UNIV" "MBSTRING_UTF8 \<noteq> MBSTRING_ASC"
  "MBSTRING_ASC \<noteq> MBSTRING_BMP" "MBSTRING_ASC \<noteq> MBSTRING_UNIV" "MBSTRING_ASC \<noteq> MBSTRING_UTF8"
  by (simp_all add: mbstring_consts)

lemma length_encoded:
  "length (concat (map (form_enc MBSTRING_ASC) cs)) = length cs"
  "length (concat (map (form_enc MBSTRING_BMP) cs)) = 2 * length cs"
  "length (concat (map (form_enc MBSTRING_UNIV) cs)) = 4 * length cs"
  "length (concat (map (form_enc MBSTRING_UTF8) cs)) = sum_list (map cbb_get_utf8_len cs)"
  by (induction cs) (simp_all add: form_enc_def utf8_len)

lemma output_form_eq:
  "output_form (remaining m cs) (length cs) (sum_list (map cbb_get_utf8_len cs)) =
    (let t = chosen_type m cs; f = form_of_type t in (t, f, length (concat (map (form_enc f) cs))))"
proof -
  have b: "remaining m cs AND push_bit k 1 \<noteq> 0 \<longleftrightarrow> allowed m cs k" if "k < 64" for k
    using test_flag [OF that] by (simp add: bit_remaining allowed_def)
  have "remaining m cs AND B_ASN1_PRINTABLESTRING \<noteq> 0 \<longleftrightarrow> allowed m cs 1"
    "remaining m cs AND B_ASN1_IA5STRING \<noteq> 0 \<longleftrightarrow> allowed m cs 4"
    "remaining m cs AND B_ASN1_T61STRING \<noteq> 0 \<longleftrightarrow> allowed m cs 2"
    "remaining m cs AND B_ASN1_BMPSTRING \<noteq> 0 \<longleftrightarrow> allowed m cs 11"
    "remaining m cs AND B_ASN1_UNIVERSALSTRING \<noteq> 0 \<longleftrightarrow> allowed m cs 8"
    unfolding flag_bits by (rule b, simp)+
  then show ?thesis
    unfolding output_form_def chosen_type_def by (simp only: Let_def) (simp add: length_encoded)
qed



subsection \<open>The second pass\<close>

lemma encode_success:
  assumes "encode_func form h d c st = (True, st')" and "cbb_ok st"
  shows "adds d (form_enc form c) st st'"
  using assms add_utf8_adds [of h d c st st'] add_latin1_adds [of h d c st st'] add_ucs2_adds [of h d c st st']
    add_utf32_adds [of h d c st st']
  by (auto simp: encode_func_def form_enc_def split: if_splits)

lemma transcode_loop_success:
  assumes "transcode_loop h i f s st = (True, st')" and "is_text i s cs" and "decode_func i = Some (dec, e)"
    and "cbb_ok st" and "children st = []"
  shows "adds 0 (concat (map (form_enc f) cs)) st st'"
  using assms(1,2,4,5)
proof (induction cs arbitrary: s st)
  case Nil
  then show ?case by (simp add: transcode_loop.simps adds_refl)
next
  case (Cons c cs)
  then obtain r where c: "form_ok i c" and s: "s = form_enc i c @ r" and r: "is_text i r cs" by auto
  have d: "dec s = (Some c, r)" using c s by (simp add: decode_iff [OF assms(3)])
  have "s \<noteq> []" using s by simp
  then obtain st1 where e: "encode_func f h 0 c st = (True, st1)" and rest: "transcode_loop h i f r st1 = (True, st')"
    using Cons.prems(1) d assms(3) by (auto simp: transcode_loop.simps [of h i f s st] split: prod.splits bool.splits)
  have a: "adds 0 (form_enc f c) st st1" by (rule encode_success [OF e Cons.prems(3)])
  then have "adds 0 (concat (map (form_enc f) cs)) st1 st'"
    using Cons.IH [OF rest r] addsD [OF a] by simp
  then show ?case using adds_trans [OF a] by simp
qed

lemma transcode_success:
  assumes run: "transcode h i f n s = Inr data" and t: "is_text i s cs" and d: "decode_func i = Some (dec, e)"
    and n: "n + 1 < SIZE_LIMIT"
  shows "data = concat (map (form_enc f) cs) @ [0]"
proof -
  obtain st0 st1 st2 st3 where init: "CBB_init h (n + 1) = (True, st0)"
    and loop: "transcode_loop h i f s st0 = (True, st1)" and nul: "CBB_add_u8 h 0 0 st1 = (True, st2)"
    and fin: "CBB_finish h 0 True st2 = (Some data, st3)"
    using run by (auto simp: transcode_def split: prod.splits bool.splits option.splits if_splits)
  have ok: "cbb_ok st0" "abs_cbb st0 = ([], [])" "children st0 = []" using CBB_init_ok [OF init n] by simp_all
  have a: "adds 0 (concat (map (form_enc f) cs)) st0 st1" by (rule transcode_loop_success [OF loop t d ok(1,3)])
  have "adds 0 (concat (map (form_enc f) cs) @ [0]) st0 st2"
    using adds_trans [OF a add_u8_adds [OF nul]] addsD [OF a] by simp
  then have "abs_cbb st2 = (concat (map (form_enc f) cs) @ [0], [])" "cbb_ok st2"
    using ok(2) by (simp_all add: adds_def spec_add_def)
  then show ?thesis using CBB_finish_success [OF fin] by simp
qed









subsection \<open>The whole conversion\<close>

definition default_mask :: "u64 \<Rightarrow> u64" where
  "default_mask m = (if m = 0 then DIRSTRING_TYPE else m)"

text \<open>The text a call is given, and that it lies within the memory.\<close>

definition span :: "bytes \<Rightarrow> u32 \<Rightarrow> bytes" where
  "span inp len = take (size_of_int (int_len inp len)) inp"

definition readable :: "bytes \<Rightarrow> u32 \<Rightarrow> bool" where
  "readable inp len \<longleftrightarrow>
     (len = - 1 \<longrightarrow> 0 \<in> set inp) \<and> size_of_int (int_len inp len) \<le> length inp"

text \<open>What the code decides before the output.\<close>

definition code_verdict ::
    "int \<Rightarrow> u64 \<Rightarrow> int \<Rightarrow> int \<Rightarrow> u32 list \<Rightarrow> mbstring_error + int" where
  "code_verdict inform m minsize maxsize cs =
     (if starts_with_bom inform cs \<or> (\<forall>b < 64. \<not> allowed m cs b) then Inl Illegal_characters
      else if minsize > 0 \<and> int (length cs) < minsize then Inl String_too_short
      else if maxsize > 0 \<and> int (length cs) > maxsize then Inl String_too_long
      else Inr (chosen_type m cs))"

lemma default_mask_nonzero: "default_mask m \<noteq> 0"
  by (simp add: default_mask_def DIRSTRING_TYPE_def B_ASN1_PRINTABLESTRING_def B_ASN1_T61STRING_def
      B_ASN1_BMPSTRING_def B_ASN1_UTF8STRING_def)

lemma not_allowed_iff: "(\<forall>b < 64. \<not> allowed m cs b) \<longleftrightarrow> remaining m cs = 0"
  using remaining_nonzero_iff [of m cs] by (auto simp: allowed_def)

lemma size_of_int_eq: "0 \<le> sint len \<and> size_of_int len = nat (sint len) \<or> 2 ^ 63 \<le> size_of_int len"
proof -
  have r: "- (2 ^ 31) \<le> sint len" "sint len < 2 ^ 31" using sint_ge [of len] sint_lt [of len] by simp_all
  have "uint (scast len :: u64) = sint len mod 2 ^ 64" unfolding scast_eq uint_word_of_int by simp
  then have s: "int (size_of_int len) = sint len mod 2 ^ 64" by (simp add: size_of_int_def)
  show ?thesis
  proof (cases "0 \<le> sint len")
    case True
    then have "sint len mod 2 ^ 64 = sint len" using r by simp
    then have "size_of_int len = nat (sint len)" using s by linarith
    then show ?thesis using True by blast
  next
    case False
    have "sint len mod 2 ^ 64 = (sint len + 2 ^ 64) mod 2 ^ 64" by simp
    also have "\<dots> = sint len + 2 ^ 64" by (rule mod_pos_pos_trivial) (use False r in simp_all)
    finally show ?thesis using s r by simp
  qed
qed

lemma length_span:
  assumes "readable inp len" and "length inp < 2 ^ 63"
  shows "sint (int_len inp len) = int (length (span inp len))" and "int (length (span inp len)) \<le> INT_MAX"
proof -
  have le: "size_of_int (int_len inp len) \<le> length inp" using assms(1) by (simp add: readable_def)
  then have l: "length (span inp len) = size_of_int (int_len inp len)" by (simp add: span_def)
  have "\<not> 2 ^ 63 \<le> size_of_int (int_len inp len)" using le assms(2) by linarith
  then have n: "0 \<le> sint (int_len inp len)" "size_of_int (int_len inp len) = nat (sint (int_len inp len))"
    using size_of_int_eq [of "int_len inp len"] by blast+
  show "sint (int_len inp len) = int (length (span inp len))" using l n by simp
  then show "int (length (span inp len)) \<le> INT_MAX"
    using sint_lt [of "int_len inp len"] by (simp add: INT_MAX_def)
qed

lemma ncopy_eq:
  "readable inp len \<Longrightarrow> ASN1_mbstring_ncopy h out inp len inform types minsize maxsize = Some
    (if decode_func inform = None then (Inl Unknown_format, map_option ptr_of out)
     else
       case check_loop inform (default_mask types) 0 0 (span inp len) of
         Inl e \<Rightarrow> (Inl e, map_option ptr_of out)
       | Inr (m, nchar, utf8_len) \<Rightarrow>
           if minsize > 0 \<and> int nchar < minsize then (Inl String_too_short, map_option ptr_of out)
           else if maxsize > 0 \<and> int nchar > maxsize then (Inl String_too_long, map_option ptr_of out)
           else
             (case out of
                None \<Rightarrow> (Inr (fst (output_form m nchar utf8_len)), None)
              | Some dest \<Rightarrow>
                  apsnd Some (mbstring_store h dest (span inp len) (sint (int_len inp len)) inform
                    (output_form m nchar utf8_len))))"
  by (auto simp: ASN1_mbstring_ncopy_def Let_def default_mask_def span_def readable_def
      split: option.splits sum.splits)

lemma ncopy_runs:
  "ASN1_mbstring_ncopy h out inp len inform types minsize maxsize = Some (Inr t, ptr) \<Longrightarrow> readable inp len"
  by (auto simp: ASN1_mbstring_ncopy_def Let_def readable_def split: if_splits)

lemma ncopy_text:
  fixes m cs defines "t \<equiv> chosen_type m cs" and "f \<equiv> form_of_type (chosen_type m cs)"
  assumes rd: "readable inp len" and t: "is_text inform (span inp len) cs" and d: "decode_func inform = Some (dec, e)"
    and m: "m = default_mask types"
  shows "ASN1_mbstring_ncopy h out inp len inform types minsize maxsize = Some
    (case code_verdict inform m minsize maxsize cs of
       Inl err \<Rightarrow> (Inl err, map_option ptr_of out)
     | Inr ty \<Rightarrow>
         (case out of
            None \<Rightarrow> (Inr ty, None)
          | Some dest \<Rightarrow>
              apsnd Some (mbstring_store h dest (span inp len) (sint (int_len inp len)) inform
                (t, f, length (concat (map (form_enc f) cs))))))"
proof -
  have nz: "cs = [] \<Longrightarrow> remaining m cs \<noteq> 0" using default_mask_nonzero m by (simp add: remaining_def)
  have "check_loop inform m 0 0 (span inp len) =
      (if starts_with_bom inform cs \<or> remaining m cs = 0 then Inl Illegal_characters
       else Inr (remaining m cs, length cs, sum_list (map cbb_get_utf8_len cs)))"
    using check_loop_text [OF t d, of m 0 0] nz by auto
  then show ?thesis
    using d unfolding ncopy_eq [OF rd] m [symmetric]
    by (auto simp: code_verdict_def not_allowed_iff output_form_eq Let_def t_def f_def split: option.splits)
qed

lemma write_all: "length d = length blk \<Longrightarrow> write_at blk 0 d = d"
  by (simp add: write_at_def)

lemma set_fresh:
  "str_data str = None \<Longrightarrow>
   ASN1_STRING_set h k str (Some d) (int (length d)) =
     (if alloc_ok h k (length d + 1)
      then (True, str\<lparr>str_length := int (length d), str_data := Some (d @ [0])\<rparr>) else (False, str))"
  by (simp add: ASN1_STRING_set_def string_room_def Let_def write_all)

text \<open>The object handed to the caller: the text in the form of the type, and a NUL behind it.\<close>

definition typed_as :: "int \<Rightarrow> u32 list \<Rightarrow> asn1_string \<Rightarrow> bool" where
  "typed_as t cs d \<longleftrightarrow>
     (let body = concat (map (form_enc (form_of_type t)) cs) in
      str_type d = t \<and> str_length d = int (length body) \<and> str_data d = Some (body @ [0]))"

lemma mbstring_dest_fresh: "mbstring_dest h dest t = Some (fo, k, d) \<Longrightarrow> str_data d = None \<and> str_type d = t"
  by (auto simp: mbstring_dest_def ASN1_STRING_type_new_def split: option.splits if_splits)

lemma mbstring_store_success:
  assumes run: "mbstring_store h dest s (int (length s)) i (t, form_of_type t, n) = (Inr ty, ptr)"
    and tx: "is_text i s cs" and d: "decode_func i = Some (dec, e)" and n: "n + 1 < SIZE_LIMIT"
  shows "ty = t \<and> (\<exists>d. ptr = Obj d \<and> typed_as t cs d)"
proof -
  obtain fo k d0 where dest: "mbstring_dest h dest t = Some (fo, k, d0)"
    using run by (cases "mbstring_dest h dest t") (auto simp: mbstring_store_def)
  note d0 = mbstring_dest_fresh [OF dest]
  show ?thesis
  proof (cases "i = form_of_type t")
    case True
    then have "s = concat (map (form_enc (form_of_type t)) cs)" using tx by (simp add: is_text_def)
    then show ?thesis using run dest True d0
      by (auto simp: mbstring_store_def set_fresh typed_as_def Let_def split: if_splits)
  next
    case False
    then obtain data where tr: "transcode (after_allocs k h) i (form_of_type t) n s = Inr data"
      and "ty = t" "ptr = Obj (d0\<lparr>str_length := int (length data) - 1, str_data := Some data\<rparr>)"
      using run dest by (auto simp: mbstring_store_def split: sum.splits)
    then show ?thesis using transcode_success [OF tr tx d n] d0 by (simp add: typed_as_def Let_def)
  qed
qed


lemma length_form_enc: "1 \<le> length (form_enc f c) \<and> length (form_enc f c) \<le> 4"
  by (simp add: form_enc_def utf8_def)

lemma length_encoded_le: "length (concat (map (form_enc f) cs)) \<le> 4 * length cs"
  using length_form_enc by (induction cs) (auto simp: add.commute intro: add_mono)

lemma length_text: "is_text f s cs \<Longrightarrow> length cs \<le> length s"
proof (induction cs arbitrary: s)
  case (Cons c cs)
  then obtain r where "s = form_enc f c @ r" "is_text f r cs" by auto
  then show ?case using Cons.IH [of r] length_form_enc [of f c] by simp
qed simp

lemma length_transcoded: "is_text f s cs \<Longrightarrow> length (concat (map (form_enc g) cs)) \<le> 4 * length s"
  using length_encoded_le [of g cs] length_text [of f s cs] by linarith

lemma ncopy_success:
  assumes run: "ASN1_mbstring_ncopy h (Some dest) inp len inform types minsize maxsize = Some (Inr t, ptr)"
    and mem: "length inp < 2 ^ 63"
  obtains cs d where "is_text inform (span inp len) cs" "code_verdict inform (default_mask types) minsize maxsize cs = Inr t"
    "ptr = Some (Obj d)" "typed_as t cs d"
proof -
  have rd: "readable inp len" by (rule ncopy_runs [OF run])
  note sp = length_span [OF rd mem]
  have "decode_func inform \<noteq> None" using run by (auto simp: ncopy_eq [OF rd] split: if_splits)
  then obtain dec e where d: "decode_func inform = Some (dec, e)" by auto
  obtain x where "check_loop inform (default_mask types) 0 0 (span inp len) = Inr x"
    using run d by (cases "check_loop inform (default_mask types) 0 0 (span inp len)") (simp_all add: ncopy_eq [OF rd])
  then obtain cs where tx: "is_text inform (span inp len) cs" using check_loop_is_text d by blast
  let ?t = "chosen_type (default_mask types) cs"
  let ?n = "length (concat (map (form_enc (form_of_type ?t)) cs))"
  obtain p where p: "mbstring_store h dest (span inp len) (int (length (span inp len))) inform (?t, form_of_type ?t, ?n) = (Inr t, p)"
    and ptr: "ptr = Some p" and v: "code_verdict inform (default_mask types) minsize maxsize cs = Inr ?t"
    using run unfolding ncopy_text [OF rd tx d refl] sp(1)
    by (auto simp: apsnd_def map_prod_def code_verdict_def split: sum.splits prod.splits if_splits)
  have "?n \<le> 4 * length (span inp len)" by (rule length_transcoded [OF tx])
  then have "?n + 1 < SIZE_LIMIT" using sp(2) by (simp add: INT_MAX_def SIZE_LIMIT_def)
  from mbstring_store_success [OF p tx d this] v that [OF tx] ptr show ?thesis by auto
qed



subsection \<open>What the types permit\<close>

text \<open>
  The specification, from the comment at the head of \<open>a_mbstr.c\<close> and X.680: the six types with their
  bits in a mask, in the order from the smallest, and the characters each can hold. The type asked
  for is the first in this order that is in the mask and can hold all characters.
\<close>

definition string_types :: "(nat \<times> int) list" where
  "string_types =
     [(1, V_ASN1_PRINTABLESTRING), (4, V_ASN1_IA5STRING), (2, V_ASN1_T61STRING), (11, V_ASN1_BMPSTRING),
      (8, V_ASN1_UNIVERSALSTRING), (13, V_ASN1_UTF8STRING)]"

definition permits :: "int \<Rightarrow> nat \<Rightarrow> bool" where
  "permits t n \<longleftrightarrow>
     (if t = V_ASN1_PRINTABLESTRING then printable_char n
      else if t = V_ASN1_IA5STRING then n < 0x80
      else if t = V_ASN1_T61STRING then n < 0x100
      else if t = V_ASN1_BMPSTRING then n < 0x10000
      else True)"

definition minimal_type :: "u64 \<Rightarrow> u32 list \<Rightarrow> int option" where
  "minimal_type m cs =
     map_option snd (find (\<lambda>(b, t). bit m b \<and> (\<forall>c \<in> set cs. permits t (unat c))) string_types)"

text \<open>A mask of the six types, and nothing else.\<close>

definition known_mask :: "u64 \<Rightarrow> bool" where
  "known_mask m \<longleftrightarrow> (\<forall>b < 64. bit m b \<longrightarrow> b \<in> fst ` set string_types)"

definition mbstring_verdict ::
    "int \<Rightarrow> u64 \<Rightarrow> int \<Rightarrow> int \<Rightarrow> u32 list \<Rightarrow> mbstring_error + int" where
  "mbstring_verdict inform m minsize maxsize cs =
     (if starts_with_bom inform cs then Inl Illegal_characters
      else
        case minimal_type m cs of
          None \<Rightarrow> Inl Illegal_characters
        | Some t \<Rightarrow>
            if minsize > 0 \<and> int (length cs) < minsize then Inl String_too_short
            else if maxsize > 0 \<and> int (length cs) > maxsize then Inl String_too_long
            else Inr t)"

text \<open>For such a mask and a text without U+0000, the code decides as specified.\<close>

lemma allowed_permits:
  assumes "0 \<notin> set cs" and "(b, t) \<in> set string_types"
  shows "allowed m cs b \<longleftrightarrow> bit m b \<and> (\<forall>c \<in> set cs. permits t (unat c))"
proof -
  have "admits b c \<longleftrightarrow> permits t (unat c)" if "c \<in> set cs" for c
    using assms that by (auto simp: string_types_def admits_def permits_def type_consts)
  then show ?thesis by (auto simp: allowed_def)
qed

lemma minimal_type_eq:
  assumes "0 \<notin> set cs"
  shows "minimal_type m cs = map_option snd (find (\<lambda>(b, t). allowed m cs b) string_types)"
proof -
  have "find (\<lambda>(b, t). allowed m cs b) string_types =
      find (\<lambda>(b, t). bit m b \<and> (\<forall>c \<in> set cs. permits t (unat c))) string_types"
    by (rule find_cong [OF refl]) (auto simp: allowed_permits [OF assms])
  then show ?thesis by (simp add: minimal_type_def)
qed

lemma verdict_eq:
  assumes m: "known_mask m" and z: "0 \<notin> set cs"
  shows "code_verdict inform m minsize maxsize cs = mbstring_verdict inform m minsize maxsize cs"
proof -
  have none: "(\<forall>b < 64. \<not> allowed m cs b) \<longleftrightarrow> minimal_type m cs = None"
  proof -
    have "(\<forall>b < 64. \<not> allowed m cs b) \<longleftrightarrow> (\<forall>(b, t) \<in> set string_types. \<not> allowed m cs b)"
      using m by (auto simp: known_mask_def allowed_def string_types_def) 
    then show ?thesis unfolding minimal_type_eq [OF z] option.map_disc_iff find_None_iff by auto
  qed
  have some: "minimal_type m cs = Some t \<Longrightarrow> chosen_type m cs = t" for t
    by (auto simp: minimal_type_eq [OF z] string_types_def chosen_type_def split: if_splits)
  show ?thesis
    unfolding code_verdict_def mbstring_verdict_def none by (auto simp: some split: option.split)
qed

lemma default_known: "known_mask DIRSTRING_TYPE"
proof -
  have "bit DIRSTRING_TYPE b \<longleftrightarrow> b \<in> {1, 2, 11, 13}" for b
    unfolding DIRSTRING_TYPE_def flag_bits bit_or_iff bit_push_bit_iff bit_1_iff by auto
  then show ?thesis by (auto simp: known_mask_def string_types_def)
qed

subsection \<open>Setting, copying and comparing\<close>

definition string_ok :: "asn1_string \<Rightarrow> bool" where
  "string_ok s \<longleftrightarrow> 0 \<le> str_length s \<and>
     (case str_data s of None \<Rightarrow> str_length s = 0 | Some d \<Rightarrow> nat (str_length s) \<le> length d)"

lemma length_str_bytes: "string_ok s \<Longrightarrow> length (str_bytes s) = nat (str_length s)"
  by (auto simp: string_ok_def str_bytes_def split: option.splits)

lemma write_at_front: "length d \<le> length blk \<Longrightarrow> write_at blk 0 d = d @ drop (length d) blk"
  by (simp add: write_at_def)

lemma string_room_length:
  "string_room h k s len = Some blk \<Longrightarrow> string_ok s \<Longrightarrow> 0 \<le> len \<Longrightarrow> nat len + 1 \<le> length blk"
  by (auto simp: string_room_def Let_def string_ok_def split: if_splits option.splits)

lemma set_success:
  assumes run: "ASN1_STRING_set h k s data len = (True, s')" and ok: "string_ok s" and len: "0 \<le> len"
    and d: "\<And>d. data = Some d \<Longrightarrow> nat len \<le> length d"
  shows "string_ok s' \<and> str_length s' = len \<and> str_type s' = str_type s \<and> str_flags s' = str_flags s \<and>
    (\<forall>d. data = Some d \<longrightarrow> str_bytes s' = take (nat len) d \<and> (\<exists>z. str_data s' = Some (take (nat len) d @ 0 # z)))"
proof -
  obtain blk where room: "string_room h k s len = Some blk"
    and s': "s' = s\<lparr>str_length := len, str_data := Some (case data of
        None \<Rightarrow> blk | Some d \<Rightarrow> write_at blk 0 (take (nat len) d @ [0]))\<rparr>"
    using run len by (cases "string_room h k s len") (simp_all add: ASN1_STRING_set_def Let_def)
  note blk = string_room_length [OF room ok len]
  show ?thesis
  proof (cases data)
    case None
    then show ?thesis using blk len by (simp add: s' string_ok_def)
  next
    case (Some x)
    have "length (take (nat len) x @ [0]) = nat len + 1" using d [OF Some] by simp
    then have "write_at blk 0 (take (nat len) x @ [0]) = take (nat len) x @ 0 # drop (nat len + 1) blk"
      using blk by (subst write_at_front) simp_all
    then show ?thesis using Some blk len d [OF Some] by (simp add: s' string_ok_def str_bytes_def)
  qed
qed

lemma type_new_ok: "ASN1_STRING_type_new h k t = Some s \<Longrightarrow> string_ok s"
  by (auto simp: ASN1_STRING_type_new_def string_ok_def split: if_splits)

lemma copy_success:
  assumes run: "ASN1_STRING_copy h k dst (Some s) = (True, r)" and ok: "string_ok dst" "string_ok s"
  shows "string_ok r \<and> str_bytes r = str_bytes s \<and> str_type r = str_type s \<and> str_flags r = str_flags s"
proof -
  obtain r0 where set: "ASN1_STRING_set h k (dst\<lparr>str_type := str_type s\<rparr>) (str_data s) (str_length s) = (True, r0)"
    and r: "r = r0\<lparr>str_flags := str_flags s\<rparr>"
    using run by (auto simp: ASN1_STRING_copy_def split: prod.splits bool.splits)
  have d: "string_ok (dst\<lparr>str_type := str_type s\<rparr>)" using ok(1) by (simp add: string_ok_def split: option.splits)
  have l: "0 \<le> str_length s" "\<And>x. str_data s = Some x \<Longrightarrow> nat (str_length s) \<le> length x"
    using ok(2) by (auto simp: string_ok_def)
  note p = set_success [OF set d l]
  show ?thesis
  proof (cases "str_data s")
    case None
    then have "str_bytes s = []" "str_length s = 0" using ok(2) by (simp_all add: str_bytes_def string_ok_def)
    then show ?thesis using p by (auto simp: r string_ok_def str_bytes_def split: option.splits)
  next
    case (Some x)
    then show ?thesis using p by (auto simp: r string_ok_def str_bytes_def)
  qed
qed

lemma memcmp_sign_zero: "length a = length b \<Longrightarrow> memcmp_sign a b = 0 \<longleftrightarrow> a = b"
  by (induction a b rule: list_induct2) auto

lemma memcmp_sign_swap: "memcmp_sign b a = - memcmp_sign a b"
  by (induction a b rule: memcmp_sign.induct) auto

lemma cmp_zero_iff:
  "string_ok a \<Longrightarrow> string_ok b \<Longrightarrow>
   ASN1_STRING_cmp a b = 0 \<longleftrightarrow> str_type a = str_type b \<and> str_bytes a = str_bytes b"
  using length_str_bytes [of a] length_str_bytes [of b] memcmp_sign_zero [of "str_bytes a" "str_bytes b"]
  by (auto simp: ASN1_STRING_cmp_def Let_def string_ok_def)

lemma cmp_swap: "ASN1_STRING_cmp b a = - ASN1_STRING_cmp a b"
  using memcmp_sign_swap [of "str_bytes b" "str_bytes a"] by (simp add: ASN1_STRING_cmp_def Let_def)

subsection \<open>Defects\<close>

text \<open>\<open>strchr\<close> finds the terminator, so U+0000 passes for a PrintableString character.\<close>

lemma nul_is_printable: "is_printable 0 \<and> \<not> printable_char (unat (0 :: u32))"
  by (simp add: is_printable_iff printable_char_def)

text \<open>When the conversion fails after the new string is allocated, \<open>*out\<close> is left to the freed object.\<close>

definition one_alloc_heap :: heap_env where
  "one_alloc_heap = \<lparr>alloc_ok = \<lambda>k _. k = 0, fresh = \<lambda>_. 0\<rparr>"

lemma failed_conversion_dangles:
  "ASN1_mbstring_ncopy one_alloc_heap (Some None) [0xc3, 0xa9] 2 MBSTRING_UTF8 B_ASN1_T61STRING 0 0
     = Some (Inl Malloc_failure, Some Freed)"
  by code_simp

text \<open>A mask that asks for none of the six types is answered with UTF8String.\<close>

lemma type_outside_mask:
  "ASN1_mbstring_ncopy good_heap None [0x41] 1 MBSTRING_ASC 0x0001 0 0 = Some (Inr V_ASN1_UTF8STRING, None)"
  by code_simp

text \<open>A negative length other than \<open>- 1\<close> is not refused: it becomes a length that no memory has.\<close>

lemma negative_length_overreads:
  assumes "sint len < - 1" and "decode_func inform \<noteq> None" and "length inp < 2 ^ 63"
  shows "ASN1_mbstring_ncopy h out inp len inform types minsize maxsize = None"
proof -
  have "len \<noteq> - 1" using assms(1) by auto
  moreover have "2 ^ 63 \<le> size_of_int len" using size_of_int_eq [of len] assms(1) by auto
  ultimately show ?thesis using assms(2,3) by (simp add: ASN1_mbstring_ncopy_def Let_def int_len_def)
qed

text \<open>\<open>ASN1_PRINTABLE_type\<close> looks at the byte behind the string before it looks at the count.\<close>

lemma printable_loop_overread:
  "0 \<notin> set s \<Longrightarrow> int (length s) \<le> len \<Longrightarrow> printable_type_loop s len ia5 t61 = None"
  by (induction s len ia5 t61 rule: printable_type_loop.induct) auto

lemma printable_type_overread: "0 \<notin> set s \<Longrightarrow> s \<noteq> [] \<Longrightarrow> ASN1_PRINTABLE_type (Some s) (int (length s)) = None"
  by (simp add: ASN1_PRINTABLE_type_def printable_loop_overread)

lemma printable_loop_exact:
  "0 \<notin> set s \<Longrightarrow> len < 0 \<or> int (length s) \<le> len \<Longrightarrow>
   printable_type_loop (s @ 0 # z) len ia5 t61 =
     Some (ia5 \<or> \<not> list_all printable_byte s, t61 \<or> (\<exists>c \<in> set s. c AND 0x80 \<noteq> 0))"
proof (induction s arbitrary: len ia5 t61)
  case (Cons c s)
  have "c \<noteq> 0" "len \<noteq> 0" "0 \<notin> set s" "len - 1 < 0 \<or> int (length s) \<le> len - 1" using Cons.prems by auto
  then show ?case using Cons.IH [of "len - 1" "ia5 \<or> \<not> printable_byte c" "t61 \<or> c AND 0x80 \<noteq> 0"]
    by (simp add: disj_assoc)
qed simp

lemma printable_type_exact:
  assumes "0 \<notin> set s" and "len \<le> 0 \<or> int (length s) \<le> len"
  shows "ASN1_PRINTABLE_type (Some (s @ 0 # z)) len =
     Some (if \<exists>c \<in> set s. c AND 0x80 \<noteq> 0 then V_ASN1_T61STRING
           else if list_all printable_byte s then V_ASN1_PRINTABLESTRING else V_ASN1_IA5STRING)"
proof -
  have "(if len \<le> 0 then - 1 else len) < 0 \<or> int (length s) \<le> (if len \<le> 0 then - 1 else len)"
    using assms(2) by auto
  note l = printable_loop_exact [OF assms(1) this, of z False False]
  show ?thesis unfolding ASN1_PRINTABLE_type_def Let_def by (simp only: l option.case option.map) simp
qed

subsection \<open>Properties\<close>

text \<open>C19. The string \<open>ASN1_mbstring_ncopy\<close> hands over is well typed. When it succeeds, whatever the
  allocator did, with a mask of the six types the function knows, then the input was a text in the
  declared form; if the text has no U+0000, the type returned is the smallest of the mask, in the order
  Printable, IA5, T61, BMP, Universal, UTF8, that can hold all its characters; and the object has the
  type returned and holds exactly the same characters in the form of that type, with its length and
  a terminating NUL. With other bits in the mask, or U+0000 in the text, the type can be one that was
  not asked for or does not fit: \<open>type_outside_mask\<close> and \<open>nul_is_printable\<close>.\<close>

theorem mbstring_typed:
  assumes "ASN1_mbstring_ncopy h (Some dest) inp len inform types minsize maxsize = Some (Inr t, ptr)"
    and "known_mask (default_mask types)" and "length inp < 2 ^ 63"
  shows "\<exists>cs d. is_text inform (span inp len) cs \<and>
    (0 \<notin> set cs \<longrightarrow> minimal_type (default_mask types) cs = Some t) \<and>
    ptr = Some (Obj d) \<and> typed_as t cs d"
proof -
  obtain cs d where cs: "is_text inform (span inp len) cs" "ptr = Some (Obj d)" "typed_as t cs d"
    and v: "code_verdict inform (default_mask types) minsize maxsize cs = Inr t"
    using ncopy_success [OF assms(1,3)] by blast
  have "minimal_type (default_mask types) cs = Some t" if "0 \<notin> set cs"
    using v unfolding verdict_eq [OF assms(2) that]
    by (simp add: mbstring_verdict_def split: option.splits if_splits)
  then show ?thesis using cs by blast
qed

theorem mbstring_typed_witness:
  "\<exists>cs d. is_text MBSTRING_UTF8 [0x41, 0xc3, 0xa9] cs \<and>
    (0 \<notin> set cs \<longrightarrow> minimal_type DIRSTRING_TYPE cs = Some V_ASN1_T61STRING) \<and>
    map_option snd (ASN1_mbstring_ncopy good_heap (Some None) [0x41, 0xc3, 0xa9] 3 MBSTRING_UTF8 0 0 0) = Some (Some (Obj d)) \<and>
    typed_as V_ASN1_T61STRING cs d"
proof -
  let ?r = "ASN1_mbstring_ncopy good_heap (Some None) [0x41, 0xc3, 0xa9] 3 MBSTRING_UTF8 0 0 0"
  have "map_option fst ?r = Some (Inr V_ASN1_T61STRING)" by code_simp
  then obtain ptr where run: "?r = Some (Inr V_ASN1_T61STRING, ptr)" by (cases ?r) auto
  have sp: "span [0x41, 0xc3, 0xa9] 3 = [0x41, 0xc3, 0xa9]" by code_simp
  have m: "default_mask 0 = DIRSTRING_TYPE" by (simp add: default_mask_def)
  from mbstring_typed [OF run] default_known show ?thesis unfolding sp m run by auto
qed



text \<open>A copy is equal to its original: when \<open>ASN1_STRING_dup\<close> succeeds, the copy keeps the invariant
  and has the type, flags and contents of the original, \<open>ASN1_STRING_cmp\<close> returns 0 on the two,
  and it returns 0 only on strings of the same type and contents.\<close>

theorem ASN1_STRING_dup_equal:
  assumes "ASN1_STRING_dup h (Some s) = Some r" and "string_ok s"
  shows "string_ok r \<and> str_bytes r = str_bytes s \<and> str_type r = str_type s \<and> str_flags r = str_flags s \<and>
    ASN1_STRING_cmp s r = 0 \<and>
    (\<forall>x. string_ok x \<longrightarrow> ASN1_STRING_cmp s x = 0 \<longrightarrow> str_type x = str_type r \<and> str_bytes x = str_bytes r)"
proof -
  obtain r0 where "ASN1_STRING_new h 0 = Some r0" "ASN1_STRING_copy h 1 r0 (Some s) = (True, r)"
    using assms(1) by (auto simp: ASN1_STRING_dup_def split: option.splits prod.splits if_splits)
  then have "string_ok r \<and> str_bytes r = str_bytes s \<and> str_type r = str_type s \<and> str_flags r = str_flags s"
    using copy_success [OF _ _ assms(2)] type_new_ok unfolding ASN1_STRING_new_def by blast
  then show ?thesis using cmp_zero_iff [OF assms(2)] by auto
qed

theorem ASN1_STRING_dup_equal_witness:
  "\<exists>r. ASN1_STRING_dup good_heap (Some \<lparr>str_length = 2, str_type = 19, str_data = Some [65, 66, 0], str_flags = 0\<rparr>) = Some r \<and>
     str_bytes r = [65, 66]"
proof -
  let ?s = "\<lparr>str_length = 2, str_type = 19, str_data = Some [65, 66, 0], str_flags = 0\<rparr> :: asn1_string"
  have "ASN1_STRING_dup good_heap (Some ?s) \<noteq> None" by code_simp
  then obtain r where r: "ASN1_STRING_dup good_heap (Some ?s) = Some r" by blast
  have ok: "string_ok ?s" by code_simp
  have "str_bytes ?s = [65, 66]" by code_simp
  then show ?thesis using ASN1_STRING_dup_equal [OF r ok] r by auto
qed

end
