(* ===== verification/Base64.thy ===== *)
theory Base64
  imports ConstantTime
begin

section \<open>Base64 (crypto/base64/base64.c)\<close>

text \<open>
  Block and streaming encoding and decoding. The pointers \<open>out\<close> and \<open>dst\<close> are the list of bytes
  written through them; the context is the record of \<open>include/openssl/base64.h\<close>. The encoder is
  compared with RFC 4648 stated over bit strings, the streaming routines with their behaviour on
  the whole input.
\<close>

unbundle bit_operations_syntax

subsection \<open>Encoding\<close>

definition conv_bin2ascii :: "byte \<Rightarrow> byte" where
  "conv_bin2ascii a =
     (let a = a AND 0x3f;
          ret = constant_time_select_8 (constant_time_eq_8 (ucast a) 62) 43 47;
          ret = constant_time_select_8 (constant_time_lt_args_8 a 62) (a - 52 + 48) ret;
          ret = constant_time_select_8 (constant_time_lt_args_8 a 52) (a - 26 + 97) ret
      in constant_time_select_8 (constant_time_lt_args_8 a 26) (a + 65) ret)"

definition EVP_EncodedLength :: "u64 \<Rightarrow> u64 option" where
  "EVP_EncodedLength len =
     (if len + 2 < len then None
      else let len = (len + 2) div 3 in
        if drop_bit 2 (push_bit 2 len) \<noteq> len then None
        else let len = push_bit 2 len in
          if len + 1 < len then None else Some (len + 1))"

record encode_ctx =
  data_used :: nat
  data :: bytes
  eof_seen :: bool
  error_encountered :: bool

text \<open>\<open>memset\<close> of the whole context, in \<open>EVP_EncodeInit\<close> and \<open>EVP_DecodeInit\<close>.\<close>

definition EVP_EncodeInit :: "encode_ctx" where
  "EVP_EncodeInit = \<lparr> data_used = 0, data = replicate 48 0, eof_seen = False, error_encountered = False \<rparr>"

definition EVP_DecodeInit :: "encode_ctx" where
  "EVP_DecodeInit = \<lparr> data_used = 0, data = replicate 48 0, eof_seen = False, error_encountered = False \<rparr>"

text \<open>The loop of \<open>EVP_EncodeBlock\<close>: \<open>src\<close> is what remains, \<open>dst\<close> what has been written.\<close>

fun encode_loop :: "bytes \<Rightarrow> bytes \<Rightarrow> nat \<Rightarrow> bytes \<times> nat" where
  "encode_loop [] dst ret = (dst, ret)"
| "encode_loop [s0] dst ret =
     (let l = push_bit 16 (ucast s0) :: u32 in
      (dst @ [conv_bin2ascii (ucast (drop_bit 18 l)), conv_bin2ascii (ucast (drop_bit 12 l)), 61, 61],
       ret + 4))"
| "encode_loop [s0, s1] dst ret =
     (let l = push_bit 16 (ucast s0) OR push_bit 8 (ucast s1) :: u32 in
      (dst @ [conv_bin2ascii (ucast (drop_bit 18 l)), conv_bin2ascii (ucast (drop_bit 12 l)),
              conv_bin2ascii (ucast (drop_bit 6 l)), 61],
       ret + 4))"
| "encode_loop (s0 # s1 # s2 # src) dst ret =
     (let l = push_bit 16 (ucast s0) OR push_bit 8 (ucast s1) OR ucast s2 :: u32 in
      encode_loop src
        (dst @ [conv_bin2ascii (ucast (drop_bit 18 l)), conv_bin2ascii (ucast (drop_bit 12 l)),
                conv_bin2ascii (ucast (drop_bit 6 l)), conv_bin2ascii (ucast l)])
        (ret + 4))"

text \<open>What is written to \<open>dst\<close>, the closing NUL included, and the return value.\<close>

definition EVP_EncodeBlock :: "bytes \<Rightarrow> bytes \<times> nat" where
  "EVP_EncodeBlock src = (let (dst, ret) = encode_loop src [] 0 in (dst @ [0], ret))"

text \<open>
  One line of the streaming encoder: the block, a newline over its NUL. The NUL that the C code
  puts after every newline is overwritten by the next line and is left only after the last one.
\<close>

definition put_line :: "bytes \<Rightarrow> bytes \<Rightarrow> bytes \<times> nat" where
  "put_line out src = (let (dst, encoded) = EVP_EncodeBlock src in (out @ take encoded dst @ [10], encoded))"

definition terminated :: "bytes \<Rightarrow> bytes" where
  "terminated out = (if out = [] then [] else out @ [0])"

text \<open>The loop over whole lines: the input left, the output, the total, and whether \<open>total\<close>
  would have wrapped.\<close>

function update_lines :: "bytes \<Rightarrow> bytes \<Rightarrow> u64 \<Rightarrow> bytes \<times> bytes \<times> u64 \<times> bool" where
  "update_lines inp out tot =
     (if length inp \<ge> 48 then
        let (out, encoded) = put_line out (take 48 inp); inp = drop 48 inp in
        if tot + word_of_nat encoded + 1 < tot then (inp, out, tot, True)
        else update_lines inp out (tot + (word_of_nat encoded + 1))
      else (inp, out, tot, False))"
  by pat_completeness auto
termination by (relation "measure (length \<circ> fst)") auto

declare update_lines.simps [simp del]

definition INT_MAX :: nat where
  "INT_MAX = 2147483647"

text \<open>Completing the line the context holds: the context, the input left, the output, the total.\<close>

definition encode_first_line :: "encode_ctx \<Rightarrow> bytes \<Rightarrow> encode_ctx \<times> bytes \<times> bytes \<times> u64" where
  "encode_first_line ctx inp =
     (if data_used ctx \<noteq> 0 then
        let todo = 48 - data_used ctx;
            ctx = ctx\<lparr>data := write_at (data ctx) (data_used ctx) (take todo inp)\<rparr>;
            (out, encoded) = put_line [] (data ctx)
        in (ctx\<lparr>data_used := 0\<rparr>, drop todo inp, out, word_of_nat encoded + 1)
      else (ctx, inp, [], 0))"

text \<open>The result is the context, the bytes written to \<open>out\<close> and \<open>*out_len\<close>; \<open>None\<close> is the failed
  assertion.\<close>

definition EVP_EncodeUpdate :: "encode_ctx \<Rightarrow> bytes \<Rightarrow> (encode_ctx \<times> bytes \<times> nat) option" where
  "EVP_EncodeUpdate ctx inp =
     (if length inp = 0 then Some (ctx, [], 0)
      else if \<not> data_used ctx < 48 then None
      else if 48 - data_used ctx > length inp then
        Some (ctx\<lparr>data := write_at (data ctx) (data_used ctx) inp,
                  data_used := data_used ctx + length inp\<rparr>, [], 0)
      else
        let (ctx, inp, out, tot) = encode_first_line ctx inp;
          (inp, out, tot, wrapped) = update_lines inp out tot
        in if wrapped then Some (ctx, terminated out, 0)
           else
             let ctx = (if length inp \<noteq> 0 then ctx\<lparr>data := write_at (data ctx) 0 inp\<rparr> else ctx);
                 ctx = ctx\<lparr>data_used := length inp\<rparr>;
                 tot = (if unat tot > INT_MAX then 0 else tot)
             in Some (ctx, terminated out, unat tot))"

definition EVP_EncodeFinal :: "encode_ctx \<Rightarrow> encode_ctx \<times> bytes \<times> nat" where
  "EVP_EncodeFinal ctx =
     (if data_used ctx = 0 then (ctx, [], 0)
      else let (out, encoded) = put_line [] (take (data_used ctx) (data ctx)) in
        (ctx\<lparr>data_used := 0\<rparr>, terminated out, encoded + 1))"

subsection \<open>Decoding\<close>

definition EVP_DecodedLength :: "nat \<Rightarrow> nat option" where
  "EVP_DecodedLength len = (if len mod 4 \<noteq> 0 then None else Some (len div 4 * 3))"

definition base64_ascii_to_bin :: "byte \<Rightarrow> byte" where
  "base64_ascii_to_bin a =
     (let is_upper = constant_time_in_range_8 a 65 90;
          is_lower = constant_time_in_range_8 a 97 122;
          is_digit = constant_time_in_range_8 a 48 57;
          is_plus = constant_time_eq_8 (ucast a) 43;
          is_slash = constant_time_eq_8 (ucast a) 47;
          is_equals = constant_time_eq_8 (ucast a) 61;
          ret = 0xff;
          ret = constant_time_select_8 is_upper (a - 65) ret;
          ret = constant_time_select_8 is_lower (a - 97 + 26) ret;
          ret = constant_time_select_8 is_digit (a - 48 + 52) ret;
          ret = constant_time_select_8 is_plus 62 ret;
          ret = constant_time_select_8 is_slash 63 ret
      in constant_time_select_8 is_equals 0 ret)"

text \<open>\<open>None\<close> is a return of 0; otherwise the bytes written, whose number is \<open>*out_num_bytes\<close>.\<close>

definition base64_decode_quad :: "bytes \<Rightarrow> bytes option" where
  "base64_decode_quad q =
     (let a = base64_ascii_to_bin (q ! 0); b = base64_ascii_to_bin (q ! 1);
          c = base64_ascii_to_bin (q ! 2); d = base64_ascii_to_bin (q ! 3) in
      if a = 0xff \<or> b = 0xff \<or> c = 0xff \<or> d = 0xff then None
      else
        let v = push_bit 18 (ucast a) OR push_bit 12 (ucast b) OR push_bit 6 (ucast c) OR ucast d :: u32;
            padding_pattern = push_bit 3 (of_bool (q ! 0 = 61)) OR push_bit 2 (of_bool (q ! 1 = 61)) OR
              push_bit 1 (of_bool (q ! 2 = 61)) OR of_bool (q ! 3 = 61) :: u32
        in if padding_pattern = 0 then
             Some [ucast (drop_bit 16 v), ucast (drop_bit 8 v), ucast v]
           else if padding_pattern = 1 then
             Some [ucast (drop_bit 16 v), ucast (drop_bit 8 v)]
           else if padding_pattern = 3 then Some [ucast (drop_bit 16 v)]
           else None)"

definition base64_space :: "byte \<Rightarrow> bool" where
  "base64_space c \<longleftrightarrow> c = 32 \<or> c = 9 \<or> c = 13 \<or> c = 10"

text \<open>\<open>ctx->data[ctx->data_used++] = c\<close>, and the context after a whole quad.\<close>

definition push_char :: "encode_ctx \<Rightarrow> byte \<Rightarrow> encode_ctx" where
  "push_char ctx c = ctx\<lparr>data := (data ctx)[data_used ctx := c], data_used := data_used ctx + 1\<rparr>"

definition after_quad :: "encode_ctx \<Rightarrow> bytes \<Rightarrow> encode_ctx" where
  "after_quad ctx o3 =
     (let ctx = ctx\<lparr>data_used := 0\<rparr> in if length o3 < 3 then ctx\<lparr>eof_seen := True\<rparr> else ctx)"

text \<open>The character loop of \<open>EVP_DecodeUpdate\<close>; the last component says that it ran to the end
  (otherwise it returned \<open>-1\<close>).\<close>

fun decode_chars :: "encode_ctx \<Rightarrow> bytes \<Rightarrow> nat \<Rightarrow> bytes \<Rightarrow> encode_ctx \<times> bytes \<times> nat \<times> bool" where
  "decode_chars ctx out bytes_out [] = (ctx, out, bytes_out, True)"
| "decode_chars ctx out bytes_out (c # inp) =
     (if base64_space c then decode_chars ctx out bytes_out inp
      else if eof_seen ctx then (ctx\<lparr>error_encountered := True\<rparr>, out, bytes_out, False)
      else if data_used (push_char ctx c) = 4 then
        (case base64_decode_quad (data (push_char ctx c)) of
           None \<Rightarrow> ((push_char ctx c)\<lparr>error_encountered := True\<rparr>, out, bytes_out, False)
         | Some o3 \<Rightarrow>
             decode_chars (after_quad (push_char ctx c) o3) (out @ o3) (bytes_out + length o3) inp)
      else decode_chars (push_char ctx c) out bytes_out inp)"

lemma push_char_simps [simp]:
  "data (push_char ctx c) = (data ctx)[data_used ctx := c]"
  "data_used (push_char ctx c) = data_used ctx + 1"
  "eof_seen (push_char ctx c) = eof_seen ctx"
  "error_encountered (push_char ctx c) = error_encountered ctx"
  by (simp_all add: push_char_def)

lemma after_quad_simps [simp]:
  "data (after_quad ctx o3) = data ctx"
  "data_used (after_quad ctx o3) = 0"
  "eof_seen (after_quad ctx o3) = (length o3 < 3 \<or> eof_seen ctx)"
  "error_encountered (after_quad ctx o3) = error_encountered ctx"
  by (simp_all add: after_quad_def Let_def)

text \<open>The context, the bytes written to \<open>out\<close>, \<open>*out_len\<close> and the return value.\<close>

definition EVP_DecodeUpdate :: "encode_ctx \<Rightarrow> bytes \<Rightarrow> encode_ctx \<times> bytes \<times> nat \<times> int" where
  "EVP_DecodeUpdate ctx inp =
     (if error_encountered ctx then (ctx, [], 0, - 1)
      else case decode_chars ctx [] 0 inp of
        (ctx, out, bytes_out, fin) \<Rightarrow>
          if \<not> fin then (ctx, out, 0, - 1)
          else if bytes_out > INT_MAX then (ctx\<lparr>error_encountered := True\<rparr>, out, 0, - 1)
          else if eof_seen ctx then (ctx, out, bytes_out, 0)
          else (ctx, out, bytes_out, 1))"

definition EVP_DecodeFinal :: "encode_ctx \<Rightarrow> nat \<times> int" where
  "EVP_DecodeFinal ctx =
     (if error_encountered ctx \<or> data_used ctx \<noteq> 0 then (0, - 1) else (0, 1))"

text \<open>The quad loop of \<open>EVP_DecodeBase64\<close>: \<open>inp\<close> is \<open>&in[i]\<close>.\<close>

function decode_quads :: "bytes \<Rightarrow> bytes \<Rightarrow> nat \<Rightarrow> bytes \<times> nat \<times> bool" where
  "decode_quads inp out bytes_out =
     (if inp = [] then (out, bytes_out, True)
      else case base64_decode_quad inp of
        None \<Rightarrow> (out, bytes_out, False)
      | Some o3 \<Rightarrow>
          if length o3 \<noteq> 3 \<and> length inp \<noteq> 4 then (out @ o3, bytes_out + length o3, False)
          else decode_quads (drop 4 inp) (out @ o3) (bytes_out + length o3))"
  by pat_completeness auto
termination by (relation "measure (length \<circ> fst)") auto

declare decode_quads.simps [simp del]

text \<open>The return value, the bytes written and \<open>*out_len\<close>.\<close>

definition EVP_DecodeBase64 :: "nat \<Rightarrow> bytes \<Rightarrow> bool \<times> bytes \<times> nat" where
  "EVP_DecodeBase64 max_out inp =
     (if length inp mod 4 \<noteq> 0 then (False, [], 0)
      else case EVP_DecodedLength (length inp) of
        None \<Rightarrow> (False, [], 0)
      | Some max_len \<Rightarrow>
          if max_out < max_len then (False, [], 0)
          else case decode_quads inp [] 0 of
            (out, bytes_out, ok) \<Rightarrow> if ok then (True, out, bytes_out) else (False, out, 0))"

text \<open>The padding loop at the end of \<open>EVP_DecodeBlock\<close>.\<close>

function pad_to_3 :: "bytes \<Rightarrow> nat \<Rightarrow> bytes \<times> nat" where
  "pad_to_3 dst dst_len = (if dst_len mod 3 \<noteq> 0 then pad_to_3 (dst @ [0]) (dst_len + 1) else (dst, dst_len))"
  by pat_completeness auto
termination by (relation "measure (\<lambda>(_, n). (3 - n mod 3) mod 3)") (auto simp: mod_Suc)

declare pad_to_3.simps [simp del]

definition EVP_DecodeBlock :: "bytes \<Rightarrow> bytes \<times> int" where
  "EVP_DecodeBlock src =
     (let src = dropWhile (\<lambda>c. c = 32 \<or> c = 9) src;
          src = rev (dropWhile base64_space (rev src)) in
      case EVP_DecodedLength (length src) of
        None \<Rightarrow> ([], - 1)
      | Some dst_len \<Rightarrow>
          if dst_len > INT_MAX then ([], - 1)
          else case EVP_DecodeBase64 dst_len src of
            (ok, dst, n) \<Rightarrow>
              if \<not> ok then (dst, - 1)
              else let (dst, n) = pad_to_3 dst n in (dst, int n))"


subsection \<open>RFC 4648\<close>

text \<open>
  The standard, over bit strings: octets are concatenated most significant bit first, read six
  bits at a time (a short last group is filled with zero bits), each group indexes the alphabet,
  and the result is padded with \<open>=\<close> to a multiple of four characters. Decoding reads the bits
  back and drops an incomplete last octet.
\<close>

definition b64_alphabet :: bytes where
  "b64_alphabet = map word_of_nat ([65..<91] @ [97..<123] @ [48..<58] @ [43, 47])"

definition octet_bits :: "byte \<Rightarrow> bool list" where
  "octet_bits b = map (bit b) [7, 6, 5, 4, 3, 2, 1, 0]"

definition bits_value :: "bool list \<Rightarrow> byte" where
  "bits_value bs = horner_sum of_bool 2 (rev bs)"

function sextets :: "bool list \<Rightarrow> byte list" where
  "sextets bs = (if bs = [] then []
     else bits_value (take 6 (bs @ replicate 5 False)) # sextets (drop 6 bs))"
  by pat_completeness auto
termination by (relation "measure length") auto

declare sextets.simps [simp del]

definition rfc4648_encode :: "bytes \<Rightarrow> bytes" where
  "rfc4648_encode bs =
     (let chars = map (\<lambda>s. b64_alphabet ! unat s) (sextets (concat (map octet_bits bs)))
      in chars @ replicate ((4 - length chars mod 4) mod 4) 61)"

definition b64_index :: "byte \<Rightarrow> byte" where
  "b64_index c = word_of_nat (length (takeWhile (\<lambda>x. x \<noteq> c) b64_alphabet))"

definition sextet_bits :: "byte \<Rightarrow> bool list" where
  "sextet_bits s = map (bit s) [5, 4, 3, 2, 1, 0]"

definition char_bits :: "byte \<Rightarrow> bool list" where
  "char_bits c = sextet_bits (b64_index c)"

definition in_alphabet :: "byte \<Rightarrow> bool" where
  "in_alphabet c \<longleftrightarrow> c \<in> set b64_alphabet"

function octets :: "bool list \<Rightarrow> bytes" where
  "octets bs = (if length bs < 8 then [] else bits_value (take 8 bs) # octets (drop 8 bs))"
  by pat_completeness auto
termination by (relation "measure length") auto

declare octets.simps [simp del]

definition b64_well_formed :: "bytes \<Rightarrow> bool" where
  "b64_well_formed s \<longleftrightarrow> length s mod 4 = 0 \<and>
     dropWhile (\<lambda>c. c \<noteq> 61) s \<in> {[], [61], [61, 61]} \<and>
     (\<forall>c \<in> set (takeWhile (\<lambda>c. c \<noteq> 61) s). in_alphabet c)"

definition rfc4648_decode :: "bytes \<Rightarrow> bytes option" where
  "rfc4648_decode s =
     (if b64_well_formed s then Some (octets (concat (map char_bits (takeWhile (\<lambda>c. c \<noteq> 61) s))))
      else None)"

subsection \<open>Characters\<close>

lemma nth_alphabet:
  "n < 64 \<Longrightarrow> b64_alphabet ! n =
     word_of_nat (if n < 26 then 65 + n else if n < 52 then 71 + n
       else if n < 62 then n - 4 else if n = 62 then 43 else 47)"
  unfolding b64_alphabet_def
  by (auto simp: nth_append nth_Cons' less_diff_conv simp del: upt_Suc upt_rec_numeral)

lemma conv_bin2ascii_eq: "conv_bin2ascii a = b64_alphabet ! unat (a AND 0x3f)"
proof -
  define x where "x = a AND 0x3f"
  have x: "unat x < 64"
    unfolding x_def using unat_and_mask [of a 6] by (simp add: mask_eq_exp_minus_1)
  have of: "(word_of_nat (unat x) :: byte) = x" by simp
  have eq: "(ucast x :: u64) = 62 \<longleftrightarrow> unat x = 62"
    by (simp add: word_unat_eq_iff unat_ucast_up)
  have lim: "unat (62 :: byte) = 62" "unat (52 :: byte) = 52" "unat (26 :: byte) = 26" by simp_all
  show ?thesis
    unfolding conv_bin2ascii_def x_def [symmetric] constant_time_eqs Let_def eq nth_alphabet [OF x] lim
    using x by (simp add: of_nat_diff)
qed


lemma ascii_to_bin_if:
  "base64_ascii_to_bin a =
     (if a = 61 then 0 else if a = 47 then 63 else if a = 43 then 62
      else if 48 \<le> unat a \<and> unat a \<le> 57 then a + 4
      else if 97 \<le> unat a \<and> unat a \<le> 122 then a - 71
      else if 65 \<le> unat a \<and> unat a \<le> 90 then a - 65 else 0xff)"
proof -
  have range: "constant_time_in_range_8 a 65 90 = truth_mask (65 \<le> unat a \<and> unat a \<le> 90)"
      "constant_time_in_range_8 a 97 122 = truth_mask (97 \<le> unat a \<and> unat a \<le> 122)"
      "constant_time_in_range_8 a 48 57 = truth_mask (48 \<le> unat a \<and> unat a \<le> 57)"
    by (simp_all add: in_range_8_eq)
  have eq: "(ucast a :: u64) = 43 \<longleftrightarrow> a = 43" "(ucast a :: u64) = 47 \<longleftrightarrow> a = 47"
      "(ucast a :: u64) = 61 \<longleftrightarrow> a = 61"
    by (simp_all add: word_unat_eq_iff unat_ucast_up)
  show ?thesis
    unfolding base64_ascii_to_bin_def range eq_8_eq select_8_eq Let_def eq by simp
qed

lemma ascii_of_alphabet:
  assumes n: "n < 64"
  shows "base64_ascii_to_bin (b64_alphabet ! n) = word_of_nat n" "b64_alphabet ! n \<noteq> 61"
proof -
  define k where "k = (if n < 26 then 65 + n else if n < 52 then 71 + n
       else if n < 62 then n - 4 else if n = 62 then 43 else 47)"
  have k: "k < 256" using n by (auto simp: k_def)
  then have u: "unat (word_of_nat k :: byte) = k" by (simp add: unat_of_nat)
  have c: "b64_alphabet ! n = word_of_nat k" using nth_alphabet [OF n] by (simp only: k_def)
  have eq: "(word_of_nat k :: byte) = 61 \<longleftrightarrow> k = 61" "(word_of_nat k :: byte) = 47 \<longleftrightarrow> k = 47"
      "(word_of_nat k :: byte) = 43 \<longleftrightarrow> k = 43"
    using u by (simp_all add: word_unat_eq_iff)
  show "b64_alphabet ! n \<noteq> 61" unfolding c eq using n by (auto simp: k_def)
  show "base64_ascii_to_bin (b64_alphabet ! n) = word_of_nat n"
    unfolding c ascii_to_bin_if eq u using n by (cases "n = 63"; cases "n = 62") (auto simp: k_def of_nat_diff)
qed

lemma length_alphabet: "length b64_alphabet = 64"
  by (simp add: b64_alphabet_def)

lemma ascii_invalid:
  assumes "a \<notin> set b64_alphabet" "a \<noteq> 61"
  shows "base64_ascii_to_bin a = 0xff"
proof -
  have notin: "a \<noteq> b64_alphabet ! n" if "n < 64" for n
    using assms(1) that length_alphabet nth_mem [of n b64_alphabet] by auto
  have "\<not> (48 \<le> unat a \<and> unat a \<le> 57)"
    using notin [of "unat a + 4"] nth_alphabet [of "unat a + 4"] by auto
  moreover have "\<not> (97 \<le> unat a \<and> unat a \<le> 122)"
  proof
    assume "97 \<le> unat a \<and> unat a \<le> 122"
    then have "unat a - 71 < 52" "\<not> unat a - 71 < 26" "71 + (unat a - 71) = unat a" by auto
    then show False using notin [of "unat a - 71"] nth_alphabet [of "unat a - 71"] by simp
  qed
  moreover have "\<not> (65 \<le> unat a \<and> unat a \<le> 90)"
  proof
    assume "65 \<le> unat a \<and> unat a \<le> 90"
    then have "unat a - 65 < 26" "65 + (unat a - 65) = unat a" by auto
    then show False using notin [of "unat a - 65"] nth_alphabet [of "unat a - 65"] by simp
  qed
  moreover have "a \<noteq> 43" "a \<noteq> 47"
    using notin [of 62] nth_alphabet [of 62] notin [of 63] nth_alphabet [of 63] by simp_all
  ultimately show ?thesis using assms(2) unfolding ascii_to_bin_if by auto
qed

lemma distinct_alphabet: "distinct b64_alphabet"
proof -
  have "i = j" if "i < 64" "j < 64" "b64_alphabet ! i = b64_alphabet ! j" for i j
  proof -
    have "(word_of_nat i :: byte) = word_of_nat j"
      using that ascii_of_alphabet(1) by metis
    then have "unat (word_of_nat i :: byte) = unat (word_of_nat j :: byte)" by simp
    then show "i = j" using that by (simp add: unat_of_nat)
  qed
  then show ?thesis by (auto simp: distinct_conv_nth length_alphabet)
qed

lemma index_alphabet: "n < 64 \<Longrightarrow> b64_index (b64_alphabet ! n) = word_of_nat n"
proof -
  assume n: "n < 64"
  have "takeWhile (\<lambda>x. x \<noteq> b64_alphabet ! n) b64_alphabet = take n b64_alphabet"
  proof (rule takeWhile_eq_take_P_nth)
    show "b64_alphabet ! i \<noteq> b64_alphabet ! n" if "i < n" for i
      using that n distinct_alphabet by (simp add: nth_eq_iff_index_eq length_alphabet)
  qed simp
  then show ?thesis using n by (simp add: b64_index_def length_alphabet)
qed

lemma ascii_to_bin_eq:
  "base64_ascii_to_bin a =
     (if a = 61 then 0 else if a \<in> set b64_alphabet then b64_index a else 0xff)"
proof (cases "a \<in> set b64_alphabet")
  case True
  then obtain n where "n < 64" "a = b64_alphabet ! n"
    by (auto simp: in_set_conv_nth length_alphabet)
  then show ?thesis using True ascii_of_alphabet [of n] index_alphabet [of n] by simp
next
  case False
  then show ?thesis using ascii_invalid [of a] by (auto simp: ascii_to_bin_if)
qed

lemma index_less: "a \<in> set b64_alphabet \<Longrightarrow> unat (b64_index a) < 64"
  by (auto simp: in_set_conv_nth length_alphabet index_alphabet unat_of_nat)

subsection \<open>Encoding is RFC 4648\<close>

lemma bit_bits_value: "length bs \<le> 8 \<Longrightarrow> bit (bits_value bs) n \<longleftrightarrow> n < length bs \<and> rev bs ! n"
  by (auto simp: bits_value_def bit_horner_sum_bit_word_iff)

lemma less_8_cases: "n < 8 \<Longrightarrow> n = 0 \<or> n = 1 \<or> n = 2 \<or> n = 3 \<or> n = 4 \<or> n = 5 \<or> n = 6 \<or> n = (7 :: nat)"
  by arith

lemma byte_eqI: "(\<And>n. n \<in> {0, 1, 2, 3, 4, 5, 6, 7} \<Longrightarrow> bit a n \<longleftrightarrow> bit b n) \<Longrightarrow> a = (b :: byte)"
proof (rule bit_word_eqI)
  fix n
  assume "\<And>n. n \<in> {0, 1, 2, 3, 4, 5, 6, 7} \<Longrightarrow> bit a n \<longleftrightarrow> bit b n" "n < LENGTH(8)"
  then show "bit a n \<longleftrightarrow> bit b n" using less_8_cases [of n] by auto
qed

lemma bit_3f: "bit (0x3f :: byte) n \<longleftrightarrow> n < 6"
  using bit_mask_iff [of 6 n, where 'a = byte] by (auto simp: mask_eq_exp_minus_1)

lemma sextets_Cons:
  "sextets (a # b # c # d # e # f # r) = bits_value [a, b, c, d, e, f] # sextets r"
  by (subst sextets.simps) simp

lemma sextets_Nil [simp]: "sextets [] = []"
  by (simp add: sextets.simps)

lemma sextets_2: "sextets [a, b] = [bits_value [a, b, False, False, False, False]]"
  by (subst sextets.simps) (simp add: numeral_nat)

lemma sextets_4: "sextets [a, b, c, d] = [bits_value [a, b, c, d, False, False]]"
  by (subst sextets.simps) (simp add: numeral_nat)

lemmas sextet_groups = sextets_Cons sextets_2 sextets_4

lemma less_6_cases: "n < 6 \<Longrightarrow> n = 0 \<or> n = 1 \<or> n = 2 \<or> n = 3 \<or> n = 4 \<or> n = (5 :: nat)"
  by arith

lemma conv_of_bits:
  assumes "bit x 5 = a" "bit x 4 = b" "bit x 3 = c" "bit x 2 = d" "bit x 1 = e" "bit x 0 = f"
  shows "conv_bin2ascii x = b64_alphabet ! unat (bits_value [a, b, c, d, e, f])"
proof -
  have "bit (x AND 0x3f) n \<longleftrightarrow> bit (bits_value [a, b, c, d, e, f]) n" for n
    unfolding bit_and_iff bit_3f using assms less_6_cases [of n] by (auto simp: bit_bits_value)
  then have "x AND 0x3f = bits_value [a, b, c, d, e, f]" by (intro bit_word_eqI) simp
  then show ?thesis by (simp add: conv_bin2ascii_eq)
qed

lemma bit_u32_byte: "bit (ucast (b :: byte) :: u32) n \<longleftrightarrow> n < 8 \<and> bit b n"
  by (auto simp: bit_simps dest: bit_imp_le_length)

lemma encode_chars:
  fixes s0 s1 s2 :: byte
  defines "l \<equiv> push_bit 16 (ucast s0) OR push_bit 8 (ucast s1) OR ucast s2 :: u32"
  shows
    "conv_bin2ascii (ucast (drop_bit 18 l)) =
       b64_alphabet ! unat (bits_value [bit s0 7, bit s0 6, bit s0 5, bit s0 4, bit s0 3, bit s0 2])"
    "conv_bin2ascii (ucast (drop_bit 12 l)) =
       b64_alphabet ! unat (bits_value [bit s0 1, bit s0 0, bit s1 7, bit s1 6, bit s1 5, bit s1 4])"
    "conv_bin2ascii (ucast (drop_bit 6 l)) =
       b64_alphabet ! unat (bits_value [bit s1 3, bit s1 2, bit s1 1, bit s1 0, bit s2 7, bit s2 6])"
    "conv_bin2ascii (ucast l) =
       b64_alphabet ! unat (bits_value [bit s2 5, bit s2 4, bit s2 3, bit s2 2, bit s2 1, bit s2 0])"
proof -
  have l: "bit l n \<longleftrightarrow> (16 \<le> n \<and> n < 24 \<and> bit s0 (n - 16)) \<or> (8 \<le> n \<and> n < 16 \<and> bit s1 (n - 8)) \<or> n < 8 \<and> bit s2 n"
    for n
    unfolding l_def by (auto simp: bit_or_iff bit_push_bit_iff bit_u32_byte)
  show "conv_bin2ascii (ucast (drop_bit 18 l)) =
       b64_alphabet ! unat (bits_value [bit s0 7, bit s0 6, bit s0 5, bit s0 4, bit s0 3, bit s0 2])"
    by (rule conv_of_bits) (simp_all add: bit_ucast_iff bit_drop_bit_eq l)
  show "conv_bin2ascii (ucast (drop_bit 12 l)) =
       b64_alphabet ! unat (bits_value [bit s0 1, bit s0 0, bit s1 7, bit s1 6, bit s1 5, bit s1 4])"
    by (rule conv_of_bits) (simp_all add: bit_ucast_iff bit_drop_bit_eq l)
  show "conv_bin2ascii (ucast (drop_bit 6 l)) =
       b64_alphabet ! unat (bits_value [bit s1 3, bit s1 2, bit s1 1, bit s1 0, bit s2 7, bit s2 6])"
    by (rule conv_of_bits) (simp_all add: bit_ucast_iff bit_drop_bit_eq l)
  show "conv_bin2ascii (ucast l) =
       b64_alphabet ! unat (bits_value [bit s2 5, bit s2 4, bit s2 3, bit s2 2, bit s2 1, bit s2 0])"
    by (rule conv_of_bits) (simp_all add: bit_ucast_iff l)
qed

lemma rfc4648_encode_simps:
  "rfc4648_encode [] = []"
  "rfc4648_encode [a] = map (\<lambda>s. b64_alphabet ! unat s) (sextets (octet_bits a)) @ [61, 61]"
  "rfc4648_encode [a, b] = map (\<lambda>s. b64_alphabet ! unat s) (sextets (octet_bits a @ octet_bits b)) @ [61]"
  "rfc4648_encode (a # b # c # r) =
     map (\<lambda>s. b64_alphabet ! unat s) (sextets (octet_bits a @ octet_bits b @ octet_bits c)) @ rfc4648_encode r"
  by (simp_all add: rfc4648_encode_def octet_bits_def sextet_groups numeral_2_eq_2)

lemma rfc4648_encode_induct:
  assumes "P []" "\<And>a. P [a]" "\<And>a b. P [a, b]" "\<And>a b c r. P r \<Longrightarrow> P (a # b # c # r)"
  shows "P (bs :: bytes)"
  using assms by (induction_schema) (pat_completeness, lexicographic_order)

lemma encode_loop_eq:
  "encode_loop src dst ret = (dst @ rfc4648_encode src, ret + length (rfc4648_encode src))"
proof (induction src dst ret rule: encode_loop.induct)
  case (2 s0 dst ret)
  show ?case
    using encode_chars [of s0 0 0]
    by (simp add: Let_def rfc4648_encode_simps octet_bits_def sextet_groups)
next
  case (3 s0 s1 dst ret)
  show ?case
    using encode_chars [of s0 s1 0]
    by (simp add: Let_def rfc4648_encode_simps octet_bits_def sextet_groups)
next
  case (4 s0 s1 s2 src dst ret)
  show ?case
    unfolding encode_loop.simps Let_def encode_chars "4.IH" [OF refl, unfolded encode_chars]
    by (simp add: rfc4648_encode_simps octet_bits_def sextet_groups)
qed (simp add: rfc4648_encode_simps)

lemma EncodeBlock_eq:
  "EVP_EncodeBlock src = (rfc4648_encode src @ [0], (length src + 2) div 3 * 4) \<and>
   length (rfc4648_encode src) = (length src + 2) div 3 * 4"
proof -
  have step: "(5 + n) div 3 = Suc ((2 + n) div 3)" for n :: nat
    using div_add_self1 [of 3 "2 + n"] by (simp add: add.commute)
  have "length (rfc4648_encode src) = (length src + 2) div 3 * 4"
    by (induction src rule: rfc4648_encode_induct)
      (simp_all add: rfc4648_encode_simps octet_bits_def sextet_groups step)
  then show ?thesis by (simp add: EVP_EncodeBlock_def encode_loop_eq)
qed


text \<open>C35. Encoding a block writes the RFC 4648 encoding of the input, stated over its bit
  string, followed by a NUL, and returns the number of characters, which is four for every
  started group of three input bytes.\<close>

theorem EVP_EncodeBlock_is_rfc4648:
  "EVP_EncodeBlock src = (rfc4648_encode src @ [0], length (rfc4648_encode src)) \<and>
   length (rfc4648_encode src) = (length src + 2) div 3 * 4"
  by (simp add: EncodeBlock_eq)

subsection \<open>Lengths\<close>

lemma unat_push_2: "unat (push_bit 2 w :: u64) = unat w * 4 mod 18446744073709551616"
  by (simp add: push_bit_eq_mult unat_word_ariths)

lemma mod_div_4_iff:
  assumes "0 < (m :: nat)"
  shows "n * 4 mod m div 4 = n \<longleftrightarrow> n * 4 < m"
proof
  assume "n * 4 mod m div 4 = n"
  then have "n * 4 \<le> n * 4 mod m"
    using div_times_less_eq_dividend [of "n * 4 mod m" 4] by simp
  also have "\<dots> < m" using assms by simp
  finally show "n * 4 < m" .
qed simp

text \<open>C39. \<open>EVP_EncodedLength\<close> never wraps: it succeeds exactly when the NUL-terminated encoding of
  \<open>len\<close> bytes has a size that fits a \<open>size_t\<close>, and then returns that size.\<close>

theorem EVP_EncodedLength_exact:
  "EVP_EncodedLength len =
     (let n = (unat len + 2) div 3 * 4 + 1 in if n < 2 ^ 64 then Some (word_of_nat n) else None)"
proof -
  have len: "unat len < 18446744073709551616" using unat_u64_less [of len] by simp
  show ?thesis
  proof (cases "unat len + 2 < 18446744073709551616")
    case True
    define q where "q = (len + 2) div 3"
    have up: "unat (len + 2) = unat len + 2"
      using True by (simp add: unat_word_ariths)
    have q: "unat q = (unat len + 2) div 3"
      unfolding q_def by (simp add: unat_div_distrib up)
    then have q3: "unat q * 3 < 18446744073709551616"
      using True by linarith
    have "drop_bit 2 (push_bit 2 q) = q \<longleftrightarrow> unat q * 4 < 18446744073709551616"
    proof -
      have "drop_bit 2 (push_bit 2 q) = q \<longleftrightarrow> unat q * 4 mod 18446744073709551616 div 4 = unat q"
        by (simp add: word_unat_eq_iff unat_drop_bit unat_push_2)
      then show ?thesis by (simp add: mod_div_4_iff)
    qed
    moreover have "unat (push_bit 2 q + 1) = unat q * 4 + 1" if "unat q * 4 < 18446744073709551616"
      using that unat_push_2 [of q] unat_u64_less [of q]
      by (simp add: unat_word_ariths)
    moreover have "\<not> len + 2 < len" using True up by (simp add: word_less_nat_alt)
    moreover have "\<not> push_bit 2 q + 1 < push_bit 2 q" if "unat q * 4 < 18446744073709551616"
      using that calculation(2) unat_push_2 [of q] by (simp add: word_less_nat_alt)
    ultimately have "EVP_EncodedLength len =
        (if unat q * 4 < 18446744073709551616 then Some (push_bit 2 q + 1) else None)"
      by (simp add: EVP_EncodedLength_def Let_def q_def [symmetric])
    moreover have "push_bit 2 q + 1 = word_of_nat (unat q * 4 + 1)"
      by (simp add: push_bit_eq_mult)
    moreover have "unat q * 4 + 1 < 18446744073709551616 \<longleftrightarrow> unat q * 4 < 18446744073709551616"
      by presburger
    ultimately show ?thesis unfolding q [symmetric] Let_def by simp
  next
    case False
    then have "len + 2 < len"
      using len by (auto simp: word_less_nat_alt unat_word_ariths mod_if)
    then show ?thesis using False by (simp add: EVP_EncodedLength_def Let_def)
  qed
qed


subsection \<open>Streaming encoding\<close>

text \<open>The PEM body: lines of 48 encoded bytes, the last one possibly shorter.\<close>

function split_lines :: "bytes \<Rightarrow> bytes \<times> bytes" where
  "split_lines w = (if length w < 48 then ([], w)
     else let (ls, r) = split_lines (drop 48 w) in (rfc4648_encode (take 48 w) @ [10] @ ls, r))"
  by pat_completeness auto
termination by (relation "measure length") auto

declare split_lines.simps [simp del]

definition pem_body :: "bytes \<Rightarrow> bytes" where
  "pem_body w = (let (ls, r) = split_lines w in ls @ (if r = [] then [] else rfc4648_encode r @ [10]))"

lemma split_lines_short: "length w < 48 \<Longrightarrow> split_lines w = ([], w)"
  by (simp add: split_lines.simps)

lemma split_lines_long:
  "length a = 48 \<Longrightarrow> split_lines (a @ w) =
     (rfc4648_encode a @ [10] @ fst (split_lines w), snd (split_lines w))"
  by (subst split_lines.simps) (simp add: case_prod_beta)

lemma split_lines_append:
  "split_lines (v @ w) =
     (fst (split_lines v) @ fst (split_lines (snd (split_lines v) @ w)),
      snd (split_lines (snd (split_lines v) @ w)))"
proof (induction v rule: split_lines.induct)
  case (1 v)
  show ?case
  proof (cases "length v < 48")
    case True
    then show ?thesis by (simp add: split_lines_short)
  next
    case False
    then have v: "v = take 48 v @ drop 48 v" "length (take 48 v) = 48" by simp_all
    show ?thesis
      using "1.IH" [OF False] v(2)
      by (subst (1 2 3 4) v(1)) (simp only: append_assoc split_lines_long fst_conv snd_conv)
  qed
qed

lemma length_rest: "length (snd (split_lines w)) < 48"
  by (induction w rule: split_lines.induct) (subst split_lines.simps, simp add: case_prod_beta)

lemma put_line_eq: "put_line out src = (out @ rfc4648_encode src @ [10], (length src + 2) div 3 * 4)"
  using EncodeBlock_eq [of src] by (simp add: put_line_def)


lemma length_lines: "length (fst (split_lines w)) = 65 * (length w div 48)"
proof (induction w rule: split_lines.induct)
  case (1 w)
  show ?case
  proof (cases "length w < 48")
    case False
    then have "length w div 48 = Suc (length (drop 48 w) div 48)"
      by (simp add: le_div_geq)
    then show ?thesis
      using False "1.IH" [OF False] EncodeBlock_eq [of "take 48 w"]
      by (subst split_lines.simps) (simp add: case_prod_beta)
  qed (simp add: split_lines_short)
qed

lemma no_wrap_65:
  assumes "unat (t :: u64) + 65 < 2 ^ 64"
  shows "unat (t + 65) = unat t + 65" "\<not> t + 64 + 1 < t"
proof -
  show "unat (t + 65) = unat t + 65" using assms by (simp add: unat_word_ariths)
  then show "\<not> t + 64 + 1 < t" by (simp add: word_less_nat_alt add.assoc)
qed

lemma update_lines_eq:
  "unat tot + 65 * (length inp div 48) < 2 ^ 64 \<Longrightarrow>
   update_lines inp out tot =
     (snd (split_lines inp), out @ fst (split_lines inp),
      tot + word_of_nat (65 * (length inp div 48)), False)"
proof (induction inp out tot rule: update_lines.induct)
  case (1 inp out tot)
  show ?case
  proof (cases "48 \<le> length inp")
    case True
    let ?r = "drop 48 inp"
    have len: "length inp div 48 = Suc (length ?r div 48)"
      using True by (simp add: le_div_geq)
    then have bound: "unat tot + 65 + 65 * (length ?r div 48) < 2 ^ 64"
      using "1.prems" by simp
    then have "unat tot + 65 < 2 ^ 64" by simp
    note nw = no_wrap_65 [OF this]
    have put: "put_line out (take 48 inp) = (out @ rfc4648_encode (take 48 inp) @ [10], 64)"
      using True by (simp add: put_line_eq)
    have "update_lines ?r (out @ rfc4648_encode (take 48 inp) @ [10]) (tot + (word_of_nat 64 + 1)) =
        (snd (split_lines ?r), (out @ rfc4648_encode (take 48 inp) @ [10]) @ fst (split_lines ?r),
         tot + (word_of_nat 64 + 1) + word_of_nat (65 * (length ?r div 48)), False)"
      using bound nw by (intro "1.IH" [OF True put [symmetric] refl refl]) simp_all
    moreover have "split_lines inp = (rfc4648_encode (take 48 inp) @ [10] @ fst (split_lines ?r), snd (split_lines ?r))"
      using True by (subst split_lines.simps) (simp add: case_prod_beta)
    ultimately show ?thesis
      using True nw(2) by (subst update_lines.simps) (simp add: put len Let_def)
  next
    case False
    then show ?thesis by (simp add: update_lines.simps split_lines_short)
  qed
qed

definition enc_ok :: "encode_ctx \<Rightarrow> bool" where
  "enc_ok ctx \<longleftrightarrow> data_used ctx < 48 \<and> length (data ctx) = 48"

definition pending :: "encode_ctx \<Rightarrow> bytes" where
  "pending ctx = take (data_used ctx) (data ctx)"

lemma take_of_write_at:
  "pos + length d \<le> length b \<Longrightarrow> take (pos + length d) (write_at b pos d) = take pos b @ d"
  by (simp add: write_at_def)

text \<open>The largest input whose encoding has a size that fits \<open>*out_len\<close>.\<close>

definition MAX_UPDATE :: nat where
  "MAX_UPDATE = 1500000000"

lemma encode_first_line_eq:
  assumes ok: "enc_ok ctx" and len: "48 - data_used ctx \<le> length inp"
  obtains ctx1 rest out1 t1 where
    "encode_first_line ctx inp = (ctx1, rest, out1, t1)"
    "split_lines (pending ctx @ inp) = (out1 @ fst (split_lines rest), snd (split_lines rest))"
    "unat t1 = length out1" "length out1 \<le> 65" "length (data ctx1) = 48" "length rest \<le> length inp"
proof (cases "data_used ctx = 0")
  case True
  then show ?thesis
    using ok by (intro that [of ctx inp "[]" 0]) (simp_all add: encode_first_line_def pending_def enc_ok_def)
next
  case False
  let ?todo = "48 - data_used ctx"
  define line where "line = pending ctx @ take ?todo inp"
  have line: "write_at (data ctx) (data_used ctx) (take ?todo inp) = line" "length line = 48"
      "pending ctx @ inp = line @ drop ?todo inp"
    using False ok len by (simp_all add: write_at_def line_def pending_def enc_ok_def)
  then have enc: "length (rfc4648_encode line) = 64" using EncodeBlock_eq [of line] by simp
  show ?thesis
    by (rule that [of "ctx\<lparr>data := line, data_used := 0\<rparr>" "drop ?todo inp" "rfc4648_encode line @ [10]" 65])
      (use False enc line(2) in \<open>simp_all add: line(1,3) put_line_eq split_lines_long
        encode_first_line_def Let_def\<close>)
qed

lemma update_full:
  assumes ok: "enc_ok ctx" and len: "length inp \<le> MAX_UPDATE" "48 - data_used ctx \<le> length inp"
    and ls: "split_lines (pending ctx @ inp) = (ls, r)"
  shows "\<exists>ctx'. EVP_EncodeUpdate ctx inp = Some (ctx', terminated ls, length ls) \<and>
    enc_ok ctx' \<and> pending ctx' = r"
proof -
  obtain ctx1 rest out1 t1 where first: "encode_first_line ctx inp = (ctx1, rest, out1, t1)"
      and split: "split_lines (pending ctx @ inp) = (out1 @ fst (split_lines rest), snd (split_lines rest))"
      and t1: "unat t1 = length out1" "length out1 \<le> 65"
      and ctx1: "length (data ctx1) = 48" "length rest \<le> length inp"
    using encode_first_line_eq [OF ok len(2)] .
  have small: "65 * (length rest div 48) \<le> 2031250000"
    using len ctx1(2) unfolding MAX_UPDATE_def by linarith
  obtain t2 where lines: "update_lines rest out1 t1 = (r, ls, t2, False)" and tot: "unat t2 = length ls"
  proof
    show "update_lines rest out1 t1 = (r, ls, t1 + word_of_nat (65 * (length rest div 48)), False)"
      using t1 small ls split by (subst update_lines_eq) simp_all
    show "unat (t1 + word_of_nat (65 * (length rest div 48)) :: u64) = length ls"
      using t1 small ls split length_lines [of rest] by (auto simp: unat_word_ariths unat_of_nat)
  qed
  have le: "\<not> length ls > INT_MAX"
    using small t1 ls split length_lines [of rest] by (auto simp: INT_MAX_def)
  have r: "length r < 48" using ls length_rest [of "pending ctx @ inp"] by simp
  let ?ctx = "(if length r \<noteq> 0 then ctx1\<lparr>data := write_at (data ctx1) 0 r\<rparr> else ctx1)\<lparr>data_used := length r\<rparr>"
  have "EVP_EncodeUpdate ctx inp = Some (?ctx, terminated ls, length ls)"
    using ok len(2) unfolding EVP_EncodeUpdate_def first enc_ok_def
    by (auto simp: lines tot le)
  moreover have "enc_ok ?ctx" using r ctx1 by (simp add: enc_ok_def)
  moreover have "pending ?ctx = r"
    using r ctx1 take_of_write_at [of 0 r "data ctx1"] by (simp add: pending_def)
  ultimately show ?thesis by blast
qed

lemma update_step:
  assumes ok: "enc_ok ctx" and len: "length inp \<le> MAX_UPDATE"
    and ls: "split_lines (pending ctx @ inp) = (ls, r)"
  shows "\<exists>ctx'. EVP_EncodeUpdate ctx inp = Some (ctx', terminated ls, length ls) \<and>
    enc_ok ctx' \<and> pending ctx' = r"
proof (cases "48 - data_used ctx \<le> length inp")
  case False
  let ?u = "data_used ctx"
  have u: "?u < 48" "length (data ctx) = 48" using ok by (simp_all add: enc_ok_def)
  then have room: "?u + length inp < 48" using False by linarith
  then have "length (pending ctx @ inp) < 48" using u by (simp add: pending_def)
  then have [simp]: "ls = []" "r = pending ctx @ inp" using ls by (simp_all add: split_lines_short)
  let ?ctx = "if inp = [] then ctx
    else ctx\<lparr>data := write_at (data ctx) ?u inp, data_used := ?u + length inp\<rparr>"
  have "EVP_EncodeUpdate ctx inp = Some (?ctx, terminated ls, length ls) \<and> enc_ok ?ctx \<and> pending ?ctx = r"
    using False u room by (simp add: EVP_EncodeUpdate_def terminated_def pending_def enc_ok_def take_of_write_at)
  then show ?thesis by blast
qed (rule update_full [OF ok len _ ls])

text \<open>A caller of the streaming encoder: it keeps \<open>*out_len\<close> bytes of every output.\<close>

fun encode_stream :: "encode_ctx \<Rightarrow> bytes \<Rightarrow> bytes list \<Rightarrow> bytes option" where
  "encode_stream ctx acc [] =
     (let (ctx, out, out_len) = EVP_EncodeFinal ctx in Some (acc @ take out_len out))"
| "encode_stream ctx acc (c # cs) =
     (case EVP_EncodeUpdate ctx c of
        None \<Rightarrow> None
      | Some (ctx, out, out_len) \<Rightarrow> encode_stream ctx (acc @ take out_len out) cs)"

lemma take_terminated [simp]: "take (length out) (terminated out) = out"
  by (simp add: terminated_def)

lemma encode_stream_eq:
  "enc_ok ctx \<Longrightarrow> \<forall>c \<in> set cs. length c \<le> MAX_UPDATE \<Longrightarrow>
   encode_stream ctx acc cs = Some (acc @ pem_body (pending ctx @ concat cs))"
proof (induction cs arbitrary: ctx acc)
  case Nil
  then show ?case
    using EncodeBlock_eq [of "pending ctx"]
    by (auto simp: EVP_EncodeFinal_def pem_body_def split_lines_short put_line_eq terminated_def
        enc_ok_def pending_def)
next
  case (Cons c cs)
  obtain ls r where ls: "split_lines (pending ctx @ c) = (ls, r)" by fastforce
  obtain ctx' where "EVP_EncodeUpdate ctx c = Some (ctx', terminated ls, length ls)"
      "enc_ok ctx'" "pending ctx' = r"
    using update_step [OF Cons.prems(1) _ ls] Cons.prems(2) by auto
  then show ?case
    using Cons ls split_lines_append [of "pending ctx @ c" "concat cs"]
    by (simp add: pem_body_def case_prod_beta)
qed

text \<open>However the input is cut into pieces, and whatever the pieces' sizes up to the bound
  that keeps \<open>*out_len\<close> an \<open>int\<close>, the streaming encoder never fails its assertion and produces
  the PEM body of the whole input: lines of 48 encoded bytes, each closed by a newline.\<close>

theorem base64_streaming_encode:
  assumes "\<forall>c \<in> set chunks. length c \<le> MAX_UPDATE"
  shows "encode_stream EVP_EncodeInit [] chunks = Some (pem_body (concat chunks))"
  using encode_stream_eq [of EVP_EncodeInit chunks "[]"] assms
  by (simp add: enc_ok_def pending_def EVP_EncodeInit_def)

theorem base64_streaming_encode_witness:
  "encode_stream EVP_EncodeInit [] [[1, 2], [], replicate 60 7] =
     Some (pem_body (concat [[1, 2], [], replicate 60 7]))"
  by (rule base64_streaming_encode) (simp add: MAX_UPDATE_def)


subsection \<open>Decoding is RFC 4648\<close>

lemma octets_Cons:
  "octets (a # b # c # d # e # f # g # h # r) = bits_value [a, b, c, d, e, f, g, h] # octets r"
  by (subst octets.simps) simp

lemma octets_short [simp]: "length bs < 8 \<Longrightarrow> octets bs = []"
  by (simp add: octets.simps)

lemma bits_value_eqI:
  assumes "bit x 7 = a" "bit x 6 = b" "bit x 5 = c" "bit x 4 = d"
    and "bit x 3 = e" "bit x 2 = f" "bit x 1 = g" "bit x 0 = h"
  shows "x = bits_value [a, b, c, d, e, f, g, h]"
proof (rule bit_word_eqI)
  fix n assume "n < LENGTH(8)"
  then have "n = 0 \<or> n = 1 \<or> n = 2 \<or> n = 3 \<or> n = 4 \<or> n = 5 \<or> n = 6 \<or> n = 7"
    using less_8_cases by simp
  then show "bit x n = bit (bits_value [a, b, c, d, e, f, g, h]) n"
    by (elim disjE) (simp_all add: bit_bits_value assms [simplified])
qed

lemma bit_push_sextet:
  assumes "\<forall>n\<ge>6. \<not> bit (x :: byte) n" "k \<le> 18"
  shows "bit (push_bit k (ucast x) :: u32) n \<longleftrightarrow> k \<le> n \<and> n < k + 6 \<and> bit x (n - k)"
proof (cases "k \<le> n \<and> bit x (n - k)")
  case True
  then have "n - k < 6" using assms(1) not_le by blast
  then have "n < k + 6" "n - k < 8" "n < 32" using assms(2) True by simp_all
  then show ?thesis using True by (simp add: bit_push_bit_iff bit_u32_byte)
qed (auto simp: bit_push_bit_iff bit_u32_byte)

lemma decoded_bytes:
  fixes w x y z :: byte
  defines "v \<equiv> push_bit 18 (ucast w) OR push_bit 12 (ucast x) OR push_bit 6 (ucast y) OR ucast z :: u32"
  assumes "\<forall>n\<ge>6. \<not> bit w n" "\<forall>n\<ge>6. \<not> bit x n" "\<forall>n\<ge>6. \<not> bit y n" "\<forall>n\<ge>6. \<not> bit z n"
  shows "ucast (drop_bit 16 v) = bits_value [bit w 5, bit w 4, bit w 3, bit w 2, bit w 1, bit w 0, bit x 5, bit x 4]"
    and "ucast (drop_bit 8 v) = bits_value [bit x 3, bit x 2, bit x 1, bit x 0, bit y 5, bit y 4, bit y 3, bit y 2]"
    and "ucast v = bits_value [bit y 1, bit y 0, bit z 5, bit z 4, bit z 3, bit z 2, bit z 1, bit z 0]"
proof -
  have v: "bit v n \<longleftrightarrow> (18 \<le> n \<and> n < 24 \<and> bit w (n - 18)) \<or> (12 \<le> n \<and> n < 18 \<and> bit x (n - 12)) \<or>
      (6 \<le> n \<and> n < 12 \<and> bit y (n - 6)) \<or> (n < 6 \<and> bit z n)" for n
    unfolding v_def bit_or_iff
    using bit_push_sextet [OF assms(2), of 18 n] bit_push_sextet [OF assms(3), of 12 n]
      bit_push_sextet [OF assms(4), of 6 n] bit_push_sextet [OF assms(5), of 0 n] by simp
  show "ucast (drop_bit 16 v) = bits_value [bit w 5, bit w 4, bit w 3, bit w 2, bit w 1, bit w 0, bit x 5, bit x 4]"
    by (rule bits_value_eqI) (simp_all add: bit_ucast_iff bit_drop_bit_eq v)
  show "ucast (drop_bit 8 v) = bits_value [bit x 3, bit x 2, bit x 1, bit x 0, bit y 5, bit y 4, bit y 3, bit y 2]"
    by (rule bits_value_eqI) (simp_all add: bit_ucast_iff bit_drop_bit_eq v)
  show "ucast v = bits_value [bit y 1, bit y 0, bit z 5, bit z 4, bit z 3, bit z 2, bit z 1, bit z 0]"
    by (rule bits_value_eqI) (simp_all add: bit_ucast_iff v)
qed

lemma pad_not_in_alphabet [simp]: "\<not> in_alphabet 61"
  using ascii_of_alphabet(2) by (auto simp: in_alphabet_def in_set_conv_nth length_alphabet)

lemma index_bits: "in_alphabet c \<Longrightarrow> 6 \<le> n \<Longrightarrow> \<not> bit (b64_index c) n"
  using index_less [of c] not_bit_above [of "b64_index c" 6 n] by (simp add: in_alphabet_def)

lemma index_not_ff: "in_alphabet c \<Longrightarrow> b64_index c \<noteq> 0xff"
  using index_less [of c] by (auto simp: in_alphabet_def)

lemma padding_pattern:
  "push_bit 3 (of_bool p) OR push_bit 2 (of_bool q) OR push_bit 1 (of_bool r) OR of_bool s = (0 :: u32) \<longleftrightarrow>
     \<not> p \<and> \<not> q \<and> \<not> r \<and> \<not> s"
  "push_bit 3 (of_bool p) OR push_bit 2 (of_bool q) OR push_bit 1 (of_bool r) OR of_bool s = (1 :: u32) \<longleftrightarrow>
     \<not> p \<and> \<not> q \<and> \<not> r \<and> s"
  "push_bit 3 (of_bool p) OR push_bit 2 (of_bool q) OR push_bit 1 (of_bool r) OR of_bool s = (3 :: u32) \<longleftrightarrow>
     \<not> p \<and> \<not> q \<and> r \<and> s"
  by (cases p; cases q; cases r; cases s; simp)+

lemma decode_quad_eq:
  "base64_decode_quad (a # b # c # d # r) =
     (if in_alphabet a \<and> in_alphabet b \<and> in_alphabet c \<and> in_alphabet d
      then Some (octets (char_bits a @ char_bits b @ char_bits c @ char_bits d))
      else if in_alphabet a \<and> in_alphabet b \<and> in_alphabet c \<and> d = 61
      then Some (octets (char_bits a @ char_bits b @ char_bits c))
      else if in_alphabet a \<and> in_alphabet b \<and> c = 61 \<and> d = 61
      then Some (octets (char_bits a @ char_bits b))
      else None)"
proof -
  note ascii = ascii_to_bin_eq [folded in_alphabet_def]
  define g where "g x = (if x = 61 then 0 else b64_index x)" for x
  consider "\<not> (in_alphabet a \<or> a = 61) \<or> \<not> (in_alphabet b \<or> b = 61) \<or>
      \<not> (in_alphabet c \<or> c = 61) \<or> \<not> (in_alphabet d \<or> d = 61)"
    | "in_alphabet a \<or> a = 61" "in_alphabet b \<or> b = 61" "in_alphabet c \<or> c = 61" "in_alphabet d \<or> d = 61"
    by blast
  then show ?thesis
  proof cases
    case 1
    then show ?thesis by (auto simp: base64_decode_quad_def Let_def ascii)
  next
    case 2
    have g: "base64_ascii_to_bin x = g x" "g x \<noteq> 0xff" "\<forall>n\<ge>6. \<not> bit (g x) n"
      if "in_alphabet x \<or> x = 61" for x
      using that index_bits [of x] index_not_ff [of x] by (auto simp: ascii g_def)
    have g_in: "in_alphabet x \<Longrightarrow> g x = b64_index x" for x by (auto simp: g_def)
    have nth: "(a # b # c # d # r) ! 0 = a" "(a # b # c # d # r) ! 1 = b"
        "(a # b # c # d # r) ! 2 = c" "(a # b # c # d # r) ! 3 = d"
      by (simp_all add: numeral_2_eq_2 numeral_3_eq_3)
    have "base64_decode_quad (a # b # c # d # r) =
      (if a \<noteq> 61 \<and> b \<noteq> 61 \<and> c \<noteq> 61 \<and> d \<noteq> 61 then
         Some [bits_value [bit (g a) 5, bit (g a) 4, bit (g a) 3, bit (g a) 2, bit (g a) 1, bit (g a) 0, bit (g b) 5, bit (g b) 4],
               bits_value [bit (g b) 3, bit (g b) 2, bit (g b) 1, bit (g b) 0, bit (g c) 5, bit (g c) 4, bit (g c) 3, bit (g c) 2],
               bits_value [bit (g c) 1, bit (g c) 0, bit (g d) 5, bit (g d) 4, bit (g d) 3, bit (g d) 2, bit (g d) 1, bit (g d) 0]]
       else if a \<noteq> 61 \<and> b \<noteq> 61 \<and> c \<noteq> 61 \<and> d = 61 then
         Some [bits_value [bit (g a) 5, bit (g a) 4, bit (g a) 3, bit (g a) 2, bit (g a) 1, bit (g a) 0, bit (g b) 5, bit (g b) 4],
               bits_value [bit (g b) 3, bit (g b) 2, bit (g b) 1, bit (g b) 0, bit (g c) 5, bit (g c) 4, bit (g c) 3, bit (g c) 2]]
       else if a \<noteq> 61 \<and> b \<noteq> 61 \<and> c = 61 \<and> d = 61 then
         Some [bits_value [bit (g a) 5, bit (g a) 4, bit (g a) 3, bit (g a) 2, bit (g a) 1, bit (g a) 0, bit (g b) 5, bit (g b) 4]]
       else None)"
      unfolding base64_decode_quad_def nth Let_def g(1) [OF 2(1)] g(1) [OF 2(2)] g(1) [OF 2(3)] g(1) [OF 2(4)]
        padding_pattern
        decoded_bytes [OF g(3) [OF 2(1)] g(3) [OF 2(2)] g(3) [OF 2(3)] g(3) [OF 2(4)]]
      using g(2) [OF 2(1)] g(2) [OF 2(2)] g(2) [OF 2(3)] g(2) [OF 2(4)] by simp
    then show ?thesis
      using 2 by (auto simp: g_in octets_Cons char_bits_def sextet_bits_def)
  qed
qed


lemma octets_append: "length bs mod 8 = 0 \<Longrightarrow> octets (bs @ r) = octets bs @ octets r"
proof (induction bs rule: octets.induct)
  case (1 bs)
  show ?case
  proof (cases "length bs < 8")
    case True
    then show ?thesis using "1.prems" by simp
  next
    case False
    then have "octets (bs @ r) = bits_value (take 8 bs) # octets (drop 8 bs @ r)"
      by (subst octets.simps) simp
    also have "octets (drop 8 bs @ r) = octets (drop 8 bs) @ octets r"
      using False "1.prems" by (intro "1.IH") (simp_all add: le_mod_geq)
    finally show ?thesis using False by (subst (2) octets.simps) simp
  qed
qed

lemma length_octets_of: "length (octets bs) = length bs div 8"
  by (induction bs rule: octets.induct) (subst octets.simps, simp add: le_div_geq)

lemma length_char_bits [simp]: "length (char_bits c) = 6"
  by (simp add: char_bits_def sextet_bits_def)

lemma octets_quad [simp]:
  "length (octets (char_bits a @ char_bits b @ char_bits c @ char_bits d)) = 3"
  "length (octets (char_bits a @ char_bits b @ char_bits c)) = 2"
  "length (octets (char_bits a @ char_bits b)) = 1"
  by (simp_all add: length_octets_of)

lemma rfc4648_decode_Nil: "rfc4648_decode [] = Some []"
  by (simp add: rfc4648_decode_def b64_well_formed_def)

lemma dropWhile_pad:
  "61 \<in> set xs \<Longrightarrow> length ys < length (dropWhile (\<lambda>c. c \<noteq> (61 :: byte)) (xs @ ys))"
  by (induction xs) auto

lemma mod_4_append: "length xs = 4 \<Longrightarrow> length (xs @ ys) mod 4 = length ys mod 4"
  by simp

lemma length_concat_char_bits: "length (concat (map char_bits q)) = 6 * length q"
  by (induction q) simp_all

lemma takeWhile_no_pad:
  "\<forall>c \<in> set q. in_alphabet c \<Longrightarrow> takeWhile (\<lambda>c. c \<noteq> 61) (q @ r) = q @ takeWhile (\<lambda>c. c \<noteq> 61) r"
  by (rule takeWhile_append2) auto

lemma b64_well_formed_append:
  assumes q: "length q = 4" "\<forall>c \<in> set q. in_alphabet c"
  shows "b64_well_formed (q @ r) \<longleftrightarrow> b64_well_formed r"
proof -
  have "dropWhile (\<lambda>c. c \<noteq> 61) (q @ r) = dropWhile (\<lambda>c. c \<noteq> 61) r"
    using q(2) by (intro dropWhile_append2) auto
  then show ?thesis
    unfolding b64_well_formed_def takeWhile_no_pad [OF q(2)] mod_4_append [OF q(1)] set_append ball_Un
    using q(2) by simp
qed

lemma rfc4648_decode_append:
  assumes q: "length q = 4" "\<forall>c \<in> set q. in_alphabet c"
  shows "rfc4648_decode (q @ r) =
    map_option (\<lambda>rest. octets (concat (map char_bits q)) @ rest) (rfc4648_decode r)"
  unfolding rfc4648_decode_def b64_well_formed_append [OF q] takeWhile_no_pad [OF q(2)]
    map_append concat_append
  using q(1) by (simp add: octets_append length_concat_char_bits)

lemma rfc4648_decode_bad:
  assumes q: "length q = 4" "\<not> (\<forall>c \<in> set q. in_alphabet c)" and r: "r \<noteq> []"
  shows "rfc4648_decode (q @ r) = None"
proof -
  have "\<not> b64_well_formed (q @ r)"
  proof
    assume wf: "b64_well_formed (q @ r)"
    then have "4 dvd length r"
      using q(1) mod_4_append by (auto simp: b64_well_formed_def mod_eq_0_iff_dvd)
    then have r4: "4 \<le> length r" using r by (intro dvd_imp_le) auto
    have short: "length (dropWhile (\<lambda>c. c \<noteq> 61) (q @ r)) \<le> 2"
      using wf [unfolded b64_well_formed_def, THEN conjunct2, THEN conjunct1]
      by (elim insertE emptyE; elim ssubst; simp)
    then have "61 \<notin> set q" using dropWhile_pad [of q r] r4 by linarith
    then have "takeWhile (\<lambda>c. c \<noteq> 61) (q @ r) = q @ takeWhile (\<lambda>c. c \<noteq> 61) r"
      by (intro takeWhile_append2) auto
    then show False using wf q(2) unfolding b64_well_formed_def by auto
  qed
  then show ?thesis by (simp add: rfc4648_decode_def b64_well_formed_def)
qed

lemma rfc4648_decode_last:
  assumes "\<not> (in_alphabet a \<and> in_alphabet b \<and> in_alphabet c \<and> in_alphabet d)"
  shows "rfc4648_decode [a, b, c, d] =
    (if in_alphabet a \<and> in_alphabet b \<and> in_alphabet c \<and> d = 61
     then Some (octets (char_bits a @ char_bits b @ char_bits c))
     else if in_alphabet a \<and> in_alphabet b \<and> c = 61 \<and> d = 61
     then Some (octets (char_bits a @ char_bits b))
     else None)"
proof -
  have "in_alphabet x \<Longrightarrow> x \<noteq> 61" for x by auto
  then show ?thesis
    using assms by (cases "a = 61"; cases "b = 61"; cases "c = 61"; cases "d = 61")
      (simp_all add: rfc4648_decode_def b64_well_formed_def)
qed


lemma quad_of_list: "length q = 4 \<Longrightarrow> \<exists>a b c d. q = [a, b, c, d]"
  by (auto simp: length_Suc_conv numeral_eq_Suc)

lemma decode_quads_eq:
  "length inp mod 4 = 0 \<Longrightarrow>
   (case rfc4648_decode inp of
      Some o3 \<Rightarrow> decode_quads inp out n = (out @ o3, n + length o3, True)
    | None \<Rightarrow> \<not> snd (snd (decode_quads inp out n)))"
proof (induction "length inp" arbitrary: inp out n rule: less_induct)
  case less
  show ?case
  proof (cases "inp = []")
    case True
    then show ?thesis by (simp add: rfc4648_decode_Nil decode_quads.simps)
  next
    case False
    then have "4 \<le> length inp" using less.prems by (intro dvd_imp_le) (auto simp: mod_eq_0_iff_dvd)
    then obtain a b c d r where inp: "inp = [a, b, c, d] @ r"
      using quad_of_list [of "take 4 inp"] by (metis append_take_drop_id length_take min.absorb2)
    have r: "length r mod 4 = 0" using less.prems inp mod_4_append [of "[a, b, c, d]" r] by simp
    have step: "decode_quads inp out n =
      (case base64_decode_quad (a # b # c # d # r) of
        None \<Rightarrow> (out, n, False)
      | Some o3 \<Rightarrow>
          if length o3 \<noteq> 3 \<and> r \<noteq> [] then (out @ o3, n + length o3, False)
          else decode_quads r (out @ o3) (n + length o3))"
      unfolding inp by (subst decode_quads.simps) (simp split: option.splits)
    show ?thesis
    proof (cases "in_alphabet a \<and> in_alphabet b \<and> in_alphabet c \<and> in_alphabet d")
      case True
      let ?o = "octets (char_bits a @ char_bits b @ char_bits c @ char_bits d)"
      have "decode_quads inp out n = decode_quads r (out @ ?o) (n + 3)"
        using True by (simp add: step decode_quad_eq)
      moreover have "rfc4648_decode inp = map_option (\<lambda>rest. ?o @ rest) (rfc4648_decode r)"
        unfolding inp using rfc4648_decode_append [of "[a, b, c, d]" r] True by simp
      ultimately show ?thesis
        using less.hyps [of r "out @ ?o" "n + 3"] r inp by (auto split: option.splits)
    next
      case False
      then show ?thesis
        using rfc4648_decode_last [OF False] rfc4648_decode_bad [of "[a, b, c, d]" r]
        by (cases "r = []") (auto simp: step decode_quad_eq inp decode_quads.simps)
    qed
  qed
qed

text \<open>C36. \<open>EVP_DecodeBase64\<close> accepts exactly the strings that RFC 4648 reads, given room for the
  longest result, and writes exactly the bytes they denote; every other string is refused with
  a zero length.\<close>

theorem EVP_DecodeBase64_exact:
  assumes "length inp div 4 * 3 \<le> max_out"
  shows "case rfc4648_decode inp of
      Some out \<Rightarrow> EVP_DecodeBase64 max_out inp = (True, out, length out)
    | None \<Rightarrow> \<exists>out. EVP_DecodeBase64 max_out inp = (False, out, 0)"
proof (cases "length inp mod 4 = 0")
  case True
  then show ?thesis
    using assms decode_quads_eq [OF True, of "[]" 0]
    by (auto simp: EVP_DecodeBase64_def EVP_DecodedLength_def case_prod_beta split: option.splits)
next
  case False
  then have "rfc4648_decode inp = None" by (simp add: rfc4648_decode_def b64_well_formed_def)
  then show ?thesis using False by (simp add: EVP_DecodeBase64_def)
qed

theorem EVP_DecodeBase64_exact_witness:
  "case rfc4648_decode [90, 109, 56, 61] of
      Some out \<Rightarrow> EVP_DecodeBase64 3 [90, 109, 56, 61] = (True, out, length out)
    | None \<Rightarrow> \<exists>out. EVP_DecodeBase64 3 [90, 109, 56, 61] = (False, out, 0)"
  by (rule EVP_DecodeBase64_exact) simp


subsection \<open>Round trip\<close>

lemma octet_bits_octets: "octets (octet_bits b @ r) = b # octets r"
proof -
  have "bits_value (octet_bits b) = b"
    unfolding octet_bits_def list.map
    by (rule bits_value_eqI [OF refl refl refl refl refl refl refl refl, symmetric])
  then show ?thesis by (simp add: octet_bits_def octets_Cons)
qed

lemma char_of_bits:
  assumes "length bs = 6"
  shows "in_alphabet (b64_alphabet ! unat (bits_value bs))"
    and "char_bits (b64_alphabet ! unat (bits_value bs)) = bs"
proof -
  obtain a b c d e f where bs: "bs = [a, b, c, d, e, f]"
    using assms by (auto simp: length_Suc_conv numeral_eq_Suc)
  have "bits_value bs AND mask 6 = bits_value bs"
    by (rule bit_word_eqI) (auto simp: bit_and_iff bit_mask_iff bit_bits_value bs)
  then have less: "unat (bits_value bs) < 64"
    using unat_and_mask [of "bits_value bs" 6] by simp
  then show "in_alphabet (b64_alphabet ! unat (bits_value bs))"
    by (simp add: in_alphabet_def length_alphabet)
  show "char_bits (b64_alphabet ! unat (bits_value bs)) = bs"
    using less by (simp add: char_bits_def index_alphabet sextet_bits_def bit_bits_value bs)
qed

lemma rfc4648_round_trip: "rfc4648_decode (rfc4648_encode bs) = Some bs"
proof (induction bs rule: rfc4648_encode_induct)
  case 1
  show ?case by (simp add: rfc4648_encode_simps rfc4648_decode_Nil)
next
  case (2 a)
  show ?case
    using octet_bits_octets [of a]
    by (simp add: rfc4648_encode_simps octet_bits_def sextet_groups rfc4648_decode_last char_of_bits octets_Cons)
next
  case (3 a b)
  show ?case
    using octet_bits_octets [of a] octet_bits_octets [of b]
    by (simp add: rfc4648_encode_simps octet_bits_def sextet_groups rfc4648_decode_last char_of_bits octets_Cons)
next
  case (4 a b c r)
  show ?case
    using 4 octet_bits_octets [of a] octet_bits_octets [of b] octet_bits_octets [of c]
    by (simp add: rfc4648_encode_simps octet_bits_def sextet_groups char_of_bits octets_Cons
      rfc4648_decode_append [of "[w, x, y, z]" for w x y z, simplified])
qed


lemma alphabet_not_space: "in_alphabet c \<or> c = 61 \<Longrightarrow> \<not> base64_space c"
proof
  assume c: "in_alphabet c \<or> c = 61" and "base64_space c"
  then have "base64_ascii_to_bin c = 0xff" by (auto simp: base64_space_def ascii_to_bin_if)
  then show False
    using c index_not_ff [of c] by (auto simp: ascii_to_bin_eq in_alphabet_def [symmetric] split: if_splits)
qed

lemma encode_chars_valid: "c \<in> set (rfc4648_encode bs) \<Longrightarrow> in_alphabet c \<or> c = 61"
proof -
  let ?s = "rfc4648_encode bs"
  assume c: "c \<in> set ?s"
  have wf: "b64_well_formed ?s"
    using rfc4648_round_trip [of bs] by (simp add: rfc4648_decode_def split: if_splits)
  have "c \<in> set (takeWhile (\<lambda>c. c \<noteq> 61) ?s) \<or> c \<in> set (dropWhile (\<lambda>c. c \<noteq> 61) ?s)"
    using c by (metis Un_iff set_append takeWhile_dropWhile_id)
  moreover have "set (dropWhile (\<lambda>c. c \<noteq> 61) ?s) \<subseteq> {61}"
    using wf [unfolded b64_well_formed_def, THEN conjunct2, THEN conjunct1]
    by (elim insertE emptyE; elim ssubst; simp)
  ultimately show ?thesis
    using wf unfolding b64_well_formed_def by blast
qed

lemma encode_not_space: "\<forall>c \<in> set (rfc4648_encode bs). \<not> base64_space c"
  using alphabet_not_space encode_chars_valid by blast

lemma dropWhile_none: "\<forall>c \<in> set xs. \<not> P c \<Longrightarrow> dropWhile P xs = xs"
  by (cases xs) simp_all

lemma pad_to_3_eq: "pad_to_3 dst n = (dst @ replicate ((3 - n mod 3) mod 3) 0, (n + 2) div 3 * 3)"
proof (induction dst n rule: pad_to_3.induct)
  case (1 dst n)
  show ?case
  proof (cases "n mod 3 = 0")
    case False
    then have mod: "n mod 3 = 1 \<and> (n + 1) mod 3 = 2 \<or> n mod 3 = 2 \<and> (n + 1) mod 3 = 0"
      by presburger
    then have "replicate ((3 - n mod 3) mod 3) 0 = 0 # replicate ((3 - (n + 1) mod 3) mod 3) (0 :: byte)"
      by (elim disjE conjE) (simp_all only: , simp_all add: numeral_2_eq_2)
    moreover have "(n + 1 + 2) div 3 = (n + 2) div 3" using False by presburger
    ultimately show ?thesis
      using False "1.IH" [OF False] by (subst pad_to_3.simps) (simp only: if_P append_assoc append.simps not_False_eq_True)
  next
    case True
    then show ?thesis by (subst pad_to_3.simps) (simp, presburger)
  qed
qed

lemma DecodeBase64_encode:
  assumes "(length src + 2) div 3 * 3 \<le> max_out"
  shows "EVP_DecodeBase64 max_out (rfc4648_encode src) = (True, src, length src)"
proof -
  have len: "length (rfc4648_encode src) = (length src + 2) div 3 * 4" by (simp add: EncodeBlock_eq)
  then have "length (rfc4648_encode src) mod 4 = 0" by simp
  from decode_quads_eq [OF this, of "[]" 0] show ?thesis
    using assms len by (simp add: EVP_DecodeBase64_def EVP_DecodedLength_def rfc4648_round_trip)
qed

text \<open>Decoding what the encoder wrote gives the input back: \<open>EVP_DecodeBase64\<close> exactly, with
  the buffer size \<open>EVP_DecodedLength\<close> announces, and \<open>EVP_DecodeBlock\<close> up to the zero bytes it
  puts back for the padding.\<close>

theorem base64_round_trip:
  assumes "length src \<le> MAX_UPDATE"
  shows "let enc = take (snd (EVP_EncodeBlock src)) (fst (EVP_EncodeBlock src)) in
    EVP_DecodedLength (length enc) = Some ((length src + 2) div 3 * 3) \<and>
    EVP_DecodeBase64 ((length src + 2) div 3 * 3) enc = (True, src, length src) \<and>
    EVP_DecodeBlock enc =
      (src @ replicate ((3 - length src mod 3) mod 3) 0, int ((length src + 2) div 3 * 3))"
proof -
  let ?s = "rfc4648_encode src"
  have enc: "take (snd (EVP_EncodeBlock src)) (fst (EVP_EncodeBlock src)) = ?s"
    by (simp add: EncodeBlock_eq)
  have len: "EVP_DecodedLength (length ?s) = Some ((length src + 2) div 3 * 3)"
    by (simp add: EncodeBlock_eq EVP_DecodedLength_def)
  have small: "\<not> (length src + 2) div 3 * 3 > INT_MAX"
    using assms unfolding INT_MAX_def MAX_UPDATE_def by linarith
  have "dropWhile (\<lambda>c. c = 32 \<or> c = 9) ?s = ?s"
    using encode_not_space [of src] by (intro dropWhile_none) (auto simp: base64_space_def)
  moreover have "dropWhile base64_space (rev ?s) = rev ?s"
    using encode_not_space [of src] by (intro dropWhile_none) simp
  ultimately have "EVP_DecodeBlock ?s =
      (src @ replicate ((3 - length src mod 3) mod 3) 0, int ((length src + 2) div 3 * 3))"
    unfolding EVP_DecodeBlock_def
    by (simp only: Let_def rev_rev_ident len option.case small if_False DecodeBase64_encode [OF order_refl]
        prod.case pad_to_3_eq not_True_eq_False)
  then show ?thesis
    unfolding enc Let_def using len DecodeBase64_encode [of src] by simp
qed

theorem base64_round_trip_witness:
  "let enc = take (snd (EVP_EncodeBlock [1, 2, 3, 250])) (fst (EVP_EncodeBlock [1, 2, 3, 250])) in
    EVP_DecodedLength (length enc) = Some ((length [1, 2, 3, 250 :: byte] + 2) div 3 * 3) \<and>
    EVP_DecodeBase64 ((length [1, 2, 3, 250 :: byte] + 2) div 3 * 3) enc =
      (True, [1, 2, 3, 250], length [1, 2, 3, 250 :: byte]) \<and>
    EVP_DecodeBlock enc =
      ([1, 2, 3, 250] @ replicate ((3 - length [1, 2, 3, 250 :: byte] mod 3) mod 3) 0,
       int ((length [1, 2, 3, 250 :: byte] + 2) div 3 * 3))"
  by (rule base64_round_trip) (simp add: MAX_UPDATE_def)


subsection \<open>Streaming decoding\<close>

text \<open>
  The invariant of a decoding context: until an error the context holds at most three characters
  of an unfinished quad, and none once the padding has been seen; so \<open>data[data_used++]\<close> stays
  inside the first four bytes.
\<close>

definition dec_ok :: "encode_ctx \<Rightarrow> bool" where
  "dec_ok ctx \<longleftrightarrow> length (data ctx) = 48 \<and>
     (\<not> error_encountered ctx \<longrightarrow> data_used ctx < 4 \<and> (eof_seen ctx \<longrightarrow> data_used ctx = 0))"

text \<open>The contexts a caller can reach from \<open>EVP_DecodeInit\<close>.\<close>

inductive decoding :: "encode_ctx \<Rightarrow> bool" where
  decoding_init: "decoding EVP_DecodeInit"
| decoding_update: "decoding ctx \<Longrightarrow> EVP_DecodeUpdate ctx inp = (ctx', out, n, r) \<Longrightarrow> decoding ctx'"

lemma decode_chars_ok:
  "decode_chars ctx out n inp = (ctx', out', n', fin) \<Longrightarrow> dec_ok ctx \<Longrightarrow> \<not> error_encountered ctx \<Longrightarrow>
   dec_ok ctx' \<and> error_encountered ctx' = (\<not> fin)"
proof (induction ctx out n inp rule: decode_chars.induct)
  case (2 ctx out n c inp)
  show ?case
    using 2 by (auto simp: Let_def dec_ok_def split: if_splits option.splits)
qed auto

lemma decode_update_ok:
  assumes "EVP_DecodeUpdate ctx inp = (ctx', out, n, r)" "dec_ok ctx"
  shows "dec_ok ctx' \<and> error_encountered ctx' = (r = - 1)"
proof (cases "error_encountered ctx")
  case False
  obtain ctx1 out1 n1 fin where run: "decode_chars ctx [] 0 inp = (ctx1, out1, n1, fin)"
    by (metis prod_cases4)
  show ?thesis
    using assms False decode_chars_ok [OF run assms(2) False]
    by (auto simp: EVP_DecodeUpdate_def run dec_ok_def split: if_splits)
qed (use assms in \<open>simp add: EVP_DecodeUpdate_def\<close>)

text \<open>The characters held for the next quad.\<close>

definition holds_quad :: "encode_ctx \<Rightarrow> bool" where
  "holds_quad ctx \<longleftrightarrow> data_used ctx \<le> 4 \<and> (data_used ctx = 4 \<longrightarrow> error_encountered ctx) \<and>
     list_all (\<lambda>c. \<not> base64_space c) (take (data_used ctx) (data ctx))"

lemma decode_chars_holds:
  "decode_chars ctx out n inp = (ctx', out', n', fin) \<Longrightarrow> dec_ok ctx \<Longrightarrow> \<not> error_encountered ctx \<Longrightarrow>
   holds_quad ctx \<Longrightarrow> holds_quad ctx'"
proof (induction ctx out n inp rule: decode_chars.induct)
  case (2 ctx out n c inp)
  show ?case
  proof (cases "base64_space c \<or> eof_seen ctx")
    case True
    then show ?thesis using 2 by (auto simp: dec_ok_def holds_quad_def split: if_splits)
  next
    case False
    have u: "data_used ctx < 4" "length (data ctx) = 48" using "2.prems"(2,3) by (simp_all add: dec_ok_def)
    have tk: "take (data_used ctx + 1) ((data ctx)[data_used ctx := c]) = take (data_used ctx) (data ctx) @ [c]"
      using u by (simp add: take_Suc_conv_app_nth)
    have ns: "list_all (\<lambda>c. \<not> base64_space c) (take (data_used ctx + 1) ((data ctx)[data_used ctx := c]))"
      using "2.prems"(4) False unfolding tk by (simp add: holds_quad_def)
    show ?thesis
    proof (cases "data_used (push_char ctx c) = 4")
      case four: True
      show ?thesis
      proof (cases "base64_decode_quad (data (push_char ctx c))")
        case None
        then have "ctx' = (push_char ctx c)\<lparr>error_encountered := True\<rparr>"
          using "2.prems"(1) False four by simp
        then show ?thesis using ns four by (simp add: holds_quad_def)
      next
        case (Some o3)
        have "holds_quad (after_quad (push_char ctx c) o3)" "dec_ok (after_quad (push_char ctx c) o3)"
          using u "2.prems"(2) by (simp_all add: holds_quad_def dec_ok_def)
        then show ?thesis using "2.IH"(2) Some "2.prems" False four by simp
      qed
    next
      case more: False
      have "holds_quad (push_char ctx c)" "dec_ok (push_char ctx c)"
        using ns more u False "2.prems"(2) by (simp_all add: holds_quad_def dec_ok_def)
      then show ?thesis using "2.IH"(3) "2.prems" False more by simp
    qed
  qed
qed simp

lemma decoding_holds: "decoding ctx \<Longrightarrow> dec_ok ctx \<and> holds_quad ctx"
proof (induction rule: decoding.induct)
  case decoding_init
  show ?case by (simp add: dec_ok_def holds_quad_def EVP_DecodeInit_def)
next
  case (decoding_update ctx inp ctx' out n r)
  show ?case
  proof (cases "error_encountered ctx")
    case False
    obtain ctx1 out1 n1 fin where run: "decode_chars ctx [] 0 inp = (ctx1, out1, n1, fin)"
      by (metis prod_cases4)
    have "holds_quad ctx1" using decode_chars_holds [OF run] decoding_update False by simp
    then have "holds_quad ctx'"
      using decoding_update.hyps(2) False by (auto simp: EVP_DecodeUpdate_def run holds_quad_def split: if_splits)
    then show ?thesis using decode_update_ok decoding_update by blast
  qed (use decoding_update in \<open>simp add: EVP_DecodeUpdate_def\<close>)
qed

lemma four_pads:
  "EVP_DecodeUpdate EVP_DecodeInit [61, 61, 61, 61] =
    (EVP_DecodeInit\<lparr>data := [61, 61, 61, 61] @ replicate 44 0, data_used := 4, error_encountered := True\<rparr>,
     [], 0, - 1)"
proof -
  have "replicate 48 0 = 0 # 0 # 0 # 0 # replicate 44 (0 :: byte)"
    by (simp add: numeral_eq_Suc)
  then show ?thesis
    by (simp add: EVP_DecodeUpdate_def EVP_DecodeInit_def base64_space_def decode_quad_eq)
qed

text \<open>C38. Every context a caller reaches by decoding, through errors as well, holds at most four
  characters of a quad, none of them white space. It holds four only after an error, and so at most
  three while no error has been met, and none once the padding was seen without an error.
  \<open>EVP_DecodeFinal\<close> succeeds on it exactly when no error was met and no quad is unfinished.\<close>

theorem decoding_invariant:
  assumes "decoding ctx"
  shows "data_used ctx \<le> 4 \<and> (data_used ctx = 4 \<longrightarrow> error_encountered ctx) \<and>
    list_all (\<lambda>c. \<not> base64_space c) (take (data_used ctx) (data ctx)) \<and>
    (eof_seen ctx \<and> \<not> error_encountered ctx \<longrightarrow> data_used ctx = 0) \<and>
    (snd (EVP_DecodeFinal ctx) = 1 \<longleftrightarrow> \<not> error_encountered ctx \<and> data_used ctx = 0)"
  using decoding_holds [OF assms] by (simp add: dec_ok_def holds_quad_def EVP_DecodeFinal_def)

text \<open>The witness is the context that four \<open>=\<close> lead to: it holds four characters.\<close>

theorem decoding_invariant_witness:
  "let ctx = fst (EVP_DecodeUpdate EVP_DecodeInit [61, 61, 61, 61]) in
    data_used ctx \<le> 4 \<and> data_used ctx = 4 \<and> error_encountered ctx \<and> snd (EVP_DecodeFinal ctx) \<noteq> 1"
proof -
  from decoding_invariant [OF decoding_update [OF decoding_init four_pads]] show ?thesis
    by (simp add: four_pads)
qed

text \<open>An error is final: once an update has returned \<open>-1\<close>, whatever is fed to the context
  afterwards, every later update returns \<open>-1\<close> with a zero length, leaves the context alone, and
  the final call fails.\<close>

theorem decode_error_sticky:
  assumes "dec_ok ctx" "EVP_DecodeUpdate ctx inp = (ctx', out, n, - 1)"
  shows "n = 0 \<and> (\<forall>more_inp. EVP_DecodeUpdate ctx' more_inp = (ctx', [], 0, - 1)) \<and>
    EVP_DecodeFinal ctx' = (0, - 1)"
proof -
  have "error_encountered ctx'" using decode_update_ok [OF assms(2,1)] by simp
  moreover have "n = 0"
    using assms(2) by (auto simp: EVP_DecodeUpdate_def case_prod_beta split: if_splits)
  ultimately show ?thesis by (simp add: EVP_DecodeUpdate_def EVP_DecodeFinal_def)
qed

theorem decode_error_sticky_witness:
  "let (ctx', out, n, r) = EVP_DecodeUpdate EVP_DecodeInit [61, 61, 61, 61] in
    n = 0 \<and> (\<forall>more_inp. EVP_DecodeUpdate ctx' more_inp = (ctx', [], 0, - 1)) \<and>
    EVP_DecodeFinal ctx' = (0, - 1)"
proof -
  from decode_error_sticky [OF _ four_pads] show ?thesis
    unfolding four_pads by (simp add: dec_ok_def EVP_DecodeInit_def)
qed

















end
