(* ===== verification/Crc16.thy ===== *)
theory Crc16
  imports Base64
begin

section \<open>The checksum of addresses (ton/td/utils/crypto.cpp)\<close>

text \<open>
  The table-driven \<open>crc16\<close> that guards user-friendly addresses, public keys and ADNL identifiers,
  against the bitwise definition of the code: the remainder modulo x^16 + x^12 + x^5 + 1 of the
  message followed by sixteen zero bits. Then what the wallet relies on: a change confined to
  sixteen adjacent bits never keeps the checksum.
\<close>

subsection \<open>The code\<close>

definition crc16_table :: "u16 list" where
  "crc16_table = [
    0x0000, 0x1021, 0x2042, 0x3063, 0x4084, 0x50a5, 0x60c6, 0x70e7, 0x8108, 0x9129, 0xa14a, 0xb16b,
    0xc18c, 0xd1ad, 0xe1ce, 0xf1ef, 0x1231, 0x0210, 0x3273, 0x2252, 0x52b5, 0x4294, 0x72f7, 0x62d6,
    0x9339, 0x8318, 0xb37b, 0xa35a, 0xd3bd, 0xc39c, 0xf3ff, 0xe3de, 0x2462, 0x3443, 0x0420, 0x1401,
    0x64e6, 0x74c7, 0x44a4, 0x5485, 0xa56a, 0xb54b, 0x8528, 0x9509, 0xe5ee, 0xf5cf, 0xc5ac, 0xd58d,
    0x3653, 0x2672, 0x1611, 0x0630, 0x76d7, 0x66f6, 0x5695, 0x46b4, 0xb75b, 0xa77a, 0x9719, 0x8738,
    0xf7df, 0xe7fe, 0xd79d, 0xc7bc, 0x48c4, 0x58e5, 0x6886, 0x78a7, 0x0840, 0x1861, 0x2802, 0x3823,
    0xc9cc, 0xd9ed, 0xe98e, 0xf9af, 0x8948, 0x9969, 0xa90a, 0xb92b, 0x5af5, 0x4ad4, 0x7ab7, 0x6a96,
    0x1a71, 0x0a50, 0x3a33, 0x2a12, 0xdbfd, 0xcbdc, 0xfbbf, 0xeb9e, 0x9b79, 0x8b58, 0xbb3b, 0xab1a,
    0x6ca6, 0x7c87, 0x4ce4, 0x5cc5, 0x2c22, 0x3c03, 0x0c60, 0x1c41, 0xedae, 0xfd8f, 0xcdec, 0xddcd,
    0xad2a, 0xbd0b, 0x8d68, 0x9d49, 0x7e97, 0x6eb6, 0x5ed5, 0x4ef4, 0x3e13, 0x2e32, 0x1e51, 0x0e70,
    0xff9f, 0xefbe, 0xdfdd, 0xcffc, 0xbf1b, 0xaf3a, 0x9f59, 0x8f78, 0x9188, 0x81a9, 0xb1ca, 0xa1eb,
    0xd10c, 0xc12d, 0xf14e, 0xe16f, 0x1080, 0x00a1, 0x30c2, 0x20e3, 0x5004, 0x4025, 0x7046, 0x6067,
    0x83b9, 0x9398, 0xa3fb, 0xb3da, 0xc33d, 0xd31c, 0xe37f, 0xf35e, 0x02b1, 0x1290, 0x22f3, 0x32d2,
    0x4235, 0x5214, 0x6277, 0x7256, 0xb5ea, 0xa5cb, 0x95a8, 0x8589, 0xf56e, 0xe54f, 0xd52c, 0xc50d,
    0x34e2, 0x24c3, 0x14a0, 0x0481, 0x7466, 0x6447, 0x5424, 0x4405, 0xa7db, 0xb7fa, 0x8799, 0x97b8,
    0xe75f, 0xf77e, 0xc71d, 0xd73c, 0x26d3, 0x36f2, 0x0691, 0x16b0, 0x6657, 0x7676, 0x4615, 0x5634,
    0xd94c, 0xc96d, 0xf90e, 0xe92f, 0x99c8, 0x89e9, 0xb98a, 0xa9ab, 0x5844, 0x4865, 0x7806, 0x6827,
    0x18c0, 0x08e1, 0x3882, 0x28a3, 0xcb7d, 0xdb5c, 0xeb3f, 0xfb1e, 0x8bf9, 0x9bd8, 0xabbb, 0xbb9a,
    0x4a75, 0x5a54, 0x6a37, 0x7a16, 0x0af1, 0x1ad0, 0x2ab3, 0x3a92, 0xfd2e, 0xed0f, 0xdd6c, 0xcd4d,
    0xbdaa, 0xad8b, 0x9de8, 0x8dc9, 0x7c26, 0x6c07, 0x5c64, 0x4c45, 0x3ca2, 0x2c83, 0x1ce0, 0x0cc1,
    0xef1f, 0xff3e, 0xcf5d, 0xdf7c, 0xaf9b, 0xbfba, 0x8fd9, 0x9ff8, 0x6e17, 0x7e36, 0x4e55, 0x5e74,
    0x2e93, 0x3eb2, 0x0ed1, 0x1ef0]"

definition crc16_step :: "u32 \<Rightarrow> byte \<Rightarrow> u32" where
  "crc16_step crc c =
     (let t = (ucast c XOR drop_bit 8 crc) AND 0xff
      in ucast (crc16_table ! unat t) XOR push_bit 8 crc)"

definition crc16 :: "bytes \<Rightarrow> u16" where
  "crc16 bs = ucast (foldl crc16_step 0 bs)"

subsection \<open>The bitwise checksum\<close>

definition shift_up :: "u16 \<Rightarrow> u16" where
  "shift_up r = push_bit 1 r"

definition crc_bit :: "u16 \<Rightarrow> bool \<Rightarrow> u16" where
  "crc_bit r b = shift_up r XOR (if bit r 15 \<noteq> b then 0x1021 else 0)"

definition crc_bits :: "u16 \<Rightarrow> bool list \<Rightarrow> u16" where
  "crc_bits r bs = foldl crc_bit r bs"

text \<open>The same on numbers, for the comparison with the table.\<close>

definition crc_shift :: "int \<Rightarrow> int" where
  "crc_shift r = (if r < 0x8000 then 2 * r else (2 * r - 0x10000) XOR 0x1021)"

definition crc_entry :: "int \<Rightarrow> int" where
  "crc_entry t = crc_shift (crc_shift (crc_shift (crc_shift (crc_shift (crc_shift (crc_shift (crc_shift (256 * t))))))))"

lemma table_ints: "map uint crc16_table = map crc_entry [0..255]"
  by (simp add: crc16_table_def crc_entry_def crc_shift_def upto_rec1)

subsection \<open>The table computes the bitwise checksum\<close>

lemma crc_bits_simps [simp]:
  "crc_bits r [] = r" "crc_bits r (b # bs) = crc_bits (crc_bit r b) bs"
  "crc_bits r (bs @ cs) = crc_bits (crc_bits r bs) cs"
  by (simp_all add: crc_bits_def)

lemma bit_shift_up: "bit (shift_up r) n \<longleftrightarrow> 0 < n \<and> n < 16 \<and> bit r (n - 1)"
  unfolding shift_up_def bit_push_bit_iff by (auto dest: bit_imp_le_length)

lemma crc_bit_xor: "crc_bit (r XOR s) (b = (\<not> d)) = crc_bit r b XOR crc_bit s d"
  by (rule bit_word_eqI) (auto simp: crc_bit_def bit_xor_iff bit_shift_up)

lemma crc_bits_xor:
  "length bs = length ds \<Longrightarrow> crc_bits (r XOR s) (map2 (\<lambda>b d. b = (\<not> d)) bs ds) = crc_bits r bs XOR crc_bits s ds"
  by (induction bs ds arbitrary: r s rule: list_induct2) (simp_all add: crc_bit_xor)

lemma crc_zeros_xor:
  "crc_bits (r XOR s) (replicate n False) = crc_bits r (replicate n False) XOR crc_bits s (replicate n False)"
  using crc_bits_xor [of "replicate n False" "replicate n False" r s] by (simp add: zip_replicate)

text \<open>While the top bit is clear, a zero bit only shifts.\<close>

lemma crc_zeros_small:
  "n \<le> 16 \<Longrightarrow> (\<And>k. 16 - n \<le> k \<Longrightarrow> \<not> bit r k) \<Longrightarrow> crc_bits r (replicate n False) = push_bit n r"
proof (induction n arbitrary: r)
  case (Suc n)
  have "\<not> bit r 15" using Suc.prems by simp
  then have step: "crc_bit r False = shift_up r" by (simp add: crc_bit_def)
  have "crc_bits (shift_up r) (replicate n False) = push_bit n (shift_up r)"
    using Suc.prems by (intro Suc.IH) (auto simp: bit_shift_up)
  also have "\<dots> = push_bit (Suc n) r" by (simp only: shift_up_def push_bit_push_bit Suc_eq_plus1)
  finally show ?case by (simp add: step)
qed simp

lemma bit_15_iff: "bit r 15 \<longleftrightarrow> 0x8000 \<le> uint r" for r :: u16
proof -
  have "bit r 15 \<longleftrightarrow> odd (uint r div 0x8000)" using bit_uint_iff [of r 15] by (simp add: bit_iff_odd)
  moreover have "0 \<le> uint r" "uint r < 0x10000" using uint_bounded [of r] by simp_all
  have "odd (x div 0x8000) \<longleftrightarrow> 0x8000 \<le> x" if "0 \<le> x" "x < 0x10000" for x :: int
  proof (cases "x < 0x8000")
    case False
    then have "x div 0x8000 = 1" using that by (intro div_pos_geq [THEN trans]) simp_all
    then show ?thesis using False by simp
  qed (use that in simp)
  then have "odd (uint r div 0x8000) \<longleftrightarrow> 0x8000 \<le> uint r" using \<open>0 \<le> uint r\<close> \<open>uint r < 0x10000\<close> by blast
  ultimately show ?thesis by blast
qed

lemma uint_shift_up: "uint (shift_up r) = (2 * uint r) mod 0x10000"
  by (simp add: shift_up_def uint_word_ariths mult.commute)

lemma uint_crc_bit: "uint (crc_bit r False) = crc_shift (uint r)"
proof (cases "bit r 15")
  case True
  then have "0x8000 \<le> uint r" "uint r < 0x10000" using uint_bounded [of r] by (simp_all add: bit_15_iff)
  then have "(2 * uint r) mod 0x10000 = 2 * uint r - 0x10000"
    using mod_pos_pos_trivial [of "2 * uint r - 0x10000" "0x10000"] by (simp add: mod_diff_eq [symmetric])
  then show ?thesis using True \<open>0x8000 \<le> uint r\<close> by (simp add: crc_bit_def crc_shift_def uint_xor uint_shift_up)
next
  case False
  then have "2 * uint r < 0x10000" by (simp add: bit_15_iff)
  then show ?thesis using False by (simp add: crc_bit_def crc_shift_def uint_shift_up bit_15_iff)
qed

lemma uint_crc_byte:
  "uint t < 256 \<Longrightarrow> uint (crc_bits (push_bit 8 t) (replicate 8 False)) = crc_entry (uint t)" for t :: u16
proof -
  assume t: "uint t < 256"
  have "uint (push_bit 8 t) = 256 * uint t"
    using t by (simp add: push_bit_eq_mult uint_word_ariths mult.commute)
  then show ?thesis by (simp add: numeral_nat uint_crc_bit crc_entry_def)
qed

lemma table_entry: "t < 256 \<Longrightarrow> crc16_table ! t = crc_bits (push_bit 8 (word_of_nat t)) (replicate 8 False)"
proof -
  assume t: "t < 256"
  have len: "length crc16_table = 256" using arg_cong [OF table_ints, of length] by simp
  have "uint (crc16_table ! t) = map uint crc16_table ! t" using t len by simp
  also have "\<dots> = crc_entry (int t)" unfolding table_ints using t by simp
  also have "\<dots> = crc_entry (uint (word_of_nat t :: u16))" using t by (simp add: uint_nat unat_of_nat)
  also have "\<dots> = uint (crc_bits (push_bit 8 (word_of_nat t)) (replicate 8 False))"
    using t by (subst uint_crc_byte) (simp_all add: uint_nat unat_of_nat)
  finally show ?thesis by (simp add: word_uint_eq_iff)
qed

text \<open>Feeding the bits of a byte is feeding zeros to the register with the byte added at the top.\<close>

lemma length_octet_bits [simp]: "length (octet_bits c) = 8"
  by (simp add: octet_bits_def)

lemma bit_8000: "bit (0x8000 :: u16) n \<longleftrightarrow> n = 15"
proof -
  have "(0x8000 :: u16) = push_bit 15 1" by simp
  then show ?thesis by (simp only: bit_push_bit_iff) auto
qed

lemma bit_ff: "bit (0xff :: u16) n \<longleftrightarrow> n < 8" "bit (0xff :: u32) n \<longleftrightarrow> n < 8"
  using bit_mask_iff [of 8 n, where 'a = u16] bit_mask_iff [of 8 n, where 'a = u32]
  by (auto simp: mask_eq_exp_minus_1)

lemma crc_bit_top: "crc_bit r b = crc_bit (r XOR (if b then 0x8000 else 0)) False"
proof -
  have "shift_up (r XOR 0x8000) = shift_up r"
    by (rule bit_word_eqI) (unfold bit_shift_up bit_xor_iff bit_8000, auto)
  then show ?thesis by (cases b) (auto simp: crc_bit_def bit_xor_iff)
qed

lemma crc_octet_prefix:
  "k \<le> 8 \<Longrightarrow> crc_bits (r XOR push_bit 8 (ucast c)) (replicate k False)
     = crc_bits r (take k (octet_bits c)) XOR push_bit (8 + k) (ucast c)"
proof (induction k)
  case (Suc k)
  define x where "x = crc_bits r (take k (octet_bits c))"
  have k: "k < 8" using Suc.prems by simp
  have nth: "octet_bits c ! k = bit c (7 - k)"
    using k less_8_cases [of k] by (auto simp: octet_bits_def)
  have "take (Suc k) (octet_bits c) = take k (octet_bits c) @ [bit c (7 - k)]"
    using k nth by (simp add: take_Suc_conv_app_nth)
  then have r: "crc_bits r (take (Suc k) (octet_bits c)) = crc_bit x (bit c (7 - k))"
    by (simp add: x_def)
  have top: "bit (push_bit (8 + k) (ucast c :: u16)) 15 \<longleftrightarrow> bit c (7 - k)"
    using k by (auto simp: bit_push_bit_iff bit_ucast_iff)
  have shift: "shift_up (push_bit (k + 8) (ucast c)) = push_bit (k + 9) (ucast c)"
    unfolding shift_up_def push_bit_push_bit by (simp add: add.commute)
  have shx: "shift_up (a XOR b) = shift_up a XOR shift_up b" for a b
    by (rule bit_word_eqI) (auto simp: bit_shift_up bit_xor_iff)
  have "crc_bits (r XOR push_bit 8 (ucast c)) (replicate (Suc k) False)
      = crc_bit (crc_bits (r XOR push_bit 8 (ucast c)) (replicate k False)) False"
    by (simp only: replicate_Suc replicate_append_same [symmetric] crc_bits_simps)
  also have "\<dots> = crc_bit (x XOR push_bit (8 + k) (ucast c)) False" using Suc by (simp add: x_def)
  also have "\<dots> = crc_bit x (bit c (7 - k)) XOR push_bit (8 + Suc k) (ucast c)"
    using top by (auto simp: crc_bit_def bit_xor_iff shx shift ac_simps)
  finally show ?case by (simp only: r)
qed simp

lemma crc_octet:
  "crc_bits r (octet_bits c) = crc_bits (r XOR push_bit 8 (ucast c)) (replicate 8 False)"
proof -
  have "push_bit (8 + 8) (ucast c :: u16) = 0" by (rule bit_word_eqI) (simp add: bit_push_bit_iff)
  then show ?thesis using crc_octet_prefix [of 8 r c] by simp
qed

text \<open>One step of the table: the top byte of the register, with the data byte added, is the index.\<close>

lemma crc_octet_table:
  "crc_bits r (octet_bits c) = crc16_table ! unat (ucast (drop_bit 8 r) XOR c) XOR push_bit 8 r"
proof -
  define t where "t = ucast (drop_bit 8 r) XOR c"
  have split: "r XOR push_bit 8 (ucast c) = push_bit 8 (ucast t) XOR (r AND 0xff)"
    unfolding t_def by (rule bit_word_eqI) (unfold bit_simps bit_ff, auto)
  have low: "crc_bits (r AND 0xff) (replicate 8 False) = push_bit 8 (r AND 0xff)"
    by (rule crc_zeros_small) (simp, unfold bit_and_iff bit_ff, auto)
  have drop: "push_bit 8 (r AND 0xff) = push_bit 8 r"
    by (rule bit_word_eqI) (unfold bit_push_bit_iff bit_and_iff bit_ff, auto)
  have "word_of_nat (unat t) = (ucast t :: u16)" by (simp add: word_unat_eq_iff unat_of_nat unat_ucast_up)
  then have "crc_bits (push_bit 8 (ucast t)) (replicate 8 False) = crc16_table ! unat t"
    using table_entry [of "unat t"] by simp
  then show ?thesis
    unfolding crc_octet split crc_zeros_xor low drop by (simp add: t_def)
qed

lemma crc16_step_bits: "ucast (crc16_step crc c) = crc_bits (ucast crc) (octet_bits c)"
proof -
  have "(ucast c XOR drop_bit 8 crc) AND 0xff = (ucast (ucast (drop_bit 8 (ucast crc :: u16)) XOR c) :: u32)"
    by (rule bit_word_eqI) (unfold bit_simps bit_ff, auto dest: bit_imp_le_length)
  then have "unat ((ucast c XOR drop_bit 8 crc) AND 0xff) = unat (ucast (drop_bit 8 (ucast crc :: u16)) XOR c)"
    by (simp add: unat_ucast_up)
  moreover have "(ucast (ucast x XOR push_bit 8 crc :: u32) :: u16) = x XOR push_bit 8 (ucast crc)" for x :: u16
    by (rule bit_word_eqI) (auto simp: bit_simps)
  ultimately show ?thesis unfolding crc_octet_table crc16_step_def Let_def by simp
qed

lemma crc16_bits: "crc16 bs = crc_bits 0 (concat (map octet_bits bs))"
proof -
  have "ucast (foldl crc16_step r bs) = crc_bits (ucast r) (concat (map octet_bits bs))" for r
    by (induction bs arbitrary: r) (simp_all add: crc16_step_bits)
  from this [of 0] show ?thesis by (simp add: crc16_def)
qed

subsection \<open>Codewords and bursts\<close>

text \<open>Feeding a register its own two bytes clears it.\<close>

lemma crc_own_bytes: "crc_bits r (octet_bits (ucast (drop_bit 8 r)) @ octet_bits (ucast r)) = 0"
proof -
  have z: "crc16_table ! 0 = 0" using table_entry [of 0] crc_zeros_small [of 8 0] by simp
  have "crc_bits r (octet_bits (ucast (drop_bit 8 r))) = push_bit 8 r"
    using z by (simp add: crc_octet_table)
  moreover have "(ucast (drop_bit 8 (push_bit 8 r)) :: byte) = ucast r"
    by (rule bit_word_eqI) (auto simp: bit_simps)
  moreover have "push_bit 8 (push_bit 8 r) = 0"
    by (rule bit_word_eqI) (auto simp: bit_simps)
  ultimately show ?thesis using z by (simp add: crc_octet_table [of "push_bit 8 r"])
qed

text \<open>
  Over the last bits of a message that leaves the register clear no feedback happens, so the
  low bits were clear before them.
\<close>

lemma crc_tail:
  "crc_bits r w = 0 \<Longrightarrow> length w \<le> 15 \<Longrightarrow> n < 16 - length w \<Longrightarrow> \<not> bit r n"
proof (induction w arbitrary: r n)
  case (Cons b w)
  have low: "\<not> bit (crc_bit r b) k" if "k < 16 - length w" for k
    using Cons.IH [OF _ _ that] Cons.prems by simp
  have one: "bit (0x1021 :: u16) 0" by simp
  have "\<not> (bit r 15 \<noteq> b)"
    using low [of 0] one Cons.prems(2) by (auto simp: crc_bit_def bit_xor_iff bit_shift_up split: if_splits)
  then have "crc_bit r b = shift_up r" by (simp add: crc_bit_def)
  moreover have "Suc n < 16 - length w" using Cons.prems(3) by simp
  ultimately show ?case using low [of "Suc n"] by (simp add: bit_shift_up)
qed simp

lemma crc_zero_bits: "crc_bits 0 (replicate n False) = 0"
  by (induction n) (simp_all add: crc_bit_def shift_up_def)

lemma crc_clear_tail: "crc_bits r (replicate n False) = 0 \<Longrightarrow> r = 0"
proof (induction n arbitrary: r)
  case (Suc n)
  then have "crc_bit r False = 0" by simp
  then have c: "crc_bits r [False] = 0" by simp
  have low: "\<not> bit r n" if "n < 15" for n using crc_tail [OF c, of n] that by simp
  moreover have "\<not> bit r 15"
  proof
    assume "bit r 15"
    then have "crc_bit r False = shift_up r XOR 0x1021" by (simp add: crc_bit_def)
    then have "bit (crc_bit r False) 0" by (simp add: bit_xor_iff bit_shift_up)
    then show False using c by simp
  qed
  ultimately have "\<not> bit r n" if "n < 16" for n using that by (cases "n = 15") simp_all
  then show ?case by (intro bit_word_eqI) simp
qed simp

theorem crc_burst:
  assumes "crc_bits 0 (replicate a False @ w @ replicate b False) = 0" and "length w \<le> 16"
  shows "w = replicate (length w) False"
proof (rule ccontr)
  assume ne: "w \<noteq> replicate (length w) False"
  have w: "crc_bits 0 w = 0"
    using crc_clear_tail [of "crc_bits 0 w" b] assms(1) by (simp add: crc_zero_bits)
  have "\<exists>k v. w = replicate k False @ True # v"
    using ne
  proof (induction w)
    case (Cons x w)
    show ?case
    proof (cases x)
      case True
      then show ?thesis by (intro exI [of _ 0]) simp
    next
      case False
      then obtain k v where "w = replicate k False @ True # v" using Cons by auto
      then show ?thesis using False by (intro exI [of _ "Suc k"] exI [of _ v]) simp
    qed
  qed simp
  then obtain k v where v: "w = replicate k False @ True # v" by blast
  then have "crc_bits (crc_bit 0 True) v = 0" using w by (simp add: crc_zero_bits)
  moreover have "length v \<le> 15" using v assms(2) by simp
  ultimately have "\<not> bit (crc_bit 0 True) 0" using crc_tail [of "crc_bit 0 True" v 0] by simp
  then show False by (simp add: crc_bit_def bit_xor_iff bit_shift_up)
qed

end
