(* ===== verification/TonCodec.thy ===== *)
theory TonCodec
  imports Crc16
begin

section \<open>Text encodings of the TON library (ton/crypto/common/util.cpp, td/utils/base64.cpp)\<close>

text \<open>
  The base64 of \<open>util.cpp\<close>, which user-friendly addresses and public keys go through, the base32
  of \<open>td/utils/base64.cpp\<close> and the ADNL identifiers over it. \<open>None\<close> at the outside of a result is a
  failed \<open>CHECK\<close> or an access outside a buffer. Encoding is RFC 4648 in both alphabets; decoding
  reads the bits of the characters, with an alphabet that is larger than it should be.
\<close>

subsection \<open>Base64\<close>

definition compute_base64_encoded_size :: "nat \<Rightarrow> nat" where
  "compute_base64_encoded_size n = push_bit 2 ((n + 2) div 3)"

definition b64_letters :: "nat list" where
  "b64_letters = [65..<91] @ [97..<123] @ [48..<58]"

definition base64_table :: bytes where
  "base64_table = map word_of_nat (b64_letters @ [43, 47])"

definition base64_url_table :: bytes where
  "base64_url_table = map word_of_nat (b64_letters @ [45, 95])"

definition base64_dec_table :: bytes where
  "base64_dec_table = [
     0, 0, 0, 0, 0, 0, 0, 0, 0, 0, 0, 0, 0, 0, 0, 0,
     0, 0, 0, 0, 0, 0, 0, 0, 0, 0, 0, 0, 0, 0, 0, 0,
     0, 0, 0, 0, 0, 0, 0, 0, 0, 0, 0, 0x7e, 0, 0xbe, 0, 0x7f,
     0xf4, 0xf5, 0xf6, 0xf7, 0xf8, 0xf9, 0xfa, 0xfb, 0xfc, 0xfd, 0, 0, 0, 1, 0, 0,
     0, 0xc0, 0xc1, 0xc2, 0xc3, 0xc4, 0xc5, 0xc6, 0xc7, 0xc8, 0xc9, 0xca, 0xcb, 0xcc, 0xcd, 0xce,
     0xcf, 0xd0, 0xd1, 0xd2, 0xd3, 0xd4, 0xd5, 0xd6, 0xd7, 0xd8, 0xd9, 0, 0, 0, 0, 0xbf,
     0, 0xda, 0xdb, 0xdc, 0xdd, 0xde, 0xdf, 0xe0, 0xe1, 0xe2, 0xe3, 0xe4, 0xe5, 0xe6, 0xe7, 0xe8,
     0xe9, 0xea, 0xeb, 0xec, 0xed, 0xee, 0xef, 0xf0, 0xf1, 0xf2, 0xf3, 0, 0, 0, 0, 0] @ replicate 128 0"

definition b64_char :: "bool \<Rightarrow> u32 \<Rightarrow> byte" where
  "b64_char base64_url x = (if base64_url then base64_url_table else base64_table) ! unat (x AND 0x3f)"

definition b64_word :: "byte \<Rightarrow> byte \<Rightarrow> byte \<Rightarrow> u32" where
  "b64_word a b c = push_bit 16 (ucast a) OR push_bit 8 (ucast b) OR ucast c"

text \<open>The \<open>switch\<close> on what is left after the loop.\<close>

fun b64_tail :: "bool \<Rightarrow> bytes \<Rightarrow> bytes" where
  "b64_tail url [a] =
     (let x = push_bit 16 (ucast a) in [b64_char url (drop_bit 18 x), b64_char url (drop_bit 12 x), 61, 61])"
| "b64_tail url [a, b] =
     (let x = push_bit 16 (ucast a) OR push_bit 8 (ucast b) in
      [b64_char url (drop_bit 18 x), b64_char url (drop_bit 12 x), b64_char url (drop_bit 6 x), 61])"
| "b64_tail url _ = []"

text \<open>
  The loop runs while \<open>i < orig_size - 2\<close>, a subtraction of \<open>size_t\<close> that wraps for sizes 0 and 1;
  the reads \<open>raw[i]\<close> to \<open>raw[i + 2]\<close> are then outside the slice.
\<close>

function b64_loop :: "bool \<Rightarrow> bytes \<Rightarrow> nat \<Rightarrow> bytes option" where
  "b64_loop url raw i =
     (if i < (length raw + SIZE_LIMIT - 2) mod SIZE_LIMIT then
        (if i + 2 < length raw then
           let x = b64_word (raw ! i) (raw ! (i + 1)) (raw ! (i + 2)) in
           map_option
             (\<lambda>rest. [b64_char url (drop_bit 18 x), b64_char url (drop_bit 12 x), b64_char url (drop_bit 6 x),
                      b64_char url x] @ rest)
             (b64_loop url raw (i + 3))
         else None)
      else Some (b64_tail url (drop i raw)))"
  by pat_completeness auto
termination by (relation "measure (\<lambda>(url, raw, i). length raw - i)") auto

declare b64_loop.simps [simp del]

text \<open>The number of characters and the buffer afterwards.\<close>

definition buff_base64_encode :: "bytes \<Rightarrow> bytes \<Rightarrow> bool \<Rightarrow> (nat \<times> bytes) option" where
  "buff_base64_encode buffer raw base64_url =
     (let res_size = compute_base64_encoded_size (length raw) in
      if res_size > length buffer then Some (0, buffer)
      else
        case b64_loop base64_url raw 0 of
          None \<Rightarrow> None
        | Some out \<Rightarrow> if length out \<noteq> res_size then None else Some (res_size, write_at buffer 0 out))"

definition str_base64_encode :: "bytes \<Rightarrow> bool \<Rightarrow> bytes option" where
  "str_base64_encode raw base64_url =
     (let res_size = compute_base64_encoded_size (length raw); s = replicate res_size 0 in
      if res_size \<noteq> 0 then map_option snd (buff_base64_encode s raw base64_url) else Some s)"

definition b64_mode :: "bool \<Rightarrow> byte" where
  "b64_mode allow_base64_url = (if allow_base64_url then 0xc0 else 0x40)"

definition dec_entry :: "byte \<Rightarrow> byte" where
  "dec_entry c = base64_dec_table ! unat c"

definition is_valid_base64 :: "bytes \<Rightarrow> bool \<Rightarrow> bool" where
  "is_valid_base64 encoded allow_base64_url =
     (if length encoded AND 3 \<noteq> 0 then False
      else
        let rest = dropWhile (\<lambda>c. dec_entry c AND b64_mode allow_base64_url \<noteq> 0) encoded in
        if length rest > 2 then False else dropWhile (\<lambda>c. c = 61) rest = [])"

definition decoded_base64_size :: "bytes \<Rightarrow> bool \<Rightarrow> int" where
  "decoded_base64_size encoded allow_base64_url =
     (if length encoded AND 3 \<noteq> 0 then - 1
      else if length encoded > 0x7fffffff then - 1
      else if encoded = [] then 0
      else
        let s = int (drop_bit 2 (length encoded) * 3) in
        if last encoded = 61 then (if last (butlast encoded) = 61 then s - 2 else s - 1) else s)"

text \<open>One group of four characters; \<open>j\<close> counts them, \<open>q\<close> is the number of trailing \<open>=\<close> of the input.\<close>

fun b64_quad :: "byte \<Rightarrow> bool \<Rightarrow> nat \<Rightarrow> nat \<Rightarrow> bytes \<Rightarrow> u32 \<Rightarrow> u32 option" where
  "b64_quad mode final q j [] x = Some x"
| "b64_quad mode final q j (c # cs) x =
     (let z = dec_entry c in
      if z AND mode = 0 \<and> z \<noteq> 1 \<and> (\<not> final \<or> j + q < 4) then None
      else b64_quad mode final q (j + 1) cs (push_bit 6 x OR ucast (z AND 0x3f)))"

fun b64_last :: "nat \<Rightarrow> u32 \<Rightarrow> bytes" where
  "b64_last 0 x = []"
| "b64_last (Suc k) x = ucast (drop_bit 16 x) # b64_last k (push_bit 8 x)"

text \<open>Whether every character was accepted, and the bytes written.\<close>

function b64_decode_loop :: "byte \<Rightarrow> nat \<Rightarrow> bytes \<Rightarrow> bool \<times> bytes" where
  "b64_decode_loop mode q s =
     (let final = (length s \<le> 4) in
      case b64_quad mode final q 0 (take 4 s) 0 of
        None \<Rightarrow> (False, [])
      | Some x \<Rightarrow>
          if \<not> final then
            apsnd ((@) [ucast (drop_bit 16 x), ucast (drop_bit 8 x), ucast x]) (b64_decode_loop mode q (drop 4 s))
          else (True, b64_last (3 - q) x))"
  by pat_completeness auto
termination by (relation "measure (\<lambda>(mode, q, s). length s)") auto

declare b64_decode_loop.simps [simp del]

definition pad_count :: "bytes \<Rightarrow> nat" where
  "pad_count s = (if last s = 61 then (if last (butlast s) = 61 then 2 else 1) else 0)"

text \<open>The number of bytes, 0 for failure, and the buffer, which a failure may leave partly written.\<close>

definition buff_base64_decode :: "bytes \<Rightarrow> bytes \<Rightarrow> bool \<Rightarrow> nat \<times> bytes" where
  "buff_base64_decode buffer encoded allow_base64_url =
     (if length encoded AND 3 \<noteq> 0 \<or> encoded = [] then (0, buffer)
      else
        let n = drop_bit 2 (length encoded); q = pad_count encoded in
        if length buffer + q < n * 3 then (0, buffer)
        else
          case b64_decode_loop (b64_mode allow_base64_url) q encoded of
            (ok, out) \<Rightarrow> (if ok then length out else 0, write_at buffer 0 out))"

definition str_base64_decode :: "bytes \<Rightarrow> bool \<Rightarrow> bytes option" where
  "str_base64_decode encoded allow_base64_url =
     (let s = decoded_base64_size encoded allow_base64_url in
      if s \<le> 0 then Some []
      else
        let (r, res) = buff_base64_decode (replicate (nat s) 0) encoded allow_base64_url in
        if r = 0 then Some [] else if r \<noteq> nat s then None else Some res)"

subsection \<open>Encoding is RFC 4648\<close>

text \<open>The alphabet of section 5, for file names and URLs.\<close>

definition url_safe :: "byte \<Rightarrow> byte" where
  "url_safe c = (if c = 43 then 45 else if c = 47 then 95 else c)"

definition rfc4648_text :: "bool \<Rightarrow> bytes \<Rightarrow> bytes" where
  "rfc4648_text url bs = map (if url then url_safe else id) (rfc4648_encode bs)"

lemma tables: "base64_table = b64_alphabet" "base64_url_table = map url_safe b64_alphabet"
  by (simp_all add: base64_table_def base64_url_table_def b64_letters_def b64_alphabet_def url_safe_def
      upt_rec_numeral del: upt_Suc)

lemma b64_char_eq: "b64_char url x = (if url then url_safe else id) (conv_bin2ascii (ucast x))"
proof -
  have m: "ucast x AND 0x3f = (ucast (x AND 0x3f) :: byte)"
    by (rule bit_word_eqI) (auto simp: bit_simps bit_3f)
  have lt: "unat (x AND 0x3f) < 64" using unat_and_mask [of x 6] by (simp add: mask_eq_exp_minus_1)
  then have "unat (ucast x AND 0x3f :: byte) = unat (x AND 0x3f)" unfolding m by (simp add: unat_ucast_down)
  then show ?thesis using lt by (simp add: b64_char_def tables conv_bin2ascii_eq length_alphabet)
qed

lemmas word_chars = encode_chars [folded b64_word_def]

lemma word_chars_url:
  "map (\<lambda>k. b64_char url (drop_bit k (b64_word a b c))) [18, 12, 6, 0] =
   map (if url then url_safe else id)
     (map (\<lambda>s. b64_alphabet ! unat s) (sextets (octet_bits a @ octet_bits b @ octet_bits c)))"
  by (simp add: b64_char_eq word_chars octet_bits_def sextet_groups)

lemma rfc4648_text_Cons:
  "rfc4648_text url (a # b # c # r) =
     (let x = b64_word a b c in
      [b64_char url (drop_bit 18 x), b64_char url (drop_bit 12 x), b64_char url (drop_bit 6 x), b64_char url x]
      @ rfc4648_text url r)"
  using word_chars_url [of url a b c] by (simp add: rfc4648_text_def rfc4648_encode_simps Let_def)

lemma b64_tail_word:
  "b64_tail url [a] = (let x = b64_word a 0 0 in
     [b64_char url (drop_bit 18 x), b64_char url (drop_bit 12 x), 61, 61])"
  "b64_tail url [a, b] = (let x = b64_word a b 0 in
     [b64_char url (drop_bit 18 x), b64_char url (drop_bit 12 x), b64_char url (drop_bit 6 x), 61])"
  by (simp_all add: b64_word_def)

lemma b64_tail_eq: "length r < 3 \<Longrightarrow> b64_tail url r = rfc4648_text url r"
proof -
  assume "length r < 3"
  then consider "r = []" | a where "r = [a]" | a b where "r = [a, b]"
    by (cases r; cases "tl r"; cases "tl (tl r)") auto
  then show ?thesis
  proof cases
    case (2 a)
    then show ?thesis
      by (simp add: b64_tail_word rfc4648_text_def rfc4648_encode_simps Let_def b64_char_eq word_chars
          octet_bits_def sextet_groups del: b64_tail.simps) (simp add: url_safe_def)
  next
    case (3 a b)
    then show ?thesis
      by (simp add: b64_tail_word rfc4648_text_def rfc4648_encode_simps Let_def b64_char_eq word_chars
          octet_bits_def sextet_groups del: b64_tail.simps) (simp add: url_safe_def)
  qed (simp add: rfc4648_text_def rfc4648_encode_simps)
qed

lemma b64_loop_eq:
  assumes "2 \<le> length raw" and "length raw < SIZE_LIMIT"
  shows "b64_loop url raw i = Some (rfc4648_text url (drop i raw))"
  using assms
proof (induction url raw i rule: b64_loop.induct)
  case (1 url raw i)
  have "(length raw + SIZE_LIMIT - 2) mod SIZE_LIMIT = (length raw - 2 + SIZE_LIMIT) mod SIZE_LIMIT"
    using 1(2) by simp
  also have "\<dots> = length raw - 2" using 1(3) by simp
  finally have bound: "(length raw + SIZE_LIMIT - 2) mod SIZE_LIMIT = length raw - 2" .
  show ?case
  proof (cases "i < length raw - 2")
    case True
    then have l: "i + 2 < length raw" by linarith
    then have "drop i raw = raw ! i # raw ! (i + 1) # raw ! (i + 2) # drop (i + 3) raw"
      by (simp add: Cons_nth_drop_Suc numeral_2_eq_2 numeral_3_eq_3)
    then show ?thesis using 1(1) 1(2,3) l True bound
      by (simp add: b64_loop.simps [of url raw i] rfc4648_text_Cons Let_def)
  next
    case False
    then have "length (drop i raw) < 3" using 1(2) by simp
    then show ?thesis using False bound by (simp add: b64_loop.simps [of url raw i] b64_tail_eq)
  qed
qed

lemma length_rfc4648_text: "length (rfc4648_text url raw) = compute_base64_encoded_size (length raw)"
  using EncodeBlock_eq [of raw] by (simp add: rfc4648_text_def compute_base64_encoded_size_def push_bit_eq_mult)

lemma str_encode_eq:
  assumes "length raw \<noteq> 1" and "length raw < SIZE_LIMIT"
  shows "str_base64_encode raw url = Some (rfc4648_text url raw)"
proof (cases "raw = []")
  case True
  then show ?thesis
    by (simp add: str_base64_encode_def compute_base64_encoded_size_def rfc4648_text_def rfc4648_encode_simps)
next
  case False
  then have "2 \<le> length raw" using assms(1) by (cases raw; cases "tl raw") auto
  then have l: "b64_loop url raw 0 = Some (rfc4648_text url raw)" using b64_loop_eq [OF _ assms(2), of url 0] by simp
  have "compute_base64_encoded_size (length raw) \<noteq> 0"
    using False by (cases raw) (simp_all add: compute_base64_encoded_size_def push_bit_eq_mult)
  then show ?thesis using l
    by (simp add: str_base64_encode_def buff_base64_encode_def Let_def length_rfc4648_text write_at_def)
qed

text \<open>A single byte sends the loop past the end of the slice.\<close>

lemma encode_one_byte: "str_base64_encode [a] url = None"
  by (simp add: str_base64_encode_def buff_base64_encode_def compute_base64_encoded_size_def Let_def
      b64_loop.simps SIZE_LIMIT_def push_bit_eq_mult)

subsection \<open>Decoding reads the bits of the characters\<close>

definition dec_bits :: "byte \<Rightarrow> bool list" where
  "dec_bits c = sextet_bits (dec_entry c)"

text \<open>What the decoder accepts: the alphabet of its mode and, anywhere, the character \<open>=\<close>.\<close>

definition char_ok :: "byte \<Rightarrow> byte \<Rightarrow> bool" where
  "char_ok mode c \<longleftrightarrow> dec_entry c AND mode \<noteq> 0 \<or> dec_entry c = 1"

definition quad_word :: "byte \<Rightarrow> byte \<Rightarrow> byte \<Rightarrow> byte \<Rightarrow> u32" where
  "quad_word a b c d =
     push_bit 6 (push_bit 6 (push_bit 6 (push_bit 6 0 OR ucast (dec_entry a AND 0x3f)) OR ucast (dec_entry b AND 0x3f))
       OR ucast (dec_entry c AND 0x3f)) OR ucast (dec_entry d AND 0x3f)"

lemma b64_quad_full:
  "b64_quad mode final q 0 [a, b, c, d] 0 =
     (if list_all (\<lambda>(j, c). char_ok mode c \<or> final \<and> 4 \<le> j + q) (enumerate 0 [a, b, c, d])
      then Some (quad_word a b c d) else None)"
  by (simp add: char_ok_def quad_word_def Let_def) auto

lemma bit_quad_word:
  "bit (quad_word a b c d) n \<longleftrightarrow>
     (18 \<le> n \<and> n < 24 \<and> bit (dec_entry a) (n - 18)) \<or> (12 \<le> n \<and> n < 18 \<and> bit (dec_entry b) (n - 12)) \<or>
     (6 \<le> n \<and> n < 12 \<and> bit (dec_entry c) (n - 6)) \<or> (n < 6 \<and> bit (dec_entry d) n)"
  unfolding quad_word_def by (unfold bit_simps bit_3f) auto

lemma quad_octets:
  "[ucast (drop_bit 16 (quad_word a b c d)), ucast (drop_bit 8 (quad_word a b c d)), ucast (quad_word a b c d)]
     = octets (dec_bits a @ dec_bits b @ dec_bits c @ dec_bits d)"
proof -
  let ?x = "quad_word a b c d" and ?e = dec_entry
  have "ucast (drop_bit 16 ?x) = bits_value [bit (?e a) 5, bit (?e a) 4, bit (?e a) 3, bit (?e a) 2, bit (?e a) 1, bit (?e a) 0, bit (?e b) 5, bit (?e b) 4]"
    by (rule bits_value_eqI) (simp_all add: bit_ucast_iff bit_drop_bit_eq bit_quad_word)
  moreover have "ucast (drop_bit 8 ?x) = bits_value [bit (?e b) 3, bit (?e b) 2, bit (?e b) 1, bit (?e b) 0, bit (?e c) 5, bit (?e c) 4, bit (?e c) 3, bit (?e c) 2]"
    by (rule bits_value_eqI) (simp_all add: bit_ucast_iff bit_drop_bit_eq bit_quad_word)
  moreover have "ucast ?x = bits_value [bit (?e c) 1, bit (?e c) 0, bit (?e d) 5, bit (?e d) 4, bit (?e d) 3, bit (?e d) 2, bit (?e d) 1, bit (?e d) 0]"
    by (rule bits_value_eqI) (simp_all add: bit_ucast_iff bit_quad_word)
  ultimately show ?thesis by (simp add: dec_bits_def sextet_bits_def octets_Cons)
qed

lemma b64_last_eq:
  "k \<le> 3 \<Longrightarrow> b64_last k x = take k [ucast (drop_bit 16 x), ucast (drop_bit 8 x), ucast x]"
proof -
  have e: "(ucast (drop_bit 16 (push_bit 8 x)) :: byte) = ucast (drop_bit 8 x)"
    "(ucast (drop_bit 16 (push_bit 16 x)) :: byte) = ucast x"
    by (rule bit_word_eqI, auto simp: bit_simps)+
  assume "k \<le> 3"
  then consider "k = 0" | "k = 1" | "k = 2" | "k = 3" by linarith
  then show ?thesis by cases (simp_all add: e numeral_2_eq_2 numeral_3_eq_3)
qed

lemma length_dec_bits [simp]: "length (dec_bits c) = 6"
  by (simp add: dec_bits_def sextet_bits_def)

lemma length_concat_dec_bits: "length (concat (map dec_bits s)) = 6 * length s"
  by (induction s) simp_all

lemma octets_group:
  "q \<le> 2 \<Longrightarrow> take (3 - q) (octets (dec_bits a @ dec_bits b @ dec_bits c @ dec_bits d)) =
     octets (concat (map dec_bits (take (4 - q) [a, b, c, d])))"
proof -
  assume "q \<le> 2"
  then consider "q = 0" | "q = 1" | "q = 2" by linarith
  then show ?thesis by cases (simp_all add: dec_bits_def sextet_bits_def octets_Cons)
qed

lemma pad_count_le: "pad_count s \<le> 2"
  by (simp add: pad_count_def)

lemma pad_count_drop: "2 \<le> length r \<Longrightarrow> pad_count (q @ r) = pad_count r"
  by (cases r rule: rev_cases; cases "butlast r" rule: rev_cases) (auto simp: pad_count_def butlast_append)

lemma decode_loop_eq:
  assumes "length s mod 4 = 0" and "s \<noteq> []"
  shows "(list_all (char_ok mode) (take (length s - pad_count s) s) \<longrightarrow>
      b64_decode_loop mode (pad_count s) s =
        (True, octets (concat (map dec_bits (take (length s - pad_count s) s))))) \<and>
    (\<not> list_all (char_ok mode) (take (length s - pad_count s) s) \<longrightarrow>
      \<not> fst (b64_decode_loop mode (pad_count s) s))"
  using assms
proof (induction "length s" arbitrary: s rule: less_induct)
  case less
  then have "4 \<le> length s" by (metis Suc_leI dvd_imp_le length_greater_0_conv mod_0_imp_dvd numeral_eq_Suc)
  then obtain a b c d r where s: "s = a # b # c # d # r"
    by (cases s; cases "tl s"; cases "tl (tl s)"; cases "tl (tl (tl s))") auto
  define q where "q = pad_count s"
  have q: "q \<le> 2" by (simp add: q_def pad_count_le)
  show ?case
  proof (cases "r = []")
    case True
    have f: "b64_quad mode True q 0 [a, b, c, d] 0 =
        (if list_all (char_ok mode) (take (4 - q) [a, b, c, d]) then Some (quad_word a b c d) else None)"
    proof -
      consider "q = 0" | "q = 1" | "q = 2" using q by linarith
      then show ?thesis unfolding b64_quad_full by cases (simp_all add: enumerate_eq_zip)
    qed
    have last: "b64_last (3 - q) (quad_word a b c d) = octets (concat (map dec_bits (take (4 - q) [a, b, c, d])))"
      using octets_group [OF q, of a b c d] quad_octets [of a b c d] b64_last_eq [of "3 - q" "quad_word a b c d"]
      by simp
    have step: "b64_decode_loop mode q s =
        (if list_all (char_ok mode) (take (4 - q) [a, b, c, d])
         then (True, octets (concat (map dec_bits (take (4 - q) [a, b, c, d])))) else (False, []))"
      using f by (simp add: s True b64_decode_loop.simps [of mode q "[a, b, c, d]"] last del: b64_quad.simps)
    have tk: "take (length s - q) s = take (4 - q) [a, b, c, d]" by (simp add: s True numeral_nat)
    show ?thesis unfolding q_def [symmetric] tk step by simp
  next
    case False
    have lr: "length r mod 4 = 0" "length r < length s" using less.prems(1) by (simp_all add: s mod_Suc split: if_splits)
    then have l4: "4 \<le> length r" using False by (metis Suc_leI dvd_imp_le length_greater_0_conv mod_0_imp_dvd numeral_eq_Suc)
    have qr: "pad_count r = q" using pad_count_drop [of r "[a, b, c, d]"] l4 by (simp add: q_def s)
    have tk: "take (length s - q) s = [a, b, c, d] @ take (length r - q) r"
      using q l4 by (simp add: s Suc_diff_le)
    have f: "b64_quad mode False q 0 [a, b, c, d] 0 =
        (if list_all (char_ok mode) [a, b, c, d] then Some (quad_word a b c d) else None)"
      unfolding b64_quad_full by (simp add: enumerate_eq_zip)
    note ih = less.hyps [OF lr(2,1) False, unfolded qr]
    have step: "b64_decode_loop mode q s =
        (if list_all (char_ok mode) [a, b, c, d] then
           apsnd ((@) (octets (dec_bits a @ dec_bits b @ dec_bits c @ dec_bits d))) (b64_decode_loop mode q r)
         else (False, []))"
      using f False by (simp add: s b64_decode_loop.simps [of mode q "a # b # c # d # r"] Let_def quad_octets del: b64_quad.simps)
    have ap: "octets (concat (map dec_bits (take (length s - q) s))) =
        octets (dec_bits a @ dec_bits b @ dec_bits c @ dec_bits d) @ octets (concat (map dec_bits (take (length r - q) r)))"
      unfolding tk using octets_append [of "dec_bits a @ dec_bits b @ dec_bits c @ dec_bits d"] by simp
    show ?thesis unfolding q_def [symmetric] step using ih ap by (auto simp: tk)
  qed
qed

lemma and_3_mod: "n AND 3 = n mod 4" for n :: nat
  using take_bit_eq_mask [of 2 n] by (simp add: take_bit_eq_mod mask_eq_exp_minus_1)

text \<open>The decoder into a large enough buffer.\<close>

lemma decode_eq:
  assumes s: "length s mod 4 = 0" "s \<noteq> []" and room: "length s div 4 * 3 \<le> length buffer + pad_count s"
    and ok: "list_all (char_ok (b64_mode url)) (take (length s - pad_count s) s)"
  shows "buff_base64_decode buffer s url =
    (let out = octets (concat (map dec_bits (take (length s - pad_count s) s)))
     in (length out, write_at buffer 0 out))"
  using assms decode_loop_eq [OF s, of "b64_mode url"]
  by (simp add: buff_base64_decode_def Let_def and_3_mod drop_bit_eq_div)

lemma decode_refuses:
  assumes "\<not> list_all (char_ok (b64_mode url)) (take (length s - pad_count s) s)"
  shows "fst (buff_base64_decode buffer s url) = 0"
  using assms decode_loop_eq [of s "b64_mode url"]
  by (auto simp: buff_base64_decode_def Let_def and_3_mod drop_bit_eq_div split: prod.splits)

text \<open>The table, entry by entry.\<close>

lemma bit_word_iff_odd6: "bit w 6 \<longleftrightarrow> odd (unat w div 64)" for w :: byte
proof -
  have "bit w 6 = bit (uint w) 6" by (simp add: bit_uint_iff)
  also have "\<dots> = odd (int (unat w) div int 64)" by (simp add: bit_iff_odd)
  also have "\<dots> = odd (unat w div 64)" by (simp only: even_of_nat flip: of_nat_div)
  finally show ?thesis .
qed

lemma mode_bits:
  fixes w :: byte
  shows "64 \<le> unat w \<Longrightarrow> w AND 0xc0 \<noteq> 0" "odd (unat w div 64) \<Longrightarrow> w AND 0x40 \<noteq> 0"
proof -
  have split: "w = (w AND 0xc0) OR (w AND 0x3f)"
  proof -
    have "w AND 255 = take_bit 8 w" by (simp add: take_bit_eq_mask mask_eq_exp_minus_1)
    then have "w = w AND 255" by (simp add: take_bit_word_eq_self)
    then show ?thesis by (simp flip: bit.conj_disj_distrib)
  qed
  assume "64 \<le> unat w"
  show "w AND 0xc0 \<noteq> 0"
  proof
    assume "w AND 0xc0 = 0"
    then have "unat w = unat (w AND 0x3f)" using split by simp
    then show False using \<open>64 \<le> unat w\<close> unat_and_mask [of w 6] by (simp add: mask_eq_exp_minus_1)
  qed
next
  assume "odd (unat w div 64)"
  then have "bit w 6" by (simp add: bit_word_iff_odd6)
  then have "bit (w AND 0x40) 6" by (simp add: bit_and_iff)
  then show "w AND 0x40 \<noteq> 0" by auto
qed

definition dec_value :: "int \<Rightarrow> int" where
  "dec_value n =
     (if 65 \<le> n \<and> n \<le> 90 then 0xc0 + (n - 65)
      else if 97 \<le> n \<and> n \<le> 122 then 0xda + (n - 97)
      else if 48 \<le> n \<and> n \<le> 57 then 0xf4 + (n - 48)
      else if n = 43 then 0x7e else if n = 45 then 0xbe
      else if n = 47 then 0x7f else if n = 95 then 0xbf
      else if n = 61 then 1 else 0)"

lemma dec_table_low: "map uint (take 128 base64_dec_table) = map dec_value [0..127]"
  by (simp add: base64_dec_table_def dec_value_def upto_rec1)

lemma dec_value_high: "128 \<le> n \<Longrightarrow> dec_value n = 0"
  by (simp add: dec_value_def)

lemma dec_table_ints: "map uint base64_dec_table = map dec_value [0..255]"
proof -
  have "map dec_value [128..255] = map (\<lambda>_. 0) [128..255 :: int]"
    by (intro map_cong refl dec_value_high) (simp only: set_upto atLeastAtMost_iff)
  also have "\<dots> = replicate 128 0" by (simp only: map_replicate_const length_upto) simp
  also have "\<dots> = map uint (drop 128 base64_dec_table)" by (simp add: base64_dec_table_def)
  finally have high: "map dec_value [128..255] = map uint (drop 128 base64_dec_table)" .
  have "[0..255 :: int] = [0..127] @ [128..255]" using upto_split2 [of 0 127 255] by simp
  then have "map dec_value [0..255] = map uint (take 128 base64_dec_table @ drop 128 base64_dec_table)"
    unfolding map_append by (simp only: map_append dec_table_low high)
  then show ?thesis by simp
qed

lemma uint_dec_entry: "uint (dec_entry c) = dec_value (uint c)"
proof -
  have len: "length base64_dec_table = 256" by (simp add: base64_dec_table_def)
  have c: "unat c < 256" by simp
  have "uint (dec_entry c) = map uint base64_dec_table ! unat c" using c len by (simp add: dec_entry_def)
  also have "\<dots> = dec_value (int (unat c))"
  proof -
    have "map dec_value [0..255] ! k = dec_value (int k)" if "k < 256" for k using that by simp
    then show ?thesis unfolding dec_table_ints using c .
  qed
  finally show ?thesis by simp
qed

lemma sextet_bits_low: "unat w mod 64 = n \<Longrightarrow> sextet_bits w = sextet_bits (word_of_nat n)"
proof -
  assume n: "unat w mod 64 = n"
  have "w AND mask 6 = word_of_nat n" using n unat_and_mask [of w 6] by (simp add: word_unat_eq_iff unat_of_nat)
  moreover have "sextet_bits w = sextet_bits (w AND mask 6)"
    by (simp add: sextet_bits_def bit_and_iff bit_mask_iff)
  ultimately show ?thesis by simp
qed

lemma dec_alphabet:
  assumes "in_alphabet c"
  shows "dec_bits c = char_bits c" "dec_bits (url_safe c) = char_bits c"
    and "char_ok 0x40 c" "char_ok 0xc0 c" "char_ok 0xc0 (url_safe c)" "url_safe c \<noteq> 61"
proof -
  obtain n where n: "n < 64" and c: "c = b64_alphabet ! n"
    using assms by (auto simp: in_alphabet_def in_set_conv_nth length_alphabet)
  define v where "v = (if n < 26 then 65 + n else if n < 52 then 71 + n else if n < 62 then n - 4 else if n = 62 then 43 else 47)"
  define u where "u = (if n = 62 then 45 else if n = 63 then 95 else v)"
  have v: "c = word_of_nat v" "v < 256" using n by (simp add: c nth_alphabet v_def, auto simp: v_def)
  have u: "url_safe c = word_of_nat u" "u < 256"
  proof -
    have "url_safe (word_of_nat k) = word_of_nat (if k = 43 then 45 else if k = 47 then 95 else k)" if "k < 256" for k
      using that by (auto simp: url_safe_def word_unat_eq_iff unat_of_nat)
    moreover have "(if v = 43 then 45 else if v = 47 then 95 else v) = u"
    proof -
      consider "n < 26" | "26 \<le> n" "n < 52" | "52 \<le> n" "n < 62" | "n = 62" | "n = 63" using n by linarith
      then show ?thesis by cases (auto simp: u_def v_def)
    qed
    ultimately show "url_safe c = word_of_nat u" using v by simp
    show "u < 256" using v(2) by (simp add: u_def)
  qed
  have ent: "uint (dec_entry (word_of_nat k)) = dec_value (int k)" if "k < 256" for k
  proof -
    have "uint (word_of_nat k :: byte) = int k" using that by (simp add: unsigned_of_nat take_bit_nat_eq_self)
    then show ?thesis using uint_dec_entry [of "word_of_nat k"] by simp
  qed
  have idx: "b64_index c = word_of_nat n" using n by (simp add: c index_alphabet)
  have dv: "dec_value (int v) = (if n < 26 then 192 + int n else if n < 52 then 192 + int n else if n < 62 then 192 + int n else if n = 62 then 0x7e else 0x7f)"
    using n by (auto simp: v_def dec_value_def)
  have du: "dec_value (int u) = (if n < 62 then 192 + int n else if n = 62 then 0xbe else 0xbf)"
    using n by (auto simp: u_def v_def dec_value_def)
  have ev: "unat (dec_entry c) = (if n < 62 then 192 + n else if n = 62 then 0x7e else 0x7f)"
    using ent [OF v(2)] dv n by (auto simp: v(1) simp flip: nat_uint_eq split: if_splits)
  have eu: "unat (dec_entry (url_safe c)) = (if n < 62 then 192 + n else if n = 62 then 0xbe else 0xbf)"
    using ent [OF u(2)] du n by (auto simp: u(1) simp flip: nat_uint_eq split: if_splits)
  have r: "unat (dec_entry c) mod 64 = n" "unat (dec_entry (url_safe c)) mod 64 = n"
    unfolding ev eu using n by (auto simp: mod_if)
  show "dec_bits c = char_bits c"
    unfolding dec_bits_def char_bits_def idx by (rule sextet_bits_low [OF r(1)])
  show "dec_bits (url_safe c) = char_bits c"
    unfolding dec_bits_def char_bits_def idx by (rule sextet_bits_low [OF r(2)])
  show "char_ok 0xc0 c" "char_ok 0xc0 (url_safe c)"
    unfolding char_ok_def by (intro disjI1 mode_bits, simp add: ev eu)+
  have "odd (unat (dec_entry c) div 64)" unfolding ev using n div_nat_eqI [of 64 3 "192 + n"] by auto
  then show "char_ok 0x40 c" unfolding char_ok_def by (intro disjI1 mode_bits)
  have "u \<noteq> 61" using n by (auto simp: u_def v_def)
  then show "url_safe c \<noteq> 61" using u by (simp add: word_unat_eq_iff unat_of_nat)
qed

subsection \<open>Decoding undoes encoding\<close>

lemma rfc4648_text_parts:
  assumes "bs \<noteq> []" and "url \<longrightarrow> url'"
  obtains p d where "rfc4648_text url bs = p @ d" and "pad_count (p @ d) = length d" and "length (p @ d) mod 4 = 0"
    and "list_all (char_ok (b64_mode url')) p" and "octets (concat (map dec_bits p)) = bs" and "p \<noteq> []"
    and "61 \<notin> set p" and "set d \<subseteq> {61}"
proof -
  let ?f = "if url then url_safe else id" and ?e = "rfc4648_encode bs"
  define p d where "p = takeWhile (\<lambda>c. c \<noteq> 61) ?e" and "d = dropWhile (\<lambda>c. c \<noteq> 61) ?e"
  have wf: "b64_well_formed ?e" and out: "octets (concat (map char_bits p)) = bs"
    using rfc4648_round_trip [of bs] by (simp_all add: rfc4648_decode_def p_def split: if_splits)
  have e: "?e = p @ d" by (simp add: p_def d_def)
  have d: "d = [] \<or> d = [61] \<or> d = [61, 61]" and m: "length (p @ d) mod 4 = 0" and al: "\<forall>c \<in> set p. in_alphabet c"
    using wf by (simp_all add: b64_well_formed_def p_def d_def)
  have ne: "p \<noteq> []"
  proof
    assume p: "p = []"
    have "d \<noteq> []" using out assms(1) p by (auto simp: octets.simps)
    then have "length (p @ d) = 1 \<or> length (p @ d) = 2" using d p by auto
    then show False using m by auto
  qed
  have not_pad: "?f c \<noteq> 61" "char_ok (b64_mode url') (?f c)" "dec_bits (?f c) = char_bits c" if "c \<in> set p" for c
    using that al dec_alphabet [of c] assms(2) by (auto simp: b64_mode_def p_def dest: set_takeWhileD)
  have "map ?f d = d" using d by (auto simp: url_safe_def)
  then have enc: "rfc4648_text url bs = map ?f p @ d" by (simp add: rfc4648_text_def e)
  have last: "last (map ?f p) \<noteq> 61" using ne not_pad(1) by (simp add: last_map)
  have pad: "pad_count (map ?f p @ d) = length d"
    using d last ne by (auto simp: pad_count_def butlast_append)
  show thesis
  proof (rule that [OF enc pad])
    show "length (map ?f p @ d) mod 4 = 0" using m by simp
    show "list_all (char_ok (b64_mode url')) (map ?f p)" using not_pad(2) by (simp add: list_all_iff)
    have "map dec_bits (map ?f p) = map char_bits p" unfolding map_map comp_def using not_pad(3) by (intro map_cong refl)
    then show "octets (concat (map dec_bits (map ?f p))) = bs" using out by (simp only:)
    show "map ?f p \<noteq> []" using ne by simp
    show "61 \<notin> set (map ?f p)" unfolding set_map image_iff using not_pad(1) by metis
    show "set d \<subseteq> {61}" using d by auto
  qed
qed

lemma quarter_size:
  assumes "length (p @ d) mod 4 = 0" and "length d \<le> 2"
  shows "length (p @ d) div 4 * 3 = 6 * length p div 8 + length d"
proof -
  obtain j where j: "length p + length d = 4 * j" using assms(1) by auto
  have "6 * x div 8 + y = 3 * j" if xy: "x + y = 4 * j" "y \<le> 2" for x y :: nat
  proof -
    consider "y = 0" | "y = 1" | "y = 2" using xy(2) by linarith
    then show ?thesis
    proof cases
      case 2
      then obtain i where "j = Suc i" using xy by (cases j) auto
      then have "x = 4 * i + 3" using 2 xy by simp
      then show ?thesis using 2 \<open>j = Suc i\<close> by simp
    next
      case 3
      then obtain i where "j = Suc i" using xy by (cases j) auto
      then have "x = 4 * i + 2" using 3 xy by simp
      then show ?thesis using 3 \<open>j = Suc i\<close> by simp
    qed (use xy in simp)
  qed
  then show ?thesis using j assms(2) by simp
qed

lemma decode_text:
  assumes "bs \<noteq> []" and "url \<longrightarrow> url'" and "length bs \<le> length buffer"
  shows "buff_base64_decode buffer (rfc4648_text url bs) url' = (length bs, write_at buffer 0 bs)"
proof -
  obtain p d where t: "rfc4648_text url bs = p @ d" and pad: "pad_count (p @ d) = length d" and m: "length (p @ d) mod 4 = 0"
    and ok: "list_all (char_ok (b64_mode url')) p" and out: "octets (concat (map dec_bits p)) = bs" and ne: "p \<noteq> []"
    by (rule rfc4648_text_parts [OF assms(1,2)])
  have len: "length bs = 6 * length p div 8"
    unfolding out [symmetric] by (simp add: length_octets_of length_concat_dec_bits)
  then have room: "length (p @ d) div 4 * 3 \<le> length buffer + length d"
    using assms(3) quarter_size [OF m] pad_count_le [of "p @ d"] by (simp only: len pad)
  show ?thesis
    unfolding t using decode_eq [OF m, of buffer url'] ne ok room out by (simp add: pad)
qed

theorem ton_base64_round_trip:
  assumes "length bs \<noteq> 1" and "length bs < SIZE_LIMIT" and "compute_base64_encoded_size (length bs) \<le> 0x7fffffff"
  shows "Option.bind (str_base64_encode bs url) (\<lambda>s. str_base64_decode s url) = Some bs"
proof (cases "bs = []")
  case True
  then show ?thesis using str_encode_eq [OF assms(1,2)]
    by (simp add: rfc4648_text_def rfc4648_encode_simps str_base64_decode_def decoded_base64_size_def)
next
  case False
  obtain p d where t: "rfc4648_text url bs = p @ d" and pad: "pad_count (p @ d) = length d" and m: "length (p @ d) mod 4 = 0"
    and ok: "list_all (char_ok (b64_mode url)) p" and out: "octets (concat (map dec_bits p)) = bs" and ne: "p \<noteq> []"
    by (rule rfc4648_text_parts [OF False, of url url]) simp
  have len: "length bs = 6 * length p div 8"
    unfolding out [symmetric] by (simp add: length_octets_of length_concat_dec_bits)
  have "length d \<le> 2" using pad pad_count_le by metis
  have "decoded_base64_size (p @ d) url = int (length (p @ d) div 4 * 3) - int (length d)"
    unfolding pad [symmetric] using m assms(3) length_rfc4648_text [of url bs] ne
    by (simp add: decoded_base64_size_def and_3_mod drop_bit_eq_div pad_count_def t)
  moreover have "length (p @ d) div 4 * 3 = length bs + length d"
    unfolding len by (rule quarter_size [OF m \<open>length d \<le> 2\<close>])
  ultimately have size: "decoded_base64_size (p @ d) url = int (length bs)" by simp
  have "length bs \<noteq> 0" using False by simp
  then show ?thesis
    using decode_text [OF False, of url url "replicate (length bs) 0"]
    by (simp add: str_encode_eq [OF assms(1,2)] t str_base64_decode_def size write_at_def)
qed

end
