(* ===== verification/TonAddress.thy ===== *)
theory TonAddress
  imports TonCodec
begin

section \<open>Account addresses and public keys as text (ton/crypto/block/block.cpp)\<close>

text \<open>
  The 48-character user-friendly form of a standard address (tag, workchain, 32 bytes, CRC16, in
  base64), the raw form \<open>workchain:hex\<close>, and public keys in the same 36-byte frame. Stack buffers
  that the code leaves uninitialised are arguments (\<open>junk\<close>), so nothing is assumed of them.
\<close>

subsection \<open>Public keys\<close>

datatype key_error = Key_Not_32_Bytes | Key_Not_48_Characters | Key_Not_Base64 | Key_Bad_Crc | Not_A_Key | Not_Ed25519

definition PublicKey_from_bytes :: "bytes \<Rightarrow> key_error + bytes" where
  "PublicKey_from_bytes key = (if length key \<noteq> 32 then Inl Key_Not_32_Bytes else Inr key)"

definition PublicKey_parse :: "bytes \<Rightarrow> bytes \<Rightarrow> key_error + bytes" where
  "PublicKey_parse junk key =
     (if length key \<noteq> 48 then Inl Key_Not_48_Characters
      else
        let (n, buf) = buff_base64_decode junk key True in
        if n = 0 then Inl Key_Not_Base64
        else
          let hash = push_bit 8 (ucast (buf ! 34)) + ucast (buf ! 35) in
          if hash \<noteq> crc16 (take 34 buf) then Inl Key_Bad_Crc
          else if buf ! 0 \<noteq> 0x3e then Inl Not_A_Key
          else if buf ! 1 \<noteq> 0xe6 then Inl Not_Ed25519
          else PublicKey_from_bytes (take 32 (drop 2 buf)))"

definition crc_bytes :: "bytes \<Rightarrow> bytes" where
  "crc_bytes bs = (let hash = crc16 bs in [ucast (drop_bit 8 hash), ucast (hash AND 0xff)])"

definition PublicKey_serialize :: "bytes \<Rightarrow> bool \<Rightarrow> bytes option" where
  "PublicKey_serialize key base64_url =
     (if length key \<noteq> 32 then None
      else
        let bs = [0x3e, 0xe6] @ key; buf = bs @ crc_bytes bs in
        map_option snd (buff_base64_encode (replicate 48 0) buf base64_url))"

subsection \<open>User-friendly addresses\<close>

definition workchainInvalid :: u32 where
  "workchainInvalid = 0x80000000"

record std_address =
  workchain :: u32
  bounceable :: bool
  testnet :: bool
  addr :: bytes

definition pack_std_smc_addr_to :: "bytes \<Rightarrow> bool \<Rightarrow> u32 \<Rightarrow> bytes \<Rightarrow> bool \<Rightarrow> bool \<Rightarrow> (bool \<times> bytes) option" where
  "pack_std_smc_addr_to result base64_url wc address bounce test =
     (if sint wc < - 128 \<or> sint wc \<ge> 128 then Some (False, result)
      else
        let bs = [0x51 - of_bool bounce * 0x40 + of_bool test * 0x80, ucast wc] @ take 32 address;
            buffer = bs @ crc_bytes bs
        in case buff_base64_encode result buffer base64_url of
             None \<Rightarrow> None
           | Some (n, out) \<Rightarrow> if n = 48 then Some (True, out) else None)"

definition pack_std_smc_addr :: "bytes \<Rightarrow> bool \<Rightarrow> u32 \<Rightarrow> bytes \<Rightarrow> bool \<Rightarrow> bool \<Rightarrow> bytes option" where
  "pack_std_smc_addr junk base64_url wc address bounce test =
     map_option (\<lambda>(ok, result). if ok then result else [])
       (pack_std_smc_addr_to junk base64_url wc address bounce test)"

text \<open>The address being filled in is the last argument and result.\<close>

definition unpack_std_smc_addr :: "bytes \<Rightarrow> bytes \<Rightarrow> std_address \<Rightarrow> bool \<times> std_address" where
  "unpack_std_smc_addr junk packed a =
     (let a = a\<lparr>workchain := workchainInvalid\<rparr>;
          (n, buffer) = buff_base64_decode junk packed True in
      if n = 0 then (False, a)
      else
        let crc = crc16 (take 34 buffer) in
        if buffer ! 34 \<noteq> ucast (drop_bit 8 crc) \<or> buffer ! 35 \<noteq> ucast (crc AND 0xff) then (False, a)
        else if buffer ! 0 AND 0x3f \<noteq> 0x11 then (False, a)
        else
          (True, a\<lparr>testnet := buffer ! 0 AND 0x80 \<noteq> 0, bounceable := \<not> (buffer ! 0 AND 0x40 \<noteq> 0),
             workchain := scast (buffer ! 1), addr := take 32 (drop 2 buffer)\<rparr>))"

definition rserialize_to :: "bytes \<Rightarrow> bool \<Rightarrow> std_address \<Rightarrow> (bool \<times> bytes) option" where
  "rserialize_to to base64_url a =
     (if length to = 48
      then pack_std_smc_addr_to to base64_url (workchain a) (addr a) (bounceable a) (testnet a)
      else Some (False, to))"

definition rserialize :: "bytes \<Rightarrow> bool \<Rightarrow> std_address \<Rightarrow> bytes option" where
  "rserialize junk base64_url a =
     map_option (\<lambda>(ok, buffer). if ok then buffer else []) (rserialize_to junk base64_url a)"

definition rdeserialize :: "bytes \<Rightarrow> bytes \<Rightarrow> std_address \<Rightarrow> bool \<times> std_address" where
  "rdeserialize junk packed a = (if length packed = 48 then unpack_std_smc_addr junk packed a else (False, a))"

subsection \<open>Numbers as text (td/utils/misc.h, td/utils/StringBuilder.cpp)\<close>

definition to_integer :: "bytes \<Rightarrow> u32" where
  "to_integer str =
     (let is_negative = (str \<noteq> [] \<and> hd str = 45);
          digits = takeWhile (\<lambda>c. 48 \<le> c \<and> c \<le> 57) (if is_negative then tl str else str);
          integer_value = foldl (\<lambda>v c. v * 10 + (ucast c - 48)) 0 digits in
      if integer_value > 0x7fffffff then
        let integer_value = NOT integer_value + 1; is_negative = (\<not> is_negative) in
        if integer_value > 0x7fffffff then 0x80000000
        else if is_negative then - integer_value else integer_value
      else if is_negative then - integer_value else integer_value)"

fun digits_reversed :: "nat \<Rightarrow> bytes" where
  "digits_reversed x = word_of_nat (48 + x mod 10) # (if x div 10 > 0 then digits_reversed (x div 10) else [])"

declare digits_reversed.simps [simp del]

definition print_uint :: "nat \<Rightarrow> bytes" where
  "print_uint x =
     (if x < 100 then
        (if x < 10 then [word_of_nat (48 + x)] else [word_of_nat (48 + x div 10), word_of_nat (48 + x mod 10)])
      else rev (digits_reversed x))"

definition print_int :: "int \<Rightarrow> bytes" where
  "print_int x =
     (if x < 0 then
        (if x = - (2 ^ 31) then [45, 50, 49, 52, 55, 52, 56, 51, 54, 52, 56] else 45 # print_uint (nat (- x)))
      else print_uint (nat x))"

definition to_integer_safe :: "bytes \<Rightarrow> u32 option" where
  "to_integer_safe str = (let res = to_integer str in if print_int (sint res) \<noteq> str then None else Some res)"

subsection \<open>Raw addresses\<close>

definition parse_hex_digit :: "int \<Rightarrow> int" where
  "parse_hex_digit c =
     (if c \<ge> 48 \<and> c \<le> 57 then c - 48
      else let c = c OR 0x20 in if c \<ge> 97 \<and> c \<le> 122 then c - 97 + 10 else - 1)"

fun parse_nibbles :: "nat \<Rightarrow> bytes \<Rightarrow> bytes \<Rightarrow> bool \<times> bytes" where
  "parse_nibbles i [] a = (True, a)"
| "parse_nibbles i (c # cs) a =
     (let x = parse_hex_digit (uint c) in
      if x < 0 then (False, a)
      else
        let (x, m) = (if even i then (push_bit 4 x, push_bit 4 15) else (x, 15)) in
        parse_nibbles (i + 1) cs (a[i div 2 := word_of_int ((uint (a ! (i div 2)) AND NOT m) OR x)]))"

definition invalidate :: "std_address \<Rightarrow> bool \<times> std_address" where
  "invalidate a = (False, a\<lparr>workchain := workchainInvalid\<rparr>)"

definition parse_addr :: "bytes \<Rightarrow> bytes \<Rightarrow> std_address \<Rightarrow> bool \<times> std_address" where
  "parse_addr junk acc_string a =
     (let (ok, a) = rdeserialize junk acc_string a in
      if ok then (True, a)
      else
        let a = a\<lparr>testnet := False, bounceable := True\<rparr>;
            hex = (\<lambda>pos a. if length acc_string \<noteq> pos + 64 then invalidate a
                     else case parse_nibbles 0 (drop pos acc_string) (addr a) of
                            (True, d) \<Rightarrow> (True, a\<lparr>addr := d\<rparr>)
                          | (False, d) \<Rightarrow> invalidate (a\<lparr>addr := d\<rparr>));
            pos = length (takeWhile (\<lambda>c. c \<noteq> 58) acc_string)
        in if pos < length acc_string then
             (if pos > 10 then invalidate a
              else
                case to_integer_safe (take pos acc_string) of
                  None \<Rightarrow> invalidate a
                | Some wc \<Rightarrow>
                    (let a = a\<lparr>workchain := wc\<rparr> in if wc = workchainInvalid then invalidate a else hex (pos + 1) a))
           else hex 0 a)"

text \<open>\<open>StdAddress a;\<close> leaves the 32 bytes of the address uninitialised.\<close>

definition default_address :: "bytes \<Rightarrow> std_address" where
  "default_address junk = \<lparr>workchain = workchainInvalid, bounceable = True, testnet = False, addr = junk\<rparr>"

definition StdAddress_parse :: "bytes \<Rightarrow> bytes \<Rightarrow> bytes \<Rightarrow> std_address option" where
  "StdAddress_parse junk junk_addr acc_string =
     (case parse_addr junk acc_string (default_address junk_addr) of
        (True, res) \<Rightarrow> Some res
      | (False, _) \<Rightarrow> None)"

text \<open>The workchain, the address and the two flags, when the caller asks for them.\<close>

definition parse_std_account_addr :: "bytes \<Rightarrow> bytes \<Rightarrow> bytes \<Rightarrow> (u32 \<times> bytes \<times> bool \<times> bool) option" where
  "parse_std_account_addr junk junk_addr acc_string =
     (case parse_addr junk acc_string (default_address junk_addr) of
        (True, a) \<Rightarrow> Some (workchain a, addr a, bounceable a, testnet a)
      | (False, _) \<Rightarrow> None)"

subsection \<open>Frames of 36 bytes\<close>

definition text_bits :: "bytes \<Rightarrow> bool list" where
  "text_bits s = concat (map dec_bits s)"

lemma text_bits_simps [simp]:
  "text_bits [] = []" "text_bits (c # s) = dec_bits c @ text_bits s" "text_bits (s @ t) = text_bits s @ text_bits t"
  "length (text_bits s) = 6 * length s"
  by (simp_all add: text_bits_def length_concat_dec_bits)

lemma bits_of_octet: "octet_bits (bits_value [a, b, c, d, e, f, g, h]) = [a, b, c, d, e, f, g, h]"
  by (cases a; cases b; cases c; cases d; cases e; cases f; cases g; cases h) (simp_all add: bits_value_def octet_bits_def)

lemma eight_bits: "length t = 8 \<Longrightarrow> \<exists>a b c d e f g h. t = [a, b, c, d, e, f, g, h]"
  by (auto simp: numeral_eq_Suc length_Suc_conv)

lemma bits_of_octets: "8 dvd length bs \<Longrightarrow> concat (map octet_bits (octets bs)) = bs"
proof (induction bs rule: octets.induct)
  case (1 bs)
  show ?case
  proof (cases "length bs < 8")
    case True
    then show ?thesis using 1(2) by (auto dest: dvd_imp_le)
  next
    case False
    have l: "length (take 8 bs) = 8" using False by simp
    then obtain a b c d e f g h where t: "take 8 bs = [a, b, c, d, e, f, g, h]"
      using eight_bits by blast
    have "8 dvd length (drop 8 bs)" using 1(2) by (simp add: dvd_diff_nat)
    then have "concat (map octet_bits (octets (drop 8 bs))) = drop 8 bs" using 1(1) False by blast
    then have "concat (map octet_bits (octets bs)) = take 8 bs @ drop 8 bs"
      using False unfolding octets.simps [of bs] by (simp add: t bits_of_octet)
    then show ?thesis by simp
  qed
qed

text \<open>A frame with its checksum in place is a codeword.\<close>

lemma crc_low_byte: "ucast (h AND 0xff) = (ucast h :: byte)" for h :: u16
  by (rule bit_word_eqI) (unfold bit_simps bit_ff, auto)

lemma frame_codeword: "crc_bits 0 (concat (map octet_bits (bs @ crc_bytes bs))) = 0"
  using crc_own_bytes [of "crc16 bs"] by (simp add: crc_bytes_def Let_def crc_low_byte crc16_bits)

lemma split_frame: "length buf = 36 \<Longrightarrow> buf = take 34 buf @ [buf ! 34, buf ! 35]"
proof -
  assume l: "length buf = 36"
  have "drop 34 buf = [buf ! 34, buf ! 35]"
    using l by (simp add: Cons_nth_drop_Suc [symmetric])
  then show ?thesis using append_take_drop_id [of 34 buf] by simp
qed

text \<open>What 48 characters decode to, when they do not end in \<open>=\<close>.\<close>

lemma decode_48:
  assumes "length junk = 36" and "length s = 48" and "last s \<noteq> 61"
  shows "list_all (char_ok 0xc0) s \<Longrightarrow> buff_base64_decode junk s True = (36, octets (text_bits s))"
    and "\<not> list_all (char_ok 0xc0) s \<Longrightarrow> fst (buff_base64_decode junk s True) = 0"
proof -
  have q: "pad_count s = 0" using assms(3) by (simp add: pad_count_def)
  have "s \<noteq> []" using assms(2) by auto
  then show "list_all (char_ok 0xc0) s \<Longrightarrow> buff_base64_decode junk s True = (36, octets (text_bits s))"
    using decode_eq [of s junk True] assms q
    by (simp add: b64_mode_def text_bits_def [symmetric] length_octets_of write_at_def)
  show "\<not> list_all (char_ok 0xc0) s \<Longrightarrow> fst (buff_base64_decode junk s True) = 0"
    using decode_refuses [of True s junk] assms(2) q by (simp add: b64_mode_def)
qed

text \<open>An accepted address is a codeword, and its fields are in the frame.\<close>

definition frame_address :: "bytes \<Rightarrow> std_address" where
  "frame_address buf =
     \<lparr>workchain = scast (buf ! 1), bounceable = (buf ! 0 AND 0x40 = 0), testnet = (buf ! 0 AND 0x80 \<noteq> 0),
      addr = take 32 (drop 2 buf)\<rparr>"

lemma unpack_chars:
  assumes l: "length junk = 36" "length s = 48" "last s \<noteq> 61" and ok: "unpack_std_smc_addr junk s a = (True, a')"
  shows "list_all (char_ok 0xc0) s"
  using decode_48(2) [OF l] ok
  by (cases "list_all (char_ok 0xc0) s") (auto simp: unpack_std_smc_addr_def Let_def split: prod.splits)

lemma unpack_codeword:
  assumes l: "length junk = 36" "length s = 48" "last s \<noteq> 61" and ok: "unpack_std_smc_addr junk s a = (True, a')"
  shows "a' = frame_address (octets (text_bits s))" and "crc_bits 0 (text_bits s) = 0"
proof -
  let ?buf = "octets (text_bits s)"
  note all = unpack_chars [OF l ok]
  note d = decode_48(1) [OF l all]
  show "a' = frame_address ?buf"
    using ok by (simp add: unpack_std_smc_addr_def d frame_address_def Let_def split: if_splits) auto
  have len: "length ?buf = 36" using l(2) by (simp add: length_octets_of)
  have "[?buf ! 34, ?buf ! 35] = crc_bytes (take 34 ?buf)"
    using ok by (simp add: unpack_std_smc_addr_def d crc_bytes_def Let_def split: if_splits)
  then have "?buf = take 34 ?buf @ crc_bytes (take 34 ?buf)" using split_frame [OF len] by simp
  then have "crc_bits 0 (concat (map octet_bits ?buf)) = 0" using frame_codeword [of "take 34 ?buf"] by simp
  then show "crc_bits 0 (text_bits s) = 0" using l(2) by (simp add: bits_of_octets)
qed

text \<open>The payload is in the first 46 characters, padded or not.\<close>

lemma take_octets: "take n (octets bs) = octets (take (8 * n) bs)"
proof (induction n arbitrary: bs)
  case 0
  then show ?case by (simp add: octets.simps [of "[]"])
next
  case (Suc n)
  show ?case
  proof (cases "length bs < 8")
    case True
    then show ?thesis by (simp add: octets.simps [of bs] octets.simps [of "take (8 * Suc n) bs"])
  next
    case False
    have t: "take (8 * Suc n) bs = take 8 bs @ take (8 * n) (drop 8 bs)"
      using take_add [of 8 "8 * n" bs] by simp
    have "octets (take (8 * Suc n) bs) = bits_value (take 8 bs) # octets (take (8 * n) (drop 8 bs))"
      unfolding t using False by (subst octets.simps) simp
    then show ?thesis using False Suc [of "drop 8 bs"] by (simp add: octets.simps [of bs])
  qed
qed

lemma frame_address_take: "frame_address (take 34 buf) = frame_address buf"
  by (simp add: frame_address_def drop_take)

lemma unpack_payload:
  assumes l: "length junk = 36" "length s = 48" and ok: "unpack_std_smc_addr junk s a = (True, a')"
  shows "a' = frame_address (octets (text_bits (take 46 s)))"
proof -
  define p where "p = take (48 - pad_count s) s"
  define out where "out = octets (text_bits p)"
  have q: "pad_count s \<le> 2" by (rule pad_count_le)
  have ne: "s \<noteq> []" using l(2) by auto
  have all: "list_all (char_ok (b64_mode True)) p"
    using decode_refuses [of True s junk] ok l(2)
    by (cases "list_all (char_ok (b64_mode True)) p") (auto simp: p_def unpack_std_smc_addr_def Let_def split: prod.splits)
  have d: "buff_base64_decode junk s True = (length out, write_at junk 0 out)"
    using decode_eq [of s junk True] l ne all by (simp add: p_def out_def text_bits_def Let_def)
  then have a': "a' = frame_address (write_at junk 0 out)"
    using ok by (simp add: unpack_std_smc_addr_def frame_address_def Let_def split: if_splits) auto
  have k: "46 \<le> 48 - pad_count s" using q by linarith
  then have "take 46 p = take 46 s" by (simp add: p_def min_absorb1)
  then have p: "p = take 46 s @ drop 46 p" "46 \<le> length p"
    using k l(2) append_take_drop_id [of 46 p] by (simp_all add: p_def)
  have "take 272 (text_bits p) = take 272 (text_bits (take 46 s))"
    using l(2) by (subst p(1)) simp
  then have "take 34 out = take 34 (octets (text_bits (take 46 s)))" by (simp add: out_def take_octets)
  moreover have "34 \<le> length out" using p(2) by (simp add: out_def length_octets_of)
  then have "take 34 (write_at junk 0 out) = take 34 out" by (simp add: write_at_def)
  ultimately show ?thesis unfolding a' by (metis frame_address_take)
qed

lemma no_difference:
  "length v = length w \<Longrightarrow> map2 (\<lambda>b d. b = (\<not> d)) v w = replicate (length v) False \<Longrightarrow> v = w"
  by (induction v w rule: list_induct2) simp_all

lemma crc_window:
  assumes "crc_bits 0 (p @ v @ q) = 0" and "crc_bits 0 (p @ w @ q) = 0" and "length v = length w" and "length v \<le> 16"
  shows "v = w"
proof -
  let ?x = "map2 (\<lambda>b d. b = (\<not> d))"
  have same: "?x r r = replicate (length r) False" for r by (induction r) simp_all
  have "crc_bits (0 XOR 0) (?x (p @ v @ q) (p @ w @ q)) = crc_bits 0 (p @ v @ q) XOR crc_bits 0 (p @ w @ q)"
    using assms(3) by (intro crc_bits_xor) simp
  then have "crc_bits 0 (?x (p @ v @ q) (p @ w @ q)) = 0" by (simp only: assms(1,2) xor.right_neutral)
  moreover have "?x (p @ v @ q) (p @ w @ q) = replicate (length p) False @ ?x v w @ replicate (length q) False"
    using assms(3) by (simp add: same)
  ultimately have "crc_bits 0 (replicate (length p) False @ ?x v w @ replicate (length q) False) = 0" by (simp only:)
  moreover have len: "length (?x v w) = length v" using assms(3) by simp
  ultimately have "?x v w = replicate (length v) False"
    using crc_burst [of "length p" "?x v w" "length q"] assms(4) unfolding len by blast
  then show ?thesis by (rule no_difference [OF assms(3)])
qed

subsection \<open>Packing and unpacking\<close>

lemma encode_36:
  assumes "length buf = 36" and "length result = 48"
  shows "buff_base64_encode result buf url = Some (48, rfc4648_text url buf)" and "length (rfc4648_text url buf) = 48"
proof -
  have "b64_loop url buf 0 = Some (rfc4648_text url buf)" using b64_loop_eq [of buf url 0] assms(1) by (simp add: SIZE_LIMIT_def)
  moreover show l: "length (rfc4648_text url buf) = 48"
    using assms(1) by (simp add: length_rfc4648_text compute_base64_encoded_size_def push_bit_eq_mult)
  ultimately show "buff_base64_encode result buf url = Some (48, rfc4648_text url buf)"
    using assms by (simp add: buff_base64_encode_def compute_base64_encoded_size_def push_bit_eq_mult write_at_def)
qed

lemma length_crc_bytes [simp]: "length (crc_bytes bs) = 2"
  by (simp add: crc_bytes_def Let_def)

lemma sint_bounds_32: "- (2 ^ 31) \<le> sint (w :: byte)" "sint (w :: byte) < 2 ^ 31"
  using sint_ge [of w] sint_lt [of w] by simp_all

lemma narrow_workchain: "- 128 \<le> sint wc \<Longrightarrow> sint wc < 128 \<Longrightarrow> scast (ucast wc :: byte) = wc" for wc :: u32
proof -
  assume b: "- 128 \<le> sint wc" "sint wc < 128"
  have "sint (scast (ucast wc :: byte) :: u32) = signed_take_bit 31 (sint (ucast wc :: byte))" by (simp add: signed_scast_eq)
  also have "\<dots> = sint (ucast wc :: byte)" by (intro signed_take_bit_int_eq_self sint_bounds_32)
  also have "\<dots> = signed_take_bit 7 (sint wc)"
  proof -
    have "signed_take_bit 7 (take_bit 8 k) = signed_take_bit 7 k" for k :: int
      by (rule bit_eqI) (auto simp: bit_signed_take_bit_iff bit_take_bit_iff)
    then show ?thesis by (simp add: sint_uint unsigned_ucast_eq)
  qed
  also have "\<dots> = sint wc" using b by (intro signed_take_bit_int_eq_self) simp_all
  finally show ?thesis by (rule signed_word_eqI)
qed

lemma tag_bits:
  fixes b t :: bool
  defines "tag \<equiv> 0x51 - of_bool b * 0x40 + of_bool t * 0x80 :: byte"
  shows "tag AND 0x3f = 0x11" "(tag AND 0x40 = 0) = b" "(tag AND 0x80 \<noteq> 0) = t"
  by (cases b; cases t; simp add: tag_def)+

lemma pack_eq:
  fixes b t :: bool
  assumes "- 128 \<le> sint wc" "sint wc < 128" and "length a = 32" and "length result = 48"
  defines "bs \<equiv> [0x51 - of_bool b * 0x40 + of_bool t * 0x80, ucast wc] @ a"
  shows "pack_std_smc_addr_to result url wc a b t = Some (True, rfc4648_text url (bs @ crc_bytes bs))"
    and "length (bs @ crc_bytes bs) = 36"
proof -
  show l: "length (bs @ crc_bytes bs) = 36" using assms(3) by (simp add: bs_def)
  have "take 32 a = a" using assms(3) by simp
  then show "pack_std_smc_addr_to result url wc a b t = Some (True, rfc4648_text url (bs @ crc_bytes bs))"
    using encode_36(1) [OF l assms(4), of url] assms(1,2)
    by (simp only: pack_std_smc_addr_to_def Let_def bs_def [symmetric] not_less if_False disj_not1 not_le) simp
qed

lemma crc_bytes_at: "length bs = 34 \<Longrightarrow> (bs @ crc_bytes bs) ! 34 = ucast (drop_bit 8 (crc16 bs))"
  "length bs = 34 \<Longrightarrow> (bs @ crc_bytes bs) ! 35 = ucast (crc16 bs AND 0xff)"
  by (simp_all add: nth_append crc_bytes_def Let_def)

lemma decode_frame:
  assumes "length buf = 36" and "length junk = 36"
  shows "buff_base64_decode junk (rfc4648_text url buf) True = (36, buf)"
proof -
  have "buf \<noteq> []" using assms(1) by auto
  then show ?thesis using decode_text [of buf url True junk] assms by (simp add: write_at_def)
qed

lemma unpack_frame:
  assumes "length bs = 34" and "length junk = 36" and "bs ! 0 AND 0x3f = 0x11"
  shows "unpack_std_smc_addr junk (rfc4648_text url (bs @ crc_bytes bs)) x = (True, frame_address (bs @ crc_bytes bs))"
proof -
  have l: "length (bs @ crc_bytes bs) = 36" using assms(1) by simp
  have at0: "(bs @ crc_bytes bs) ! 0 = bs ! 0" using assms(1) by (simp add: nth_append)
  have t: "take 34 (bs @ crc_bytes bs) = bs" using assms(1) by simp
  show ?thesis
    unfolding unpack_std_smc_addr_def decode_frame [OF l assms(2)] Let_def prod.case t crc_bytes_at [OF assms(1)] at0
    using assms(3) by (simp add: frame_address_def at0 del: append_assoc)
qed

text \<open>An address whose workchain does not fit a byte has no user-friendly form.\<close>

lemma pack_refuses:
  "sint wc < - 128 \<or> 128 \<le> sint wc \<Longrightarrow> pack_std_smc_addr junk url wc a b t = Some []"
  by (simp add: pack_std_smc_addr_def pack_std_smc_addr_to_def)

lemma split_by_mask: "(h AND NOT m) + (h AND m) = h" for h m :: "'a::len word"
proof -
  have "(h AND NOT m) AND (h AND m) = 0" "(h AND NOT m) OR (h AND m) = h"
    by (rule bit_word_eqI, auto simp: bit_and_iff bit_or_iff bit_not_iff)+
  then show ?thesis using word_plus_and_or [of "h AND NOT m" "h AND m"] by simp
qed

lemma join_bytes: "push_bit 8 (ucast (ucast (drop_bit 8 h) :: byte)) + ucast (ucast (h AND 0xff) :: byte) = h" for h :: u16
proof -
  have "push_bit 8 (ucast (ucast (drop_bit 8 h) :: byte)) = h AND NOT 0xff"
    by (rule bit_word_eqI) (unfold bit_simps bit_ff, auto)
  moreover have "ucast (ucast (h AND 0xff) :: byte) = h AND 0xff"
    by (rule bit_word_eqI) (unfold bit_simps bit_ff, auto)
  moreover have "(h AND NOT 0xff) + (h AND 0xff) = h" by (rule split_by_mask)
  ultimately show ?thesis by (simp only:)
qed

subsection \<open>What else is accepted\<close>

text \<open>The decoder reads \<open>=\<close> as a digit, with the bits of \<open>B\<close>, everywhere but at the end.\<close>

lemma pad_as_digit: "dec_bits 61 = dec_bits 66" "char_ok 0xc0 61" "char_ok 0xc0 66"
proof -
  have e: "dec_entry 61 = 1" "dec_entry 66 = 0xc1"
    using uint_dec_entry [of 61] uint_dec_entry [of 66] by (simp_all add: dec_value_def word_uint_eq_iff)
  show "dec_bits 61 = dec_bits 66" by (simp add: dec_bits_def sextet_bits_def e bit_numeral_word_iff)
  show "char_ok 0xc0 61" "char_ok 0xc0 66" by (simp_all add: char_ok_def e)
qed

lemma pad_inside_address:
  assumes "length (xs @ [66] @ ys) = 48" and "ys \<noteq> []" and "last ys \<noteq> 61" and "length junk = 36"
    and "unpack_std_smc_addr junk (xs @ [66] @ ys) x = (True, r)"
  shows "unpack_std_smc_addr junk (xs @ [61] @ ys) x = (True, r)"
proof -
  have l: "last (xs @ [c] @ ys) \<noteq> 61" "length (xs @ [c] @ ys) = 48" for c using assms(1,2,3) by simp_all
  have all: "list_all (char_ok 0xc0) (xs @ [66] @ ys)"
    by (rule unpack_chars [OF assms(4) l(2,1) assms(5)])
  then have "list_all (char_ok 0xc0) (xs @ [61] @ ys)" using pad_as_digit by simp
  then have "buff_base64_decode junk (xs @ [61] @ ys) True = buff_base64_decode junk (xs @ [66] @ ys) True"
    using decode_48(1) [OF assms(4) l(2,1)] all by (simp add: pad_as_digit)
  then show ?thesis using assms(5) by (simp only: unpack_std_smc_addr_def)
qed

text \<open>
  48 characters that end in one \<open>=\<close> fill 35 of the 36 bytes: whether they are accepted depends on
  what the stack held.
\<close>

lemma uninitialised_byte:
  assumes "length bs = 34" and "length junk = 36" and "bs ! 0 AND 0x3f = 0x11"
  shows "fst (unpack_std_smc_addr junk (rfc4648_text url (bs @ [hd (crc_bytes bs)])) x) \<longleftrightarrow>
    junk ! 35 = last (crc_bytes bs)"
proof -
  let ?b = "bs @ [hd (crc_bytes bs)]"
  have d: "buff_base64_decode junk (rfc4648_text url ?b) True = (35, ?b @ drop 35 junk)"
    using decode_text [of ?b url True junk] assms(1,2) by (simp add: write_at_def)
  have dr: "drop 35 junk = [junk ! 35]" using assms(2) by (simp add: Cons_nth_drop_Suc [symmetric])
  have at0: "(?b @ [junk ! 35]) ! 0 = bs ! 0" and at: "(?b @ [junk ! 35]) ! 34 = hd (crc_bytes bs)" "(?b @ [junk ! 35]) ! 35 = junk ! 35"
    and t: "take 34 (?b @ [junk ! 35]) = bs"
    using assms(1) by (simp_all add: nth_append)
  show ?thesis
    unfolding unpack_std_smc_addr_def d dr Let_def prod.case at0 at t
    using assms(3) by (simp add: crc_bytes_def Let_def)
qed

subsection \<open>Numbers\<close>

abbreviation digit_step :: "u32 \<Rightarrow> byte \<Rightarrow> u32" where
  "digit_step \<equiv> \<lambda>v c. v * 10 + (ucast c - 48)"

lemma print_uint_eq: "print_uint x = rev (digits_reversed x)"
proof -
  have "x < 10 \<Longrightarrow> rev (digits_reversed x) = [word_of_nat (48 + x)]" by (simp add: digits_reversed.simps)
  moreover have "\<lbrakk>\<not> x < 10; x < 100\<rbrakk> \<Longrightarrow>
      rev (digits_reversed x) = [word_of_nat (48 + x div 10), word_of_nat (48 + x mod 10)]"
    by (simp add: digits_reversed.simps [of x] digits_reversed.simps [of "x div 10"])
  ultimately show ?thesis by (simp add: print_uint_def)
qed

lemma digit_char: "d < 10 \<Longrightarrow> ucast (word_of_nat (48 + d) :: byte) - 48 = (word_of_nat d :: u32)"
proof -
  assume "d < 10"
  then have "ucast (word_of_nat (48 + d) :: byte) = (word_of_nat (48 + d) :: u32)"
    by (simp add: word_unat_eq_iff unat_ucast_up unat_of_nat del: of_nat_add)
  then show ?thesis by simp
qed

lemma digits_value: "foldl digit_step 0 (rev (digits_reversed x)) = word_of_nat x"
proof (induction x rule: digits_reversed.induct)
  case (1 x)
  have v: "foldl digit_step 0 (rev (if x div 10 > 0 then digits_reversed (x div 10) else [])) = word_of_nat (x div 10)"
    using 1 by simp
  have "foldl digit_step 0 (rev (digits_reversed x)) = word_of_nat (x div 10) * 10 + word_of_nat (x mod 10)"
    using v digit_char [of "x mod 10"] by (simp add: digits_reversed.simps [of x] del: of_nat_add)
  also have "\<dots> = word_of_nat (x div 10 * 10 + x mod 10)" by (simp only: of_nat_add of_nat_mult of_nat_numeral)
  finally show ?case by simp
qed

lemma digits_range: "c \<in> set (digits_reversed x) \<Longrightarrow> 48 \<le> c \<and> c \<le> 57"
proof (induction x rule: digits_reversed.induct)
  case (1 x)
  have "48 \<le> (word_of_nat (48 + d) :: byte) \<and> (word_of_nat (48 + d) :: byte) \<le> 57" if "d < 10" for d
    using that by (simp add: word_le_nat_alt unat_of_nat del: of_nat_add)
  moreover have "c = word_of_nat (48 + x mod 10) \<or> 0 < x div 10 \<and> c \<in> set (digits_reversed (x div 10))"
    using 1(2) by (simp add: digits_reversed.simps [of x] split: if_splits)
  ultimately show ?case using 1(1) by (elim disjE) simp_all
qed

lemma digits_nonempty [simp]: "digits_reversed x \<noteq> []"
  by (simp add: digits_reversed.simps)

lemma digits_length: "0 < k \<Longrightarrow> length (digits_reversed x) \<le> k \<longleftrightarrow> x < 10 ^ k"
proof (induction k arbitrary: x)
  case (Suc k)
  show ?case
  proof (cases "x div 10 = 0")
    case True
    then have "x < 10" by simp
    also have "(10 :: nat) \<le> 10 ^ Suc k" by simp
    finally show ?thesis using True by (simp add: digits_reversed.simps [of x])
  next
    case False
    show ?thesis
    proof (cases "k = 0")
      case True
      then show ?thesis using False by (simp add: digits_reversed.simps [of x])
    next
      case False
      then have "length (digits_reversed (x div 10)) \<le> k \<longleftrightarrow> x div 10 < 10 ^ k" using Suc.IH by simp
      then show ?thesis using \<open>x div 10 \<noteq> 0\<close> by (simp add: digits_reversed.simps [of x] less_mult_imp_div_less div_less_iff_less_mult mult.commute)
    qed
  qed
qed simp

text \<open>Reading back what was printed, at every value of the type.\<close>

lemma to_integer_digits:
  assumes "\<forall>c \<in> set ds. 48 \<le> c \<and> c \<le> 57" and "foldl digit_step 0 ds = v" and "v \<le> 0x7fffffff"
  shows "to_integer (45 # ds) = - v" and "ds \<noteq> [] \<Longrightarrow> to_integer ds = v"
proof -
  have t: "takeWhile (\<lambda>c. 48 \<le> c \<and> c \<le> 57) ds = ds" using assms(1) by (simp add: takeWhile_eq_all_conv)
  have nv: "\<not> 0x7fffffff < v" using assms(3) by (simp only: not_less)
  show "to_integer (45 # ds) = - v" by (simp add: to_integer_def t assms(2) nv)
  assume "ds \<noteq> []"
  then have "48 \<le> hd ds" using assms(1) by simp
  then have "hd ds \<noteq> 45" by auto
  then show "to_integer ds = v" by (simp add: to_integer_def t assms(2) nv)
qed

lemma to_integer_print: "to_integer (print_int (sint w)) = w"
proof -
  have rng: "\<forall>c \<in> set (rev (digits_reversed x)). 48 \<le> c \<and> c \<le> 57" for x using digits_range by simp
  have le: "word_of_nat n \<le> (0x7fffffff :: u32)" if "n < 2 ^ 31" for n
    using that by (simp add: word_le_nat_alt unat_of_nat)
  have b: "- (2 ^ 31) \<le> sint w" "sint w < 2 ^ 31" using sint_ge [of w] sint_lt [of w] by simp_all
  consider "sint w \<ge> 0" | "sint w < 0" "sint w \<noteq> - (2 ^ 31)" | "sint w = - (2 ^ 31)" using b by linarith
  then show ?thesis
  proof cases
    case 1
    have "word_of_nat (nat (sint w)) = w" using 1 by simp
    moreover have "nat (sint w) < 2 ^ 31" using b 1 by (simp add: nat_less_iff)
    ultimately show ?thesis
      using to_integer_digits(2) [OF rng digits_value le, of "nat (sint w)"] 1 by (simp add: print_int_def print_uint_eq)
  next
    case 2
    have "word_of_nat (nat (- sint w)) = (word_of_int (- sint w) :: u32)" using 2 by simp
    then have neg: "- word_of_nat (nat (- sint w)) = w" by simp
    moreover have "nat (- sint w) < 2 ^ 31" using b 2 by (simp add: nat_less_iff)
    ultimately show ?thesis
      using to_integer_digits(1) [OF rng digits_value le, of "nat (- sint w)"] 2 by (simp add: print_int_def print_uint_eq)
  next
    case 3
    then have "sint w = sint (0x80000000 :: u32)" by simp
    then have "w = 0x80000000" by (rule signed_word_eqI)
    moreover have "to_integer (print_int (- (2 ^ 31))) = 0x80000000"
      by (simp add: print_int_def to_integer_def)
    ultimately show ?thesis using 3 by simp
  qed
qed

lemma to_integer_safe_iff: "to_integer_safe s = Some w \<longleftrightarrow> s = print_int (sint w)"
  by (auto simp: to_integer_safe_def Let_def to_integer_print)

lemma print_int_chars: "c \<in> set (print_int x) \<Longrightarrow> c \<noteq> 58"
proof
  assume c: "c \<in> set (print_int x)" and 58: "c = 58"
  have "58 \<notin> set (rev (digits_reversed y))" for y using digits_range [of 58 y] by auto
  then show False using c 58 by (auto simp: print_int_def print_uint_eq split: if_splits)
qed

text \<open>Ten characters hold every workchain but those below \<open>-999999999\<close>.\<close>

lemma print_int_length:
  fixes w :: u32
  shows "length (print_int (sint w)) \<le> 10 \<longleftrightarrow> - 1000000000 < sint w"
proof -
  have b: "- (2 ^ 31) \<le> sint w" "sint w < 2 ^ 31" using sint_ge [of w] sint_lt [of w] by simp_all
  have "length (digits_reversed (nat (- sint w))) \<le> 9 \<longleftrightarrow> nat (- sint w) < 10 ^ 9" by (intro digits_length) simp
  moreover have "length (digits_reversed (nat (sint w))) \<le> 10 \<longleftrightarrow> nat (sint w) < 10 ^ 10" by (intro digits_length) simp
  ultimately show ?thesis using b by (simp add: print_int_def print_uint_eq nat_less_iff) linarith
qed

subsection \<open>Raw addresses\<close>

definition hex_char :: "bool \<Rightarrow> nat \<Rightarrow> byte" where
  "hex_char upper n = word_of_nat (if n < 10 then 48 + n else if upper then 55 + n else 87 + n)"

definition hex_text :: "bool \<Rightarrow> bytes \<Rightarrow> bytes" where
  "hex_text upper bs = concat (map (\<lambda>b. [hex_char upper (unat b div 16), hex_char upper (unat b mod 16)]) bs)"

lemma parse_hex_char: "n < 16 \<Longrightarrow> parse_hex_digit (uint (hex_char upper n)) = int n"
proof -
  assume "n < 16"
  then have "n \<in> set [0, 1, 2, 3, 4, 5, 6, 7, 8, 9, 10, 11, 12, 13, 14, 15]"
    unfolding set_simps insert_iff empty_iff by presburger
  then show ?thesis unfolding set_simps by (elim insertE emptyE; cases upper) (simp_all add: hex_char_def parse_hex_digit_def)
qed

lemma two_nibbles:
  fixes b :: byte and a m :: int
  assumes "\<And>n. bit m n \<longleftrightarrow> n < 4"
  shows "word_of_int ((uint (word_of_int ((a AND NOT (push_bit 4 m)) OR push_bit 4 (uint (drop_bit 4 b))) :: byte) AND NOT m)
    OR uint (take_bit 4 b)) = b"
  by (rule bit_word_eqI) (auto simp: bit_simps assms)

lemma bit_15: "bit (15 :: int) n \<longleftrightarrow> n < 4"
  using bit_mask_iff [of 4 n, where 'a = int] by (simp add: mask_eq_exp_minus_1)

lemma parse_nibbles_hex:
  "i \<le> length a \<Longrightarrow> length bs = length a - i \<Longrightarrow>
   parse_nibbles (2 * i) (hex_text upper bs) a = (True, take i a @ bs)"
proof (induction bs arbitrary: i a)
  case Nil
  then show ?case by (simp add: hex_text_def)
next
  case (Cons b bs)
  have i: "i < length a" using Cons.prems by simp
  have nib: "int (unat b div 16) = uint (drop_bit 4 b)" "int (unat b mod 16) = uint (take_bit 4 b)"
    by (simp_all add: uint_nat drop_bit_eq_div take_bit_eq_mod unat_div unat_mod)
  have dig: "parse_hex_digit (uint (hex_char upper (unat b div 16))) = uint (drop_bit 4 b)"
    "parse_hex_digit (uint (hex_char upper (unat b mod 16))) = uint (take_bit 4 b)"
    using parse_hex_char [of "unat b div 16" upper] parse_hex_char [of "unat b mod 16" upper]
    by (simp_all add: nib div_less_iff_less_mult)
  let ?x = "word_of_int ((uint (a ! i) AND NOT (push_bit 4 15)) OR push_bit 4 (uint (drop_bit 4 b))) :: byte"
  have "parse_nibbles (2 * i) (hex_text upper (b # bs)) a =
      parse_nibbles (2 * Suc i) (hex_text upper bs)
        (a[i := word_of_int ((uint ?x AND NOT 15) OR uint (take_bit 4 b))])"
    using i by (simp add: hex_text_def dig)
  also have "\<dots> = parse_nibbles (2 * Suc i) (hex_text upper bs) (a[i := b])"
    using two_nibbles [OF bit_15] by (simp only:)
  also have "\<dots> = (True, take (Suc i) (a[i := b]) @ bs)" using Cons i by (intro Cons.IH) simp_all
  also have "take (Suc i) (a[i := b]) @ bs = take i a @ b # bs" using i by (simp add: take_Suc_conv_app_nth)
  finally show ?case .
qed

lemma length_hex_text: "length (hex_text upper bs) = 2 * length bs"
  by (induction bs) (simp_all add: hex_text_def)

lemma hex_not_colon: "c \<in> set (hex_text upper bs) \<Longrightarrow> c \<noteq> 58"
proof
  assume c: "c \<in> set (hex_text upper bs)" and 58: "c = 58"
  have h: "hex_char upper n \<noteq> 58" if "n < 16" for n
    using parse_hex_char [OF that, of upper] by (auto simp: parse_hex_digit_def)
  have "unat b div 16 < 16" for b :: byte by (simp add: div_less_iff_less_mult)
  then show False using c 58 h by (force simp: hex_text_def)
qed

lemma nibbles_text:
  "length bs = 32 \<Longrightarrow> length d = 32 \<Longrightarrow> parse_nibbles 0 (hex_text upper bs) d = (True, bs)"
  using parse_nibbles_hex [of 0 d bs upper] by simp

text \<open>Without a workchain the parse succeeds and the address it returns is not valid.\<close>

lemma hex_without_workchain:
  assumes "length bs = 32" and "length d = 32"
  shows "StdAddress_parse junk d (hex_text upper bs) =
    Some \<lparr>workchain = workchainInvalid, bounceable = True, testnet = False, addr = bs\<rparr>"
proof -
  let ?s = "hex_text upper bs"
  have l: "length ?s = 64" using assms by (simp add: length_hex_text)
  have no_pack: "rdeserialize junk ?s a = (False, a)" for a by (simp add: rdeserialize_def l)
  have tw: "takeWhile (\<lambda>c. c \<noteq> 58) ?s = ?s" using hex_not_colon by (simp add: takeWhile_eq_all_conv)
  show ?thesis
    unfolding StdAddress_parse_def parse_addr_def no_pack Let_def prod.case tw l
    using nibbles_text [OF assms] by (simp add: l default_address_def)
qed

text \<open>The letters after \<open>f\<close> are digits too.\<close>

lemma letters_as_hex: "parse_hex_digit 103 = 16" "parse_hex_digit 122 = 35"
  by (simp_all add: parse_hex_digit_def)

subsection \<open>Properties\<close>

text \<open>C9. A user-friendly address determines the address it was made from: packing any standard address
  whose workchain fits a byte, in either base64 alphabet, gives 48 characters, and unpacking them
  gives back workchain, flags and all 32 bytes, whatever the buffers held.\<close>

theorem ton_address_round_trip:
  assumes "- 128 \<le> sint (workchain a)" "sint (workchain a) < 128" and "length (addr a) = 32"
    and "length junk = 48" and "length junk' = 36"
  shows "\<exists>s. rserialize junk url a = Some s \<and> length s = 48 \<and> rdeserialize junk' s x = (True, a)"
proof -
  let ?bs = "[0x51 - of_bool (bounceable a) * 0x40 + of_bool (testnet a) * 0x80, ucast (workchain a)] @ addr a"
  note p = pack_eq(1) [OF assms(1,2,3,4), where url = url and b = "bounceable a" and t = "testnet a"]
    pack_eq(2) [OF assms(1,2,3,4), where b = "bounceable a" and t = "testnet a"]
  have l: "length (rfc4648_text url (?bs @ crc_bytes ?bs)) = 48" using encode_36(2) [OF p(2) assms(4)] .
  have l34: "length ?bs = 34" using assms(3) by simp
  have "frame_address (?bs @ crc_bytes ?bs) = a"
    using narrow_workchain [OF assms(1,2)] assms(3) tag_bits(2,3) [of "bounceable a" "testnet a"]
    by (simp add: frame_address_def)
  then have "unpack_std_smc_addr junk' (rfc4648_text url (?bs @ crc_bytes ?bs)) x = (True, a)"
    using unpack_frame [OF l34 assms(5), of url x] tag_bits(1) by simp
  then show ?thesis
    using p(1) l assms(4) by (simp add: rserialize_def rserialize_to_def rdeserialize_def)
qed

theorem ton_address_round_trip_witness:
  "\<exists>s. rserialize (replicate 48 7) True \<lparr>workchain = - 1, bounceable = True, testnet = False, addr = replicate 32 5\<rparr> = Some s \<and>
     length s = 48 \<and>
     rdeserialize (replicate 36 9) s (default_address []) =
       (True, \<lparr>workchain = - 1, bounceable = True, testnet = False, addr = replicate 32 5\<rparr>)"
  by (rule ton_address_round_trip) simp_all

text \<open>C10. Mistyping up to two adjacent characters of an address never yields another address: of two
  accepted texts of 48 characters that agree outside two adjacent positions, both stand for the same
  workchain, flags and bytes, provided that one of them does not end in \<open>=\<close>. An address that the code
  prints never does, as it fills its last group; two texts that both end in \<open>=\<close> can differ, as
  \<open>uninitialised_byte\<close> shows: the buffers \<open>junk\<close> and \<open>junk'\<close> then decide.\<close>

theorem address_typo_detected:
  assumes "length (xs @ [a, b] @ ys) = 48" and "length junk = 36" and "length junk' = 36"
    and "last (xs @ [a, b] @ ys) \<noteq> 61"
    and "unpack_std_smc_addr junk (xs @ [a, b] @ ys) x = (True, r)"
    and "unpack_std_smc_addr junk' (xs @ [c, d] @ ys) y = (True, r')"
  shows "r = r'"
proof -
  have l: "length (xs @ [c, d] @ ys) = 48" using assms(1) by simp
  show ?thesis
  proof (cases "last (xs @ [c, d] @ ys) = 61")
    case False
    note 1 = unpack_codeword [OF assms(2,1,4,5)] and 2 = unpack_codeword [OF assms(3) l False assms(6)]
    have "dec_bits a @ dec_bits b = dec_bits c @ dec_bits d"
      by (rule crc_window [of "text_bits xs" _ "text_bits ys"]) (use 1(2) 2(2) in simp_all)
    then show ?thesis using 1(1) 2(1) by simp
  next
    case True
    then have "ys = []" using assms(4) by (cases "ys = []") simp_all
    then have "take 46 (xs @ [a, b] @ ys) = take 46 (xs @ [c, d] @ ys)" using assms(1) by simp
    then show ?thesis
      using unpack_payload [OF assms(2,1,5)] unpack_payload [OF assms(3) l assms(6)] by simp
  qed
qed

text \<open>The witness reads \<open>B\<close> and \<open>=\<close> in the eighth position.\<close>

definition sample_payload :: bytes where
  "sample_payload = [0x11, 0, 0, 0, 0, 1] @ replicate 28 0"

definition sample_rest :: bytes where
  "sample_rest = rfc4648_text True (replicate 28 0 @ crc_bytes sample_payload)"

lemma sample_text:
  "rfc4648_text True (sample_payload @ crc_bytes sample_payload) = [69, 81, 65, 65, 65, 65, 65, 66] @ sample_rest"
  by (simp add: sample_rest_def sample_payload_def rfc4648_text_Cons b64_word_def b64_char_def base64_url_table_def
      b64_letters_def upt_rec_numeral crc_bytes_def Let_def del: upt_Suc)

lemma no_pad_text: "length bs mod 3 = 0 \<Longrightarrow> 61 \<notin> set (rfc4648_text url bs)"
proof (cases "bs = []")
  case False
  assume three: "length bs mod 3 = 0"
  obtain p d where t: "rfc4648_text url bs = p @ d" and pad: "pad_count (p @ d) = length d" and m: "length (p @ d) mod 4 = 0"
    and ok: "list_all (char_ok (b64_mode url)) p" and out: "octets (concat (map dec_bits p)) = bs" and p: "61 \<notin> set p"
    by (rule rfc4648_text_parts [OF False, of url url]) simp
  have d2: "length d \<le> 2" using pad pad_count_le by metis
  have "length bs = 6 * length p div 8"
    unfolding out [symmetric] by (simp add: length_octets_of length_concat_dec_bits)
  then have "length (p @ d) div 4 * 3 = length bs + length d" using quarter_size [OF m d2] by simp
  then have "(length bs + length d) mod 3 = 0" by (metis mod_mult_self2_is_0)
  then have "length d mod 3 = 0" using three by (simp add: mod_add_left_eq [symmetric, of "length bs"])
  then show ?thesis using d2 p by (cases "length d = 0") (simp_all add: t)
qed (simp add: rfc4648_text_def rfc4648_encode_simps)

lemma sample_accepted:
  "\<exists>r. unpack_std_smc_addr (replicate 36 0) ([69, 81, 65, 65, 65, 65] @ [65, 66] @ sample_rest) (default_address []) = (True, r)"
  "length sample_rest = 40" "sample_rest \<noteq> []" "last sample_rest \<noteq> 61"
proof -
  have l: "length sample_payload = 34" by (simp add: sample_payload_def)
  show "\<exists>r. unpack_std_smc_addr (replicate 36 0) ([69, 81, 65, 65, 65, 65] @ [65, 66] @ sample_rest) (default_address []) = (True, r)"
    using unpack_frame [OF l, of "replicate 36 0" True "default_address []"] sample_text
    by (simp add: sample_payload_def [THEN arg_cong, of "\<lambda>p. p ! 0"])
  show l40: "length sample_rest = 40"
    by (simp add: sample_rest_def length_rfc4648_text compute_base64_encoded_size_def push_bit_eq_mult)
  then show ne: "sample_rest \<noteq> []" by auto
  have "61 \<notin> set sample_rest"
    using no_pad_text [of "replicate 28 0 @ crc_bytes sample_payload" True] by (simp add: sample_rest_def)
  then show "last sample_rest \<noteq> 61" using last_in_set [OF ne] by metis
qed

theorem address_typo_detected_witness:
  "\<exists>r. unpack_std_smc_addr (replicate 36 0) ([69, 81, 65, 65, 65, 65] @ [65, 66] @ sample_rest) (default_address []) = (True, r) \<and>
     unpack_std_smc_addr (replicate 36 0) ([69, 81, 65, 65, 65, 65] @ [65, 61] @ sample_rest) (default_address []) = (True, r)"
proof -
  obtain r where r: "unpack_std_smc_addr (replicate 36 0) ([69, 81, 65, 65, 65, 65] @ [65, 66] @ sample_rest) (default_address []) = (True, r)"
    using sample_accepted(1) by blast
  moreover obtain r' where r': "unpack_std_smc_addr (replicate 36 0) ([69, 81, 65, 65, 65, 65] @ [65, 61] @ sample_rest) (default_address []) = (True, r')"
    using pad_inside_address [of "[69, 81, 65, 65, 65, 65, 65]" sample_rest "replicate 36 0" "default_address []" r] r sample_accepted(2-4)
    by simp
  moreover have "r = r'"
    by (rule address_typo_detected [OF _ _ _ _ r r']) (use sample_accepted(2-4) in simp_all)
  ultimately show ?thesis by blast
qed

text \<open>A public key survives its textual form, whatever the decoding buffer held.\<close>

theorem public_key_round_trip:
  assumes k: "length key = 32" and junk: "length junk = 36"
  shows "\<exists>s. PublicKey_serialize key url = Some s \<and> length s = 48 \<and> PublicKey_parse junk s = Inr key"
proof -
  let ?bs = "[0x3e, 0xe6] @ key"
  have l34: "length ?bs = 34" using k by simp
  have l: "length (?bs @ crc_bytes ?bs) = 36" using k by simp
  have at01: "(?bs @ crc_bytes ?bs) ! 0 = 0x3e" "(?bs @ crc_bytes ?bs) ! 1 = 0xe6" by simp_all
  have t: "take 34 (?bs @ crc_bytes ?bs) = ?bs" "take 32 (drop 2 (?bs @ crc_bytes ?bs)) = key" using k by simp_all
  have "PublicKey_serialize key url = Some (rfc4648_text url (?bs @ crc_bytes ?bs))"
    using encode_36(1) [OF l, of "replicate 48 0" url] k by (simp add: PublicKey_serialize_def)
  moreover have l48: "length (rfc4648_text url (?bs @ crc_bytes ?bs)) = 48"
    using encode_36(2) [OF l, of "replicate 48 0" url] by simp
  moreover have "PublicKey_parse junk (rfc4648_text url (?bs @ crc_bytes ?bs)) = Inr key"
    unfolding PublicKey_parse_def decode_frame [OF l junk] Let_def prod.case l48 crc_bytes_at [OF l34] at01 t join_bytes
    using k by (simp add: PublicKey_from_bytes_def)
  ultimately show "\<exists>s. PublicKey_serialize key url = Some s \<and> length s = 48 \<and> PublicKey_parse junk s = Inr key"
    by blast
qed

theorem public_key_round_trip_witness:
  "\<exists>s. PublicKey_serialize (replicate 32 3) False = Some s \<and> length s = 48 \<and>
     PublicKey_parse (replicate 36 9) s = Inr (replicate 32 3)"
  by (rule public_key_round_trip) simp_all

text \<open>C31. The raw form \<open>workchain:hex\<close> is parsed exactly, in either case of the digits, for every
  workchain above \<open>-1000000000\<close>; below, its decimal text has 11 characters and the parse fails.\<close>

theorem raw_address_exact:
  assumes "length bs = 32" and "length d = 32"
  shows "StdAddress_parse junk d (print_int (sint wc) @ [58] @ hex_text upper bs) =
    (if - 1000000000 < sint wc
     then Some \<lparr>workchain = wc, bounceable = True, testnet = False, addr = bs\<rparr> else None)"
proof -
  let ?p = "print_int (sint wc)"
  let ?s = "?p @ [58] @ hex_text upper bs"
  have l: "length ?s = length ?p + 65" using assms by (simp add: length_hex_text)
  then have "length ?s \<noteq> 48" by linarith
  then have no_pack: "rdeserialize junk ?s a = (False, a)" for a by (simp only: rdeserialize_def if_False)
  have tw: "takeWhile (\<lambda>c. c \<noteq> 58) ?s = ?p" using print_int_chars by (subst takeWhile_append2) auto
  have tk: "take (length ?p) ?s = ?p" "drop (length ?p + 1) ?s = hex_text upper bs" by simp_all
  have inv: "- 1000000000 < sint wc \<Longrightarrow> wc \<noteq> workchainInvalid" by (auto simp: workchainInvalid_def)
  show ?thesis
    unfolding StdAddress_parse_def parse_addr_def no_pack Let_def prod.case tw tk l
    using print_int_length [of wc] inv nibbles_text [OF assms]
    by (auto simp: to_integer_safe_iff [of ?p wc, THEN iffD2, OF refl] invalidate_def default_address_def)
qed

theorem raw_address_exact_witness:
  "StdAddress_parse [] (replicate 32 7) (print_int (sint (- 1 :: u32)) @ [58] @ hex_text True (replicate 32 5)) =
     Some \<lparr>workchain = - 1, bounceable = True, testnet = False, addr = replicate 32 5\<rparr>"
  using raw_address_exact [of "replicate 32 5" "replicate 32 7" "[]" "- 1" True] by simp

end
