(* ===== verification/TonAdnl.thy ===== *)
theory TonAdnl
  imports TonAddress
begin

section \<open>ADNL identifiers (td/utils/base64.cpp, ton/crypto/common/util.cpp)\<close>

text \<open>
  The base32 of \<open>td\<close>, bit stream against bit stream, and the ADNL identifiers written with it: 55
  characters for a tag, 32 bytes and a CRC16, of which the first character is implied.
\<close>

subsection \<open>The code\<close>

datatype td_error = Wrong_Adnl_Size | Wrong_Character | Nonzero_Padding | Wrong_Adnl_Length
  | Invalid_First_Byte | Hash_Mismatch

definition symbols32_lc :: bytes where
  "symbols32_lc = map word_of_nat ([97..<123] @ [50..<56])"

definition symbols32_uc :: bytes where
  "symbols32_uc = map word_of_nat ([65..<91] @ [50..<56])"

definition b32_symbol :: "bool \<Rightarrow> u32 \<Rightarrow> byte" where
  "b32_symbol upper_case x = (if upper_case then symbols32_uc else symbols32_lc) ! unat (x AND 31)"

text \<open>The inner \<open>while\<close>: the characters written and the bits left.\<close>

fun b32_emit :: "bool \<Rightarrow> u32 \<Rightarrow> nat \<Rightarrow> bytes \<times> nat" where
  "b32_emit upper_case c len =
     (if len \<ge> 5 then
        let (out, rest) = b32_emit upper_case c (len - 5) in (b32_symbol upper_case (drop_bit (len - 5) c) # out, rest)
      else ([], len))"

declare b32_emit.simps [simp del]

fun b32_encode_loop :: "bool \<Rightarrow> bytes \<Rightarrow> u32 \<Rightarrow> nat \<Rightarrow> bytes" where
  "b32_encode_loop upper_case [] c len =
     (if len \<noteq> 0 then [b32_symbol upper_case (push_bit (5 - len) c)] else [])"
| "b32_encode_loop upper_case (b # bs) c len =
     (let c = push_bit 8 c OR ucast b; (out, len) = b32_emit upper_case c (len + 8) in
      out @ b32_encode_loop upper_case bs c len)"

definition base32_encode :: "bytes \<Rightarrow> bool \<Rightarrow> bytes" where
  "base32_encode inp upper_case = b32_encode_loop upper_case inp 0 0"

definition b32_char_to_value :: bytes where
  "b32_char_to_value =
     foldl (\<lambda>t i. t[unat (symbols32_lc ! i) := word_of_nat i, unat (symbols32_uc ! i) := word_of_nat i])
       (replicate 256 32) [0..<32]"

fun b32_drain :: "u32 \<Rightarrow> nat \<Rightarrow> bytes \<times> nat" where
  "b32_drain c len =
     (if len \<ge> 8 then
        let (out, rest) = b32_drain c (len - 8) in (ucast (drop_bit (len - 8) c AND 255) # out, rest)
      else ([], len))"

declare b32_drain.simps [simp del]

fun b32_decode_loop :: "bytes \<Rightarrow> u32 \<Rightarrow> nat \<Rightarrow> td_error + bytes" where
  "b32_decode_loop [] c len =
     (if c AND (push_bit len 1 - 1) \<noteq> 0 then Inl Nonzero_Padding else Inr [])"
| "b32_decode_loop (ch # s) c len =
     (let v = b32_char_to_value ! unat ch in
      if v = 32 then Inl Wrong_Character
      else
        let c = push_bit 5 c OR ucast v; (out, len) = b32_drain c (len + 5) in
        case b32_decode_loop s c len of Inl e \<Rightarrow> Inl e | Inr rest \<Rightarrow> Inr (out @ rest))"

definition base32_decode :: "bytes \<Rightarrow> td_error + bytes" where
  "base32_decode base32 = b32_decode_loop base32 0 0"

definition adnl_id_encode :: "bytes \<Rightarrow> bool \<Rightarrow> td_error + bytes" where
  "adnl_id_encode ident upper_case =
     (if length ident \<noteq> 32 then Inl Wrong_Adnl_Size
      else
        let bs = 0x2d # ident; hash = crc16 bs;
            buf = bs @ [ucast (drop_bit 8 hash AND 255), ucast (hash AND 255)]
        in Inr (drop 1 (base32_encode buf upper_case)))"

definition adnl_id_decode :: "bytes \<Rightarrow> td_error + bytes" where
  "adnl_id_decode ident =
     (if length ident \<noteq> 55 then Inl Wrong_Adnl_Length
      else
        case base32_decode (102 # ident) of
          Inl e \<Rightarrow> Inl e
        | Inr decoded \<Rightarrow>
            if decoded ! 0 \<noteq> 0x2d then Inl Invalid_First_Byte
            else
              let got_hash = push_bit 8 (ucast (decoded ! 33)) OR ucast (decoded ! 34); hash = crc16 (take 33 decoded) in
              if hash \<noteq> got_hash then Inl Hash_Mismatch else Inr (take 32 (drop 1 decoded)))"

subsection \<open>Streams of bits\<close>

text \<open>The low \<open>n\<close> bits of the register, the oldest first.\<close>

definition low_bits :: "u32 \<Rightarrow> nat \<Rightarrow> bool list" where
  "low_bits c n = map (\<lambda>i. bit c (n - 1 - i)) [0..<n]"

definition five_bits :: "byte \<Rightarrow> bool list" where
  "five_bits v = [bit v 4, bit v 3, bit v 2, bit v 1, bit v 0]"

definition b32_value :: "byte \<Rightarrow> byte" where
  "b32_value ch = b32_char_to_value ! unat ch"

definition b32_bits :: "bytes \<Rightarrow> bool list" where
  "b32_bits s = concat (map (\<lambda>ch. five_bits (b32_value ch)) s)"

lemma low_bits_0 [simp]: "low_bits c 0 = []"
  and length_low_bits [simp]: "length (low_bits c n) = n"
  by (simp_all add: low_bits_def)

lemma b32_bits_simps [simp]:
  "b32_bits [] = []" "b32_bits (ch # s) = five_bits (b32_value ch) @ b32_bits s" "b32_bits (s @ t) = b32_bits s @ b32_bits t"
  by (simp_all add: b32_bits_def)

lemma length_b32_bits [simp]: "length (b32_bits s) = 5 * length s"
  by (induction s) (simp_all add: five_bits_def)

lemma low_bits_split: "low_bits c (k + l) = low_bits (drop_bit l c) k @ low_bits c l"
  by (rule nth_equalityI) (auto simp: low_bits_def nth_append bit_simps intro!: arg_cong [of _ _ "bit c"])

lemma low_bits_cong: "(\<And>n. n < k \<Longrightarrow> bit c n = bit d n) \<Longrightarrow> low_bits c k = low_bits d k"
  by (auto simp: low_bits_def)

lemma bit_31: "bit (31 :: 'a::len word) n \<longleftrightarrow> n < LENGTH('a) \<and> n < 5"
  using bit_mask_iff [of 5 n, where 'a = "'a word"] by (auto simp: mask_eq_exp_minus_1 min_def)

lemma low_bits_8: "low_bits c 8 = octet_bits (ucast (c AND 255))"
  unfolding low_bits_def octet_bits_def by (simp add: upt_rec bit_ucast_iff bit_and_iff bit_ff)

lemma low_bits_5: "low_bits c 5 = five_bits (ucast (c AND 31))"
  unfolding low_bits_def five_bits_def by (simp add: upt_rec bit_ucast_iff bit_and_iff bit_31)

lemma low_bits_push_8: "len \<le> 24 \<Longrightarrow> low_bits (push_bit 8 c OR ucast b) (len + 8) = low_bits c len @ octet_bits b"
proof -
  assume "len \<le> 24"
  then have "low_bits (drop_bit 8 (push_bit 8 c OR ucast b)) len = low_bits c len"
    by (intro low_bits_cong) (auto simp: bit_simps dest: bit_imp_le_length)
  moreover have "ucast ((push_bit 8 c OR ucast b) AND 255) = b"
    by (rule bit_word_eqI) (unfold bit_ucast_iff bit_and_iff bit_or_iff bit_push_bit_iff bit_ff, auto)
  ultimately show ?thesis by (simp add: low_bits_split low_bits_8)
qed

lemma low_bits_push_5:
  "len \<le> 27 \<Longrightarrow> v < 32 \<Longrightarrow> low_bits (push_bit 5 c OR ucast v) (len + 5) = low_bits c len @ five_bits v"
proof -
  assume l: "len \<le> 27" and "v < 32"
  then have "v = take_bit 5 v" by (simp add: word_unat_eq_iff unsigned_take_bit_eq take_bit_nat_eq_self word_less_nat_alt)
  then have v: "bit v n \<Longrightarrow> n < 5" for n by (metis bit_take_bit_iff)
  have "low_bits (drop_bit 5 (push_bit 5 c OR ucast v)) len = low_bits c len"
    using l v by (intro low_bits_cong) (auto simp: bit_simps dest: bit_imp_le_length)
  moreover have "ucast ((push_bit 5 c OR ucast v) AND 31) = v"
    using v by (intro bit_word_eqI) (unfold bit_ucast_iff bit_and_iff bit_or_iff bit_push_bit_iff bit_31, auto)
  ultimately show ?thesis by (simp add: low_bits_split low_bits_5)
qed

subsection \<open>The table\<close>

definition lc_code :: "nat \<Rightarrow> nat" where "lc_code i = (if i < 26 then 97 + i else 24 + i)"
definition uc_code :: "nat \<Rightarrow> nat" where "uc_code i = (if i < 26 then 65 + i else 24 + i)"

lemma alphabet_nth:
  assumes "i < 32" and "a \<le> 97" and "b \<le> 50"
  shows "unat (map word_of_nat ([a..<a + 26] @ [b..<b + 6]) ! i :: byte) = (if i < 26 then a + i else b + i - 26)"
  using assms by (auto simp: nth_append unat_of_nat simp del: of_nat_add of_nat_diff)

lemma symbols_nth: "i < 32 \<Longrightarrow> unat (symbols32_lc ! i) = lc_code i" "i < 32 \<Longrightarrow> unat (symbols32_uc ! i) = uc_code i"
  using alphabet_nth [of i 97 50] alphabet_nth [of i 65 50]
  by (simp_all add: symbols32_lc_def symbols32_uc_def lc_code_def uc_code_def)

definition fill_table :: "nat \<Rightarrow> bytes" where
  "fill_table n = foldl (\<lambda>t i. t[lc_code i := word_of_nat i, uc_code i := word_of_nat i]) (replicate 256 32) [0..<n]"

lemma fill_table_Suc: "fill_table (Suc n) = (fill_table n)[lc_code n := word_of_nat n, uc_code n := word_of_nat n]"
  by (simp add: fill_table_def)

lemma length_fill_table [simp]: "length (fill_table n) = 256"
  by (induction n) (simp_all add: fill_table_Suc, simp add: fill_table_def)

text \<open>Every entry is a digit that one of the two alphabets has there, or 32.\<close>

lemma codes_differ: "i < 32 \<Longrightarrow> j < 32 \<Longrightarrow> lc_code i = lc_code j \<or> lc_code i = uc_code j \<or> uc_code i = lc_code j \<or> uc_code i = uc_code j \<Longrightarrow> i = j"
  by (auto simp: lc_code_def uc_code_def split: if_splits)

lemma codes_small: "i < 32 \<Longrightarrow> lc_code i < 256" "i < 32 \<Longrightarrow> uc_code i < 256"
  by (auto simp: lc_code_def uc_code_def)

lemma fill_table_digit:
  "n \<le> 32 \<Longrightarrow> i < n \<Longrightarrow> fill_table n ! lc_code i = word_of_nat i \<and> fill_table n ! uc_code i = word_of_nat i"
proof (induction n)
  case (Suc n)
  have d: "i \<noteq> n \<Longrightarrow> lc_code i \<noteq> lc_code n \<and> lc_code i \<noteq> uc_code n \<and> uc_code i \<noteq> lc_code n \<and> uc_code i \<noteq> uc_code n"
    using codes_differ [of i n] Suc.prems by auto
  show ?case
  proof (cases "i = n")
    case True
    then show ?thesis using Suc.prems codes_small [of n] by (auto simp: fill_table_Suc nth_list_update)
  next
    case False
    then show ?thesis using Suc d by (simp add: fill_table_Suc)
  qed
qed simp

lemma fill_table_range: "n \<le> 32 \<Longrightarrow> set (fill_table n) \<subseteq> {..32}"
proof (induction n)
  case 0
  then show ?case by (simp add: fill_table_def)
next
  case (Suc n)
  have "word_of_nat n \<le> (32 :: byte)" using Suc.prems by (simp add: word_le_nat_alt unat_of_nat)
  then show ?case using Suc by (simp add: fill_table_Suc set_update_subsetI)
qed

lemma table_filled: "b32_char_to_value = fill_table 32"
proof -
  have "foldl (\<lambda>t i. t[unat (symbols32_lc ! i) := word_of_nat i, unat (symbols32_uc ! i) := word_of_nat i]) t xs =
      foldl (\<lambda>t i. t[lc_code i := word_of_nat i, uc_code i := word_of_nat i]) t xs" if "set xs \<subseteq> {..<32}" for t :: bytes and xs
    using that by (induction xs arbitrary: t) (simp_all add: symbols_nth)
  from this [of "[0..<32]" "replicate 256 32"] show ?thesis
    unfolding b32_char_to_value_def fill_table_def by (simp only: set_upt lessThan_atLeast0)
qed

subsection \<open>Encoding writes the bits\<close>

abbreviation b32_valid :: "bytes \<Rightarrow> bool" where
  "b32_valid s \<equiv> \<forall>ch \<in> set s. b32_value ch \<noteq> 32"

lemma symbol_value: "b32_value (b32_symbol up x) = ucast (x AND 31)"
proof -
  have i: "unat (x AND 31) < 32" using unat_and_mask [of x 5] by (simp add: mask_eq_exp_minus_1)
  then have "b32_value (b32_symbol up x) = word_of_nat (unat (x AND 31))"
    using fill_table_digit [of 32 "unat (x AND 31)"] symbols_nth [OF i]
    by (simp add: b32_value_def b32_symbol_def table_filled)
  then show ?thesis by simp
qed

lemma symbol_valid: "b32_value (b32_symbol up x) \<noteq> 32"
proof
  assume "b32_value (b32_symbol up x) = 32"
  then have "bit (b32_value (b32_symbol up x)) 5" by simp
  then show False by (simp add: symbol_value bit_ucast_iff bit_and_iff bit_31)
qed

lemma symbol_bits: "five_bits (b32_value (b32_symbol up x)) = low_bits x 5"
  by (simp add: symbol_value low_bits_5)

lemma b32_emit_bits:
  "b32_emit up c len = (out, rest) \<Longrightarrow> rest = len mod 5 \<and> b32_bits out @ low_bits c rest = low_bits c len \<and> b32_valid out"
proof (induction up c len arbitrary: out rule: b32_emit.induct)
  case (1 up c len)
  show ?case
  proof (cases "len \<ge> 5")
    case True
    then obtain out' where e: "b32_emit up c (len - 5) = (out', rest)" and out: "out = b32_symbol up (drop_bit (len - 5) c) # out'"
      using 1(2) by (auto simp: b32_emit.simps [of up c len] split: prod.splits)
    have "low_bits c len = low_bits (drop_bit (len - 5) c) 5 @ low_bits c (len - 5)"
      using low_bits_split [of c 5 "len - 5"] True by simp
    moreover have "(len - 5) mod 5 = len mod 5" using True by (simp add: le_mod_geq)
    ultimately show ?thesis using 1(1) [OF True e] by (auto simp: out symbol_bits symbol_valid)
  next
    case False
    then show ?thesis using 1(2) by (simp add: b32_emit.simps [of up c len])
  qed
qed

lemma last_symbol:
  assumes "0 < len" "len < 5"
  shows "low_bits (push_bit (5 - len) c) 5 = low_bits c len @ replicate (5 - len) False"
proof -
  have "low_bits (drop_bit (5 - len) (push_bit (5 - len) c)) len = low_bits c len"
    using assms by (intro low_bits_cong) (auto simp: bit_simps)
  moreover have "low_bits (push_bit (5 - len) c) (5 - len) = replicate (5 - len) False"
    using assms by (intro nth_equalityI) (auto simp: low_bits_def bit_simps)
  ultimately show ?thesis using low_bits_split [of "push_bit (5 - len) c" len "5 - len"] assms by simp
qed

lemma encode_loop_bits:
  "len < 5 \<Longrightarrow> b32_bits (b32_encode_loop up bs c len) = low_bits c len @ concat (map octet_bits bs) @
     replicate ((5 - (len + 8 * length bs) mod 5) mod 5) False \<and> b32_valid (b32_encode_loop up bs c len)"
proof (induction bs arbitrary: c len)
  case Nil
  then show ?case by (auto simp: symbol_bits symbol_valid last_symbol)
next
  case (Cons b bs)
  let ?c = "push_bit 8 c OR ucast b"
  obtain out rest where e: "b32_emit up ?c (len + 8) = (out, rest)" by fastforce
  note f = b32_emit_bits [OF e]
  have r: "rest = (len + 8) mod 5" "rest < 5" using f by simp_all
  have "(rest + 8 * length bs) mod 5 = (len + 8 * length (b # bs)) mod 5"
    unfolding r(1) mod_add_left_eq by (simp add: algebra_simps)
  moreover have "b32_bits out @ low_bits ?c rest = low_bits c len @ octet_bits b"
    using f [THEN conjunct2, THEN conjunct1] low_bits_push_8 [of len c b] Cons.prems by simp
  ultimately show ?case using Cons.IH [OF r(2), of ?c] f [THEN conjunct2, THEN conjunct2] e
    by (auto simp flip: append_assoc)
qed

lemma base32_encode_bits:
  "b32_bits (base32_encode bs up) = concat (map octet_bits bs) @ replicate ((5 - 8 * length bs mod 5) mod 5) False"
  "b32_valid (base32_encode bs up)"
  using encode_loop_bits [of 0 up bs 0] by (simp_all add: base32_encode_def)

subsection \<open>Decoding reads them back\<close>

definition leftover :: "bool list \<Rightarrow> bool list" where
  "leftover bs = drop (length bs - length bs mod 8) bs"

lemma leftover_append: "8 dvd length xs \<Longrightarrow> leftover (xs @ ys) = leftover ys"
  by (auto simp: leftover_def)

lemma b32_drain_bits:
  "b32_drain c len = (out, rest) \<Longrightarrow> rest = len mod 8 \<and>
     (\<exists>xs. low_bits c len = xs @ low_bits c rest \<and> 8 dvd length xs \<and> out = octets xs)"
proof (induction c len arbitrary: out rule: b32_drain.induct)
  case (1 c len)
  show ?case
  proof (cases "len \<ge> 8")
    case True
    then obtain out' where e: "b32_drain c (len - 8) = (out', rest)" and out: "out = ucast (drop_bit (len - 8) c AND 255) # out'"
      using 1(2) by (auto simp: b32_drain.simps [of c len] split: prod.splits)
    obtain xs where xs: "low_bits c (len - 8) = xs @ low_bits c rest" "8 dvd length xs" "out' = octets xs" "rest = (len - 8) mod 8"
      using 1(1) [OF True e] by blast
    have "low_bits c len = (low_bits (drop_bit (len - 8) c) 8 @ xs) @ low_bits c rest"
      using low_bits_split [of c 8 "len - 8"] True xs(1) by simp
    moreover have "out = octets (low_bits (drop_bit (len - 8) c) 8 @ xs)"
      by (simp add: out xs(3) low_bits_8 octet_bits_octets)
    moreover have "8 dvd length (low_bits (drop_bit (len - 8) c) 8 @ xs)" using xs(2) by simp
    moreover have "rest = len mod 8" using xs(4) True by (simp add: le_mod_geq)
    ultimately show ?thesis by blast
  next
    case False
    then show ?thesis using 1(2) by (intro conjI exI [of _ "[]"]) (simp_all add: b32_drain.simps [of c len])
  qed
qed

lemma bits_clear: "c AND (push_bit len 1 - 1) = 0 \<longleftrightarrow> (\<forall>x \<in> set (low_bits c len). \<not> x)" if "len < 32"
proof -
  have "c AND (push_bit len 1 - 1) = take_bit len c"
    by (simp add: take_bit_eq_mask mask_eq_exp_minus_1 push_bit_eq_mult)
  moreover have "take_bit len c = 0 \<longleftrightarrow> (\<forall>n < len. \<not> bit c n)"
  proof
    assume "take_bit len c = 0"
    then have "\<not> bit (take_bit len c) n" for n by simp
    then show "\<forall>n < len. \<not> bit c n" by (simp add: bit_take_bit_iff)
  next
    assume "\<forall>n < len. \<not> bit c n"
    then show "take_bit len c = 0" by (intro bit_word_eqI) (simp add: bit_take_bit_iff)
  qed
  moreover have "(\<forall>n < len. \<not> bit c n) \<longleftrightarrow> (\<forall>i < len. \<not> bit c (len - 1 - i))"
  proof (intro iffI allI impI)
    fix n
    assume "\<forall>i < len. \<not> bit c (len - 1 - i)" "n < len"
    moreover have "len - 1 - n < len" "len - 1 - (len - 1 - n) = n" using \<open>n < len\<close> by linarith+
    ultimately show "\<not> bit c n" by metis
  next
    fix i
    assume "\<forall>n < len. \<not> bit c n" "i < len"
    then show "\<not> bit c (len - 1 - i)" by simp
  qed
  ultimately show ?thesis by (auto simp: low_bits_def)
qed

definition read_bits :: "bool list \<Rightarrow> td_error + bytes" where
  "read_bits bs = (if \<forall>x \<in> set (leftover bs). \<not> x then Inr (octets bs) else Inl Nonzero_Padding)"

lemma read_bits_append:
  "8 dvd length xs \<Longrightarrow> read_bits (xs @ ys) =
     (case read_bits ys of Inl e \<Rightarrow> Inl e | Inr rest \<Rightarrow> Inr (octets xs @ rest))"
  by (simp add: read_bits_def leftover_append octets_append dvd_eq_mod_eq_0)

lemma entry_small: "b32_value ch \<le> 32"
proof -
  have "b32_value ch \<in> set (fill_table 32)"
    unfolding b32_value_def table_filled by (intro nth_mem) (simp)
  then show ?thesis using fill_table_range [of 32] by auto
qed

lemma decode_loop_bits:
  "len < 8 \<Longrightarrow> b32_decode_loop s c len =
     (if b32_valid s then read_bits (low_bits c len @ b32_bits s) else
        b32_decode_loop s c len) \<and> (\<not> b32_valid s \<longrightarrow> b32_decode_loop s c len = Inl Wrong_Character)"
proof (induction s arbitrary: c len)
  case Nil
  then show ?case using bits_clear [of len c] by (auto simp: read_bits_def leftover_def)
next
  case (Cons ch s)
  let ?v = "b32_value ch"
  show ?case
  proof (cases "?v = 32")
    case True
    then show ?thesis by (simp add: b32_value_def [symmetric])
  next
    case False
    let ?c = "push_bit 5 c OR ucast ?v"
    have v: "?v < 32" using entry_small [of ch] False by simp
    obtain out rest where e: "b32_drain ?c (len + 5) = (out, rest)" by fastforce
    obtain xs where r: "rest < 8" and xs: "low_bits ?c (len + 5) = xs @ low_bits ?c rest" "8 dvd length xs" "out = octets xs"
      using b32_drain_bits [OF e] by auto
    have "low_bits c len @ five_bits ?v = xs @ low_bits ?c rest"
      using low_bits_push_5 [of len ?v c] Cons.prems v xs(1) by simp
    then have bits: "low_bits c len @ b32_bits (ch # s) = xs @ (low_bits ?c rest @ b32_bits s)" by simp
    have step: "b32_decode_loop (ch # s) c len =
        (case b32_decode_loop s ?c rest of Inl e \<Rightarrow> Inl e | Inr rest \<Rightarrow> Inr (octets xs @ rest))"
      using False e by (simp add: b32_value_def [symmetric] xs(3))
    show ?thesis unfolding bits step read_bits_append [OF xs(2)] using Cons.IH [OF r, of ?c] False by auto
  qed
qed

lemma base32_decode_eq:
  "base32_decode s = (if b32_valid s then read_bits (b32_bits s) else Inl Wrong_Character)"
  using decode_loop_bits [of 0 s 0] by (auto simp: base32_decode_def)

lemma base32_round_trip: "base32_decode (base32_encode bs up) = Inr bs"
proof -
  let ?pad = "replicate ((5 - 8 * length bs mod 5) mod 5) False"
  let ?bits = "concat (map octet_bits bs)"
  have l: "length ?bits = 8 * length bs" by (induction bs) simp_all
  have "read_bits (?bits @ ?pad) = Inr (octets ?bits)"
    using l by (simp add: read_bits_append) (simp add: read_bits_def leftover_def)
  moreover have "octets ?bits = bs"
    by (induction bs) (simp_all add: octet_bits_octets)
  ultimately show ?thesis by (simp add: base32_decode_eq base32_encode_bits)
qed

subsection \<open>Identifiers\<close>

lemma implied_character: "five_bits (b32_value 102) = take 5 (octet_bits 0x2d)" "b32_value 102 \<noteq> 32"
proof -
  have "b32_value 102 = 5"
    using fill_table_digit [of 32 5] by (simp add: b32_value_def table_filled lc_code_def)
  then show "five_bits (b32_value 102) = take 5 (octet_bits 0x2d)" "b32_value 102 \<noteq> 32"
    by (simp_all add: five_bits_def octet_bits_def bit_numeral_word_iff)
qed

lemma adnl_frame:
  assumes "length buf = 35" and "buf ! 0 = 0x2d"
  shows "length (drop 1 (base32_encode buf up)) = 55" and "base32_decode (102 # drop 1 (base32_encode buf up)) = Inr buf"
proof -
  let ?s = "base32_encode buf up"
  have l: "length (concat (map octet_bits bs)) = 8 * length bs" for bs by (induction bs) simp_all
  have "5 * length ?s = 280"
    using base32_encode_bits(1) [of buf up, THEN arg_cong, of length] assms(1) by (simp add: l)
  then show len: "length (drop 1 ?s) = 55" by simp
  obtain b r where buf: "buf = b # r" "b = 0x2d" using assms by (cases buf) auto
  obtain ch t where s: "?s = ch # t" using len by (cases ?s) auto
  have "five_bits (b32_value ch) @ b32_bits t = octet_bits 0x2d @ concat (map octet_bits r)"
    using base32_encode_bits(1) [of buf up] assms(1) unfolding s by (simp add: buf(1)) (simp add: buf(2))
  then have "five_bits (b32_value ch) = take 5 (octet_bits 0x2d)"
    by (auto simp: five_bits_def octet_bits_def)
  then have bits: "b32_bits (102 # t) = b32_bits ?s" by (simp add: s implied_character)
  have valid: "b32_valid (102 # t)" using base32_encode_bits(2) [of buf up] implied_character(2) by (simp add: s)
  have "base32_decode (102 # t) = base32_decode ?s"
    unfolding base32_decode_eq if_P [OF valid] if_P [OF base32_encode_bits(2)] bits ..
  then show "base32_decode (102 # drop 1 ?s) = Inr buf" using base32_round_trip [of buf up] by (simp add: s)
qed

lemma hash_bytes: "push_bit 8 (ucast a) OR ucast b = (h :: u16) \<Longrightarrow> [a, b] = [ucast (drop_bit 8 h), ucast (h AND 255)]" for a b :: byte
proof -
  assume h: "push_bit 8 (ucast a) OR ucast b = h"
  have "a = ucast (drop_bit 8 h)"
    unfolding h [symmetric] by (rule bit_word_eqI) (auto simp: bit_simps dest: bit_imp_le_length)
  moreover have "b = ucast (h AND 255)"
    unfolding h [symmetric] crc_low_byte by (rule bit_word_eqI) (auto simp: bit_simps)
  ultimately show ?thesis by simp
qed

lemma hash_join: "push_bit 8 (ucast (ucast (drop_bit 8 h AND 255) :: byte)) OR ucast (ucast (h AND 255) :: byte) = h" for h :: u16
  by (rule bit_word_eqI) (unfold bit_ucast_iff bit_push_bit_iff bit_or_iff bit_and_iff bit_drop_bit_eq bit_ff, auto)

lemma adnl_codeword:
  assumes "adnl_id_decode s = Inr r"
  shows "length s = 55" and "r = take 32 (drop 1 (octets (b32_bits (102 # s))))" and "crc_bits 0 (b32_bits (102 # s)) = 0"
proof -
  let ?bits = "b32_bits (102 # s)"
  let ?d = "octets ?bits"
  show l: "length s = 55" using assms by (simp add: adnl_id_decode_def split: if_splits)
  have bits: "length ?bits = 280" using l by (simp add: length_b32_bits del: b32_bits_simps)
  have "base32_decode (102 # s) = Inr ?d"
    using assms by (auto simp: adnl_id_decode_def base32_decode_eq read_bits_def split: if_splits)
  then have a: "adnl_id_decode s =
      (if ?d ! 0 \<noteq> 0x2d then Inl Invalid_First_Byte
       else if crc16 (take 33 ?d) \<noteq> push_bit 8 (ucast (?d ! 33)) OR ucast (?d ! 34) then Inl Hash_Mismatch
       else Inr (take 32 (drop 1 ?d)))"
    using l by (simp add: adnl_id_decode_def Let_def)
  then show "r = take 32 (drop 1 ?d)" using assms by (simp split: if_splits)
  have h: "push_bit 8 (ucast (?d ! 33)) OR ucast (?d ! 34) = crc16 (take 33 ?d)"
    using assms unfolding a by (simp split: if_splits)
  have ld: "length ?d = 35" using bits by (simp add: length_octets_of del: b32_bits_simps)
  have "drop 33 ?d = [?d ! 33, ?d ! 34]" using ld by (simp add: Cons_nth_drop_Suc [symmetric] del: b32_bits_simps)
  then have "?d = take 33 ?d @ crc_bytes (take 33 ?d)"
    using hash_bytes [OF h] append_take_drop_id [of 33 ?d] by (simp only: crc_bytes_def Let_def)
  then have "crc_bits 0 (concat (map octet_bits ?d)) = 0" using frame_codeword [of "take 33 ?d"] by (simp only:)
  then show "crc_bits 0 ?bits = 0" using bits bits_of_octets [of ?bits] by simp
qed

lemma adnl_encoded:
  assumes "length ident = 32"
  shows "\<exists>s. adnl_id_encode ident up = Inr s \<and> length s = 55 \<and> adnl_id_decode s = Inr ident"
proof -
  let ?h = "crc16 (0x2d # ident)"
  let ?buf = "0x2d # ident @ [ucast (drop_bit 8 ?h AND 255), ucast (?h AND 255)]"
  have l: "length ?buf = 35" using assms by simp
  note f = adnl_frame [OF l, of up, simplified nth_Cons_0, OF refl]
  have n: "?buf ! 33 = ucast (drop_bit 8 ?h AND 255)" "?buf ! 34 = ucast (?h AND 255)" "take 33 ?buf = 0x2d # ident"
    "take 32 (drop 1 ?buf) = ident" "?buf ! 0 = 0x2d"
    using assms by (simp_all add: nth_append nth_Cons')
  have "adnl_id_decode (drop 1 (base32_encode ?buf up)) = Inr ident"
    unfolding adnl_id_decode_def f sum.case Let_def n hash_join by simp
  then show ?thesis using f(1) assms by (simp add: adnl_id_encode_def Let_def)
qed

text \<open>C32. An ADNL identifier survives its 55 characters, in either case, although the first character of
  the base32 text is dropped and restored.\<close>

theorem adnl_round_trip:
  assumes "length ident = 32"
  shows "\<exists>s. adnl_id_encode ident up = Inr s \<and> length s = 55 \<and> adnl_id_decode s = Inr ident"
  using assms by (rule adnl_encoded)

theorem adnl_round_trip_witness:
  "\<exists>s. adnl_id_encode (replicate 32 7) True = Inr s \<and> length s = 55 \<and> adnl_id_decode s = Inr (replicate 32 7)"
  by (rule adnl_round_trip) simp

text \<open>C33. Mistyping up to three adjacent characters of an ADNL identifier never yields another
  identifier: two accepted texts that agree elsewhere decode to the same 32 bytes.\<close>

theorem adnl_typo_detected:
  assumes "adnl_id_decode (xs @ [a, b, c] @ ys) = Inr r" and "adnl_id_decode (xs @ [a', b', c'] @ ys) = Inr r'"
  shows "r = r'"
proof -
  let ?w = "\<lambda>a b c. five_bits (b32_value a) @ five_bits (b32_value b) @ five_bits (b32_value c)"
  have split: "b32_bits (102 # xs @ [a, b, c] @ ys) = b32_bits (102 # xs) @ ?w a b c @ b32_bits ys" for a b c by simp
  have "?w a b c = ?w a' b' c'"
    by (rule crc_window [of "b32_bits (102 # xs)" _ "b32_bits ys"])
      (use adnl_codeword(3) [OF assms(1)] adnl_codeword(3) [OF assms(2)] in \<open>simp_all add: split five_bits_def\<close>)
  then have "b32_bits (102 # xs @ [a, b, c] @ ys) = b32_bits (102 # xs @ [a', b', c'] @ ys)" unfolding split by (simp only:)
  then show ?thesis unfolding adnl_codeword(2) [OF assms(1)] adnl_codeword(2) [OF assms(2)] by (simp only:)
qed

text \<open>The witness writes three letters in the other case.\<close>

definition sample_adnl :: bytes where
  "sample_adnl = (let bs = 0x2d # replicate 32 0; h = crc16 bs in
     drop 1 (base32_encode (bs @ [ucast (drop_bit 8 h AND 255), ucast (h AND 255)]) False))"

lemma emit_steps:
  "5 \<le> len \<Longrightarrow> len < 10 \<Longrightarrow> b32_emit up c len = ([b32_symbol up (drop_bit (len - 5) c)], len - 5)"
  "10 \<le> len \<Longrightarrow> len < 15 \<Longrightarrow>
     b32_emit up c len = ([b32_symbol up (drop_bit (len - 5) c), b32_symbol up (drop_bit (len - 10) c)], len - 10)"
proof -
  have stop: "b32_emit up c n = ([], n)" if "n < 5" for n using that by (simp add: b32_emit.simps [of up c n])
  have one: "b32_emit up c n = ([b32_symbol up (drop_bit (n - 5) c)], n - 5)" if "5 \<le> n" "n < 10" for n
    using that by (simp add: b32_emit.simps [of up c n] stop)
  then show "5 \<le> len \<Longrightarrow> len < 10 \<Longrightarrow> b32_emit up c len = ([b32_symbol up (drop_bit (len - 5) c)], len - 5)" .
  assume l: "10 \<le> len" "len < 15"
  then have "5 \<le> len - 5" "len - 5 < 10" by linarith+
  then show "b32_emit up c len = ([b32_symbol up (drop_bit (len - 5) c), b32_symbol up (drop_bit (len - 10) c)], len - 10)"
    using l one [of "len - 5"] by (simp add: b32_emit.simps [of up c len])
qed

lemma symbol_code: "b32_symbol False x = word_of_nat (lc_code (unat (x AND 31)))"
proof -
  have i: "unat (x AND 31) < 32" using unat_and_mask [of x 5] by (simp add: mask_eq_exp_minus_1)
  have "b32_symbol False x = word_of_nat (unat (symbols32_lc ! unat (x AND 31)))"
    by (simp add: b32_symbol_def)
  then show ?thesis unfolding symbols_nth(1) [OF i] .
qed

lemma adnl_start: "\<exists>rest. b32_encode_loop False (45 # 0 # 0 # r) 0 0 = [102, 117, 97, 97] @ rest"
  by (simp add: emit_steps symbol_code lc_code_def)

lemma sample_adnl_start: "\<exists>rest. sample_adnl = [117, 97, 97] @ rest"
proof -
  have "\<exists>r. 0x2d # replicate 32 0 @ t = 45 # 0 # 0 # r" for t :: bytes by (simp add: numeral_nat)
  then obtain r where r: "(let bs = 0x2d # replicate 32 0; h = crc16 bs in
     bs @ [ucast (drop_bit 8 h AND 255), ucast (h AND 255)]) = 45 # 0 # 0 # r" unfolding Let_def append_Cons by blast
  obtain rest where "b32_encode_loop False (45 # 0 # 0 # r) 0 0 = [102, 117, 97, 97] @ rest" using adnl_start by blast
  then show ?thesis using r unfolding sample_adnl_def base32_encode_def Let_def by simp
qed

lemma sample_adnl_accepted: "adnl_id_decode sample_adnl = Inr (replicate 32 0)"
proof -
  obtain s where "adnl_id_encode (replicate 32 0) False = Inr s" "adnl_id_decode s = Inr (replicate 32 0)"
    using adnl_encoded [of "replicate 32 0" False] by auto
  then show ?thesis by (simp add: adnl_id_encode_def sample_adnl_def Let_def)
qed

lemma other_case: "five_bits (b32_value 117) = five_bits (b32_value 85)" "five_bits (b32_value 97) = five_bits (b32_value 65)"
  "b32_value 85 \<noteq> 32" "b32_value 65 \<noteq> 32" "b32_value 117 \<noteq> 32" "b32_value 97 \<noteq> 32"
  using fill_table_digit [of 32 20] fill_table_digit [of 32 0]
  by (simp_all add: b32_value_def table_filled lc_code_def uc_code_def)

theorem adnl_typo_detected_witness:
  "\<exists>rest r. adnl_id_decode ([] @ [117, 97, 97] @ rest) = Inr r \<and> adnl_id_decode ([] @ [85, 65, 65] @ rest) = Inr r"
proof -
  obtain rest where s: "sample_adnl = [] @ [117, 97, 97] @ rest" using sample_adnl_start by auto
  have 1: "adnl_id_decode ([] @ [117, 97, 97] @ rest) = Inr (replicate 32 0)" using sample_adnl_accepted by (simp add: s)
  have "base32_decode (102 # [85, 65, 65] @ rest) = base32_decode (102 # [117, 97, 97] @ rest)"
    by (simp add: base32_decode_eq other_case)
  moreover have "length rest = 52" using 1 by (simp add: adnl_id_decode_def split: if_splits)
  ultimately have "\<exists>r'. adnl_id_decode ([] @ [85, 65, 65] @ rest) = Inr r'"
    using 1 by (simp add: adnl_id_decode_def)
  then obtain r' where 2: "adnl_id_decode ([] @ [85, 65, 65] @ rest) = Inr r'" by blast
  have "r' = replicate 32 0" by (rule adnl_typo_detected [OF 2 1])
  then show ?thesis using 1 2 by blast
qed

end
