(* ===== verification/Modes.thy ===== *)
theory Modes
  imports Ige
begin

section \<open>The CBC and CTR modes (crypto/fipsmodule/modes/cbc.c, ctr.c)\<close>

text \<open>
  Cipher block chaining and counter mode over any block function. Decryption in CBC has two loops,
  chosen by how the two buffers lie: it is modelled over one memory with the offsets of both, word by
  word where the code copies words, so that the theorems speak of overlapping buffers. A word of
  eight bytes is the list of its bytes (\<open>load_word_le\<close>, \<open>store_word_le\<close> are copies, and \<open>^\<close> is bytewise).
\<close>

subsection \<open>CBC encryption\<close>

fun cbc_enc_loop :: "(bytes \<Rightarrow> bytes) \<Rightarrow> bytes option \<Rightarrow> nat \<Rightarrow> nat \<Rightarrow> bytes \<Rightarrow> bytes \<Rightarrow> bytes \<times> bytes" where
  "cbc_enc_loop E inp 0 pos out iv = (out, iv)"
| "cbc_enc_loop E inp (Suc n) pos out iv =
     (let c = E (xor_block (load_in inp out pos) iv)
      in cbc_enc_loop E inp n (pos + 16) (write_at out pos c) c)"

text \<open>A last partial block is completed with the bytes of the chaining value, and written in full.\<close>

definition CRYPTO_cbc128_encrypt ::
    "(bytes \<Rightarrow> bytes) \<Rightarrow> bytes option \<Rightarrow> bytes \<Rightarrow> nat \<Rightarrow> bytes \<Rightarrow> bytes \<times> bytes" where
  "CRYPTO_cbc128_encrypt E inp out len ivec =
     (let (out, iv) = cbc_enc_loop E inp (len div 16) 0 out ivec; r = len mod 16; pos = len - r in
      if r = 0 then (out, iv)
      else
        let c = E (xor_block (take r (load_in inp out pos)) iv @ drop r iv)
        in (write_at out pos c, c))"

subsection \<open>CBC decryption\<close>

definition get8 :: "bytes \<Rightarrow> nat \<Rightarrow> bytes" where
  "get8 b p = take 8 (drop p b)"

text \<open>Where the chaining value is read from: the caller's array, or the input.\<close>

datatype iv_ptr = Iv_Arg | Iv_In nat

definition iv_get8 :: "bytes \<Rightarrow> bytes \<Rightarrow> iv_ptr \<Rightarrow> nat \<Rightarrow> bytes" where
  "iv_get8 mem ivec p n = (case p of Iv_Arg \<Rightarrow> get8 ivec n | Iv_In q \<Rightarrow> get8 mem (q + n))"

definition direct_word :: "bytes \<Rightarrow> nat \<Rightarrow> iv_ptr \<Rightarrow> bytes \<Rightarrow> nat \<Rightarrow> bytes" where
  "direct_word ivec out p mem n = write_at mem (out + n) (xor_block (get8 mem (out + n)) (iv_get8 mem ivec p n))"

fun cbc_dec_direct :: "(bytes \<Rightarrow> bytes) \<Rightarrow> bytes \<Rightarrow> nat \<Rightarrow> bytes \<Rightarrow> nat \<Rightarrow> nat \<Rightarrow> iv_ptr \<Rightarrow> bytes \<times> bytes" where
  "cbc_dec_direct D ivec 0 mem inp out p = (mem, case p of Iv_Arg \<Rightarrow> ivec | Iv_In q \<Rightarrow> blk q mem)"
| "cbc_dec_direct D ivec (Suc n) mem inp out p =
     (let mem = write_at mem out (D (blk inp mem));
          mem = direct_word ivec out p mem 0;
          mem = direct_word ivec out p mem 8
      in cbc_dec_direct D ivec n mem (inp + 16) (out + 16) (Iv_In inp))"

definition copy_word :: "bytes \<Rightarrow> nat \<Rightarrow> nat \<Rightarrow> nat \<Rightarrow> bytes \<times> bytes \<Rightarrow> bytes \<times> bytes" where
  "copy_word tmp inp out n = (\<lambda>(mem, ivec).
     let c = get8 mem (inp + n)
     in (write_at mem (out + n) (xor_block (get8 tmp n) (get8 ivec n)), write_at ivec n c))"

fun cbc_dec_copy :: "(bytes \<Rightarrow> bytes) \<Rightarrow> nat \<Rightarrow> bytes \<Rightarrow> nat \<Rightarrow> nat \<Rightarrow> bytes \<Rightarrow> bytes \<times> bytes" where
  "cbc_dec_copy D 0 mem inp out ivec = (mem, ivec)"
| "cbc_dec_copy D (Suc n) mem inp out ivec =
     (let tmp = D (blk inp mem);
          (mem, ivec) = copy_word tmp inp out 8 (copy_word tmp inp out 0 (mem, ivec))
      in cbc_dec_copy D n mem (inp + 16) (out + 16) ivec)"

text \<open>The last partial block, byte by byte: \<open>n\<close> of \<open>r\<close>, then the rest of the chaining value.\<close>

fun cbc_dec_tail :: "bytes \<Rightarrow> nat \<Rightarrow> nat \<Rightarrow> nat \<Rightarrow> nat \<Rightarrow> bytes \<Rightarrow> bytes \<Rightarrow> bytes \<times> bytes" where
  "cbc_dec_tail tmp 0 n inp out mem ivec = (mem, take n ivec @ drop n (blk inp mem))"
| "cbc_dec_tail tmp (Suc r) n inp out mem ivec =
     (let c = mem ! (inp + n) in
      cbc_dec_tail tmp r (n + 1) inp out (mem[out + n := tmp ! n XOR ivec ! n]) (ivec[n := c]))"

definition CRYPTO_cbc128_decrypt ::
    "(bytes \<Rightarrow> bytes) \<Rightarrow> bytes \<Rightarrow> nat \<Rightarrow> nat \<Rightarrow> nat \<Rightarrow> bytes \<Rightarrow> (bytes \<times> bytes) option" where
  "CRYPTO_cbc128_decrypt D mem inp out len ivec =
     (if \<not> (inp \<ge> out \<or> inp + len \<le> out) then None
      else
        let n = len div 16; r = len mod 16;
            (mem, ivec) =
              (if inp \<ge> 32 \<and> out \<le> inp - 32 \<or> inp < out then cbc_dec_direct D ivec n mem inp out Iv_Arg
               else cbc_dec_copy D n mem inp out ivec) in
        Some (if r = 0 then (mem, ivec)
              else cbc_dec_tail (D (blk (inp + 16 * n) mem)) r 0 (inp + 16 * n) (out + 16 * n) mem ivec))"

subsection \<open>The mode\<close>

fun cbc_enc :: "(bytes \<Rightarrow> bytes) \<Rightarrow> bytes \<Rightarrow> bytes list \<Rightarrow> bytes list" where
  "cbc_enc E iv [] = []"
| "cbc_enc E iv (p # ps) = (let c = E (xor_block p iv) in c # cbc_enc E c ps)"

fun cbc_dec :: "(bytes \<Rightarrow> bytes) \<Rightarrow> bytes \<Rightarrow> bytes list \<Rightarrow> bytes list" where
  "cbc_dec D iv [] = []"
| "cbc_dec D iv (c # cs) = xor_block (D c) iv # cbc_dec D c cs"

lemma length_cbc [simp]: "length (cbc_enc E iv ps) = length ps" "length (cbc_dec D iv ps) = length ps"
  by (induction ps arbitrary: iv) (simp_all add: Let_def)

lemma cbc_enc_16: "block_cipher E D \<Longrightarrow> length iv = 16 \<Longrightarrow> all16 ps \<Longrightarrow> all16 (cbc_enc E iv ps)"
proof (induction ps arbitrary: iv)
  case (Cons p ps)
  have "length (E (xor_block p iv)) = 16"
    using cipher_16(1) [OF Cons.prems(1) xor_block_16] Cons.prems by simp
  then show ?case using Cons by (simp add: Let_def)
qed simp

lemma cbc_dec_16: "(\<And>b. length b = 16 \<Longrightarrow> length (D b) = 16) \<Longrightarrow> length iv = 16 \<Longrightarrow> all16 ps \<Longrightarrow> all16 (cbc_dec D iv ps)"
  by (induction ps arbitrary: iv) (simp_all add: xor_block_16)

lemma cbc_inverse: "block_cipher E D \<Longrightarrow> length iv = 16 \<Longrightarrow> all16 ps \<Longrightarrow> cbc_dec D iv (cbc_enc E iv ps) = ps"
proof (induction ps arbitrary: iv)
  case (Cons p ps)
  have x: "length (xor_block p iv) = 16" using Cons.prems by (simp add: xor_block_16)
  have "length (E (xor_block p iv)) = 16" "D (E (xor_block p iv)) = xor_block p iv"
    using Cons.prems(1) x by (simp_all add: block_cipher_def)
  then show ?case using Cons by (simp add: Let_def xor_block_cancel)
qed simp

subsection \<open>Memory\<close>

lemma region_write_at:
  "pos + length d \<le> length b \<Longrightarrow> q + k \<le> pos \<or> pos + length d \<le> q \<Longrightarrow>
   take k (drop q (write_at b pos d)) = take k (drop q b)"
  by (auto simp: write_at_def take_drop)

lemma blk_write_at: "pos + length d \<le> length b \<Longrightarrow> q + 16 \<le> pos \<or> pos + length d \<le> q \<Longrightarrow> blk q (write_at b pos d) = blk q b"
  by (simp add: blk_def region_write_at)

lemma blocks_write_at:
  "pos + length d \<le> length b \<Longrightarrow> q + 16 * n \<le> pos \<or> pos + length d \<le> q \<Longrightarrow>
   blocks n (drop q (write_at b pos d)) = blocks n (drop q b)"
  using region_write_at [of pos d b q "16 * n"] blocks_take [of n "16 * n", OF order_refl] by metis

lemma write_adjacent: "pos + length d \<le> length b \<Longrightarrow> write_at (write_at b pos d) (pos + length d) e = write_at b pos (d @ e)"
  by (simp add: write_at_def add.assoc add.commute add.left_commute)

lemma blocks_Suc: "blocks (Suc n) (drop q b) = blk q b # blocks n (drop (q + 16) b)"
  by (simp add: blk_def add.commute)

lemma get8_blk: "n \<le> 8 \<Longrightarrow> get8 m (q + n) = take 8 (drop n (blk q m))"
  by (simp add: get8_def blk_def drop_take add.commute)

lemma get8_written: "out + 16 \<le> length mem \<Longrightarrow> length e = 16 \<Longrightarrow> n \<le> 8 \<Longrightarrow>
    get8 (write_at mem out e) (out + n) = take 8 (drop n e)"
  by (simp add: get8_blk) (simp add: blk_def write_at_def)

lemma write_word: "out + 16 \<le> length mem \<Longrightarrow> length e = 16 \<Longrightarrow> length w = 8 \<Longrightarrow> n \<le> 8 \<Longrightarrow>
    write_at (write_at mem out e) (out + n) w = write_at mem out (take n e @ w @ drop (n + 8) e)"
  by (simp add: write_at_def)

lemma xor_words: "length d = 16 \<Longrightarrow> length v = 16 \<Longrightarrow>
    xor_block (take 8 d) (take 8 v) @ xor_block (drop 8 d) (drop 8 v) = xor_block d v"
proof -
  assume "length d = 16" "length v = 16"
  then have "xor_block (take 8 d @ drop 8 d) (take 8 v @ drop 8 v) =
      xor_block (take 8 d) (take 8 v) @ xor_block (drop 8 d) (drop 8 v)"
    unfolding xor_block_def by (subst zip_append) simp_all
  then show ?thesis by simp
qed

subsection \<open>Encryption implements the mode\<close>

lemma enc_loop_eq:
  "block_cipher E D \<Longrightarrow> length iv = 16 \<Longrightarrow> pos + 16 * n \<le> length out \<Longrightarrow> pos + 16 * n \<le> length (source inp out) \<Longrightarrow>
   cbc_enc_loop E inp n pos out iv =
     (let cs = cbc_enc E iv (blocks n (drop pos (source inp out))) in (write_at out pos (concat cs), last (iv # cs)))"
proof (induction n arbitrary: pos out iv)
  case 0
  then show ?case by (simp add: write_at_def)
next
  case (Suc n)
  define c where "c = E (xor_block (blk pos (source inp out)) iv)"
  have c16: "length c = 16"
    unfolding c_def by (rule cipher_16(1) [OF Suc.prems(1)]) (use Suc.prems in \<open>simp add: xor_block_16 blk_def\<close>)
  have rest: "blocks n (drop (pos + 16) (source inp (write_at out pos c))) = blocks n (drop (pos + 16) (source inp out))"
    by (cases inp) (use blocks_write_at [of pos c out "pos + 16" n] Suc.prems c16 in \<open>simp_all add: source_def\<close>)
  have len: "pos + 16 + 16 * n \<le> length (source inp (write_at out pos c))"
    using Suc.prems c16 by (cases inp) (simp_all add: source_def)
  have "cbc_enc_loop E inp n (pos + 16) (write_at out pos c) c =
      (let cs = cbc_enc E c (blocks n (drop (pos + 16) (source inp out))) in
        (write_at (write_at out pos c) (pos + 16) (concat cs), last (c # cs)))"
    unfolding rest [symmetric] using Suc.prems c16 len by (intro Suc.IH) simp_all
  moreover have "load_in inp out pos = blk pos (source inp out)" by (cases inp) (simp_all add: load_in_def source_def)
  moreover have "write_at (write_at out pos c) (pos + 16) e = write_at out pos (c @ e)" for e
    using write_adjacent [of pos c out e] Suc.prems c16 by simp
  ultimately show ?case by (simp add: blocks_Suc c_def [symmetric] Let_def del: blocks.simps)
qed

subsection \<open>Decryption implements the mode, however the buffers lie\<close>

lemma direct_words:
  assumes "length mem \<ge> out + 16" and "length v = 16" and "length d = 16"
    and v: "v = (case p of Iv_Arg \<Rightarrow> ivec | Iv_In q \<Rightarrow> blk q mem)"
    and "case p of Iv_Arg \<Rightarrow> True | Iv_In q \<Rightarrow> q + 16 \<le> length mem \<and> (q + 16 \<le> out \<or> out + 16 \<le> q)"
  shows "direct_word ivec out p (direct_word ivec out p (write_at mem out d) 0) 8 = write_at mem out (xor_block d v)"
proof -
  have ivw: "iv_get8 (write_at mem out e) ivec p n = take 8 (drop n v)" if "length e = 16" "n \<le> 8" for e n
    using that assms blk_write_at [of out e mem]
    by (cases p) (simp_all add: iv_get8_def get8_def get8_blk [unfolded get8_def])
  have w: "length (xor_block (take 8 d) (take 8 v)) = 8" "length (xor_block (drop 8 d) (drop 8 v)) = 8"
    using assms by (simp_all add: length_xor_block)
  have "direct_word ivec out p (write_at mem out d) 0 = write_at mem out (xor_block (take 8 d) (take 8 v) @ drop 8 d)"
    using write_word [of out mem d "xor_block (take 8 d) (take 8 v)" 0] get8_written [of out mem d 0] ivw [of d 0] assms w
    by (simp add: direct_word_def)
  moreover have "direct_word ivec out p (write_at mem out (xor_block (take 8 d) (take 8 v) @ drop 8 d)) 8 =
      write_at mem out (xor_block (take 8 d) (take 8 v) @ xor_block (drop 8 d) (drop 8 v))"
    using write_word [of out mem "xor_block (take 8 d) (take 8 v) @ drop 8 d" "xor_block (drop 8 d) (drop 8 v)" 8]
      get8_written [of out mem "xor_block (take 8 d) (take 8 v) @ drop 8 d" 8]
      ivw [of "xor_block (take 8 d) (take 8 v) @ drop 8 d" 8] assms w
    by (simp add: direct_word_def)
  ultimately show ?thesis using xor_words assms by simp
qed

lemma cbc_dec_direct_eq:
  assumes D: "\<And>b. length b = 16 \<Longrightarrow> length (D b) = 16" and iv: "length ivec = 16"
  shows "inp + 16 * n \<le> length mem \<Longrightarrow> out + 16 * n \<le> length mem \<Longrightarrow> out + 32 \<le> inp \<or> inp + 16 * n \<le> out \<Longrightarrow>
    v = (case p of Iv_Arg \<Rightarrow> ivec | Iv_In q \<Rightarrow> blk q mem) \<Longrightarrow>
    (case p of Iv_Arg \<Rightarrow> True | Iv_In q \<Rightarrow> q + 16 = inp) \<Longrightarrow>
    cbc_dec_direct D ivec n mem inp out p =
      (write_at mem out (concat (cbc_dec D v (blocks n (drop inp mem)))), last (v # blocks n (drop inp mem)))"
proof (induction n arbitrary: mem inp out p v)
  case 0
  then show ?case by (cases p) (simp_all add: write_at_def)
next
  case (Suc n)
  define x where "x = xor_block (D (blk inp mem)) v"
  have b16: "length (blk inp mem) = 16" using Suc.prems by (simp add: blk_def)
  have v16: "length v = 16" using Suc.prems iv by (cases p) (auto simp: blk_def)
  have x16: "length x = 16" using D [OF b16] v16 by (simp add: x_def xor_block_16)
  have words: "direct_word ivec out p (direct_word ivec out p (write_at mem out (D (blk inp mem))) 0) 8 = write_at mem out x"
    unfolding x_def by (rule direct_words) (use Suc.prems v16 D [OF b16] in \<open>auto split: iv_ptr.splits\<close>)
  have keep: "blk inp (write_at mem out x) = blk inp mem"
    by (rule blk_write_at) (use Suc.prems x16 in auto)
  have rest: "blocks n (drop (inp + 16) (write_at mem out x)) = blocks n (drop (inp + 16) mem)"
    by (rule blocks_write_at) (use Suc.prems x16 in auto)
  have "cbc_dec_direct D ivec n (write_at mem out x) (inp + 16) (out + 16) (Iv_In inp) =
      (write_at (write_at mem out x) (out + 16) (concat (cbc_dec D (blk inp mem) (blocks n (drop (inp + 16) mem)))),
       last (blk inp mem # blocks n (drop (inp + 16) mem)))"
    unfolding rest [symmetric] by (rule Suc.IH) (use Suc.prems x16 keep in auto)
  moreover have "write_at (write_at mem out x) (out + 16) e = write_at mem out (x @ e)" for e
    using write_adjacent [of out x mem e] Suc.prems x16 by simp
  ultimately show ?case by (simp add: words blocks_Suc x_def del: blocks.simps)
qed

lemma copy_words:
  assumes "inp + 16 \<le> length mem" and "out \<le> inp" and "length tmp = 16" and "length iv = 16"
  shows "copy_word tmp inp out 8 (copy_word tmp inp out 0 (mem, iv)) = (write_at mem out (xor_block tmp iv), blk inp mem)"
proof -
  define w0 w8 where "w0 = xor_block (take 8 tmp) (take 8 iv)" and "w8 = xor_block (drop 8 tmp) (drop 8 iv)"
  have w: "length w0 = 8" "length w8 = 8" using assms by (simp_all add: w0_def w8_def length_xor_block)
  have g: "get8 (write_at mem out w0) (inp + 8) = get8 mem (inp + 8)"
    unfolding get8_def by (rule region_write_at) (use assms w in simp_all)
  have 1: "copy_word tmp inp out 0 (mem, iv) = (write_at mem out w0, get8 mem inp @ drop 8 iv)"
    using assms by (simp add: copy_word_def get8_def w0_def write_at_def)
  have 2: "copy_word tmp inp out 8 (write_at mem out w0, get8 mem inp @ drop 8 iv) =
      (write_at (write_at mem out w0) (out + 8) w8, get8 mem inp @ get8 mem (inp + 8))"
    using assms by (simp add: copy_word_def g) (simp add: get8_def w8_def write_at_def)
  have "get8 mem inp @ get8 mem (inp + 8) = blk inp mem"
    unfolding get8_def blk_def using take_add [of 8 8 "drop inp mem"] by (simp add: add.commute)
  moreover have "write_at (write_at mem out w0) (out + 8) w8 = write_at mem out (xor_block tmp iv)"
    using write_adjacent [of out w0 mem w8] xor_words [of tmp iv] assms w by (simp add: w0_def w8_def)
  ultimately show ?thesis unfolding 1 2 by simp
qed

lemma cbc_dec_copy_eq:
  assumes D: "\<And>b. length b = 16 \<Longrightarrow> length (D b) = 16"
  shows "inp + 16 * n \<le> length mem \<Longrightarrow> out \<le> inp \<Longrightarrow> length iv = 16 \<Longrightarrow>
    cbc_dec_copy D n mem inp out iv =
      (write_at mem out (concat (cbc_dec D iv (blocks n (drop inp mem)))), last (iv # blocks n (drop inp mem)))"
proof (induction n arbitrary: mem inp out iv)
  case 0
  then show ?case by (simp add: write_at_def)
next
  case (Suc n)
  define x where "x = xor_block (D (blk inp mem)) iv"
  have b16: "length (blk inp mem) = 16" using Suc.prems by (simp add: blk_def)
  have x16: "length x = 16" using D [OF b16] Suc.prems by (simp add: x_def xor_block_16)
  have words: "copy_word (D (blk inp mem)) inp out 8 (copy_word (D (blk inp mem)) inp out 0 (mem, iv)) =
      (write_at mem out x, blk inp mem)"
    unfolding x_def using Suc.prems D [OF b16] by (intro copy_words) simp_all
  have rest: "blocks n (drop (inp + 16) (write_at mem out x)) = blocks n (drop (inp + 16) mem)"
    by (rule blocks_write_at) (use Suc.prems x16 in auto)
  have "cbc_dec_copy D n (write_at mem out x) (inp + 16) (out + 16) (blk inp mem) =
      (write_at (write_at mem out x) (out + 16) (concat (cbc_dec D (blk inp mem) (blocks n (drop (inp + 16) mem)))),
       last (blk inp mem # blocks n (drop (inp + 16) mem)))"
    unfolding rest [symmetric] by (rule Suc.IH) (use Suc.prems x16 b16 in auto)
  moreover have "write_at (write_at mem out x) (out + 16) e = write_at mem out (x @ e)" for e
    using write_adjacent [of out x mem e] Suc.prems x16 by simp
  ultimately show ?case by (simp add: words blocks_Suc x_def del: blocks.simps)
qed

lemma cbc_decrypt_eq:
  assumes D: "\<And>b. length b = 16 \<Longrightarrow> length (D b) = 16" and iv: "length iv = 16"
    and "inp + 16 * n \<le> length mem" and "out + 16 * n \<le> length mem" and "out \<le> inp \<or> inp + 16 * n \<le> out"
  shows "CRYPTO_cbc128_decrypt D mem inp out (16 * n) iv =
    Some (write_at mem out (concat (cbc_dec D iv (blocks n (drop inp mem)))), last (iv # blocks n (drop inp mem)))"
proof (cases "inp \<ge> 32 \<and> out \<le> inp - 32 \<or> inp < out")
  case True
  have "cbc_dec_direct D iv n mem inp out Iv_Arg =
      (write_at mem out (concat (cbc_dec D iv (blocks n (drop inp mem)))), last (iv # blocks n (drop inp mem)))"
    by (rule cbc_dec_direct_eq [OF D iv]) (use True assms in auto)
  then show ?thesis using True assms(5) by (auto simp: CRYPTO_cbc128_decrypt_def)
next
  case False
  then have "out \<le> inp" by linarith
  then show ?thesis using False cbc_dec_copy_eq [OF D assms(3) _ iv] by (auto simp: CRYPTO_cbc128_decrypt_def)
qed

subsection \<open>Properties\<close>

lemma cbc_encrypt_eq:
  assumes "block_cipher E D" and "length iv = 16" and "16 * n = length p"
  shows "CRYPTO_cbc128_encrypt E (Some p) (replicate (length p) 0) (length p) iv =
    (concat (cbc_enc E iv (blocks n p)), last (iv # cbc_enc E iv (blocks n p)))"
proof -
  have b: "all16 (blocks n p)" using assms(3) by (simp add: blocks_16)
  have "length (concat (cbc_enc E iv (blocks n p))) = length p"
    using length_concat_16 [OF cbc_enc_16 [OF assms(1,2) b]] assms(3) by simp
  moreover have "length p div 16 = n" "length p mod 16 = 0" using assms(3) by presburger+
  ultimately show ?thesis
    using enc_loop_eq [OF assms(1,2), of 0 n "replicate (length p) 0" "Some p"] assms(3)
    by (simp add: CRYPTO_cbc128_encrypt_def source_def Let_def write_at_def)
qed

text \<open>C22. Decryption in CBC mode undoes encryption wherever the two buffers lie in memory, if they are
  disjoint or the input is not behind the output, overlapping by any number of bytes: the plaintext is
  written over the output and nothing else changes but what overlaps it, and the chaining value left
  for the next call is the one that encryption left.\<close>

theorem cbc_decrypts_in_any_layout:
  assumes "block_cipher E D" and "length iv = 16" and "16 dvd length p"
    and "CRYPTO_cbc128_encrypt E (Some p) (replicate (length p) 0) (length p) iv = (c, iv')"
    and "inp + length p \<le> length mem" and "take (length p) (drop inp mem) = c"
    and "out + length p \<le> length mem" and "out \<le> inp \<or> inp + length p \<le> out"
  shows "CRYPTO_cbc128_decrypt D mem inp out (length p) iv = Some (write_at mem out p, iv')"
proof -
  obtain n where n: "16 * n = length p" using assms(3) by (metis dvd_def)
  define cs where "cs = cbc_enc E iv (blocks n p)"
  have b: "all16 (blocks n p)" "concat (blocks n p) = p" using n blocks_16 [of n p] concat_blocks [of n p] by simp_all
  have cs: "all16 cs" "length cs = n" using cbc_enc_16 [OF assms(1,2) b(1)] by (simp_all add: cs_def length_blocks)
  have c: "c = concat cs" "iv' = last (iv # cs)"
    using cbc_encrypt_eq [OF assms(1,2) n] assms(4) by (simp_all add: cs_def)
  have "blocks n (drop inp mem) = blocks n c" using blocks_take [of n "16 * n" "drop inp mem"] assms(6) n by simp
  then have bl: "blocks n (drop inp mem) = cs" using blocks_concat [OF cs(1), of "[]"] by (simp add: c cs(2))
  have D: "length (D b) = 16" if "length b = 16" for b using assms(1) that by (simp add: block_cipher_def)
  show ?thesis
    using cbc_decrypt_eq [OF D assms(2), where inp = inp and out = out and mem = mem and n = n] assms(5,7,8) b(2)
      cbc_inverse [OF assms(1,2) b(1)]
    by (simp add: bl n c(2)) (simp add: cs_def)
qed

theorem cbc_decrypts_in_any_layout_witness:
  "\<exists>c iv'. CRYPTO_cbc128_encrypt rev (Some (replicate 32 5)) (replicate 32 0) 32 (replicate 16 1) = (c, iv') \<and>
    CRYPTO_cbc128_decrypt rev (replicate 16 0 @ c) 16 8 32 (replicate 16 1) =
      Some (write_at (replicate 16 0 @ c) 8 (replicate 32 5), iv')"
proof -
  have bc: "block_cipher rev rev" by (simp add: block_cipher_def)
  let ?p = "replicate 32 (5 :: byte)" and ?iv = "replicate 16 (1 :: byte)"
  obtain c iv' where e: "CRYPTO_cbc128_encrypt rev (Some ?p) (replicate (length ?p) 0) (length ?p) ?iv = (c, iv')" by fastforce
  moreover have "length c = 32"
    using cbc_encrypt_eq [OF bc, of ?iv 2 ?p] e length_concat_16 [OF cbc_enc_16 [OF bc _ blocks_16 [of 2 ?p]], of ?iv] by simp
  ultimately show ?thesis
    using cbc_decrypts_in_any_layout [OF bc _ _ e, of 16 "replicate 16 0 @ c" 8] by simp
qed

end
