(* ===== verification/Ctr.thy ===== *)
theory Ctr
  imports Modes Aes
begin

section \<open>Counter mode (crypto/fipsmodule/modes/ctr.c)\<close>

text \<open>
  Counter mode over a block function, and the variant for implementations that only count in the
  last 32 bits. Both are compared with the machine that handles one byte at a time, which gives
  independence of how a message is cut, and with the key stream of the mode.
\<close>

subsection \<open>The code\<close>

text \<open>The \<open>do\<close> loop over the bytes of the counter from the last, with the carry in \<open>c\<close>.\<close>

fun inc_loop :: "nat \<Rightarrow> u32 \<Rightarrow> bytes \<Rightarrow> bytes" where
  "inc_loop 0 c counter = counter"
| "inc_loop (Suc n) c counter =
     (let c = c + ucast (counter ! n) in inc_loop n (drop_bit 8 c) (counter[n := ucast c]))"

definition ctr128_inc :: "bytes \<Rightarrow> bytes" where
  "ctr128_inc counter = inc_loop 16 1 counter"

definition ctr96_inc :: "bytes \<Rightarrow> bytes" where
  "ctr96_inc counter = inc_loop 12 1 counter"

text \<open>The counter, the encrypted counter, and how much of it is used.\<close>

record ctr_state =
  ivec :: bytes
  ecount_buf :: bytes
  num :: nat

text \<open>\<open>while (n && len)\<close>: the bytes written, the input left, and \<open>n\<close>.\<close>

fun ctr_head :: "bytes \<Rightarrow> nat \<Rightarrow> bytes \<Rightarrow> bytes \<times> bytes \<times> nat" where
  "ctr_head ecount n [] = ([], [], n)"
| "ctr_head ecount n (b # s) =
     (if n = 0 then ([], b # s, 0)
      else let (out, rest, n') = ctr_head ecount ((n + 1) mod 16) s in ((b XOR ecount ! n) # out, rest, n'))"

text \<open>\<open>while (len--)\<close> at the end.\<close>

fun ctr_tail :: "bytes \<Rightarrow> nat \<Rightarrow> bytes \<Rightarrow> bytes" where
  "ctr_tail ecount n [] = []"
| "ctr_tail ecount n (b # s) = (b XOR ecount ! n) # ctr_tail ecount (n + 1) s"

function ctr_blocks :: "(bytes \<Rightarrow> bytes) \<Rightarrow> bytes \<Rightarrow> ctr_state \<Rightarrow> bytes \<times> bytes \<times> ctr_state" where
  "ctr_blocks E s st =
     (if length s \<ge> 16 then
        let e = E (ivec st);
            (out, rest, st') = ctr_blocks E (drop 16 s) \<lparr>ivec = ctr128_inc (ivec st), ecount_buf = e, num = 0\<rparr>
        in (xor_block (take 16 s) e @ out, rest, st')
      else ([], s, st))"
  by pat_completeness auto
termination by (relation "measure (\<lambda>(E, s, st). length s)") auto

declare ctr_blocks.simps [simp del]

definition CRYPTO_ctr128_encrypt :: "(bytes \<Rightarrow> bytes) \<Rightarrow> bytes \<Rightarrow> ctr_state \<Rightarrow> (bytes \<times> ctr_state) option" where
  "CRYPTO_ctr128_encrypt E inp st =
     (if \<not> num st < 16 then None
      else
        let (out1, s, n) = ctr_head (ecount_buf st) (num st) inp;
            (out2, s, st) = ctr_blocks E s (st\<lparr>num := n\<rparr>) in
        if s = [] then Some (out1 @ out2, st)
        else
          let e = E (ivec st) in
          Some (out1 @ out2 @ ctr_tail e (num st) s,
            \<lparr>ivec = ctr128_inc (ivec st), ecount_buf = e, num = num st + length s\<rparr>))"

text \<open>
  The implementation that counts in 32 bits: from the input, the number of blocks and the counter
  block to the output.
\<close>

type_synonym ctr128_f = "bytes \<Rightarrow> nat \<Rightarrow> bytes \<Rightarrow> bytes"

function ctr32_blocks :: "ctr128_f \<Rightarrow> bytes \<Rightarrow> bytes \<Rightarrow> u32 \<Rightarrow> bytes \<times> bytes \<times> bytes \<times> u32" where
  "ctr32_blocks func s iv ctr32 =
     (if length s \<ge> 16 then
        let blocks = length s div 16;
            blocks = (if blocks > 2 ^ 28 then 2 ^ 28 else blocks);
            ctr32 = ctr32 + word_of_nat blocks;
            overflow = (unat ctr32 < blocks);
            blocks = (if overflow then blocks - unat ctr32 else blocks);
            ctr32 = (if overflow then 0 else ctr32);
            out = func (take (16 * blocks) s) blocks iv;
            iv = write_at iv 12 (PUTU32 ctr32);
            iv = (if ctr32 = 0 then ctr96_inc iv else iv);
            (out', rest, iv, ctr32) = ctr32_blocks func (drop (16 * blocks) s) iv ctr32
        in (out @ out', rest, iv, ctr32)
      else ([], s, iv, ctr32))"
  by pat_completeness auto
termination by (relation "measure (\<lambda>(func, s, iv, ctr32). length s)") (auto split: if_splits)

declare ctr32_blocks.simps [simp del]

definition CRYPTO_ctr128_encrypt_ctr32 :: "ctr128_f \<Rightarrow> bytes \<Rightarrow> ctr_state \<Rightarrow> (bytes \<times> ctr_state) option" where
  "CRYPTO_ctr128_encrypt_ctr32 func inp st =
     (if \<not> num st < 16 then None
      else
        let (out1, s, n) = ctr_head (ecount_buf st) (num st) inp;
            ctr32 = GETU32 (drop 12 (ivec st));
            (out2, s, iv, ctr32) = ctr32_blocks func s (ivec st) ctr32 in
        if s = [] then Some (out1 @ out2, st\<lparr>ivec := iv, num := n\<rparr>)
        else
          let e = func (replicate 16 0) 1 iv;
              ctr32 = ctr32 + 1;
              iv = write_at iv 12 (PUTU32 ctr32);
              iv = (if ctr32 = 0 then ctr96_inc iv else iv) in
          Some (out1 @ out2 @ ctr_tail e n s, \<lparr>ivec = iv, ecount_buf = e, num = n + length s\<rparr>))"

subsection \<open>The counter\<close>

lemma add_byte: "unat c \<le> 1 \<Longrightarrow> unat (c + ucast b) = unat b + unat c" for c :: u32 and b :: byte
proof -
  assume c: "unat c \<le> 1"
  have u: "unat (ucast b :: u32) = unat b" by (simp add: unat_ucast_up)
  have "unat b < 256" by simp
  then have "unat c + unat b < 4294967296" using c by linarith
  then have "unat c + unat (ucast b :: u32) < 2 ^ LENGTH(32)" unfolding u by simp
  then have "unat (c + ucast b) = unat c + unat (ucast b :: u32)" by (simp only: unat_add_lem)
  then show ?thesis unfolding u by (simp only: add.commute)
qed

lemma inc_loop_eq:
  "n \<le> length counter \<Longrightarrow> unat c \<le> 1 \<Longrightarrow>
   inc_loop n c counter = be_bytes n (be_nat (take n counter) + unat c) @ drop n counter"
proof (induction n arbitrary: c counter)
  case (Suc n)
  define v where "v = c + ucast (counter ! n)"
  have b: "unat (counter ! n) < 256" by simp
  have uv: "unat v = unat (counter ! n) + unat c" unfolding v_def using Suc.prems(2) by (rule add_byte)
  have d: "unat (drop_bit 8 v) = (unat (counter ! n) + unat c) div 256" unfolding drop_bit_eq_div unat_div uv by simp
  have c1: "unat (drop_bit 8 v) \<le> 1" unfolding d using Suc.prems(2) b by linarith
  have last: "ucast v = (word_of_nat (be_nat (take n counter) * 256 + unat (counter ! n) + unat c) :: byte)"
  proof -
    have "ucast v = (word_of_nat (unat v) :: byte)" by simp
    moreover have "(256 :: byte) = 0" by simp
    ultimately show ?thesis unfolding uv of_nat_add of_nat_mult of_nat_numeral by (simp only: mult_zero_right add_0)
  qed
  have tk: "take (Suc n) counter = take n counter @ [counter ! n]" using Suc.prems(1) by (simp add: take_Suc_conv_app_nth)
  have "inc_loop (Suc n) c counter = be_bytes n (be_nat (take n counter) + unat (drop_bit 8 v)) @ [ucast v] @ drop (Suc n) counter"
    using Suc.IH [of "counter[n := ucast v]" "drop_bit 8 v"] Suc.prems(1) c1
    by (simp add: v_def [symmetric] Let_def drop_update_swap Cons_nth_drop_Suc [symmetric])
  also have "\<dots> = be_bytes (Suc n) (be_nat (take (Suc n) counter) + unat c) @ drop (Suc n) counter"
  proof -
    have "(be_nat (take n counter) * 256 + unat (counter ! n) + unat c) div 256 =
        be_nat (take n counter) + (unat (counter ! n) + unat c) div 256"
      unfolding add.assoc by (subst add.commute) simp
    then show ?thesis unfolding tk d last by simp
  qed
  finally show ?case .
qed simp

lemma ctr128_inc_eq: "length c = 16 \<Longrightarrow> ctr128_inc c = be_bytes 16 (be_nat c + 1)"
  using inc_loop_eq [of 16 c 1] by (simp add: ctr128_inc_def)

lemma ctr96_inc_eq: "length c = 16 \<Longrightarrow> ctr96_inc c = be_bytes 12 (be_nat (take 12 c) + 1) @ drop 12 c"
  using inc_loop_eq [of 12 c 1] by (simp add: ctr96_inc_def)

lemma length_ctr128_inc: "length c = 16 \<Longrightarrow> length (ctr128_inc c) = 16"
  by (simp add: ctr128_inc_eq)

subsection \<open>One byte at a time\<close>

fun ctr_bytes :: "(bytes \<Rightarrow> bytes) \<Rightarrow> bytes \<Rightarrow> ctr_state \<Rightarrow> bytes \<times> ctr_state" where
  "ctr_bytes E [] st = ([], st)"
| "ctr_bytes E (b # s) st =
     (let st = (if num st = 0 then \<lparr>ivec = ctr128_inc (ivec st), ecount_buf = E (ivec st), num = 0\<rparr> else st);
          (out, st') = ctr_bytes E s (st\<lparr>num := (num st + 1) mod 16\<rparr>)
      in ((b XOR ecount_buf st ! num st) # out, st'))"

lemma ctr_bytes_append:
  "ctr_bytes E (s @ t) st =
     (let (out, st) = ctr_bytes E s st; (out', st) = ctr_bytes E t st in (out @ out', st))"
  by (induction s arbitrary: st) (simp_all add: Let_def split: prod.splits)

text \<open>Inside a block the bytes only consume the encrypted counter.\<close>

lemma ctr_bytes_inside:
  "0 < num st \<Longrightarrow> num st < 16 \<Longrightarrow> num st + length s \<le> 16 \<Longrightarrow>
   ctr_bytes E s st = (ctr_tail (ecount_buf st) (num st) s, st\<lparr>num := (num st + length s) mod 16\<rparr>)"
proof (induction s arbitrary: st)
  case (Cons b s)
  show ?case
  proof (cases "s = []")
    case False
    then have "0 < length s" by simp
    then have n: "num st + 1 < 16" using Cons.prems(3) unfolding list.size by linarith
    then show ?thesis using Cons.IH [of "st\<lparr>num := num st + 1\<rparr>"] Cons.prems by (simp add: Let_def)
  qed (use Cons.prems in \<open>simp add: Let_def\<close>)
qed simp

lemma ctr_tail_xor: "n + length s \<le> length e \<Longrightarrow> ctr_tail e n s = xor_block s (drop n e)"
proof (induction s arbitrary: n)
  case (Cons b s)
  then have "drop n e = e ! n # drop (n + 1) e" by (simp add: Cons_nth_drop_Suc)
  then show ?case using Cons by (simp add: xor_block_def)
qed (simp add: xor_block_def)

definition sized :: "(bytes \<Rightarrow> bytes) \<Rightarrow> bool" where
  "sized E \<longleftrightarrow> (\<forall>b. length b = 16 \<longrightarrow> length (E b) = 16)"

text \<open>From a block boundary, up to one block.\<close>

lemma ctr_bytes_start:
  assumes "num st = 0" and "s \<noteq> []" and "length s \<le> 16"
  shows "ctr_bytes E s st = (ctr_tail (E (ivec st)) 0 s,
    \<lparr>ivec = ctr128_inc (ivec st), ecount_buf = E (ivec st), num = length s mod 16\<rparr>)"
proof -
  obtain b t where s: "s = b # t" using assms(2) by (cases s) auto
  show ?thesis
    using ctr_bytes_inside [of "\<lparr>ivec = ctr128_inc (ivec st), ecount_buf = E (ivec st), num = 1\<rparr>" t E] assms
    by (simp add: s)
qed

lemma ctr_head_bytes:
  "num st < 16 \<Longrightarrow> ctr_head (ecount_buf st) (num st) s = (out, rest, n) \<Longrightarrow>
   \<exists>p. s = p @ rest \<and> ctr_bytes E p st = (out, st\<lparr>num := n\<rparr>) \<and> (rest = [] \<or> n = 0) \<and> n < 16"
proof (induction s arbitrary: st out)
  case Nil
  then show ?case by (intro exI [of _ "[]"]) simp
next
  case (Cons b s)
  show ?case
  proof (cases "num st = 0")
    case True
    then show ?thesis using Cons.prems by (intro exI [of _ "[]"]) simp
  next
    case False
    obtain out' where h: "ctr_head (ecount_buf st) ((num st + 1) mod 16) s = (out', rest, n)" and out: "out = (b XOR ecount_buf st ! num st) # out'"
      using Cons.prems(2) False by (auto split: prod.splits)
    obtain p where "s = p @ rest" "ctr_bytes E p (st\<lparr>num := (num st + 1) mod 16\<rparr>) = (out', st\<lparr>num := n\<rparr>)" "rest = [] \<or> n = 0" "n < 16"
      using Cons.IH [of "st\<lparr>num := (num st + 1) mod 16\<rparr>" out'] h by auto
    then show ?thesis using False by (intro exI [of _ "b # p"]) (simp add: out)
  qed
qed

lemma ctr_blocks_bytes:
  "sized E \<Longrightarrow> num st = 0 \<Longrightarrow> length (ivec st) = 16 \<Longrightarrow> ctr_blocks E s st = (out, rest, st') \<Longrightarrow>
    \<exists>p. s = p @ rest \<and> ctr_bytes E p st = (out, st') \<and> num st' = 0 \<and> length (ivec st') = 16 \<and> length rest < 16"
proof (induction E s st arbitrary: out rule: ctr_blocks.induct)
  case (1 E s st)
  show ?case
  proof (cases "length s \<ge> 16")
    case True
    let ?st = "\<lparr>ivec = ctr128_inc (ivec st), ecount_buf = E (ivec st), num = 0\<rparr>"
    obtain out' where b: "ctr_blocks E (drop 16 s) ?st = (out', rest, st')" and out: "out = xor_block (take 16 s) (E (ivec st)) @ out'"
      using "1.prems"(4) True by (auto simp: ctr_blocks.simps [of E s st] Let_def split: prod.splits)
    obtain p where p: "drop 16 s = p @ rest" "ctr_bytes E p ?st = (out', st')" "num st' = 0" "length (ivec st') = 16" "length rest < 16"
      using "1.IH" [OF True refl, of out'] b "1.prems" by (auto simp: length_ctr128_inc)
    have ne: "s \<noteq> []" using True by auto
    have e: "length (E (ivec st)) = 16" using "1.prems"(1,3) by (simp add: sized_def)
    have "ctr_bytes E (take 16 s) st = (xor_block (take 16 s) (E (ivec st)), ?st)"
      using ctr_bytes_start [of st "take 16 s" E] ctr_tail_xor [of 0 "take 16 s" "E (ivec st)"] True "1.prems"(2) e ne by auto
    then have "ctr_bytes E (take 16 s @ p) st = (out, st')" using p(2) by (simp add: ctr_bytes_append out)
    moreover have "s = (take 16 s @ p) @ rest" using p(1) append_take_drop_id [of 16 s] by simp
    ultimately show ?thesis using p by blast
  next
    case False
    then show ?thesis using "1.prems" by (intro exI [of _ "[]"]) (simp add: ctr_blocks.simps [of E s st])
  qed
qed

lemma ctr128_is_bytes:
  assumes "sized E" and "num st < 16" and "length (ivec st) = 16"
  shows "CRYPTO_ctr128_encrypt E inp st = Some (ctr_bytes E inp st)"
proof -
  obtain out1 s n where h: "ctr_head (ecount_buf st) (num st) inp = (out1, s, n)" by (metis prod_cases3)
  obtain p where p: "inp = p @ s" "ctr_bytes E p st = (out1, st\<lparr>num := n\<rparr>)" "s = [] \<or> n = 0" "n < 16"
    using ctr_head_bytes [OF assms(2) h] by blast
  obtain out2 s2 st2 where b: "ctr_blocks E s (st\<lparr>num := n\<rparr>) = (out2, s2, st2)" by (metis prod_cases3)
  show ?thesis
  proof (cases "s = []")
    case True
    then show ?thesis using h p b assms(2) by (simp add: CRYPTO_ctr128_encrypt_def ctr_blocks.simps)
  next
    case False
    then have n: "n = 0" using p by simp
    obtain q where q: "s = q @ s2" "ctr_bytes E q (st\<lparr>num := n\<rparr>) = (out2, st2)" "num st2 = 0" "length (ivec st2) = 16" "length s2 < 16"
      using ctr_blocks_bytes [OF assms(1) _ _ b] n assms(3) by auto
    have pq: "ctr_bytes E (p @ q) st = (out1 @ out2, st2)" using p(2) q(2) by (simp add: ctr_bytes_append)
    have all: "ctr_bytes E inp st = (let (out, st3) = ctr_bytes E s2 st2 in (out1 @ out2 @ out, st3))"
      using ctr_bytes_append [of E "p @ q" s2 st] pq by (simp add: p(1) q(1) split: prod.splits)
    show ?thesis
    proof (cases "s2 = []")
      case True
      then show ?thesis using all h b assms(2) by (simp add: CRYPTO_ctr128_encrypt_def)
    next
      case False
      then show ?thesis using all ctr_bytes_start [OF q(3) False] q h b assms(2)
        by (simp add: CRYPTO_ctr128_encrypt_def Let_def)
    qed
  qed
qed

subsection \<open>The key stream\<close>

lemma ctr128_inc_be: "ctr128_inc (be_bytes 16 x) = be_bytes 16 (x + 1)"
proof -
  have "be_bytes 16 (x mod 256 ^ 16 + 1) = be_bytes 16 ((x mod 256 ^ 16 + 1) mod 256 ^ 16)" by (rule be_bytes_mod [symmetric])
  also have "\<dots> = be_bytes 16 (x + 1)" unfolding mod_add_left_eq by (rule be_bytes_mod)
  finally show ?thesis by (simp only: ctr128_inc_eq length_be_bytes be_nat_be_bytes)
qed

text \<open>The \<open>j\<close>-th byte of the key stream when the counter starts at \<open>v\<close>.\<close>

definition key_stream :: "(bytes \<Rightarrow> bytes) \<Rightarrow> nat \<Rightarrow> nat \<Rightarrow> byte" where
  "key_stream E v j = E (be_bytes 16 (v + j div 16)) ! (j mod 16)"

text \<open>The state after \<open>t\<close> bytes.\<close>

definition ctr_at :: "(bytes \<Rightarrow> bytes) \<Rightarrow> nat \<Rightarrow> nat \<Rightarrow> ctr_state \<Rightarrow> bool" where
  "ctr_at E v t st \<longleftrightarrow> num st = t mod 16 \<and> ivec st = be_bytes 16 (v + (t + 15) div 16) \<and>
     (t mod 16 \<noteq> 0 \<longrightarrow> ecount_buf st = E (be_bytes 16 (v + t div 16)))"

lemma ctr_at_0: "ctr_at E (be_nat iv) 0 st \<longleftrightarrow> num st = 0 \<and> ivec st = iv" if "length iv = 16"
  using be_bytes_be_nat [of iv] that by (simp add: ctr_at_def)

lemma div_16_up: "t mod 16 = 0 \<Longrightarrow> (t + 15) div 16 = t div 16" "t mod 16 \<noteq> 0 \<Longrightarrow> (t + 15) div 16 = (t + 16) div 16"
  for t :: nat
proof -
  assume "t mod 16 = 0"
  then show "(t + 15) div 16 = t div 16" by (auto elim!: dvdE simp: mod_eq_0_iff_dvd)
next
  assume "t mod 16 \<noteq> 0"
  define q r where "q = t div 16" and "r = t mod 16"
  have t: "t = 16 * q + r" and r: "0 < r" "r < 16" using \<open>t mod 16 \<noteq> 0\<close> by (simp_all add: q_def r_def)
  have "(t + 15) div 16 = q + 1" unfolding t by (rule div_nat_eqI) (use r in auto)
  moreover have "(t + 16) div 16 = q + 1" unfolding t by (rule div_nat_eqI) (use r in auto)
  ultimately show "(t + 15) div 16 = (t + 16) div 16" by (simp only:)
qed

lemma ctr_bytes_stream:
  "ctr_at E v t st \<Longrightarrow> \<exists>st'. ctr_bytes E s st = (map2 (XOR) s (map (key_stream E v) [t..<t + length s]), st') \<and>
     ctr_at E v (t + length s) st'"
proof (induction s arbitrary: t st)
  case (Cons b s)
  define st1 where "st1 = (if num st = 0 then \<lparr>ivec = ctr128_inc (ivec st), ecount_buf = E (ivec st), num = 0\<rparr> else st)"
  have num: "num st = t mod 16" and iv: "ivec st = be_bytes 16 (v + (t + 15) div 16)"
    and ec: "t mod 16 \<noteq> 0 \<Longrightarrow> ecount_buf st = E (be_bytes 16 (v + t div 16))"
    using Cons.prems unfolding ctr_at_def by blast+
  have n: "num st1 = t mod 16" unfolding num [symmetric] by (cases "num st = 0") (simp_all add: st1_def)
  have ei: "ecount_buf st1 = E (be_bytes 16 (v + t div 16)) \<and> ivec st1 = be_bytes 16 (v + (t + 16) div 16)"
  proof (cases "t mod 16 = 0")
    case True
    then have d: "(t + 15) div 16 = t div 16" "(t + 16) div 16 = t div 16 + 1" by (rule div_16_up(1)) simp
    have "num st = 0" using num True by (simp only:)
    then have "ecount_buf st1 = E (ivec st)" "ivec st1 = ctr128_inc (ivec st)" by (simp_all add: st1_def)
    then show ?thesis unfolding iv d by (simp only: ctr128_inc_be add.assoc)
  next
    case False
    then have d: "(t + 15) div 16 = (t + 16) div 16" by (rule div_16_up(2))
    have "num st \<noteq> 0" using num False by (simp only:) simp
    then have "st1 = st" by (simp add: st1_def)
    then show ?thesis using iv ec [OF False] unfolding d by (simp only:)
  qed
  note e = ei [THEN conjunct1] and i = ei [THEN conjunct2]
  have "ctr_at E v (t + 1) (st1\<lparr>num := (num st1 + 1) mod 16\<rparr>)"
  proof -
    have "(t + 1) mod 16 \<noteq> 0 \<Longrightarrow> (t + 1) div 16 = t div 16" by (simp add: div_Suc)
    moreover have "(t mod 16 + 1) mod 16 = (t + 1) mod 16" by (rule mod_add_left_eq)
    moreover have "t + 1 + 15 = t + 16" by simp
    ultimately show ?thesis using e i unfolding ctr_at_def by (simp add: n add.commute [of 16 t] del: One_nat_def Suc_eq_plus1 add_2_eq_Suc')
  qed
  then obtain st' where st': "ctr_bytes E s (st1\<lparr>num := (num st1 + 1) mod 16\<rparr>) =
      (map2 (XOR) s (map (key_stream E v) [t + 1..<t + 1 + length s]), st')" "ctr_at E v (t + 1 + length s) st'"
    using Cons.IH by blast
  have k: "ecount_buf st1 ! num st1 = key_stream E v t" by (simp add: e n key_stream_def)
  have "[t..<t + length (b # s)] = t # [t + 1..<t + 1 + length s]" by (simp add: upt_conv_Cons del: upt_Suc)
  then show ?case using st' k by (simp add: Let_def st1_def [symmetric])
qed simp

subsection \<open>Counting in 32 bits\<close>

text \<open>
  What the implementations promise (the comment on \<open>ctr128_f\<close>): the counter of block \<open>j\<close> is the one
  given with \<open>j\<close> added to its last 32 bits, without carry.
\<close>

definition counts_32 :: "(bytes \<Rightarrow> bytes) \<Rightarrow> ctr128_f \<Rightarrow> bool" where
  "counts_32 E func \<longleftrightarrow> (\<forall>s k iv. length s = 16 * k \<and> length iv = 16 \<longrightarrow>
     func s k iv = concat (map (\<lambda>j. xor_block (blk (16 * j) s) (E (take 12 iv @ be_bytes 4 (be_nat (drop 12 iv) + j)))) [0..<k]))"

lemma counter_split: "l < 2 ^ 32 \<Longrightarrow> be_bytes 16 (h * 2 ^ 32 + l) = be_bytes 12 h @ be_bytes 4 l"
proof (rule be_nat_inject)
  assume l: "l < 2 ^ 32"
  have "be_nat (be_bytes 16 (h * 2 ^ 32 + l)) = (h * 2 ^ 32 + l) mod (2 ^ 32 * 2 ^ 96)" by (simp add: be_nat_be_bytes)
  also have "\<dots> = 2 ^ 32 * (h mod 2 ^ 96) + l" using l by (subst mod_mult2_eq) simp
  also have "\<dots> = be_nat (be_bytes 12 h @ be_bytes 4 l)" using l by (simp add: be_nat_append be_nat_be_bytes)
  finally show "be_nat (be_bytes 16 (h * 2 ^ 32 + l)) = be_nat (be_bytes 12 h @ be_bytes 4 l)" .
qed simp

lemma counter_parts: "length iv = 16 \<Longrightarrow> be_nat iv = be_nat (take 12 iv) * 2 ^ 32 + be_nat (drop 12 iv)"
  using be_nat_append [of "take 12 iv" "drop 12 iv"] by simp

lemma be_nat_low: "length iv = 16 \<Longrightarrow> be_nat (drop 12 iv) < 2 ^ 32"
  using be_nat_less [of "drop 12 iv"] by simp

lemma key_stream_block: "length (E (be_bytes 16 (v + k))) = 16 \<Longrightarrow>
   map (key_stream E v) [16 * k..<16 * k + 16] = E (be_bytes 16 (v + k))"
  by (rule nth_equalityI) (simp_all add: key_stream_def)

lemma stream_blocks:
  assumes "sized E"
  shows "length s = 16 * k \<Longrightarrow>
    concat (map (\<lambda>j. xor_block (blk (16 * j) s) (E (be_bytes 16 (v + j)))) [0..<k]) =
    map2 (XOR) s (map (key_stream E v) [0..<16 * k])"
proof (induction k arbitrary: s)
  case (Suc k)
  define a where "a = take (16 * k) s"
  have s: "s = a @ blk (16 * k) s" using Suc.prems by (simp add: a_def blk_def)
  have a: "length a = 16 * k" using Suc.prems by (simp add: a_def)
  have "blk (16 * j) s = blk (16 * j) a" if "j < k" for j using that by (simp add: a_def blk_def drop_take)
  then have "concat (map (\<lambda>j. xor_block (blk (16 * j) s) (E (be_bytes 16 (v + j)))) [0..<k]) =
      concat (map (\<lambda>j. xor_block (blk (16 * j) a) (E (be_bytes 16 (v + j)))) [0..<k])"
    by (intro arg_cong [of _ _ concat] map_cong refl) simp
  then have 1: "concat (map (\<lambda>j. xor_block (blk (16 * j) s) (E (be_bytes 16 (v + j)))) [0..<k]) =
      map2 (XOR) a (map (key_stream E v) [0..<16 * k])" using Suc.IH [OF a] by simp
  have "[0..<16 * Suc k] = [0..<16 * k] @ [16 * k..<16 * k + 16]" using upt_add_eq_append [of 0 "16 * k" 16] by (simp add: add.commute)
  then have "map2 (XOR) s (map (key_stream E v) [0..<16 * Suc k]) =
      map2 (XOR) a (map (key_stream E v) [0..<16 * k]) @ map2 (XOR) (blk (16 * k) s) (map (key_stream E v) [16 * k..<16 * k + 16])"
    using a by (subst s) simp
  also have "map2 (XOR) (blk (16 * k) s) (map (key_stream E v) [16 * k..<16 * k + 16]) = xor_block (blk (16 * k) s) (E (be_bytes 16 (v + k)))"
    using assms key_stream_block [of E v k] by (simp add: sized_def xor_block_def)
  finally show ?case using 1 by simp
qed simp

lemma PUTU32_be: "PUTU32 w = be_bytes 4 (unat w)"
proof -
  have "be_nat (rev (be_bytes 4 (unat w))) < 2 ^ 32" using be_nat_less [of "rev (be_bytes 4 (unat w))"] by simp
  then have "unat (CRYPTO_bswap4 w) = be_nat (rev (be_bytes 4 (unat w)))" by (simp add: CRYPTO_bswap4_def unat_of_nat)
  then show ?thesis using be_bytes_be_nat [of "rev (be_bytes 4 (unat w))"] by (simp add: PUTU32_def)
qed

lemma GETU32_be: "length b = 4 \<Longrightarrow> GETU32 b = word_of_nat (be_nat b)"
proof -
  assume b: "length b = 4"
  then have "be_nat (rev b) < 2 ^ 32" using be_nat_less [of "rev b"] by simp
  then show ?thesis using b be_bytes_be_nat [of "rev b"] by (simp add: GETU32_def CRYPTO_bswap4_def unat_of_nat)
qed

text \<open>One call: the counter afterwards, with the carry propagated.\<close>

lemma ctr32_counter:
  assumes iv: "length iv = 16" and k: "be_nat (drop 12 iv) + k \<le> 2 ^ 32" and c: "unat c = (be_nat (drop 12 iv) + k) mod 2 ^ 32"
    and "0 < k"
  shows "(if c = 0 then ctr96_inc (write_at iv 12 (PUTU32 c)) else write_at iv 12 (PUTU32 c)) = be_bytes 16 (be_nat iv + k)"
proof -
  let ?h = "be_nat (take 12 iv)" and ?l = "be_nat (drop 12 iv)"
  have w: "write_at iv 12 (PUTU32 c) = take 12 iv @ be_bytes 4 (unat c)" using iv by (simp add: write_at_def PUTU32_be)
  have h: "be_bytes 12 ?h = take 12 iv" using be_bytes_be_nat [of "take 12 iv"] iv by simp
  show ?thesis
  proof (cases "?l + k = 2 ^ 32")
    case True
    then have c0: "c = 0" using c by (simp add: unat_eq_zero)
    have "be_nat iv + k = (?h + 1) * 2 ^ 32 + 0" using counter_parts [OF iv] True by simp
    moreover have "be_bytes 16 ((?h + 1) * 2 ^ 32 + 0) = be_bytes 12 (?h + 1) @ be_bytes 4 0" by (rule counter_split) simp
    ultimately have "be_bytes 16 (be_nat iv + k) = be_bytes 12 (?h + 1) @ be_bytes 4 0" by (simp only:)
    then show ?thesis using c0 iv ctr96_inc_eq [of "take 12 iv @ be_bytes 4 0"] unfolding w by simp
  next
    case False
    then have lt: "?l + k < 2 ^ 32" using k by simp
    then have uc: "unat c = ?l + k" using c by simp
    then have c0: "c \<noteq> 0" using \<open>0 < k\<close> by auto
    have e: "be_nat iv + k = ?h * 2 ^ 32 + (?l + k)" using counter_parts [OF iv] by simp
    have "be_bytes 16 (be_nat iv + k) = be_bytes 12 ?h @ be_bytes 4 (?l + k)" unfolding e by (rule counter_split [OF lt])
    then show ?thesis using c0 unfolding w uc h by simp
  qed
qed

lemma ctr32_step:
  assumes L: "L < 2 ^ 32" and n: "0 < n"
  defines "b0 \<equiv> if n > 2 ^ 28 then 2 ^ 28 else n"
  defines "c0 \<equiv> word_of_nat L + word_of_nat b0 :: u32"
  defines "b \<equiv> if unat c0 < b0 then b0 - unat c0 else b0" and "c \<equiv> if unat c0 < b0 then 0 else c0"
  shows "0 < b" "b \<le> n" "L + b \<le> 2 ^ 32" "unat c = (L + b) mod 2 ^ 32"
proof -
  have b0: "0 < b0" "b0 \<le> n" "b0 \<le> 2 ^ 28" using n by (auto simp: b0_def)
  have u: "unat c0 = (L + b0) mod 2 ^ 32" unfolding c0_def of_nat_add [symmetric] unat_of_nat by simp
  have cases: "unat c0 = L + b0 \<and> L + b0 < 2 ^ 32 \<and> b = b0 \<and> c = c0 \<or>
      unat c0 = L + b0 - 2 ^ 32 \<and> 2 ^ 32 \<le> L + b0 \<and> b = 2 ^ 32 - L \<and> c = 0"
  proof (cases "L + b0 < 2 ^ 32")
    case True
    then show ?thesis using u b0 by (auto simp: b_def c_def)
  next
    case False
    have "L + b0 < 2 * 2 ^ 32" using L b0 by simp
    then have "(L + b0) mod 2 ^ 32 = L + b0 - 2 ^ 32" using False by (simp add: le_mod_geq)
    then show ?thesis using u False L b0 by (auto simp: b_def c_def)
  qed
  show "0 < b" "b \<le> n" "L + b \<le> 2 ^ 32" "unat c = (L + b) mod 2 ^ 32"
    using cases b0 L u by auto
qed

lemma key_stream_shift: "map (key_stream E (v + k)) [0..<n] = map (key_stream E v) [16 * k..<16 * k + n]"
  by (rule nth_equalityI) (simp_all add: key_stream_def add.assoc)

lemma low_part: "be_nat (drop 12 (be_bytes 16 x)) = x mod 2 ^ 32"
proof -
  have "x mod 256 ^ 16 = be_nat (take 12 (be_bytes 16 x)) * 2 ^ 32 + be_nat (drop 12 (be_bytes 16 x))"
    using counter_parts [of "be_bytes 16 x"] by (simp only: length_be_bytes be_nat_be_bytes)
  then have "x mod 256 ^ 16 mod 2 ^ 32 = be_nat (drop 12 (be_bytes 16 x))"
    using be_nat_low [of "be_bytes 16 x"] by simp
  moreover have "x mod 256 ^ 16 mod 2 ^ 32 = x mod 2 ^ 32" by (rule mod_mod_cancel) (simp add: dvd_def)
  ultimately show ?thesis by simp
qed

lemma counts_32_stream:
  assumes "sized E" and "counts_32 E func" and iv: "length iv = 16" and p: "length p = 16 * b"
    and b: "be_nat (drop 12 iv) + b \<le> 2 ^ 32"
  shows "func p b iv = map2 (XOR) p (map (key_stream E (be_nat iv)) [0..<16 * b])"
proof -
  have ctr: "take 12 iv @ be_bytes 4 (be_nat (drop 12 iv) + j) = be_bytes 16 (be_nat iv + j)" if "j < b" for j
  proof -
    have lt: "be_nat (drop 12 iv) + j < 2 ^ 32" using b that by linarith
    have "be_bytes 12 (be_nat (take 12 iv)) = take 12 iv" using be_bytes_be_nat [of "take 12 iv"] iv by simp
    then show ?thesis using counter_split [OF lt, of "be_nat (take 12 iv)"] counter_parts [OF iv] by (simp only: add.assoc)
  qed
  have "func p b iv = concat (map (\<lambda>j. xor_block (blk (16 * j) p) (E (take 12 iv @ be_bytes 4 (be_nat (drop 12 iv) + j)))) [0..<b])"
    using assms(2) iv p by (simp add: counts_32_def)
  also have "\<dots> = concat (map (\<lambda>j. xor_block (blk (16 * j) p) (E (be_bytes 16 (be_nat iv + j)))) [0..<b])"
    using ctr by (intro arg_cong [of _ _ concat] map_cong refl) simp
  finally show ?thesis using stream_blocks [OF assms(1) p] by simp
qed

lemma map2_append: "length a = length k \<Longrightarrow> map2 f (a @ p) (k @ q) = map2 f a k @ map2 f p q"
  by simp

lemma sixteen: "(16 * b + n) div 16 = b + n div 16" "(16 * b + n) mod 16 = n mod 16" for n :: nat
  by simp_all

lemma counter_mod: "be_bytes 16 (be_nat (be_bytes 16 v) + q) = be_bytes 16 (v + q)"
proof -
  have "be_bytes 16 (v mod 256 ^ 16 + q) = be_bytes 16 ((v mod 256 ^ 16 + q) mod 256 ^ 16)" by (rule be_bytes_mod [symmetric])
  also have "\<dots> = be_bytes 16 (v + q)" unfolding mod_add_left_eq by (rule be_bytes_mod)
  finally show ?thesis by (simp only: be_nat_be_bytes)
qed

lemma key_stream_mod: "key_stream E (be_nat (be_bytes 16 v)) = key_stream E v"
  by (rule ext) (simp only: key_stream_def counter_mod)

lemma word_of_nat_unat: "word_of_nat (unat c) = c" for c :: u32
  by simp

lemma ctr32_blocks_stream:
  assumes E: "sized E" and func: "counts_32 E func"
  shows "length iv = 16 \<Longrightarrow> c = GETU32 (drop 12 iv) \<Longrightarrow> ctr32_blocks func s iv c = (out, rest, iv', c') \<Longrightarrow>
   \<exists>p. s = p @ rest \<and> length rest < 16 \<and> length p mod 16 = 0 \<and>
     out = map2 (XOR) p (map (key_stream E (be_nat iv)) [0..<length p]) \<and>
     iv' = be_bytes 16 (be_nat iv + length p div 16) \<and> c' = GETU32 (drop 12 iv')"
proof (induction "length s" arbitrary: s iv c out rule: less_induct)
  case less
  show ?case
  proof (cases "length s \<ge> 16")
    case True
    let ?L = "be_nat (drop 12 iv)"
    define b0 where "b0 = (if length s div 16 > 2 ^ 28 then 2 ^ 28 else length s div 16)"
    define c0 where "c0 = c + word_of_nat b0"
    define b c1 where "b = (if unat c0 < b0 then b0 - unat c0 else b0)" and "c1 = (if unat c0 < b0 then 0 else c0)"
    have L: "?L < 2 ^ 32" by (rule be_nat_low [OF less.prems(1)])
    have c: "c = word_of_nat ?L" using less.prems(1,2) by (simp add: GETU32_be)
    have n: "0 < length s div 16" using True by (simp add: div_greater_zero_iff)
    note step = ctr32_step [OF L n, folded b0_def, folded c, folded c0_def, folded b_def c1_def]
    define iv1 where "iv1 = (if c1 = 0 then ctr96_inc (write_at iv 12 (PUTU32 c1)) else write_at iv 12 (PUTU32 c1))"
    have iv1: "iv1 = be_bytes 16 (be_nat iv + b)"
      unfolding iv1_def using ctr32_counter [OF less.prems(1) step(3,4,1)] .
    obtain out' where rec: "ctr32_blocks func (drop (16 * b) s) iv1 c1 = (out', rest, iv', c')"
      and out: "out = func (take (16 * b) s) b iv @ out'"
    proof -
      have "ctr32_blocks func s iv c =
          (case ctr32_blocks func (drop (16 * b) s) iv1 c1 of (out', rest, iv', c') \<Rightarrow>
             (func (take (16 * b) s) b iv @ out', rest, iv', c'))"
        unfolding ctr32_blocks.simps [of func s iv c] if_P [OF True] Let_def iv1_def c1_def b_def c0_def b0_def ..
      then show thesis using less.prems(3) that by (simp split: prod.splits)
    qed
    have lb: "length (take (16 * b) s) = 16 * b" using step(2) by (simp add: min_def) linarith
    have c1: "c1 = GETU32 (drop 12 iv1)"
    proof -
      have "(be_nat iv + b) mod 2 ^ 32 = (?L + b) mod 2 ^ 32"
        unfolding counter_parts [OF less.prems(1)] add.assoc by (simp only: mod_mult_self3)
      then have "unat c1 = be_nat (drop 12 iv1)" unfolding iv1 low_part step(4) by simp
      then show ?thesis using GETU32_be [of "drop 12 iv1"] iv1 word_of_nat_unat [of c1] by simp
    qed
    obtain p where p: "drop (16 * b) s = p @ rest" "length rest < 16" "length p mod 16 = 0"
      "out' = map2 (XOR) p (map (key_stream E (be_nat iv1)) [0..<length p])"
      "iv' = be_bytes 16 (be_nat iv1 + length p div 16)" "c' = GETU32 (drop 12 iv')"
    proof -
      have sm: "length (drop (16 * b) s) < length s" unfolding length_drop using step(1) True by linarith
      have l16: "length iv1 = 16" unfolding iv1 by (rule length_be_bytes)
      show thesis using less.hyps [OF sm l16 c1 rec] that by metis
    qed
    have ks: "map (key_stream E (be_nat iv1)) [0..<length p] = map (key_stream E (be_nat iv)) [16 * b..<16 * b + length p]"
      unfolding iv1 key_stream_mod by (rule key_stream_shift)
    have first: "func (take (16 * b) s) b iv = map2 (XOR) (take (16 * b) s) (map (key_stream E (be_nat iv)) [0..<16 * b])"
      by (rule counts_32_stream [OF E func less.prems(1) lb step(3)])
    have upt: "[0..<16 * b + length p] = [0..<16 * b] @ [16 * b..<16 * b + length p]" by (rule upt_add_eq_append) simp
    have f1: "s = (take (16 * b) s @ p) @ rest" using p(1) append_take_drop_id [of "16 * b" s] by simp
    have f2: "out = map2 (XOR) (take (16 * b) s @ p) (map (key_stream E (be_nat iv)) [0..<length (take (16 * b) s @ p)])"
      unfolding out first p(4) ks length_append lb upt map_append by (rule map2_append [symmetric]) (simp add: lb del: length_take)
    have f3: "iv' = be_bytes 16 (be_nat iv + length (take (16 * b) s @ p) div 16)"
      unfolding p(5) iv1 counter_mod length_append lb sixteen(1) add.assoc ..
    have f4: "length (take (16 * b) s @ p) mod 16 = 0" unfolding length_append lb sixteen(2) by (rule p(3))
    show ?thesis by (intro exI [of _ "take (16 * b) s @ p"] conjI) (fact f1 f2 f3 f4 p(2) p(6))+
  next
    case False
    then have "ctr32_blocks func s iv c = ([], s, iv, c)" by (simp add: ctr32_blocks.simps [of func s iv c])
    then have "out = []" "rest = s" "iv' = iv" "c' = c" using less.prems(3) by simp_all
    moreover have "be_bytes 16 (be_nat iv) = iv" using be_bytes_be_nat [of iv] less.prems(1) by simp
    ultimately show ?thesis using False less.prems(2) by (intro exI [of _ "[]"]) simp
  qed
qed

lemma xor_zeros: "length e = 16 \<Longrightarrow> xor_block (replicate 16 0) e = e"
  unfolding xor_block_def by (rule nth_equalityI) simp_all

lemma ctr32_one_block:
  assumes "counts_32 E func" and "sized E" and "length iv = 16"
  shows "func (replicate 16 0) 1 iv = E iv"
proof -
  have "be_bytes 4 (be_nat (drop 12 iv)) = drop 12 iv" using be_bytes_be_nat [of "drop 12 iv"] assms(3) by simp
  moreover have "length (E iv) = 16" using assms(2,3) by (simp add: sized_def)
  ultimately show ?thesis using assms(1,3) by (simp add: counts_32_def blk_def xor_zeros)
qed

lemma ctr32_last:
  assumes "length iv = 16" and "c = GETU32 (drop 12 iv) + 1"
  shows "(if c = 0 then ctr96_inc (write_at iv 12 (PUTU32 c)) else write_at iv 12 (PUTU32 c)) = ctr128_inc iv"
proof -
  have L: "be_nat (drop 12 iv) < 2 ^ 32" by (rule be_nat_low [OF assms(1)])
  have "c = word_of_nat (be_nat (drop 12 iv) + 1)" using assms by (simp add: GETU32_be)
  then have "unat c = (be_nat (drop 12 iv) + 1) mod 2 ^ 32" by (simp only: unat_of_nat) simp
  then have "(if c = 0 then ctr96_inc (write_at iv 12 (PUTU32 c)) else write_at iv 12 (PUTU32 c)) = be_bytes 16 (be_nat iv + 1)"
    using L by (intro ctr32_counter [OF assms(1)]) simp_all
  then show ?thesis using assms(1) by (simp add: ctr128_inc_eq)
qed

definition same_position :: "ctr_state \<Rightarrow> ctr_state \<Rightarrow> bool" where
  "same_position a b \<longleftrightarrow> ivec a = ivec b \<and> num a = num b \<and> (num a \<noteq> 0 \<longrightarrow> ecount_buf a = ecount_buf b)"

lemma ctr32_is_bytes:
  assumes E: "sized E" and func: "counts_32 E func" and n16: "num st < 16" and iv: "length (ivec st) = 16"
  shows "\<exists>out st' st''. CRYPTO_ctr128_encrypt_ctr32 func inp st = Some (out, st') \<and> ctr_bytes E inp st = (out, st'') \<and>
    same_position st' st''"
proof -
  obtain out1 s n where h: "ctr_head (ecount_buf st) (num st) inp = (out1, s, n)" by (metis prod_cases3)
  obtain p where p: "inp = p @ s" "ctr_bytes E p st = (out1, st\<lparr>num := n\<rparr>)" "s = [] \<or> n = 0" "n < 16"
    using ctr_head_bytes [OF n16 h] by blast
  obtain out2 s2 iv2 c2 where b: "ctr32_blocks func s (ivec st) (GETU32 (drop 12 (ivec st))) = (out2, s2, iv2, c2)"
    by (metis prod_cases4)
  show ?thesis
  proof (cases "s = []")
    case True
    then have "out2 = []" "s2 = []" "iv2 = ivec st" using b by (simp_all add: ctr32_blocks.simps [of func "[]"])
    then show ?thesis using h p b n16 True by (simp add: CRYPTO_ctr128_encrypt_ctr32_def same_position_def)
  next
    case False
    then have n: "n = 0" using p by simp
    let ?v = "be_nat (ivec st)"
    obtain q where q: "s = q @ s2" "length s2 < 16" "length q mod 16 = 0"
      "out2 = map2 (XOR) q (map (key_stream E ?v) [0..<length q])" "iv2 = be_bytes 16 (?v + length q div 16)"
      "c2 = GETU32 (drop 12 iv2)"
      using ctr32_blocks_stream [OF E func iv refl b] by (elim exE conjE) (rule that)
    have "ctr_at E ?v 0 (st\<lparr>num := n\<rparr>)" using iv n by (simp add: ctr_at_0)
    then obtain st2 where st2: "ctr_bytes E q (st\<lparr>num := n\<rparr>) = (out2, st2)" "ctr_at E ?v (length q) st2"
      using ctr_bytes_stream [of E ?v 0 "st\<lparr>num := n\<rparr>" q] q(4) by auto
    have at: "num st2 = 0" "ivec st2 = iv2" using st2(2) q(3,5) div_16_up(1) [OF q(3)] by (simp_all add: ctr_at_def)
    have pq: "ctr_bytes E (p @ q) st = (out1 @ out2, st2)" using p(2) st2(1) by (simp add: ctr_bytes_append)
    have all: "ctr_bytes E inp st = (let (out, st3) = ctr_bytes E s2 st2 in (out1 @ out2 @ out, st3))"
      using ctr_bytes_append [of E "p @ q" s2 st] pq by (simp add: p(1) q(1) split: prod.splits)
    have l2: "length iv2 = 16" by (simp add: q(5))
    show ?thesis
    proof (cases "s2 = []")
      case True
      then have "CRYPTO_ctr128_encrypt_ctr32 func inp st = Some (out1 @ out2, st\<lparr>ivec := iv2, num := n\<rparr>)"
        using h b n16 by (simp add: CRYPTO_ctr128_encrypt_ctr32_def)
      then show ?thesis using all True at n by (simp add: same_position_def)
    next
      case False
      note one = ctr32_one_block [OF func E l2] and last = ctr32_last [OF l2 arg_cong [of _ _ "\<lambda>c. c + 1", OF q(6)]]
      have "CRYPTO_ctr128_encrypt_ctr32 func inp st =
          Some (out1 @ out2 @ ctr_tail (E iv2) n s2, \<lparr>ivec = ctr128_inc iv2, ecount_buf = E iv2, num = n + length s2\<rparr>)"
        unfolding CRYPTO_ctr128_encrypt_ctr32_def h b Let_def prod.case one last using n16 False by simp
      moreover have "ctr_bytes E s2 st2 = (ctr_tail (E iv2) 0 s2, \<lparr>ivec = ctr128_inc iv2, ecount_buf = E iv2, num = length s2\<rparr>)"
        using ctr_bytes_start [OF at(1) False, of E] q(2) at(2) by simp
      ultimately show ?thesis using all n by (simp add: same_position_def)
    qed
  qed
qed

subsection \<open>Properties\<close>

text \<open>C23. From a fresh state, a message that is handed over in two calls is combined, byte by byte, with
  the key stream of counter mode: block \<open>j\<close> of the stream is the block function of the initial
  counter plus \<open>j\<close>, all 128 bits of it; where the message is cut makes no difference.\<close>

theorem ctr128_streaming:
  assumes "sized E" and "length iv = 16"
  shows "\<exists>out1 st1 out2 st2.
    CRYPTO_ctr128_encrypt E m1 \<lparr>ivec = iv, ecount_buf = e0, num = 0\<rparr> = Some (out1, st1) \<and>
    CRYPTO_ctr128_encrypt E m2 st1 = Some (out2, st2) \<and>
    out1 @ out2 = map2 (XOR) (m1 @ m2) (map (key_stream E (be_nat iv)) [0..<length (m1 @ m2)])"
proof -
  let ?st = "\<lparr>ivec = iv, ecount_buf = e0, num = 0\<rparr>"
  have at0: "ctr_at E (be_nat iv) 0 ?st" using assms(2) by (simp add: ctr_at_0)
  obtain st1 where 1: "ctr_bytes E m1 ?st = (map2 (XOR) m1 (map (key_stream E (be_nat iv)) [0..<length m1]), st1)"
    "ctr_at E (be_nat iv) (length m1) st1"
    using ctr_bytes_stream [OF at0, of m1] by auto
  have len1: "length (ivec st1) = 16" "num st1 < 16" using 1(2) by (simp_all add: ctr_at_def)
  obtain st2 where 2: "ctr_bytes E m2 st1 = (map2 (XOR) m2 (map (key_stream E (be_nat iv)) [length m1..<length m1 + length m2]), st2)"
    using ctr_bytes_stream [OF 1(2), of m2] by auto
  have "[0..<length (m1 @ m2)] = [0..<length m1] @ [length m1..<length m1 + length m2]"
    unfolding length_append by (rule upt_add_eq_append) simp
  then show ?thesis
    using ctr128_is_bytes [OF assms(1), of ?st m1] ctr128_is_bytes [OF assms(1) len1(2,1), of m2] 1(1) 2 assms(2) by simp
qed

theorem ctr128_streaming_witness:
  "\<exists>out1 st1 out2 st2.
    CRYPTO_ctr128_encrypt rev [1, 2, 3] \<lparr>ivec = replicate 16 255, ecount_buf = [], num = 0\<rparr> = Some (out1, st1) \<and>
    CRYPTO_ctr128_encrypt rev (replicate 20 7) st1 = Some (out2, st2) \<and>
    out1 @ out2 = map2 (XOR) ([1, 2, 3] @ replicate 20 7)
      (map (key_stream rev (be_nat (replicate 16 255))) [0..<length ([1, 2, 3 :: byte] @ replicate 20 7)])"
  by (rule ctr128_streaming) (simp_all add: sized_def)

text \<open>C24. Over an implementation that only counts in the last 32 bits of the counter, the code still
  counts in all 128: its output, its counter and its position are those of the generic routine, for
  every counter, message and position in a block.\<close>

theorem ctr32_is_ctr128:
  assumes "sized E" and "counts_32 E func" and "num st < 16" and "length (ivec st) = 16"
  shows "\<exists>out st' st''. CRYPTO_ctr128_encrypt_ctr32 func inp st = Some (out, st') \<and>
    CRYPTO_ctr128_encrypt E inp st = Some (out, st'') \<and> same_position st' st''"
  using ctr32_is_bytes [OF assms, of inp] ctr128_is_bytes [OF assms(1,3,4), of inp] by simp

definition count_rev :: ctr128_f where
  "count_rev s k iv =
     concat (map (\<lambda>j. xor_block (blk (16 * j) s) (rev (take 12 iv @ be_bytes 4 (be_nat (drop 12 iv) + j)))) [0..<k])"

theorem ctr32_is_ctr128_witness:
  "\<exists>out st' st''. CRYPTO_ctr128_encrypt_ctr32 count_rev (replicate 40 7) \<lparr>ivec = replicate 16 255, ecount_buf = [], num = 0\<rparr> = Some (out, st') \<and>
    CRYPTO_ctr128_encrypt rev (replicate 40 7) \<lparr>ivec = replicate 16 255, ecount_buf = [], num = 0\<rparr> = Some (out, st'') \<and>
    same_position st' st''"
  by (rule ctr32_is_ctr128) (simp_all add: sized_def counts_32_def count_rev_def)

end
