(* ===== verification/SimpleEncryption.thy ===== *)
theory SimpleEncryption
  imports Wallet Modes "HOL-Library.Monad_Syntax"
begin

section \<open>Encryption of comments and keys (ton/tonlib/keys/SimpleEncryption.cpp)\<close>

text \<open>
  The second version of TON's authenticated encryption under a shared secret: HMAC-SHA512 of the
  padded plaintext gives the message key, HMAC of the message key under the secret gives the AES-256
  key and the IV of a CBC encryption. Modelled with the wrappers it goes through: \<open>td::hmac_sha512\<close>,
  \<open>aes_cbc_xcrypt\<close> and \<open>AesCbcState\<close> (\<open>td/utils/crypto.cpp\<close>) and \<open>AES_cbc_encrypt\<close>
  (\<open>crypto/fipsmodule/aes/mode_wrappers.c\<close>). The outer \<open>None\<close> is a failed \<open>CHECK\<close>; errors the code
  returns are on the left of a sum. The build is one without the assembly for CBC.
\<close>

subsection \<open>AES in CBC mode\<close>

text \<open>
  \<open>inp = None\<close> says that the buffers are the same; otherwise they are separate, and decryption
  sees them one after the other in memory.
\<close>

type_synonym hw_cbc = "bytes option \<Rightarrow> bytes \<Rightarrow> nat \<Rightarrow> aes_key \<Rightarrow> bytes \<Rightarrow> bool \<Rightarrow> bytes \<times> bytes"

definition AES_cbc_encrypt ::
    "aes_cpu \<Rightarrow> hw_cbc \<Rightarrow> bytes option \<Rightarrow> bytes \<Rightarrow> nat \<Rightarrow> aes_key \<Rightarrow> bytes \<Rightarrow> bool \<Rightarrow> (bytes \<times> bytes) option" where
  "AES_cbc_encrypt cpu aes_hw_cbc_encrypt inp out len key ivec enc =
     (if hwaes_capable cpu then Some (aes_hw_cbc_encrypt inp out len key ivec enc)
      else if enc then Some (CRYPTO_cbc128_encrypt (\<lambda>b. the (AES_encrypt cpu b key)) inp out len ivec)
      else
        case inp of
          None \<Rightarrow> CRYPTO_cbc128_decrypt (\<lambda>b. the (AES_decrypt cpu b key)) out 0 0 len ivec
        | Some src \<Rightarrow>
            map_option (apfst (drop (length src)))
              (CRYPTO_cbc128_decrypt (\<lambda>b. the (AES_decrypt cpu b key)) (src @ out) 0 (length src) len ivec))"

text \<open>What the code runs on: the processor, the contents of a fresh \<open>AES_KEY\<close>, and the heap.\<close>

record ton_env =
  env_cpu :: aes_cpu
  env_hw_cbc :: hw_cbc
  env_key :: aes_key
  env_heap :: "sha512_ctx md_heap"

definition aes_cbc_xcrypt :: "ton_env \<Rightarrow> bytes \<Rightarrow> bytes \<Rightarrow> bytes \<Rightarrow> bytes \<Rightarrow> bool \<Rightarrow> (bytes \<times> bytes) option" where
  "aes_cbc_xcrypt env aes_key aes_iv src dst encrypt_flag =
     (if length aes_key \<noteq> 32 \<or> length aes_iv \<noteq> 16 then None
      else
        let (err, key) =
              (if encrypt_flag then AES_set_encrypt_key (env_cpu env) aes_key 256 (env_key env)
               else AES_set_decrypt_key (env_cpu env) aes_key 256 (env_key env)) in
        if err \<noteq> 0 then None
        else if length src > length dst then None
        else AES_cbc_encrypt (env_cpu env) (env_hw_cbc env) (Some src) dst (length src) key aes_iv encrypt_flag)"

record aes_cbc_state =
  cbc_key :: bytes
  cbc_iv :: bytes

definition AesCbcState :: "bytes \<Rightarrow> bytes \<Rightarrow> aes_cbc_state option" where
  "AesCbcState key256 iv128 =
     (if length key256 \<noteq> 32 \<or> length iv128 \<noteq> 16 then None else Some \<lparr>cbc_key = key256, cbc_iv = iv128\<rparr>)"

definition AesCbcState_xcrypt :: "ton_env \<Rightarrow> bool \<Rightarrow> aes_cbc_state \<Rightarrow> bytes \<Rightarrow> bytes \<Rightarrow> (bytes \<times> aes_cbc_state) option" where
  "AesCbcState_xcrypt env encrypt_flag st src dst =
     map_option (\<lambda>(out, iv). (out, st\<lparr>cbc_iv := iv\<rparr>))
       (aes_cbc_xcrypt env (cbc_key st) (cbc_iv st) src dst encrypt_flag)"

subsection \<open>The keys\<close>

definition td_hmac_sha512 :: "ton_env \<Rightarrow> bytes \<Rightarrow> bytes \<Rightarrow> bytes option" where
  "td_hmac_sha512 env key message =
     (if length key > 0x7fffffff \<or> length message > 0x7fffffff then None
      else do {
        out \<leftarrow> HMAC (env_heap env) 0 EVP_sha512 key message;
        if length out = 64 then Some out else None })"

definition combine_secrets :: "ton_env \<Rightarrow> bytes \<Rightarrow> bytes \<Rightarrow> bytes option" where
  "combine_secrets env a b = td_hmac_sha512 env a b"

definition calc_aes_cbc_state_hash :: "bytes \<Rightarrow> aes_cbc_state option" where
  "calc_aes_cbc_state_hash hash =
     (if \<not> length hash \<ge> 48 then None else AesCbcState (take 32 hash) (take 16 (drop 32 hash)))"

text \<open>\<open>random n\<close> are the bytes that \<open>secure_bytes\<close> puts into a buffer of \<open>n\<close>.\<close>

definition gen_random_prefix :: "(nat \<Rightarrow> bytes) \<Rightarrow> int \<Rightarrow> int \<Rightarrow> bytes option" where
  "gen_random_prefix random data_size min_padding =
     (let size = ((min_padding + 15 + data_size) AND - 16) - data_size in
      if size < 0 then None
      else
        let buff = random (nat size) in
        if length buff > 255 then None
        else
          let buff = buff[0 := word_of_nat (length buff)] in
          if (int (length buff) + data_size) mod 16 = 0 then Some buff else None)"

subsection \<open>Encryption\<close>

definition encrypt_data_with_prefix :: "ton_env \<Rightarrow> bytes \<Rightarrow> bytes \<Rightarrow> bytes \<Rightarrow> bytes option" where
  "encrypt_data_with_prefix env plain secret salt =
     (if length plain mod 16 \<noteq> 0 then None
      else do {
        data_hash \<leftarrow> combine_secrets env salt plain;
        let msg_key = take 16 data_hash;
        hash \<leftarrow> combine_secrets env secret msg_key;
        cbc_state \<leftarrow> calc_aes_cbc_state_hash hash;
        (out, _) \<leftarrow> AesCbcState_xcrypt env True cbc_state plain (replicate (length plain) 0);
        Some (msg_key @ out) })"

definition encrypt_data :: "ton_env \<Rightarrow> (nat \<Rightarrow> bytes) \<Rightarrow> bytes \<Rightarrow> bytes \<Rightarrow> bytes \<Rightarrow> bytes option" where
  "encrypt_data env random plain secret salt = do {
     prefix \<leftarrow> gen_random_prefix random (int (length plain)) 16;
     encrypt_data_with_prefix env (prefix @ plain) secret salt }"

subsection \<open>Decryption\<close>

datatype enc_error = Data_Too_Small | Size_Not_Divisible | Key_Mismatch | Bad_Prefix_Size | Bad_Proof_Size

definition unpack_encrypted_data :: "bytes \<Rightarrow> enc_error + bytes \<times> bytes" where
  "unpack_encrypted_data encrypted =
     (if length encrypted < 17 then Inl Data_Too_Small
      else if length encrypted mod 16 \<noteq> 0 then Inl Size_Not_Divisible
      else Inr (take 16 encrypted, drop 16 encrypted))"

definition do_decrypt :: "ton_env \<Rightarrow> bytes \<Rightarrow> bytes \<Rightarrow> bytes \<Rightarrow> bytes \<Rightarrow> (enc_error + bytes) option" where
  "do_decrypt env cbc_state_secret msg_key encrypted salt = do {
     cbc_state \<leftarrow> calc_aes_cbc_state_hash cbc_state_secret;
     (decrypted, _) \<leftarrow> AesCbcState_xcrypt env False cbc_state encrypted (replicate (length encrypted) 0);
     data_hash \<leftarrow> combine_secrets env salt decrypted;
     Some (if msg_key \<noteq> take 16 data_hash then Inl Key_Mismatch
           else
             let prefix_size = unat (hd decrypted) in
             if prefix_size > length decrypted \<or> prefix_size < 16 then Inl Bad_Prefix_Size
             else Inr (drop prefix_size decrypted)) }"

text \<open>The proof, with which someone else can decrypt, and the data.\<close>

definition decrypt_data :: "ton_env \<Rightarrow> bytes \<Rightarrow> bytes \<Rightarrow> bytes \<Rightarrow> (enc_error + bytes \<times> bytes) option" where
  "decrypt_data env encrypted secret salt =
     (case unpack_encrypted_data encrypted of
        Inl e \<Rightarrow> Some (Inl e)
      | Inr (msg_key, cipher) \<Rightarrow> do {
          hash \<leftarrow> combine_secrets env secret msg_key;
          let cbc_state_secret = take 48 hash;
          res \<leftarrow> do_decrypt env cbc_state_secret msg_key cipher salt;
          Some (map_sum id (Pair cbc_state_secret) res) })"

text \<open>The first 32 bytes of the argument are a public key.\<close>

definition decrypt_data_with_proof :: "ton_env \<Rightarrow> bytes \<Rightarrow> bytes \<Rightarrow> bytes \<Rightarrow> (enc_error + bytes) option" where
  "decrypt_data_with_proof env encrypted proof_bytes salt =
     (if length encrypted < 32 then Some (Inl Data_Too_Small)
      else if length proof_bytes \<noteq> 48 then Some (Inl Bad_Proof_Size)
      else
        case unpack_encrypted_data (drop 32 encrypted) of
          Inl e \<Rightarrow> Some (Inl e)
        | Inr (msg_key, cipher) \<Rightarrow> do_decrypt env proof_bytes msg_key cipher salt)"

subsection \<open>What the parts compute\<close>

definition env_ok :: "ton_env \<Rightarrow> bool" where
  "env_ok env \<longleftrightarrow> plain_cpu (env_cpu env) \<and> length (rd_key (env_key env)) = 60 \<and> heap_ok (env_heap env)"

abbreviation mac :: "bytes \<Rightarrow> bytes \<Rightarrow> bytes" where
  "mac key message \<equiv> hmac_spec sha512_hash 128 key message"

lemma length_mac [simp]: "length (mac key message) = 64"
  using sha512.length_hmac [of key message] by (simp add: EVP_sha512_def)

lemma combine_secrets_eq:
  "env_ok env \<Longrightarrow> length a \<le> 0x7fffffff \<Longrightarrow> length b \<le> 0x7fffffff \<Longrightarrow> combine_secrets env a b = Some (mac a b)"
  using sha512.hmac_one_shot [OF heap_ok_good(1), of "env_heap env" a b 0]
  by (simp add: combine_secrets_def td_hmac_sha512_def env_ok_def EVP_sha512_def)

definition aes_enc :: "ton_env \<Rightarrow> bytes \<Rightarrow> bytes \<Rightarrow> bytes" where
  "aes_enc env = key_encrypt (env_cpu env) (env_key env)"

definition aes_dec :: "ton_env \<Rightarrow> bytes \<Rightarrow> bytes \<Rightarrow> bytes" where
  "aes_dec env = key_decrypt (env_cpu env) (env_key env)"

lemma env_cipher: "env_ok env \<Longrightarrow> length key = 32 \<Longrightarrow> block_cipher (aes_enc env key) (aes_dec env key)"
  using c_aes_ok [of "env_cpu env" "env_key env"] by (simp add: env_ok_def aes_ok_def aes_enc_def aes_dec_def)

text \<open>Encryption permutes the blocks, so decryption inverts it on both sides.\<close>

lemma cipher_inverse: "block_cipher E D \<Longrightarrow> length b = 16 \<Longrightarrow> E (D b) = b"
proof -
  assume bc: "block_cipher E D" and b: "length b = 16"
  let ?B = "{b :: bytes. length b = 16}"
  have "finite ?B" using finite_lists_length_eq [of "UNIV :: byte set" 16] by simp
  moreover have "E ` ?B \<subseteq> ?B" using bc by (auto simp: block_cipher_def)
  moreover have "inj_on E ?B" using bc by (intro inj_on_inverseI [of _ D]) (simp add: block_cipher_def)
  ultimately have "E ` ?B = ?B" by (intro endo_inj_surj)
  then obtain a where "length a = 16" "b = E a" using b by (auto simp: image_iff set_eq_iff)
  then show ?thesis using bc by (simp add: block_cipher_def)
qed

lemma cbc_inverse_other: "block_cipher E D \<Longrightarrow> length iv = 16 \<Longrightarrow> all16 cs \<Longrightarrow> cbc_enc E iv (cbc_dec D iv cs) = cs"
proof (induction cs arbitrary: iv)
  case (Cons c cs)
  then have "xor_block (xor_block (D c) iv) iv = D c" by (intro xor_block_cancel) (simp add: cipher_16)
  then show ?case using Cons cipher_inverse [OF Cons.prems(1)] by simp
qed simp

definition cbc_encrypt :: "ton_env \<Rightarrow> bytes \<Rightarrow> bytes \<Rightarrow> bytes \<Rightarrow> bytes" where
  "cbc_encrypt env key iv src = concat (cbc_enc (aes_enc env key) iv (blocks (length src div 16) src))"

definition cbc_decrypt :: "ton_env \<Rightarrow> bytes \<Rightarrow> bytes \<Rightarrow> bytes \<Rightarrow> bytes" where
  "cbc_decrypt env key iv src = concat (cbc_dec (aes_dec env key) iv (blocks (length src div 16) src))"

lemma blocks_of: "16 dvd length src \<Longrightarrow> all16 (blocks (length src div 16) src) \<and> concat (blocks (length src div 16) src) = src"
  using blocks_16 [of "length src div 16" src] concat_blocks [of "length src div 16" src] by auto

lemma cbc_crypt_facts:
  assumes env: "env_ok env" and k: "length key = 32" and iv: "length iv = 16" and src: "16 dvd length src"
  shows "length (cbc_encrypt env key iv src) = length src" "length (cbc_decrypt env key iv src) = length src"
    and "cbc_decrypt env key iv (cbc_encrypt env key iv src) = src"
    and "cbc_encrypt env key iv (cbc_decrypt env key iv src) = src"
proof -
  let ?n = "length src div 16"
  note bc = env_cipher [OF env k] and b = blocks_of [OF src]
  have e: "all16 (cbc_enc (aes_enc env key) iv (blocks ?n src))" using cbc_enc_16 [OF bc iv] b by blast
  have d: "all16 (cbc_dec (aes_dec env key) iv (blocks ?n src))" by (rule cbc_dec_16) (use bc iv b in \<open>auto simp: block_cipher_def\<close>)
  show le: "length (cbc_encrypt env key iv src) = length src"
    using length_concat_16 [OF e] src by (simp add: cbc_encrypt_def)
  show ld: "length (cbc_decrypt env key iv src) = length src"
    using length_concat_16 [OF d] src by (simp add: cbc_decrypt_def)
  have "blocks ?n (cbc_encrypt env key iv src) = cbc_enc (aes_enc env key) iv (blocks ?n src)"
    using blocks_concat [OF e, of "[]"] by (simp add: cbc_encrypt_def)
  then show "cbc_decrypt env key iv (cbc_encrypt env key iv src) = src"
    using cbc_inverse [OF bc iv] b le by (simp add: cbc_decrypt_def)
  have "blocks ?n (cbc_decrypt env key iv src) = cbc_dec (aes_dec env key) iv (blocks ?n src)"
    using blocks_concat [OF d, of "[]"] by (simp add: cbc_decrypt_def)
  then show "cbc_encrypt env key iv (cbc_decrypt env key iv src) = src"
    using cbc_inverse_other [OF bc iv] b ld by (simp add: cbc_encrypt_def)
qed

lemma xcrypt_eq:
  assumes env: "env_ok env" and k: "length key = 32" and iv: "length iv = 16" and src: "16 dvd length src"
  shows "\<exists>iv'. AesCbcState_xcrypt env True \<lparr>cbc_key = key, cbc_iv = iv\<rparr> src (replicate (length src) 0) =
      Some (cbc_encrypt env key iv src, \<lparr>cbc_key = key, cbc_iv = iv'\<rparr>)"
    and "\<exists>iv'. AesCbcState_xcrypt env False \<lparr>cbc_key = key, cbc_iv = iv\<rparr> src (replicate (length src) 0) =
      Some (cbc_decrypt env key iv src, \<lparr>cbc_key = key, cbc_iv = iv'\<rparr>)"
proof -
  let ?n = "length src div 16" and ?z = "replicate (length src) (0 :: byte)"
  let ?cpu = "env_cpu env" and ?k0 = "env_key env"
  note bc = env_cipher [OF env k]
  have cpu: "plain_cpu ?cpu" "length (rd_key ?k0) = 60" using env by (simp_all add: env_ok_def)
  obtain ek dk where ek: "AES_set_encrypt_key ?cpu key 256 ?k0 = (0, ek)" and dk: "AES_set_decrypt_key ?cpu key 256 ?k0 = (0, dk)"
    using aes_correct [OF cpu(1) _ _ cpu(2,2), of 256 key] k by auto
  have E: "(\<lambda>b. the (AES_encrypt ?cpu b ek)) = aes_enc env key" and D: "(\<lambda>b. the (AES_decrypt ?cpu b dk)) = aes_dec env key"
    using ek dk by (auto simp: aes_enc_def aes_dec_def key_encrypt_def key_decrypt_def fun_eq_iff)
  have sz: "16 * ?n = length src" "length src mod 16 = 0" using src by simp_all
  have e: "CRYPTO_cbc128_encrypt (aes_enc env key) (Some src) ?z (length src) iv =
      (cbc_encrypt env key iv src, last (iv # cbc_enc (aes_enc env key) iv (blocks ?n src)))"
    using enc_loop_eq [OF bc iv, of 0 ?n ?z "Some src"] sz cbc_crypt_facts(1) [OF assms]
    by (simp add: CRYPTO_cbc128_encrypt_def source_def cbc_encrypt_def Let_def write_at_def)
  have "CRYPTO_cbc128_decrypt (aes_dec env key) (src @ ?z) 0 (length src) (16 * ?n) iv =
      Some (write_at (src @ ?z) (length src) (concat (cbc_dec (aes_dec env key) iv (blocks ?n (drop 0 (src @ ?z))))),
        last (iv # blocks ?n (drop 0 (src @ ?z))))"
    by (rule cbc_decrypt_eq) (use bc iv sz in \<open>auto simp: block_cipher_def\<close>)
  moreover have "blocks ?n (src @ ?z) = blocks ?n src"
    using blocks_take [of ?n "16 * ?n" "src @ ?z"] blocks_take [of ?n "16 * ?n" src] sz by simp
  ultimately have d: "CRYPTO_cbc128_decrypt (aes_dec env key) (src @ ?z) 0 (length src) (length src) iv =
      Some (src @ cbc_decrypt env key iv src, last (iv # blocks ?n src))"
    using sz cbc_crypt_facts(2) [OF assms] by (simp add: cbc_decrypt_def write_at_def)
  have hw: "\<not> hwaes_capable ?cpu" using cpu(1) by (simp add: plain_cpu_def)
  show "\<exists>iv'. AesCbcState_xcrypt env True \<lparr>cbc_key = key, cbc_iv = iv\<rparr> src ?z =
      Some (cbc_encrypt env key iv src, \<lparr>cbc_key = key, cbc_iv = iv'\<rparr>)"
    using e ek E hw k iv by (simp add: AesCbcState_xcrypt_def aes_cbc_xcrypt_def AES_cbc_encrypt_def)
  show "\<exists>iv'. AesCbcState_xcrypt env False \<lparr>cbc_key = key, cbc_iv = iv\<rparr> src ?z =
      Some (cbc_decrypt env key iv src, \<lparr>cbc_key = key, cbc_iv = iv'\<rparr>)"
    using d dk D hw k iv by (simp add: AesCbcState_xcrypt_def aes_cbc_xcrypt_def AES_cbc_encrypt_def)
qed

subsection \<open>The scheme\<close>

definition cipher_text :: "ton_env \<Rightarrow> bytes \<Rightarrow> bytes \<Rightarrow> bytes \<Rightarrow> bytes" where
  "cipher_text env plain secret salt =
     (let mk = take 16 (mac salt plain); h = mac secret mk
      in mk @ cbc_encrypt env (take 32 h) (take 16 (drop 32 h)) plain)"

lemma state_hash: "48 \<le> length hash \<Longrightarrow>
    calc_aes_cbc_state_hash hash = Some \<lparr>cbc_key = take 32 hash, cbc_iv = take 16 (drop 32 hash)\<rparr>"
  by (simp add: calc_aes_cbc_state_hash_def AesCbcState_def)

lemma encrypt_with_prefix_eq:
  assumes env: "env_ok env" and "16 dvd length plain"
    and "length plain \<le> 0x7fffffff" "length secret \<le> 0x7fffffff" "length salt \<le> 0x7fffffff"
  shows "encrypt_data_with_prefix env plain secret salt = Some (cipher_text env plain secret salt)"
proof -
  let ?mk = "take 16 (mac salt plain)"
  let ?h = "mac secret ?mk"
  obtain iv' where "AesCbcState_xcrypt env True \<lparr>cbc_key = take 32 ?h, cbc_iv = take 16 (drop 32 ?h)\<rparr> plain (replicate (length plain) 0) =
      Some (cbc_encrypt env (take 32 ?h) (take 16 (drop 32 ?h)) plain, \<lparr>cbc_key = take 32 ?h, cbc_iv = iv'\<rparr>)"
    using xcrypt_eq(1) [OF env, of "take 32 ?h" "take 16 (drop 32 ?h)" plain] assms(2) by auto
  then show ?thesis
    using assms by (simp add: encrypt_data_with_prefix_def combine_secrets_eq state_hash cipher_text_def Let_def)
qed

lemma do_decrypt_eq:
  assumes env: "env_ok env" and "16 dvd length cipher" "48 \<le> length hash"
    and "length cipher \<le> 0x7fffffff" "length salt \<le> 0x7fffffff"
  shows "do_decrypt env hash mk cipher salt =
    (let plain = cbc_decrypt env (take 32 hash) (take 16 (drop 32 hash)) cipher; n = unat (hd plain) in
     Some (if mk \<noteq> take 16 (mac salt plain) then Inl Key_Mismatch
           else if n > length plain \<or> n < 16 then Inl Bad_Prefix_Size else Inr (drop n plain)))"
proof -
  have k: "length (take 32 hash) = 32" "length (take 16 (drop 32 hash)) = 16" using assms(3) by simp_all
  obtain iv' where "AesCbcState_xcrypt env False \<lparr>cbc_key = take 32 hash, cbc_iv = take 16 (drop 32 hash)\<rparr> cipher (replicate (length cipher) 0) =
      Some (cbc_decrypt env (take 32 hash) (take 16 (drop 32 hash)) cipher, \<lparr>cbc_key = take 32 hash, cbc_iv = iv'\<rparr>)"
    using xcrypt_eq(2) [OF env k assms(2)] by auto
  then show ?thesis
    using assms cbc_crypt_facts(2) [OF env k assms(2)]
    by (simp add: do_decrypt_def combine_secrets_eq state_hash Let_def)
qed

lemma cipher_text_parts:
  assumes env: "env_ok env" and plain: "16 dvd length plain" "plain \<noteq> []"
  shows "unpack_encrypted_data (cipher_text env plain secret salt) =
      Inr (take 16 (mac salt plain), drop 16 (cipher_text env plain secret salt))"
    and "length (drop 16 (cipher_text env plain secret salt)) = length plain"
proof -
  define mk h where "mk = take 16 (mac salt plain)" and "h = mac secret mk"
  have l: "length (cbc_encrypt env (take 32 h) (take 16 (drop 32 h)) plain) = length plain"
    by (rule cbc_crypt_facts(1) [OF env _ _ plain(1)]) (simp_all add: h_def)
  have mk: "length mk = 16" by (simp add: mk_def)
  have c: "cipher_text env plain secret salt = mk @ cbc_encrypt env (take 32 h) (take 16 (drop 32 h)) plain"
    by (simp add: cipher_text_def mk_def h_def Let_def)
  have "0 < length plain" "(16 + length plain) mod 16 = 0" using plain by simp_all
  then show "unpack_encrypted_data (cipher_text env plain secret salt) =
      Inr (take 16 (mac salt plain), drop 16 (cipher_text env plain secret salt))"
    unfolding mk_def [symmetric] c unpack_encrypted_data_def using l mk by simp
  show "length (drop 16 (cipher_text env plain secret salt)) = length plain" unfolding c using l mk by simp
qed

lemma decrypt_cipher_text:
  assumes env: "env_ok env" and plain: "16 dvd length plain" "plain \<noteq> []"
    and lens: "length plain \<le> 0x7fffffff" "length secret \<le> 0x7fffffff" "length salt \<le> 0x7fffffff"
    and prefix: "16 \<le> unat (hd plain)" "unat (hd plain) \<le> length plain"
  defines "pf \<equiv> take 48 (mac secret (take 16 (mac salt plain)))"
  shows "decrypt_data env (cipher_text env plain secret salt) secret salt = Some (Inr (pf, drop (unat (hd plain)) plain))"
    and "length pk = 32 \<Longrightarrow>
      decrypt_data_with_proof env (pk @ cipher_text env plain secret salt) pf salt = Some (Inr (drop (unat (hd plain)) plain))"
proof -
  define mk where "mk = take 16 (mac salt plain)"
  define ct where "ct = drop 16 (cipher_text env plain secret salt)"
  note u = cipher_text_parts [OF env plain, of secret salt, folded mk_def ct_def]
  have pf: "length pf = 48" "take 32 pf = take 32 (mac secret mk)" "take 16 (drop 32 pf) = take 16 (drop 32 (mac secret mk))"
    by (simp_all add: pf_def mk_def drop_take)
  have ct: "ct = cbc_encrypt env (take 32 pf) (take 16 (drop 32 pf)) plain"
    unfolding pf by (simp add: ct_def cipher_text_def mk_def Let_def)
  have "cbc_decrypt env (take 32 pf) (take 16 (drop 32 pf)) ct = plain"
    unfolding ct by (rule cbc_crypt_facts(3) [OF env _ _ plain(1)]) (simp_all add: pf(1))
  then have d: "do_decrypt env pf mk ct salt = Some (Inr (drop (unat (hd plain)) plain))"
    using do_decrypt_eq [OF env, of ct pf salt mk] u(2) plain lens pf(1) prefix by (simp add: mk_def Let_def)
  have "length mk = 16" by (simp add: mk_def)
  then have "combine_secrets env secret mk = Some (mac secret mk)" using lens by (simp add: combine_secrets_eq [OF env])
  moreover have "take 48 (mac secret mk) = pf" by (simp add: pf_def mk_def)
  ultimately show "decrypt_data env (cipher_text env plain secret salt) secret salt = Some (Inr (pf, drop (unat (hd plain)) plain))"
    using d by (simp add: decrypt_data_def u(1))
  assume "length pk = 32"
  then show "decrypt_data_with_proof env (pk @ cipher_text env plain secret salt) pf salt = Some (Inr (drop (unat (hd plain)) plain))"
    using d pf(1) u(1) by (simp add: decrypt_data_with_proof_def)
qed

text \<open>The random prefix fills up the last block and starts with its own length, 16 to 31.\<close>

definition fills :: "(nat \<Rightarrow> bytes) \<Rightarrow> bool" where
  "fills random \<longleftrightarrow> (\<forall>n. length (random n) = n)"

lemma and_minus_16: "x AND - 16 = 16 * (x div 16)" for x :: int
proof -
  have "x AND - 16 = push_bit 4 (drop_bit 4 x)"
  proof (rule bit_eqI)
    fix n
    have m: "(- 16 :: int) = NOT (mask 4)" by (simp add: mask_eq_exp_minus_1 not_int_def)
    show "bit (x AND - 16) n = bit (push_bit 4 (drop_bit 4 x)) n"
      unfolding m by (auto simp: bit_simps)
  qed
  then show ?thesis by (simp add: push_bit_eq_mult drop_bit_eq_div)
qed

lemma random_prefix:
  assumes "fills random"
  obtains p where "gen_random_prefix random (int n) 16 = Some p" and "16 \<le> length p" "length p \<le> 31"
    and "unat (hd p) = length p" and "16 dvd length p + n"
proof -
  define sz where "sz = 16 * ((31 + int n) div 16) - int n"
  have s: "16 \<le> sz" "sz \<le> 31" unfolding sz_def by linarith+
  have dv: "(sz + int n) mod 16 = 0" by (simp add: sz_def)
  define k where "k = nat sz"
  define p where "p = (random k)[0 := word_of_nat k]"
  have l: "length p = k" using assms by (simp add: p_def fills_def)
  have k: "sz = int k" "nat sz = k" "16 \<le> k" "k \<le> 31" using s by (simp_all add: k_def) 
  then have "p \<noteq> []" using k l by auto
  then have "hd p = word_of_nat k" by (cases "random k") (simp_all add: p_def)
  then have h: "unat (hd p) = length p" using k l by (simp only: unat_of_nat) simp
  have g: "gen_random_prefix random (int n) 16 = Some p"
    using k dv assms l unfolding gen_random_prefix_def and_minus_16
    by (simp add: sz_def [symmetric] Let_def fills_def p_def [symmetric])
  have "int (length p + n) mod 16 = 0" using l k dv by simp
  then have "16 dvd length p + n" by (metis dvd_eq_mod_eq_0 int_dvd_int_iff of_nat_numeral)
  then show thesis using that g l k h by simp
qed

lemma encrypt_then_decrypt:
  assumes "env_ok env" and "fills random" and "length pk = 32"
    and "length plain \<le> 0x7fffffff - 31" "length secret \<le> 0x7fffffff" "length salt \<le> 0x7fffffff"
  shows "\<exists>c pf. encrypt_data env random plain secret salt = Some c
    \<and> decrypt_data env c secret salt = Some (Inr (pf, plain))
    \<and> decrypt_data_with_proof env (pk @ c) pf salt = Some (Inr plain)"
proof -
  obtain p where g: "gen_random_prefix random (int (length plain)) 16 = Some p" and p: "16 \<le> length p" "length p \<le> 31"
      "unat (hd p) = length p" "16 dvd length p + length plain"
    by (rule random_prefix [OF assms(2)])
  let ?m = "p @ plain"
  have m: "16 dvd length ?m" "?m \<noteq> []" "length ?m \<le> 0x7fffffff" "hd ?m = hd p"
    using p assms(4) by (auto simp: hd_append)
  have x: "16 \<le> unat (hd ?m)" "unat (hd ?m) \<le> length ?m" "drop (unat (hd ?m)) ?m = plain" using p m(4) by simp_all
  have "encrypt_data env random plain secret salt = Some (cipher_text env ?m secret salt)"
    using encrypt_with_prefix_eq [OF assms(1) m(1) m(3) assms(5,6)] g by (simp add: encrypt_data_def)
  then show ?thesis
    using decrypt_cipher_text [OF assms(1) m(1,2,3) assms(5,6) x(1,2)] assms(3) x(3) by auto
qed

text \<open>What decryption accepts is what encryption makes of some prefix and the data.\<close>

lemma accepted_is_encrypted:
  assumes env: "env_ok env" and lens: "length c \<le> 0x7fffffff" "length secret \<le> 0x7fffffff" "length salt \<le> 0x7fffffff"
    and dec: "decrypt_data env c secret salt = Some (Inr (pf, d))"
  shows "\<exists>prefix. 16 \<le> length prefix \<and> unat (hd prefix) = length prefix \<and>
    encrypt_data_with_prefix env (prefix @ d) secret salt = Some c"
proof -
  define mk ct where "mk = take 16 c" and "ct = drop 16 c"
  define h where "h = mac secret mk"
  define key iv where "key = take 32 h" and "iv = take 16 (drop 32 h)"
  define plain where "plain = cbc_decrypt env key iv ct"
  define n where "n = unat (hd plain)"
  have c: "17 \<le> length c" "length c mod 16 = 0"
    using dec by (auto simp: decrypt_data_def unpack_encrypted_data_def split: if_splits)
  then have u: "unpack_encrypted_data c = Inr (mk, ct)" by (simp add: unpack_encrypted_data_def mk_def ct_def)
  have mk: "length mk = 16" using c by (simp add: mk_def)
  have dvd: "16 dvd length ct" using c by (simp add: ct_def mod_eq_0_iff_dvd dvd_diff_nat)
  have kl: "length key = 32" "length iv = 16" by (simp_all add: key_def iv_def h_def)
  have l: "length plain = length ct" using cbc_crypt_facts(2) [OF env kl dvd] by (simp add: plain_def)
  have "length ct \<le> 0x7fffffff" using lens(1) by (simp add: ct_def)
  then have "do_decrypt env (take 48 h) mk ct salt =
      Some (if mk \<noteq> take 16 (mac salt plain) then Inl Key_Mismatch
            else if n > length plain \<or> n < 16 then Inl Bad_Prefix_Size else Inr (drop n plain))"
    using do_decrypt_eq [OF env dvd, of "take 48 h" salt mk] lens(3)
    by (simp add: h_def key_def iv_def plain_def n_def drop_take Let_def)
  moreover have "combine_secrets env secret mk = Some h"
    using combine_secrets_eq [OF env lens(2)] mk by (simp add: h_def)
  ultimately have ok: "mk = take 16 (mac salt plain)" "n \<le> length plain" "16 \<le> n" "d = drop n plain"
    using dec by (auto simp: decrypt_data_def u split: if_splits)
  have "plain \<noteq> []" using ok(2,3) by auto
  then have hd: "unat (hd (take n plain)) = length (take n plain)" using ok(2,3) by (simp add: n_def hd_take)
  have "length plain \<le> 0x7fffffff" using lens(1) by (simp add: l ct_def)
  then have "encrypt_data_with_prefix env plain secret salt = Some (cipher_text env plain secret salt)"
    using encrypt_with_prefix_eq [OF env] dvd lens l by simp
  also have "cipher_text env plain secret salt = mk @ cbc_encrypt env key iv plain"
    by (simp add: cipher_text_def ok(1) [symmetric] h_def [symmetric] key_def iv_def Let_def)
  also have "cbc_encrypt env key iv plain = ct"
    unfolding plain_def by (rule cbc_crypt_facts(4) [OF env kl dvd])
  also have "mk @ ct = c" by (simp add: mk_def ct_def)
  finally have "encrypt_data_with_prefix env (take n plain @ d) secret salt = Some c" by (simp add: ok(4))
  then show ?thesis using hd ok(2,3) by (intro exI [of _ "take n plain"]) simp
qed

subsection \<open>Properties\<close>

definition example_env :: ton_env where
  "example_env = \<lparr>env_cpu = old_phone, env_hw_cbc = \<lambda>inp out len key iv enc. (out, iv), env_key = blank_key, env_heap = example_heap\<rparr>"

lemma example_env_ok: "env_ok example_env"
  using old_phone_plain example_heap_ok by (simp add: env_ok_def example_env_def)

text \<open>C11. Encryption never fails a check on data of less than 2 GiB, for every source of random bytes, and
  both ways of decrypting give back the data: the owner of the shared secret, who also obtains the
  proof, and anyone who is given that proof, of 48 bytes, without the secret.\<close>

theorem encryption_round_trip:
  assumes "env_ok env" and "fills random" and "length pk = 32"
    and "length plain \<le> 0x7fffffff - 31" "length secret \<le> 0x7fffffff" "length salt \<le> 0x7fffffff"
  shows "\<exists>c pf. encrypt_data env random plain secret salt = Some c
    \<and> decrypt_data env c secret salt = Some (Inr (pf, plain))
    \<and> decrypt_data_with_proof env (pk @ c) pf salt = Some (Inr plain)"
  using encrypt_then_decrypt [OF assms] .

theorem encryption_round_trip_witness:
  "\<exists>c pf. encrypt_data example_env (\<lambda>n. replicate n 7) [104, 105] [1] [2] = Some c
    \<and> decrypt_data example_env c [1] [2] = Some (Inr (pf, [104, 105]))
    \<and> decrypt_data_with_proof example_env (replicate 32 9 @ c) pf [2] = Some (Inr [104, 105])"
  by (rule encryption_round_trip [OF example_env_ok]) (simp_all add: fills_def)

text \<open>C12. Decryption is exact: what it accepts is, byte for byte, what encryption under the same secret
  and salt makes of the returned data behind a prefix of at least 16 bytes that starts with its own
  length. No other string of bytes is accepted: the lengths, the message key and the prefix are all
  checked.\<close>

theorem decryption_exact:
  assumes "env_ok env" and "length c \<le> 0x7fffffff" "length secret \<le> 0x7fffffff" "length salt \<le> 0x7fffffff"
    and "decrypt_data env c secret salt = Some (Inr (pf, d))"
  shows "\<exists>prefix. 16 \<le> length prefix \<and> unat (hd prefix) = length prefix \<and>
    encrypt_data_with_prefix env (prefix @ d) secret salt = Some c"
  using accepted_is_encrypted [OF assms] .

theorem decryption_exact_witness:
  "\<exists>c pf prefix. decrypt_data example_env c [1] [2] = Some (Inr (pf, [104, 105])) \<and>
    16 \<le> length prefix \<and> unat (hd prefix) = length prefix \<and>
    encrypt_data_with_prefix example_env (prefix @ [104, 105]) [1] [2] = Some c"
proof -
  let ?p = "replicate 30 (30 :: byte) @ [104, 105]"
  let ?c = "cipher_text example_env ?p [1] [2]" and ?pf = "take 48 (mac [1] (take 16 (mac [2] ?p)))"
  have d: "decrypt_data example_env ?c [1] [2] = Some (Inr (?pf, [104, 105]))"
    using decrypt_cipher_text(1) [OF example_env_ok, of ?p "[1]" "[2]"] by simp
  have "length (drop 16 ?c) = 32" using cipher_text_parts(2) [OF example_env_ok, of ?p "[1]" "[2]"] by simp
  then have "length ?c \<le> 0x7fffffff" by simp
  then show ?thesis using d decryption_exact [OF example_env_ok _ _ _ d] by auto
qed

end
