(* ===== verification/Spec2Isabelle.thy ===== *)
theory Spec2Isabelle
  imports Wallet BioPair Lhash Stack Asn1String TonAdnl Ctr SimpleEncryption
begin

text \<open>
  Verification library of the C core of the wallet application.

  \<^bold>\<open>The program.\<close> The application (Kotlin and Java) reaches native code through
  \<open>app/jni/jni.c\<close>, whose three methods derive a key from the user's passcode and encrypt the secret of
  the wallet with it. They rest on the C library under \<open>app/jni/boringssl\<close>; TON's own C++ library
  (\<open>app/jni/ton\<close>), linked next to it, uses the same library for its hashes, encodings and streams.
  The theories model the C code of that path, the library's foundations, and the parts of TON's
  library that turn addresses, keys and identifiers into text and back.

  \<^bold>\<open>The theories\<close>, each before those that use it (paths below \<open>app/jni/boringssl\<close>):
  \<^item> \<open>Prelude\<close>: the fixed-width types, byte strings and their big-endian reading, lists, and the
    locales \<open>codec\<close> and \<open>nonempty_codec\<close>, the interface between the writers and the readers of byte
    strings.
  \<^item> \<open>Cbs\<close>, \<open>Cbb\<close> (\<open>crypto/bytestring/cbs.c\<close>, \<open>cbb.c\<close>): reading and building byte strings and DER. A
    \<open>CBS\<close> is the rest of its bytes; a \<open>CBB\<close> is the shared buffer and the stack of its open children,
    with the abstraction \<open>abs_cbb\<close> to a list of frames. The readers are exact: they accept the
    canonical encodings and nothing else, which is the codec interface, interpreted for tags,
    elements and integers. The builders refine operations on frames, and what they finish is read
    back.
  \<^item> \<open>Sha512\<close>, \<open>Digest\<close>, \<open>Hmac\<close>, \<open>Pbkdf\<close> (\<open>crypto/fipsmodule/sha/sha512.c\<close>, \<open>digest/digest.c\<close>,
    \<open>hmac/hmac.c\<close>, \<open>crypto/evp/pbkdf.c\<close>): the hash with both of its C block functions, the digest
    interface over a heap of contexts, HMAC and the derivation. The locale \<open>digest_contract\<close> is what
    HMAC asks of a digest; it is interpreted for SHA-512 and SHA-384. They are proved equal to FIPS
    180-4, RFC 2104 and RFC 8018.
  \<^item> \<open>Ige\<close> (\<open>crypto/fipsmodule/aes/aes_ige.c\<close>): the IGE mode over any block cipher, with the path that
    chains through pointers and the one that copies.
  \<^item> \<open>Modes\<close>, \<open>Ctr\<close> (\<open>crypto/fipsmodule/modes/cbc.c\<close>, \<open>ctr.c\<close>): CBC, where decryption is modelled over
    one memory so that it is proved right for overlapping buffers, and counter mode, both the generic
    routine and the one that corrects an implementation counting in 32 bits.
  \<^item> \<open>Aes\<close>, \<open>AesFips\<close> (\<open>crypto/fipsmodule/aes/aes.c\<close>): the table-driven AES with its key schedules and
    the dispatch between implementations; then FIPS 197 and the proof that the code computes it.
  \<^item> \<open>Jni\<close>, \<open>Wallet\<close> (\<open>app/jni/jni.c\<close>): the native methods over any AES, and their composition with
    \<open>aes.c\<close>, which ends in \<open>wallet_passcode_end_to_end\<close>.
  \<^item> \<open>ConstantTime\<close>, \<open>Base64\<close> (\<open>crypto/internal.h\<close>, \<open>crypto/mem.c\<close>, \<open>crypto/base64/base64.c\<close>): the
    branch-free comparisons and the encodings built on them, proved equal to RFC 4648 read as a
    statement on strings of bits, for single blocks and for streams however they are cut.
  \<^item> \<open>BioPair\<close> (\<open>crypto/bio/pair.c\<close>, \<open>bio.c\<close>): two BIOs connected through two rings. The locale
    \<open>byte_queue\<close> is what the pair asks of a ring; the step relation \<open>pair_run\<close> gives the reachable pairs.
  \<^item> \<open>Lhash\<close> (\<open>crypto/lhash/lhash.c\<close>, \<open>crypto/obj/obj.c\<close>): chained hash tables that resize, refined to
    finite maps (locales \<open>keyed_map\<close> and \<open>lhash_functions\<close>, interpreted for the two object tables).
  \<^item> \<open>Stack\<close> (\<open>crypto/stack/stack.c\<close>): the array of pointers, refined to a list
    under every operation, and its search, for clients that respect the \<open>sorted\<close> flag.
  \<^item> \<open>Unicode\<close>, \<open>Asn1String\<close> (\<open>crypto/bytestring/unicode.c\<close>, \<open>crypto/asn1/asn1_lib.c\<close>, \<open>a_mbstr.c\<close>,
    \<open>a_print.c\<close>): one code point in four encodings, the ASN.1 string object, and the conversion that
    picks the smallest string type; its errors and its result are compared with a specification of the
    types, for masks of the six known types and texts without U+0000.
  \<^item> \<open>Crc16\<close>, \<open>TonCodec\<close>, \<open>TonAddress\<close>, \<open>TonAdnl\<close> (in \<open>app/jni/ton\<close>: \<open>td/utils/crypto.cpp\<close>,
    \<open>crypto/common/util.cpp\<close>, \<open>crypto/block/block.cpp\<close>, \<open>td/utils/base64.cpp\<close>): the checksum, proved to
    be the bitwise remainder and to detect every burst of 16 bits; TON's base64 and base32; account
    addresses, public keys and ADNL identifiers as text. Round trips, and that a typing error in
    adjacent characters never yields another accepted address.
  \<^item> \<open>SimpleEncryption\<close> (\<open>app/jni/ton/tonlib/keys/SimpleEncryption.cpp\<close>, \<open>td/utils/crypto.cpp\<close>,
    \<open>crypto/fipsmodule/aes/mode_wrappers.c\<close>): the authenticated encryption of comments under a shared
    secret, composed from \<open>Hmac\<close>, \<open>Modes\<close> and \<open>AesFips\<close>. It round-trips, also with the proof that
    stands in for the secret, and what decryption accepts is exactly what encryption produces.

  \<^bold>\<open>How code is modelled.\<close> A routine that returns 1 or 0 and writes out-parameters is a function to
  an option; a cursor or a structure it changes is a value it returns (\<open>crun\<close> in \<open>Prelude\<close>). \<open>size_t\<close> is
  a natural number below \<open>SIZE_LIMIT = 2 ^ 64\<close>, the 64-bit ABIs, and its wrap-around is written out
  wherever the code tests for it; fixed-width integers of the code are words. Allocation is an
  argument that says whether, and with what contents, a call succeeds, so every error path is a
  branch. A failed assertion is an outer \<open>None\<close>, and the theorems say it is not reached. Where a loop
  might not end it is a \<open>partial_function\<close> (rings, \<open>BIO_write_all\<close>) and the theorems include that it
  returns; every other loop is structural or has a measure, except
  the outer loop of PBKDF2 (\<open>pbkdf2_blocks\<close>), which would not end on a digest of no bytes: it is given one
  unit of fuel per byte of the key and one more, and the theorem on it includes that this is enough.

  \<^bold>\<open>Assumptions.\<close> They are named predicates: \<open>heap_ok\<close> (a heap of digest contexts that keeps what is
  stored in it), \<open>aes_ok\<close> (a cipher inverts itself; only where any AES is allowed), \<open>plain_cpu\<close> (neither
  AES instructions nor the vector code are used, so that the C code runs), \<open>exact_alloc\<close> (a block has the
  size asked for), \<open>sized\<close> (a block function returns blocks) and \<open>counts_32\<close> (the assembly for counter mode
  counts in the last four bytes), \<open>env_ok\<close> (\<open>plain_cpu\<close> and \<open>heap_ok\<close> together) and \<open>fills\<close> (the random
  generator fills its buffer), \<open>sorts\<close> and \<open>comparator\<close> (the C library's \<open>qsort\<close> sorts by a total preorder). Each theorem with
  hypotheses is followed by a witness that instantiates them.

  \<^bold>\<open>Findings.\<close> \<open>aesIgeEncryptionByteArray\<close> ignores its offset (\<open>byte_array_offset_ignored\<close>);
  \<open>AES_bi_ige_encrypt\<close> never uses its second key; \<open>sk_set\<close> leaves the \<open>sorted\<close> flag of a stack set, so
  that a search can miss an element (\<open>sk_set_keeps_sorted_flag\<close>); a \<open>NULL\<close> output that the
  documentation of \<open>CBS_get_any_asn1\<close> allows is dereferenced. In the conversion of strings, a NUL counts as printable
  (\<open>nul_is_printable\<close>), a failed conversion leaves a dangling pointer (\<open>failed_conversion_dangles\<close>), a
  type outside the mask can be chosen (\<open>type_outside_mask\<close>), a negative length other than \<open>- 1\<close> becomes a
  huge one (\<open>negative_length_overreads\<close>) and the older classifier reads past
  a string without NUL (\<open>printable_type_overread\<close>). In TON's codecs, \<open>=\<close> is accepted as a digit
  (\<open>pad_inside_address\<close>), an address of 48 characters can be judged by an uninitialised byte
  (\<open>uninitialised_byte\<close>), \<open>g\<close> to \<open>z\<close> are hexadecimal digits (\<open>letters_as_hex\<close>), a parse succeeds with
  an invalid workchain (\<open>hex_without_workchain\<close>) and the encoding of one byte leaves its buffers
  (\<open>encode_one_byte\<close>).

  \<^bold>\<open>Not modelled.\<close> The assembly of the ciphers and hashes, which the build generates; the error queue
  (modelled code keeps the result of a failure, not its entry in the queue), threads, random numbers and
  the operating system; the public-key algorithms and the big integers below them; ASN.1 templates,
  X.509 and TLS; the rest of TON's C++ library (cells, the virtual machine, actors and network, and the parts of
  its encryption that rest on SHA-256 and Ed25519) and its generated code; lz4 and the animation renderer.
\<close>

end
